(* ===== verification/Prelude.thy ===== *)
theory Prelude
  imports Main "HOL-Library.Word"
begin

text \<open>
  Shared vocabulary of the development: the machine types the C++ sources use, the bit masks of
  the rotation library's bit buffer, and the lemmas on words and lists that several
  components need.
\<close>

type_synonym byte = "8 word"
type_synonym u32 = "32 word"
type_synonym u64 = "64 word"

text \<open>Facts that evaluate loops over characters and bits.\<close>
named_theorems bit_text

subsection \<open>Masks with one bit set\<close>

text \<open>
  The bit buffer walks a byte with a mask that is shifted right after every bit. A mask with
  \<open>f\<close> positions left to write (the one under the mask included) has bit \<open>f - 1\<close> set; the
  exhausted mask is 0.
\<close>

definition mask_of :: "nat \<Rightarrow> byte" where
  "mask_of f = (if f = 0 then 0 else push_bit (f - 1) 1)"

lemma mask_of_0 [simp]: "mask_of 0 = 0"
  by (simp add: mask_of_def)

lemma less_9_cases:
  assumes "f \<le> (8::nat)"
  obtains "f = 0" | "f = 1" | "f = 2" | "f = 3" | "f = 4" | "f = 5" | "f = 6" | "f = 7" | "f = 8"
  using assms by linarith

lemma mask_of_shift: "f < 8 \<Longrightarrow> drop_bit (Suc 0) (mask_of (Suc f)) = mask_of f"
  by (rule less_9_cases [of f]) (auto simp: mask_of_def push_bit_eq_mult drop_bit_eq_div)

lemma mask_of_Suc_neq_0: "f < 8 \<Longrightarrow> mask_of (Suc f) \<noteq> 0"
  by (rule less_9_cases [of f]) (auto simp: mask_of_def push_bit_eq_mult)

lemma mask_of_inj: "f \<le> 8 \<Longrightarrow> g \<le> 8 \<Longrightarrow> mask_of f = mask_of g \<longleftrightarrow> f = g"
  by (rule less_9_cases [of f]; simp; rule less_9_cases [of g])
    (auto simp: mask_of_def push_bit_eq_mult)

lemma bit_mask_of: "f < 8 \<Longrightarrow> bit (mask_of (Suc f)) i \<longleftrightarrow> i = f"
  by (auto simp: mask_of_def bit_exp_iff)

lemma and_mask_of_eq_0: "f < 8 \<Longrightarrow> and c (mask_of (Suc f)) = 0 \<longleftrightarrow> \<not> bit c f"
  by (simp add: mask_of_def and_exp_eq_0_iff_not_bit)

text \<open>Values that fit a signed 32-bit integer.\<close>

lemma sint_of_nat_u32: "n < 2 ^ 31 \<Longrightarrow> nat (sint (of_nat n :: u32)) = n"
  by (simp add: signed_of_nat signed_take_bit_int_eq_self)

lemma sint_of_int_u32: "- (2 ^ 31) \<le> k \<Longrightarrow> k < 2 ^ 31 \<Longrightarrow> sint (of_int k :: u32) = k"
  by (simp add: signed_of_int signed_take_bit_int_eq_self)

end
