(* ===== verification/Bit_Store.thy ===== *)
theory Bit_Store
  imports Prelude
begin

text \<open>
  The interface between the rotation codec and the bit buffer: a store to which text of 0 and 1
  characters is appended, which is packed into the bytes a library keeps, and which is read
  back after it has been rebuilt from those bytes.
\<close>

definition is_bits :: "string \<Rightarrow> bool" where
  "is_bits s \<longleftrightarrow> set s \<subseteq> {CHR ''0'', CHR ''1''}"

lemma is_bits_simps [simp]:
  "is_bits []" "is_bits (c # s) \<longleftrightarrow> (c = CHR ''0'' \<or> c = CHR ''1'') \<and> is_bits s"
  "is_bits (s @ t) \<longleftrightarrow> is_bits s \<and> is_bits t"
  by (auto simp: is_bits_def)

text \<open>Appending several chunks, each with its length as the source passes it.\<close>

fun put_all :: "('b \<Rightarrow> string \<Rightarrow> nat \<Rightarrow> 'b option) \<Rightarrow> 'b \<Rightarrow> string list \<Rightarrow> 'b option" where
  "put_all put b [] = Some b"
| "put_all put b (c # cs) = (case put b c (length c) of None \<Rightarrow> None | Some b' \<Rightarrow> put_all put b' cs)"

locale bit_store =
  fixes valid :: "'b \<Rightarrow> bool"
    and text_of :: "'b \<Rightarrow> string"
    and fresh :: 'b
    and put :: "'b \<Rightarrow> string \<Rightarrow> nat \<Rightarrow> 'b option"
    and get :: "'b \<Rightarrow> string option"
    and pack :: "'b \<Rightarrow> 'c"
    and unpack :: "'c \<Rightarrow> 'b option"
  assumes fresh_valid: "valid fresh"
    and fresh_text: "text_of fresh = []"
    and put_ok: "valid b \<Longrightarrow> is_bits s \<Longrightarrow>
      \<exists>b'. put b s (length s) = Some b' \<and> valid b' \<and> text_of b' = text_of b @ s"
    and pack_unpack: "valid b \<Longrightarrow> \<exists>b'. unpack (pack b) = Some b' \<and> get b' = Some (text_of b)"
begin

lemma put_all_ok:
  "valid b \<Longrightarrow> \<forall>c\<in>set cs. is_bits c \<Longrightarrow>
     \<exists>b'. put_all put b cs = Some b' \<and> valid b' \<and> text_of b' = text_of b @ concat cs"
proof (induction cs arbitrary: b)
  case (Cons c cs)
  then obtain b1 where b1: "put b c (length c) = Some b1" "valid b1" "text_of b1 = text_of b @ c"
    using put_ok [of b c] by auto
  with Cons.prems Cons.IH [of b1] show ?case by auto
qed simp

lemma put_all_fresh:
  assumes "\<forall>c\<in>set cs. is_bits c"
  shows "\<exists>b. put_all put fresh cs = Some b \<and> valid b \<and> text_of b = concat cs"
  using put_all_ok [OF fresh_valid assms] by (simp add: fresh_text)

lemma store_roundtrip:
  assumes "\<forall>c\<in>set cs. is_bits c"
  shows "\<exists>b b'. put_all put fresh cs = Some b \<and> unpack (pack b) = Some b' \<and> get b' = Some (concat cs)"
  using put_all_fresh [OF assms] pack_unpack by metis

end

end
