(* ===== verification/Char_Bits.thy ===== *)
theory Char_Bits
  imports Bit_Store
begin

text \<open>
  The bit buffer of the rotation library, \<open>scripts/gen_rotations/src/charbits.cpp\<close>:
  a vector of bytes with a one-bit mask that marks the next free position of the last byte.
  The upper half of the first byte is reserved for the number of unused bits of the last one.
  The lemmas relate the buffer to the text of 0 and 1 characters written to it.
\<close>

record char_bits =
  buffer :: "byte list"
  mask :: byte

definition charBits_new :: char_bits where
  "charBits_new = \<lparr>buffer = [0x00], mask = 0x08\<rparr>"

text \<open>Rebuilding a buffer from stored code; the source dereferences \<open>old.begin()\<close>, which is
  undefined for an empty vector.\<close>

definition charBits_of_code :: "byte list \<Rightarrow> char_bits option" where
  "charBits_of_code old = (case old of
     [] \<Rightarrow> None
   | c # cs \<Rightarrow>
      (let tmp = drop_bit 4 c
       in Some \<lparr>buffer = c # cs,
                mask = (if tmp = 0 then 0 else push_bit (unat tmp - 1) 0x01)\<rparr>))"

definition alloc_byte :: "char_bits \<Rightarrow> char_bits" where
  "alloc_byte s = (if mask s = 0 then \<lparr>buffer = buffer s @ [0x00], mask = 0x80\<rparr> else s)"

text \<open>The inner loop of \<open>read_bits\<close>: it ends when the mask reaches \<open>stop\<close>, so on a corrupt
  \<open>stop\<close> it does not return.\<close>

partial_function (option) read_byte :: "byte \<Rightarrow> byte \<Rightarrow> byte \<Rightarrow> string \<Rightarrow> string option" where
  "read_byte c read_mask stop bss =
     (if read_mask = stop then Some bss
      else read_byte c (drop_bit 1 read_mask) stop
             (bss @ (if and c read_mask \<noteq> 0 then ''1'' else ''0'')))"

declare read_byte.simps [code]

fun read_from :: "byte list \<Rightarrow> byte \<Rightarrow> byte \<Rightarrow> string \<Rightarrow> string option" where
  "read_from [] start msk bss = Some bss"
| "read_from (c # cs) start msk bss =
     (case read_byte c start (if cs = [] then msk else 0) bss of
        None \<Rightarrow> None
      | Some bss' \<Rightarrow> read_from cs 0x80 msk bss')"

definition read_bits :: "char_bits \<Rightarrow> string option" where
  "read_bits s = read_from (buffer s) 0x08 (mask s) []"

definition write_bit :: "char_bits \<Rightarrow> char \<Rightarrow> char_bits" where
  "write_bit s0 b =
     (let s = alloc_byte s0;
          s' = (if b = CHR ''1''
                then s\<lparr>buffer := butlast (buffer s) @ [or (last (buffer s)) (mask s)]\<rparr>
                else s)
      in s'\<lparr>mask := drop_bit 1 (mask s')\<rparr>)"

text \<open>\<open>bits[i]\<close> past the end of the string is undefined.\<close>

definition write_bits :: "char_bits \<Rightarrow> string \<Rightarrow> nat \<Rightarrow> char_bits option" where
  "write_bits s bits num =
     (if num \<le> length bits then Some (foldl write_bit s (take num bits)) else None)"

function count_unused :: "byte \<Rightarrow> byte \<Rightarrow> byte" where
  "count_unused m unused = (if m = 0 then unused else count_unused (drop_bit 1 m) (unused + 1))"
  by pat_completeness auto
termination
proof (relation "measure (\<lambda>(m, u). unat m)")
  fix m unused :: byte
  assume "m \<noteq> 0"
  then have "0 < unat m" by (simp add: unat_gt_0)
  then have "unat (drop_bit 1 m) < unat m"
    by (simp only: unat_drop_bit_eq) (simp add: drop_bit_eq_div)
  then show "((drop_bit 1 m, unused + 1), m, unused) \<in> measure (\<lambda>(m, u). unat m)" by simp
qed simp

declare count_unused.simps [simp del]

definition flush_code :: "char_bits \<Rightarrow> char_bits" where
  "flush_code s =
     (let unused = push_bit 4 (count_unused (mask s) 0)
      in (case buffer s of
            [] \<Rightarrow> s\<lparr>mask := 0\<rparr>
          | c # cs \<Rightarrow> \<lparr>buffer = or c unused # cs, mask = 0\<rparr>))"

subsection \<open>The text a buffer holds\<close>

text \<open>
  \<open>byte_text c t f\<close> reads bits \<open>t - 1\<close> down to \<open>f\<close> of a byte; \<open>code_text\<close> reads a whole
  vector whose last byte has \<open>f\<close> free positions.
\<close>

definition byte_text :: "byte \<Rightarrow> nat \<Rightarrow> nat \<Rightarrow> string" where
  "byte_text c t f = map (\<lambda>i. if bit c i then CHR ''1'' else CHR ''0'') (rev [f..<t])"

fun code_text :: "byte list \<Rightarrow> nat \<Rightarrow> nat \<Rightarrow> string" where
  "code_text [] t f = []"
| "code_text [c] t f = byte_text c t f"
| "code_text (c # d # cs) t f = byte_text c t 0 @ code_text (d # cs) 8 f"

text \<open>The free positions of the last byte, and the text: what \<open>flush_code\<close> counts, as a number.\<close>

definition free_of :: "char_bits \<Rightarrow> nat" where
  "free_of s = unat (count_unused (mask s) 0)"

definition cb_text :: "char_bits \<Rightarrow> string" where
  "cb_text s = code_text (buffer s) 4 (free_of s)"

text \<open>
  The invariant of a buffer under construction: the mask marks one of the free positions of the
  last byte, these positions are still 0, and so is the reserved half of the first byte.
\<close>

definition cb_valid :: "char_bits \<Rightarrow> bool" where
  "cb_valid s \<longleftrightarrow> buffer s \<noteq> [] \<and>
     (let f = free_of s
      in mask s = mask_of f \<and> f \<le> (if tl (buffer s) = [] then 4 else 7) \<and>
         (\<forall>i<f. \<not> bit (last (buffer s)) i)) \<and>
     drop_bit 4 (hd (buffer s)) = 0"

lemma count_unused_mask_of:
  "f \<le> 8 \<Longrightarrow> count_unused (mask_of f) u = u + of_nat f"
proof (induction f arbitrary: u)
  case 0
  then show ?case by (subst count_unused.simps) simp
next
  case (Suc f)
  then have "count_unused (mask_of (Suc f)) u = count_unused (mask_of f) (u + 1)"
    by (subst count_unused.simps) (simp add: mask_of_Suc_neq_0 mask_of_shift)
  with Suc show ?case by simp
qed

lemma free_of_mask: "mask s = mask_of f \<Longrightarrow> f \<le> 8 \<Longrightarrow> free_of s = f"
  by (simp add: free_of_def count_unused_mask_of unat_of_nat)

lemma cb_validI:
  assumes "buffer s \<noteq> []" and "mask s = mask_of f"
    and "f \<le> (if tl (buffer s) = [] then 4 else 7)"
    and "\<And>i. i < f \<Longrightarrow> \<not> bit (last (buffer s)) i" and "drop_bit 4 (hd (buffer s)) = 0"
  shows "cb_valid s" and "free_of s = f"
proof -
  have "f \<le> 8" using assms(3) by (simp split: if_splits)
  then show f: "free_of s = f" using assms(2) by (simp add: free_of_mask)
  show "cb_valid s" using assms unfolding cb_valid_def Let_def f by simp
qed

lemma cb_validE:
  assumes "cb_valid s"
  obtains f where "buffer s \<noteq> []" and "mask s = mask_of f" and "free_of s = f"
    and "f \<le> (if tl (buffer s) = [] then 4 else 7)" and "f < 8"
    and "\<And>i. i < f \<Longrightarrow> \<not> bit (last (buffer s)) i" and "drop_bit 4 (hd (buffer s)) = 0"
proof (rule that [of "free_of s"])
  show "free_of s < 8"
    using assms by (auto simp: cb_valid_def Let_def split: if_splits)
qed (use assms in \<open>auto simp: cb_valid_def Let_def\<close>)

lemma charBits_new_valid: "cb_valid charBits_new" and charBits_new_text: "cb_text charBits_new = []"
proof -
  have m: "mask charBits_new = mask_of 4" by (simp add: charBits_new_def mask_of_def)
  have "cb_valid charBits_new" "free_of charBits_new = 4"
    by (rule cb_validI [OF _ m]; simp add: charBits_new_def)+
  then show "cb_valid charBits_new" "cb_text charBits_new = []"
    by (simp_all add: cb_text_def charBits_new_def byte_text_def)
qed

subsection \<open>Writing appends to the text\<close>

lemma byte_text_cong:
  "(\<And>i. f \<le> i \<Longrightarrow> i < t \<Longrightarrow> bit c i = bit d i) \<Longrightarrow> byte_text c t f = byte_text d t f"
  by (simp add: byte_text_def)

lemma byte_text_split:
  "f \<le> t \<Longrightarrow> byte_text c (Suc t) f = (if bit c t then CHR ''1'' else CHR ''0'') # byte_text c t f"
  by (simp add: byte_text_def)

lemma byte_text_low:
  "f < t \<Longrightarrow> byte_text c t f = byte_text c t (Suc f) @ [if bit c f then CHR ''1'' else CHR ''0'']"
  by (simp add: byte_text_def upt_conv_Cons)

lemma code_text_snoc:
  "cs \<noteq> [] \<Longrightarrow> code_text (cs @ [c]) t f = code_text cs t 0 @ byte_text c 8 f"
  by (induction cs t f rule: code_text.induct) auto

lemma code_text_butlast:
  "cs \<noteq> [] \<Longrightarrow> code_text cs t f =
     (if tl cs = [] then byte_text (hd cs) t f
      else code_text (butlast cs) t 0 @ byte_text (last cs) 8 f)"
  by (induction cs t f rule: code_text.induct) auto

text \<open>Setting (or leaving) the bit under the mask.\<close>

definition put_at :: "byte \<Rightarrow> nat \<Rightarrow> char \<Rightarrow> byte" where
  "put_at c g b = (if b = CHR ''1'' then or c (mask_of (Suc g)) else c)"

lemma bit_put_at:
  "g < 8 \<Longrightarrow> bit (put_at c g b) i \<longleftrightarrow> bit c i \<or> (i = g \<and> b = CHR ''1'')"
  by (auto simp: put_at_def bit_or_iff bit_mask_of)

lemma byte_text_put_at:
  assumes "g < t" and "g < 8" and "\<not> bit c g" and "b \<in> {CHR ''0'', CHR ''1''}"
  shows "byte_text (put_at c g b) t g = byte_text c t (Suc g) @ [b]"
proof -
  have "byte_text (put_at c g b) t (Suc g) = byte_text c t (Suc g)"
    by (rule byte_text_cong) (auto simp: bit_put_at assms)
  then show ?thesis
    using assms by (auto simp: byte_text_low bit_put_at)
qed

lemma alloc_byte_valid:
  assumes "cb_valid s"
  obtains l g where "buffer (alloc_byte s) = butlast (buffer (alloc_byte s)) @ [l]"
    and "mask (alloc_byte s) = mask_of (Suc g)"
    and "Suc g \<le> (if tl (buffer (alloc_byte s)) = [] then 4 else 8)"
    and "\<And>i. i < Suc g \<Longrightarrow> \<not> bit l i"
    and "drop_bit 4 (hd (buffer (alloc_byte s))) = 0"
    and "cb_text s = code_text (buffer (alloc_byte s)) 4 (Suc g)"
proof -
  from assms obtain f where f: "buffer s \<noteq> []" "mask s = mask_of f" "free_of s = f"
    "f \<le> (if tl (buffer s) = [] then 4 else 7)" "f < 8" "\<And>i. i < f \<Longrightarrow> \<not> bit (last (buffer s)) i"
    "drop_bit 4 (hd (buffer s)) = 0" by (rule cb_validE) blast
  show thesis
  proof (cases f)
    case 0
    then have a: "alloc_byte s = \<lparr>buffer = buffer s @ [0], mask = mask_of (Suc 7)\<rparr>"
      using f by (simp add: alloc_byte_def mask_of_def push_bit_eq_mult)
    have "cb_text s = code_text (buffer s @ [0]) 4 (Suc 7)"
      using f 0 by (simp add: cb_text_def code_text_snoc byte_text_def)
    then show thesis using f 0 by (intro that [of 0 7]) (auto simp: a)
  next
    case (Suc g)
    then have "mask s \<noteq> 0" using f by (simp add: mask_of_Suc_neq_0)
    then have a: "alloc_byte s = s" by (simp add: alloc_byte_def)
    show thesis using f Suc
      by (intro that [of "last (buffer s)" g]) (auto simp: a cb_text_def split: if_splits)
  qed
qed

lemma write_bit_valid:
  assumes "cb_valid s" and b: "b \<in> {CHR ''0'', CHR ''1''}"
  shows "cb_valid (write_bit s b) \<and> cb_text (write_bit s b) = cb_text s @ [b]"
proof -
  obtain l g where a: "buffer (alloc_byte s) = butlast (buffer (alloc_byte s)) @ [l]"
    "mask (alloc_byte s) = mask_of (Suc g)"
    "Suc g \<le> (if tl (buffer (alloc_byte s)) = [] then 4 else 8)"
    "\<And>i. i < Suc g \<Longrightarrow> \<not> bit l i" "drop_bit 4 (hd (buffer (alloc_byte s))) = 0"
    "cb_text s = code_text (buffer (alloc_byte s)) 4 (Suc g)"
    using alloc_byte_valid [OF assms(1)] by metis
  define bs where "bs = butlast (buffer (alloc_byte s))"
  have g: "g < 8" using a(3) by (simp split: if_splits)
  have buf: "buffer (alloc_byte s) = bs @ [l]" using a(1) by (simp add: bs_def)
  have w: "write_bit s b = \<lparr>buffer = bs @ [put_at l g b], mask = mask_of g\<rparr>"
    using b g a(2) buf
    by (auto simp: write_bit_def Let_def put_at_def mask_of_shift intro!: char_bits.equality)
  have hd: "drop_bit 4 (hd (bs @ [put_at l g b])) = 0"
  proof (cases "bs = []")
    case True
    then have "g < 4" using a(3) buf by (simp split: if_splits)
    have "drop_bit 4 l = 0" using a(5) buf True by simp
    then have "bit (drop_bit 4 l) n = False" for n by simp
    then have "\<not> bit l (4 + n)" for n by (simp add: bit_drop_bit_eq)
    with \<open>g < 4\<close> have "drop_bit 4 (put_at l g b) = 0"
      by (intro bit_word_eqI) (simp add: bit_drop_bit_eq bit_put_at)
    then show ?thesis using True by simp
  next
    case False
    then show ?thesis using a(5) buf by simp
  qed
  have top: "g \<le> (if tl (bs @ [put_at l g b]) = [] then 4 else 7)"
    using a(3) buf g by (cases bs) (auto split: if_splits)
  have v: "cb_valid (write_bit s b)" "free_of (write_bit s b) = g"
    by (rule cb_validI [where f = g]; use top a(4) hd g in
      \<open>auto simp: w bit_put_at\<close>)+
  have "code_text (bs @ [put_at l g b]) 4 g = code_text (bs @ [l]) 4 (Suc g) @ [b]"
    using a(3,4) buf g b by (cases "bs = []") (auto simp: code_text_snoc byte_text_put_at)
  then show ?thesis using v a(6) buf by (simp add: cb_text_def w)
qed

lemma write_bits_valid:
  assumes "cb_valid s" and "set bits \<subseteq> {CHR ''0'', CHR ''1''}"
  shows "\<exists>s'. write_bits s bits (length bits) = Some s' \<and> cb_valid s' \<and> cb_text s' = cb_text s @ bits"
proof -
  have "cb_valid (foldl write_bit s bits) \<and> cb_text (foldl write_bit s bits) = cb_text s @ bits"
    using assms by (induction bits arbitrary: s) (auto simp: write_bit_valid)
  then show ?thesis by (simp add: write_bits_def)
qed

subsection \<open>Reading gives the text\<close>

lemma read_byte_text:
  "f \<le> t \<Longrightarrow> t \<le> 8 \<Longrightarrow> read_byte c (mask_of t) (mask_of f) bss = Some (bss @ byte_text c t f)"
proof (induction t arbitrary: bss)
  case 0
  then show ?case by (subst read_byte.simps) (simp add: byte_text_def)
next
  case (Suc t)
  show ?case
  proof (cases "f = Suc t")
    case True
    then show ?thesis by (subst read_byte.simps) (simp add: byte_text_def)
  next
    case False
    with Suc have "f \<le> t" "t < 8" by auto
    then show ?thesis using Suc.IH
      by (subst read_byte.simps)
        (auto simp: mask_of_inj mask_of_shift and_mask_of_eq_0 byte_text_split)
  qed
qed

lemma read_from_text:
  assumes "f \<le> 8" and "t \<le> 8" and "tl cs = [] \<Longrightarrow> f \<le> t" and "cs \<noteq> []"
  shows "read_from cs (mask_of t) (mask_of f) bss = Some (bss @ code_text cs t f)"
  using assms
proof (induction cs arbitrary: t bss)
  case (Cons c cs)
  have m8: "0x80 = mask_of 8" by (simp add: mask_of_def push_bit_eq_mult)
  show ?case
  proof (cases cs)
    case Nil
    then show ?thesis using Cons.prems by (simp add: read_byte_text)
  next
    case (Cons d ds)
    then show ?thesis
      using Cons.prems Cons.IH [of 8] read_byte_text [of 0 t]
      by (simp add: m8)
  qed
qed simp

text \<open>The state a buffer is read in: only the mask matters, the reserved half may be filled.\<close>

lemma read_bits_text:
  assumes "buffer s \<noteq> []" and "mask s = mask_of f" and "f \<le> (if tl (buffer s) = [] then 4 else 7)"
  shows "read_bits s = Some (code_text (buffer s) 4 f)"
proof -
  have "0x08 = mask_of 4" by (simp add: mask_of_def push_bit_eq_mult)
  then show ?thesis
    using assms read_from_text [of f 4 "buffer s" "[]"]
    by (auto simp: read_bits_def split: if_splits)
qed

lemma read_bits_valid: "cb_valid s \<Longrightarrow> read_bits s = Some (cb_text s)"
  by (erule cb_validE) (simp add: read_bits_text cb_text_def)

subsection \<open>Flushing and reopening\<close>

lemma flush_code_reopen:
  assumes "cb_valid s"
  shows "\<exists>s'. charBits_of_code (buffer (flush_code s)) = Some s' \<and> read_bits s' = Some (cb_text s)"
proof -
  from assms obtain f where f: "buffer s \<noteq> []" "mask s = mask_of f" "free_of s = f"
    "f \<le> (if tl (buffer s) = [] then 4 else 7)" "f < 8" "drop_bit 4 (hd (buffer s)) = 0"
    by (rule cb_validE) blast
  obtain c cs where buf: "buffer s = c # cs" using f(1) by (cases "buffer s") auto
  define u where "u = push_bit 4 (of_nat f :: byte)"
  have bu: "buffer (flush_code s) = or c u # cs"
    using f(2,5) by (simp add: flush_code_def buf count_unused_mask_of u_def)
  have tmp: "drop_bit 4 (or c u) = of_nat f"
    using f(5) f(6) buf
    by (auto simp: u_def push_bit_eq_mult intro: less_9_cases [of f])
  have low: "byte_text (or c u) 4 g = byte_text c 4 g" for g
    by (rule byte_text_cong) (simp add: u_def bit_or_iff bit_push_bit_iff)
  have ct: "code_text (or c u # cs) 4 f = code_text (c # cs) 4 f"
    using low by (cases cs) auto
  have ch: "charBits_of_code (or c u # cs) = Some \<lparr>buffer = or c u # cs, mask = mask_of f\<rparr>"
    using f(5)
    by (simp only: charBits_of_code_def list.case Let_def tmp) (auto simp: mask_of_def unat_of_nat word_of_nat_eq_0_iff dest: dvd_imp_le)
  show ?thesis
    using ch ct f buf by (simp add: bu read_bits_text cb_text_def)
qed

subsection \<open>The buffer provides the store interface\<close>

interpretation cb: bit_store cb_valid cb_text charBits_new write_bits read_bits
  "\<lambda>s. buffer (flush_code s)" charBits_of_code
proof unfold_locales
  fix b s
  assume "cb_valid b" and "is_bits s"
  then show "\<exists>b'. write_bits b s (length s) = Some b' \<and> cb_valid b' \<and> cb_text b' = cb_text b @ s"
    by (rule write_bits_valid [unfolded is_bits_def [symmetric]])
qed (simp_all add: charBits_new_valid charBits_new_text flush_code_reopen)

text \<open>The bits of a valid buffer: four reserved, the text, and the free positions.\<close>

lemma code_text_length:
  "cs \<noteq> [] \<Longrightarrow> t \<le> 8 \<Longrightarrow> f \<le> (if tl cs = [] then t else 8) \<Longrightarrow>
   length (code_text cs t f) + f + 8 = 8 * length cs + t"
  by (induction cs t f rule: code_text.induct) (auto simp: byte_text_def split: if_splits)

lemma cb_size: "cb_valid s \<Longrightarrow> 8 * length (buffer s) = 4 + length (cb_text s) + free_of s"
  by (erule cb_validE)
    (use code_text_length [of "buffer s" 4 "free_of s"] in \<open>auto simp: cb_text_def split: if_splits\<close>)

end
