(* ===== verification/Rot_Codec.thy ===== *)
theory Rot_Codec
  imports Char_Bits
begin

text \<open>
  The Huffman codec of the rotation library: \<open>encode_table\<close>, \<open>encode_table2\<close>
  (\<open>RotLib.h\<close>) and \<open>encode\<close>, \<open>decode\<close> (\<open>RotLib.cpp\<close>). A missing table entry
  (\<open>std::out_of_range\<close>) and the exit of \<open>decode\<close> are the result None.
\<close>

definition encode_table :: "(string \<times> string) list" where
  "encode_table =
    [(''HT'', ''0''), (''S'', ''10''), (''W'', ''111''), (''X'', ''1100''),
     (''H'', ''11010''), (''T'', ''11011'')]"

definition encode_table2 :: "(string \<times> string) list" where
  "encode_table2 =
    [(''HT'', ''0''), (''S'', ''10''), (''X'', ''111''), (''H'', ''1100''), (''T'', ''1101'')]"

text \<open>The table \<open>encode\<close> points \<open>et\<close> to.\<close>

definition rot_table :: "bool \<Rightarrow> (string \<times> string) list" where
  "rot_table phase = (if phase then encode_table2 else encode_table)"

text \<open>One turn of the loop takes one gate, or \<open>H\<close> and a following \<open>T\<close> together.\<close>

definition next_gate :: "char \<Rightarrow> string \<Rightarrow> string \<times> string" where
  "next_gate g gs =
     (if [g] = ''H'' \<and> gs \<noteq> [] \<and> [g, hd gs] = ''HT'' then ([g, hd gs], tl gs) else ([g], gs))"

lemma next_gate_length: "next_gate g gs = (t, rest) \<Longrightarrow> length rest < Suc (length gs)"
  by (auto simp: next_gate_def split: if_splits)

function encode_loop ::
  "(string \<times> string) list \<Rightarrow> string \<Rightarrow> int \<Rightarrow> char_bits \<Rightarrow> (int \<times> char_bits) option" where
  "encode_loop et [] code_size data = Some (code_size, data)"
| "encode_loop et (g # gs) code_size data =
     (case next_gate g gs of (gate_str, rest) \<Rightarrow>
        (case map_of et gate_str of
           None \<Rightarrow> None
         | Some huff \<Rightarrow>
            (case write_bits data huff (length huff) of
               None \<Rightarrow> None
             | Some data' \<Rightarrow> encode_loop et rest (code_size + int (length huff)) data')))"
  by pat_completeness auto
termination
  by (relation "measure (\<lambda>(et, gs, n, d). length gs)") (auto dest: next_gate_length [OF sym])

definition encode :: "bool \<Rightarrow> string \<Rightarrow> nat \<Rightarrow> char_bits \<Rightarrow> (int \<times> char_bits) option" where
  "encode phase gates l data =
     (if l \<le> length gates
      then encode_loop (rot_table phase) (take l gates) 4 data
      else None)"

text \<open>What the branches of \<open>decode\<close> test, and the gate and the number of bits each consumes.\<close>

definition has_bit :: "string \<Rightarrow> nat \<Rightarrow> char \<Rightarrow> bool" where
  "has_bit bits i b \<longleftrightarrow> i < length bits \<and> bits ! i = b"

lemma has_bit_simps [simp]:
  "has_bit [] i b = False" "has_bit (c # r) 0 b = (c = b)" "has_bit (c # r) (Suc i) b = has_bit r i b"
  "has_bit (c # r) (numeral k) b = has_bit r (pred_numeral k) b"
  by (auto simp: has_bit_def numeral_eq_Suc)

definition decode_step_phase :: "string \<Rightarrow> (string \<times> nat) option" where
  "decode_step_phase bits =
     (if has_bit bits 0 CHR ''0'' then Some (''HT'', 1)
      else if has_bit bits 1 CHR ''0'' then Some (''S'', 2)
      else if has_bit bits 2 CHR ''1'' then Some (''X'', 3)
      else if has_bit bits 3 CHR ''0'' then Some (''H'', 4)
      else if has_bit bits 3 CHR ''1'' then Some (''T'', 4)
      else None)"

definition decode_step_w :: "string \<Rightarrow> (string \<times> nat) option" where
  "decode_step_w bits =
     (if has_bit bits 0 CHR ''0'' then Some (''HT'', 1)
      else if has_bit bits 1 CHR ''0'' then Some (''S'', 2)
      else if has_bit bits 2 CHR ''1'' then Some (''W'', 3)
      else if has_bit bits 3 CHR ''0'' then Some (''X'', 4)
      else if has_bit bits 4 CHR ''0'' then Some (''H'', 5)
      else if has_bit bits 4 CHR ''1'' then Some (''T'', 5)
      else None)"

text \<open>Every branch consumes a bit; a step that consumes none would not return.\<close>

function decode_loop :: "(string \<Rightarrow> (string \<times> nat) option) \<Rightarrow> string \<Rightarrow> string option" where
  "decode_loop step bits =
     (if bits = [] then Some []
      else case step bits of
             None \<Rightarrow> None
           | Some (gate, n) \<Rightarrow>
              if n = 0 then None
              else (case decode_loop step (drop n bits) of
                      None \<Rightarrow> None
                    | Some gates \<Rightarrow> Some (gate @ gates)))"
  by pat_completeness auto
termination
  by (relation "measure (\<lambda>(step, bits). length bits)") auto

declare decode_loop.simps [simp del]

definition decode :: "bool \<Rightarrow> char_bits \<Rightarrow> string option" where
  "decode phase data =
     (case read_bits data of
        None \<Rightarrow> None
      | Some all_bits \<Rightarrow> decode_loop (if phase then decode_step_phase else decode_step_w) all_bits)"

subsection \<open>Prefix codes\<close>

text \<open>What a decoding step has to do for a code table; the round trip follows from it alone.\<close>

locale prefix_code =
  fixes table :: "(string \<times> string) list"
    and step :: "string \<Rightarrow> (string \<times> nat) option"
  assumes code_bits: "map_of table g = Some c \<Longrightarrow> c \<noteq> [] \<and> is_bits c"
    and step_code: "map_of table g = Some c \<Longrightarrow> step (c @ r) = Some (g, length c)"
begin

lemma decode_codes:
  "list_all2 (\<lambda>g c. map_of table g = Some c) gs cs \<Longrightarrow>
   decode_loop step (concat cs) = Some (concat gs)"
proof (induction rule: list_all2_induct)
  case (Cons g gs c cs)
  then show ?case using step_code [of g c] code_bits [of g c]
    by (subst decode_loop.simps) auto
qed (simp add: decode_loop.simps)

lemma codes_are_bits:
  "list_all2 (\<lambda>g c. map_of table g = Some c) gs cs \<Longrightarrow> \<forall>c\<in>set cs. is_bits c"
  by (induction rule: list_all2_induct) (auto simp: code_bits)

end

interpretation huff_w: prefix_code encode_table decode_step_w
  by unfold_locales (auto simp: encode_table_def decode_step_w_def split: if_splits)

interpretation huff_phase: prefix_code encode_table2 decode_step_phase
  by unfold_locales (auto simp: encode_table2_def decode_step_phase_def split: if_splits)

subsection \<open>Encoding writes the codes of the tokens\<close>

function tokens :: "string \<Rightarrow> string list" where
  "tokens [] = []"
| "tokens (g # gs) = (case next_gate g gs of (t, rest) \<Rightarrow> t # tokens rest)"
  by pat_completeness auto
termination
  by (relation "measure length") (auto dest: next_gate_length [OF sym])

lemma next_gate_append: "next_gate g gs = (t, rest) \<Longrightarrow> t @ rest = g # gs"
  by (cases gs) (auto simp: next_gate_def split: if_splits)

lemma concat_tokens: "concat (tokens gs) = gs"
  by (induction gs rule: tokens.induct) (auto split: prod.splits dest: next_gate_append)

fun codes_of :: "(string \<times> string) list \<Rightarrow> string list \<Rightarrow> string list option" where
  "codes_of et [] = Some []"
| "codes_of et (t # ts) =
     (case map_of et t of
        None \<Rightarrow> None
      | Some c \<Rightarrow> map_option ((#) c) (codes_of et ts))"

lemma codes_of_list_all2:
  "codes_of et ts = Some cs \<Longrightarrow> list_all2 (\<lambda>g c. map_of et g = Some c) ts cs"
  by (induction ts arbitrary: cs) (auto split: option.splits)

lemma codes_of_eq_None: "codes_of et ts = None \<longleftrightarrow> (\<exists>t\<in>set ts. map_of et t = None)"
  by (induction ts) (auto split: option.splits)

lemma encode_loop_put_all:
  "encode_loop et gates n data =
     (case codes_of et (tokens gates) of
        None \<Rightarrow> None
      | Some cs \<Rightarrow>
         (case put_all write_bits data cs of
            None \<Rightarrow> None
          | Some d \<Rightarrow> Some (n + int (length (concat cs)), d)))"
proof (induction et gates n data rule: encode_loop.induct)
  case (2 et g gs n data)
  obtain t rest where nx: "next_gate g gs = (t, rest)" by force
  show ?case
  proof (cases "map_of et t")
    case None
    then show ?thesis using nx by simp
  next
    case (Some huff)
    then show ?thesis
      using "2" [OF nx [symmetric] Some] nx by (auto split: option.splits)
  qed
qed simp

definition rot_alphabet :: "bool \<Rightarrow> char list" where
  "rot_alphabet phase = (if phase then ''HTSX'' else ''HTSWX'')"

lemma rot_table_single: "map_of (rot_table phase) [g] = None \<longleftrightarrow> g \<notin> set (rot_alphabet phase)"
  by (cases phase) (simp_all add: rot_table_def encode_table_def encode_table2_def rot_alphabet_def)

lemma rot_table_HT: "map_of (rot_table phase) ''HT'' = Some ''0''"
  by (simp add: rot_table_def encode_table_def encode_table2_def)

lemma next_gate_coded:
  "next_gate g gs = (t, rest) \<Longrightarrow>
   (map_of (rot_table phase) t = None \<or> \<not> set rest \<subseteq> set (rot_alphabet phase)) \<longleftrightarrow>
   \<not> set (g # gs) \<subseteq> set (rot_alphabet phase)"
proof (cases "t = ''HT''")
  case True
  moreover assume "next_gate g gs = (t, rest)"
  ultimately have "g # gs = ''HT'' @ rest" by (metis next_gate_append)
  moreover have "CHR ''H'' \<in> set (rot_alphabet phase)" "CHR ''T'' \<in> set (rot_alphabet phase)"
    by (simp_all add: rot_alphabet_def)
  ultimately show ?thesis using True by (simp add: rot_table_HT)
next
  case False
  moreover assume "next_gate g gs = (t, rest)"
  ultimately have "t = [g]" "rest = gs" by (auto simp: next_gate_def split: if_splits)
  then show ?thesis by (simp add: rot_table_single)
qed

lemma tokens_coded:
  "(\<exists>t\<in>set (tokens gs). map_of (rot_table phase) t = None) \<longleftrightarrow>
   \<not> set gs \<subseteq> set (rot_alphabet phase)"
proof (induction gs rule: tokens.induct)
  case (2 g gs)
  obtain t rest where nx: "next_gate g gs = (t, rest)" by force
  from "2" [OF nx [symmetric]] next_gate_coded [OF nx] nx show ?case by simp
qed simp

lemma rot_table_codes_are_bits:
  "codes_of (rot_table phase) ts = Some cs \<Longrightarrow> \<forall>c\<in>set cs. is_bits c"
  by (cases phase)
    (auto simp: rot_table_def dest: codes_of_list_all2 huff_w.codes_are_bits huff_phase.codes_are_bits)

lemma encode_new_ok:
  assumes "set gates \<subseteq> set (rot_alphabet phase)"
  obtains cs d where "codes_of (rot_table phase) (tokens gates) = Some cs"
    and "encode phase gates (length gates) charBits_new = Some (4 + int (length (concat cs)), d)"
    and "cb_valid d" and "cb_text d = concat cs"
proof -
  have "codes_of (rot_table phase) (tokens gates) \<noteq> None"
    using assms tokens_coded [of gates phase] by (simp add: codes_of_eq_None)
  then obtain cs where cs: "codes_of (rot_table phase) (tokens gates) = Some cs" by blast
  obtain d where d: "put_all write_bits charBits_new cs = Some d" "cb_valid d" "cb_text d = concat cs"
    using cb.put_all_fresh [OF rot_table_codes_are_bits [OF cs]] by blast
  show thesis
    by (rule that [of cs d]) (use cs d in \<open>simp_all add: encode_def encode_loop_put_all\<close>)
qed

lemma decode_codes_of:
  assumes "codes_of (rot_table phase) (tokens gates) = Some cs" and "read_bits d = Some (concat cs)"
  shows "decode phase d = Some gates"
  using codes_of_list_all2 [OF assms(1)] assms(2) concat_tokens [of gates]
  by (cases phase)
    (auto simp: decode_def rot_table_def dest: huff_w.decode_codes huff_phase.decode_codes)

lemma encode_unknown_gate:
  assumes "\<not> set gates \<subseteq> set (rot_alphabet phase)"
  shows "encode phase gates (length gates) charBits_new = None"
proof -
  have "codes_of (rot_table phase) (tokens gates) = None"
    using assms by (simp add: codes_of_eq_None tokens_coded)
  then show ?thesis by (simp add: encode_def encode_loop_put_all)
qed

subsection \<open>Properties\<close>

text \<open>C27: a gate sequence over the gates the code table knows, encoded into a fresh buffer, flushed
  to bytes, reopened from these bytes and decoded, is the gate sequence again, in both modes
  (with the global phase gate W and up to global phase).\<close>

theorem rot_codec_roundtrip:
  assumes "set gates \<subseteq> set (rot_alphabet phase)"
  shows "\<exists>sz d d'. encode phase gates (length gates) charBits_new = Some (sz, d) \<and>
           charBits_of_code (buffer (flush_code d)) = Some d' \<and> decode phase d' = Some gates"
proof -
  obtain cs d where "codes_of (rot_table phase) (tokens gates) = Some cs"
    and "encode phase gates (length gates) charBits_new = Some (4 + int (length (concat cs)), d)"
    and "cb_valid d" and "cb_text d = concat cs"
    using encode_new_ok [OF assms] by blast
  then show ?thesis using cb.pack_unpack [of d] by (auto dest: decode_codes_of)
qed

lemma rot_codec_roundtrip_witness:
  "\<exists>sz d d'. encode False ''HTSWHXT'' 7 charBits_new = Some (sz, d) \<and>
     charBits_of_code (buffer (flush_code d)) = Some d' \<and> decode False d' = Some ''HTSWHXT''"
  using rot_codec_roundtrip [of "''HTSWHXT''" False] by (simp add: rot_alphabet_def eval_nat_numeral)

text \<open>encoding fails (the table's \<open>at\<close> throws) exactly when the sequence holds a gate the
  table does not know: in the mode up to global phase this includes W.\<close>

theorem encode_rejects:
  "encode phase gates (length gates) charBits_new = None \<longleftrightarrow>
   \<not> set gates \<subseteq> set (rot_alphabet phase)"
proof (cases "set gates \<subseteq> set (rot_alphabet phase)")
  case True
  then obtain r where "encode phase gates (length gates) charBits_new = Some r"
    by (rule encode_new_ok)
  with True show ?thesis by simp
next
  case False
  then show ?thesis by (simp add: encode_unknown_gate)
qed

text \<open>the size \<open>encode\<close> returns is the number of bits used in the bytes, the four reserved
  ones included: the vector's bits are this size and the free positions that \<open>flush_code\<close>
  records, fewer than eight.\<close>

theorem encode_size_exact:
  assumes "encode phase gates (length gates) charBits_new = Some (sz, d)"
  shows "8 * int (length (buffer d)) = sz + int (free_of d) \<and> free_of d < 8"
proof -
  have "set gates \<subseteq> set (rot_alphabet phase)"
    using assms encode_unknown_gate [of gates phase] by force
  then obtain cs d' where "encode phase gates (length gates) charBits_new =
      Some (4 + int (length (concat cs)), d')" "cb_valid d'" "cb_text d' = concat cs"
    using encode_new_ok by blast
  with assms have "sz = 4 + int (length (cb_text d))" "cb_valid d" by auto
  then show ?thesis
    using cb_size [of d] by (auto elim: cb_validE)
qed

lemma encode_size_exact_witness:
  "\<exists>sz d. encode True ''HTX'' 3 charBits_new = Some (sz, d) \<and>
     8 * int (length (buffer d)) = sz + int (free_of d) \<and> free_of d < 8"
proof -
  have "encode True ''HTX'' (length ''HTX'') charBits_new = Some (8, \<lparr>buffer = [0x07], mask = 0\<rparr>)"
    by code_simp
  moreover have "length ''HTX'' = 3" by simp
  ultimately show ?thesis using encode_size_exact [of True "''HTX''"] by metis
qed

end
