(* ===== verification/Rot_Library.thy ===== *)
theory Rot_Library
  imports Rot_Codec
begin

text \<open>
  The rotation library of \<open>RotLib.cpp\<close>: the list of stored sequences that \<open>generate\<close>
  builds from the decomposer's output, \<open>seq_combine\<close>, and the binary file \<open>save\<close> writes
  and \<open>load\<close> reads. The external decomposer (gridsynth, run by \<open>exec\<close>) is a parameter; so
  is the number of digits that \<open>generate\<close> computes in floating point. An \<open>int\<close> of the
  file is four little-endian bytes, a pointer eight, a \<open>bool\<close> one. Ending the process with
  \<open>exit\<close> and reading past the end of the file (which leaves a variable indeterminate) are None.
\<close>

record rot_seq =
  seq_l :: u32
  seq_s :: u32
  seq_c :: u32
  seq_k :: u32
  seq_word :: "byte list"

text \<open>The precision and storage members are pointers, and it is the pointers that the file holds.\<close>

record rot_lib =
  lib_p :: u64
  lib_s :: u64
  lib_basis :: u32
  lib_phase :: bool
  lib_seqs :: "rot_seq list"

subsection \<open>Little-endian words\<close>

fun le_bytes :: "nat \<Rightarrow> 'a::len word \<Rightarrow> byte list" where
  "le_bytes 0 w = []"
| "le_bytes (Suc n) w = ucast w # le_bytes n (drop_bit 8 w)"

fun le_word :: "byte list \<Rightarrow> 'a::len word" where
  "le_word [] = 0"
| "le_word (b # bs) = or (ucast b) (push_bit 8 (le_word bs))"

lemma length_le_bytes [simp]: "length (le_bytes n w) = n"
  by (induction n arbitrary: w) auto

lemma le_word_bytes:
  fixes w :: "'a::len word"
  shows "(le_word (le_bytes n w) :: 'a word) = take_bit (8 * n) w"
proof (induction n arbitrary: w)
  case (Suc n)
  show ?case
    by (rule bit_word_eqI)
      (auto simp: Suc bit_or_iff bit_push_bit_iff bit_take_bit_iff bit_ucast_iff bit_drop_bit_eq)
qed simp

lemma le_word_bytes_32 [simp]: "(le_word (le_bytes 4 (w :: u32)) :: u32) = w"
  by (simp add: le_word_bytes take_bit_word_eq_self)

lemma le_word_bytes_64 [simp]: "(le_word (le_bytes 8 (w :: u64)) :: u64) = w"
  by (simp add: le_word_bytes take_bit_word_eq_self)

subsection \<open>Saving\<close>

text \<open>\<open>"Gridsynth Rotation Library"\<close> and its terminating 0.\<close>

definition lib_header :: "byte list" where
  "lib_header = map (\<lambda>c. of_char c) ''Gridsynth Rotation Library'' @ [0]"

definition save_seq :: "rot_seq \<Rightarrow> byte list" where
  "save_seq si =
     le_bytes 4 (seq_l si) @ le_bytes 4 (seq_s si) @ le_bytes 4 (seq_c si) @ le_bytes 4 (seq_k si) @
     le_bytes 4 (of_nat (length (seq_word si)) :: u32) @ seq_word si"

definition save :: "rot_lib \<Rightarrow> byte list" where
  "save L =
     lib_header @ le_bytes 4 (lib_basis L) @ [if lib_phase L then 1 else 0] @
     le_bytes 8 (lib_p L) @ le_bytes 8 (lib_s L) @
     le_bytes 4 (of_nat (length (lib_seqs L)) :: u32) @ concat (map save_seq (lib_seqs L))"

subsection \<open>Loading\<close>

definition read_n :: "nat \<Rightarrow> byte list \<Rightarrow> (byte list \<times> byte list) option" where
  "read_n n infile = (if n \<le> length infile then Some (take n infile, drop n infile) else None)"

definition read_int :: "byte list \<Rightarrow> (u32 \<times> byte list) option" where
  "read_int infile = (case read_n 4 infile of None \<Rightarrow> None | Some (bs, rest) \<Rightarrow> Some (le_word bs, rest))"

definition read_ptr :: "byte list \<Rightarrow> (u64 \<times> byte list) option" where
  "read_ptr infile = (case read_n 8 infile of None \<Rightarrow> None | Some (bs, rest) \<Rightarrow> Some (le_word bs, rest))"

text \<open>A byte other than 0 and 1 is no value of type \<open>bool\<close>.\<close>

definition read_bool :: "byte list \<Rightarrow> (bool \<times> byte list) option" where
  "read_bool infile =
     (case read_n 1 infile of
        Some ([b], rest) \<Rightarrow> if b = 0 then Some (False, rest) else if b = 1 then Some (True, rest) else None
      | _ \<Rightarrow> None)"

text \<open>One turn of the loop over the sequences; \<open>for (ci = 0; ci < code_bytes; ci++)\<close> reads nothing
  when \<open>code_bytes\<close> is negative.\<close>

definition load_seq :: "byte list \<Rightarrow> (rot_seq \<times> byte list) option" where
  "load_seq f0 =
     (case read_int f0 of None \<Rightarrow> None | Some (ls, f1) \<Rightarrow>
     (case read_int f1 of None \<Rightarrow> None | Some (ss, f2) \<Rightarrow>
     (case read_int f2 of None \<Rightarrow> None | Some (cs, f3) \<Rightarrow>
     (case read_int f3 of None \<Rightarrow> None | Some (ks, f4) \<Rightarrow>
     (case read_int f4 of None \<Rightarrow> None | Some (code_bytes, f5) \<Rightarrow>
     (case read_n (nat (sint code_bytes)) f5 of None \<Rightarrow> None | Some (words, f6) \<Rightarrow>
        Some (\<lparr>seq_l = ls, seq_s = ss, seq_c = cs, seq_k = ks, seq_word = words\<rparr>, f6)))))))"

fun load_seqs :: "nat \<Rightarrow> rot_seq list \<Rightarrow> byte list \<Rightarrow> rot_seq list option" where
  "load_seqs 0 seqs infile = Some seqs"
| "load_seqs (Suc n) seqs infile =
     (case load_seq infile of
        None \<Rightarrow> None
      | Some (s, rest) \<Rightarrow> load_seqs n (seqs @ [s]) rest)"

text \<open>Loading into the object \<open>L\<close>: the scalar members are overwritten, the sequences appended.\<close>

definition load :: "rot_lib \<Rightarrow> byte list \<Rightarrow> rot_lib option" where
  "load L infile =
     (case read_n (length lib_header) infile of None \<Rightarrow> None | Some (header, f1) \<Rightarrow>
      if header \<noteq> lib_header then None else
     (case read_int f1 of None \<Rightarrow> None | Some (b, f2) \<Rightarrow>
     (case read_bool f2 of None \<Rightarrow> None | Some (ph, f3) \<Rightarrow>
     (case read_ptr f3 of None \<Rightarrow> None | Some (p, f4) \<Rightarrow>
     (case read_ptr f4 of None \<Rightarrow> None | Some (s, f5) \<Rightarrow>
     (case read_int f5 of None \<Rightarrow> None | Some (n_seqs, f6) \<Rightarrow>
     (case load_seqs (nat (sint n_seqs)) (lib_seqs L) f6 of None \<Rightarrow> None | Some seqs \<Rightarrow>
        Some \<lparr>lib_p = p, lib_s = s, lib_basis = b, lib_phase = ph, lib_seqs = seqs\<rparr>)))))))"

lemma read_int_append [simp]: "read_int (le_bytes 4 w @ r) = Some (w, r)"
  by (simp add: read_int_def read_n_def)

lemma read_ptr_append [simp]: "read_ptr (le_bytes 8 w @ r) = Some (w, r)"
  by (simp add: read_ptr_def read_n_def)

lemma read_bool_append [simp]: "read_bool ((if b then 1 else 0) # r) = Some (b, r)"
  by (simp add: read_bool_def read_n_def)

definition seq_fits :: "rot_seq \<Rightarrow> bool" where
  "seq_fits si \<longleftrightarrow> length (seq_word si) < 2 ^ 31"

lemma load_seq_save: "seq_fits si \<Longrightarrow> load_seq (save_seq si @ r) = Some (si, r)"
  by (simp add: load_seq_def save_seq_def seq_fits_def sint_of_nat_u32 read_n_def)

lemma load_seqs_save:
  "\<forall>si\<in>set ss. seq_fits si \<Longrightarrow>
   load_seqs (length ss) seqs (concat (map save_seq ss) @ r) = Some (seqs @ ss)"
  by (induction ss arbitrary: seqs) (auto simp: load_seq_save)

subsection \<open>Generating the sequences\<close>

text \<open>\<open>load_gridsynth\<close>: the decomposer's output without its last character (the newline) is
  encoded into \<open>data\<close>; the results are the two counts and the buffer.\<close>

definition load_gridsynth ::
  "bool \<Rightarrow> (string \<Rightarrow> string) \<Rightarrow> string \<Rightarrow> char_bits \<Rightarrow> (int \<times> int \<times> char_bits) option" where
  "load_gridsynth phase exec args data =
     (let res = exec args; ll = int (length res) - 1
      in case encode phase res (nat ll) data of
           None \<Rightarrow> None
         | Some (ss, data') \<Rightarrow> Some (ll, ss, data'))"

text \<open>The body of \<open>generate\<close> for one angle \<open>c * pi / basis ^ k\<close>.\<close>

definition generate_angle ::
  "bool \<Rightarrow> (string \<Rightarrow> string) \<Rightarrow> string \<Rightarrow> nat \<times> nat \<Rightarrow> rot_seq option" where
  "generate_angle phase exec args ck =
     (case load_gridsynth phase exec args charBits_new of
        None \<Rightarrow> None
      | Some (l, s, bit_buff) \<Rightarrow>
          Some \<lparr>seq_l = of_int l, seq_s = of_int s, seq_c = of_nat (fst ck), seq_k = of_nat (snd ck),
                seq_word = buffer (flush_code bit_buff)\<rparr>)"

text \<open>Pi first, then for each of the \<open>J\<close> digits the angles \<open>c = 1, ..., B - 1\<close>.\<close>

definition angle_list :: "nat \<Rightarrow> nat \<Rightarrow> (nat \<times> nat) list" where
  "angle_list B J = (1, 0) # concat (map (\<lambda>k. map (\<lambda>c. (c, k)) [1..<B]) [1..<J + 1])"

fun generate_all ::
  "bool \<Rightarrow> (string \<Rightarrow> string) \<Rightarrow> (nat \<times> nat \<Rightarrow> string) \<Rightarrow> (nat \<times> nat) list \<Rightarrow> rot_seq list \<Rightarrow>
   rot_seq list option" where
  "generate_all phase exec args_of [] seqs = Some seqs"
| "generate_all phase exec args_of (ck # cks) seqs =
     (case generate_angle phase exec (args_of ck) ck of
        None \<Rightarrow> None
      | Some s \<Rightarrow> generate_all phase exec args_of cks (seqs @ [s]))"

definition generate ::
  "bool \<Rightarrow> (string \<Rightarrow> string) \<Rightarrow> (nat \<times> nat \<Rightarrow> string) \<Rightarrow> nat \<Rightarrow> nat \<Rightarrow> rot_seq list \<Rightarrow>
   rot_seq list option" where
  "generate phase exec args_of B J seqs = generate_all phase exec args_of (angle_list B J) seqs"

subsection \<open>Combining stored sequences\<close>

record rz =
  rz_length :: int
  rz_gates :: string

fun combine_loop :: "bool \<Rightarrow> rot_seq list \<Rightarrow> nat list \<Rightarrow> rz \<Rightarrow> rz option" where
  "combine_loop phase seqs [] out = Some out"
| "combine_loop phase seqs (i # is) out =
     (if i < length seqs
      then (case charBits_of_code (seq_word (seqs ! i)) of
              None \<Rightarrow> None
            | Some bits \<Rightarrow>
               (case decode phase bits of
                  None \<Rightarrow> None
                | Some gates \<Rightarrow>
                    combine_loop phase seqs is
                      \<lparr>rz_length = rz_length out + sint (seq_l (seqs ! i)),
                       rz_gates = rz_gates out @ gates\<rparr>))
      else None)"

text \<open>The destination is a pointer; a null or a filled one ends the process. The gate string is
  overwritten by the sequences' gates.\<close>

definition seq_combine :: "bool \<Rightarrow> rot_seq list \<Rightarrow> nat list \<Rightarrow> rz option \<Rightarrow> rz option" where
  "seq_combine phase seqs indices out =
     (case out of
        None \<Rightarrow> None
      | Some r \<Rightarrow>
          if rz_length r \<noteq> 0 then None
          else combine_loop phase seqs indices (r\<lparr>rz_gates := []\<rparr>))"

lemma generate_angle_stored:
  assumes "generate_angle phase exec args ck = Some si" and "length (exec args) < 2 ^ 31"
    and "exec args \<noteq> []"
  shows "sint (seq_l si) = int (length (exec args)) - 1"
    and "\<exists>bits. charBits_of_code (seq_word si) = Some bits \<and>
           decode phase bits = Some (butlast (exec args))"
proof -
  let ?g = "butlast (exec args)"
  have len: "nat (int (length (exec args)) - 1) = length ?g" by simp
  have enc: "encode phase (exec args) (length ?g) d = encode phase ?g (length ?g) d" for d
    by (simp add: encode_def butlast_conv_take)
  obtain ss data where e: "encode phase ?g (length ?g) charBits_new = Some (ss, data)"
    and si: "si = \<lparr>seq_l = of_int (int (length (exec args)) - 1), seq_s = of_int ss,
       seq_c = of_nat (fst ck), seq_k = of_nat (snd ck), seq_word = buffer (flush_code data)\<rparr>"
    using assms(1)
    by (auto simp: generate_angle_def load_gridsynth_def Let_def len enc simp del: length_butlast
        split: option.splits)
  have "0 < length (exec args)" using assms(3) by simp
  then show "sint (seq_l si) = int (length (exec args)) - 1"
    using assms(2) sint_of_int_u32 [of "int (length (exec args)) - 1"] by (simp add: si)
  have "set ?g \<subseteq> set (rot_alphabet phase)"
    using e encode_unknown_gate [of ?g phase] by force
  then obtain cs d where c: "codes_of (rot_table phase) (tokens ?g) = Some cs"
    "encode phase ?g (length ?g) charBits_new = Some (4 + int (length (concat cs)), d)"
    "cb_valid d" "cb_text d = concat cs"
    by (rule encode_new_ok)
  with e have "d = data" by simp
  with c show "\<exists>bits. charBits_of_code (seq_word si) = Some bits \<and> decode phase bits = Some ?g"
    using cb.pack_unpack [of d] by (auto simp: si dest: decode_codes_of)
qed

lemma generate_angle_ck:
  "generate_angle phase exec args ck = Some si \<Longrightarrow>
   seq_c si = of_nat (fst ck) \<and> seq_k si = of_nat (snd ck)"
  by (auto simp: generate_angle_def split: option.splits)

lemma generate_all_nth:
  "generate_all phase exec args_of cks seqs = Some r \<Longrightarrow>
   \<exists>new. r = seqs @ new \<and> length new = length cks \<and>
     (\<forall>i<length cks. generate_angle phase exec (args_of (cks ! i)) (cks ! i) = Some (new ! i))"
proof (induction cks arbitrary: seqs)
  case (Cons ck cks)
  then obtain s where s: "generate_angle phase exec (args_of ck) ck = Some s"
    and g: "generate_all phase exec args_of cks (seqs @ [s]) = Some r"
    by (auto split: option.splits)
  from Cons.IH [OF g] obtain new where n: "r = (seqs @ [s]) @ new" "length new = length cks"
    "\<forall>i<length cks. generate_angle phase exec (args_of (cks ! i)) (cks ! i) = Some (new ! i)" by blast
  show ?case
    by (rule exI [of _ "s # new"]) (use n s in \<open>auto simp: nth_Cons split: nat.splits\<close>)
qed simp

lemma combine_loop_generated:
  assumes "\<And>i. i \<in> set is \<Longrightarrow> i < length seqs \<and> sint (seq_l (seqs ! i)) = int (length (G i)) \<and>
     (\<exists>bits. charBits_of_code (seq_word (seqs ! i)) = Some bits \<and> decode phase bits = Some (G i))"
  shows "combine_loop phase seqs is out =
     Some \<lparr>rz_length = rz_length out + int (length (concat (map G is))),
           rz_gates = rz_gates out @ concat (map G is)\<rparr>"
  using assms
proof (induction "is" arbitrary: out)
  case (Cons i "is")
  from Cons.prems [of i] obtain bits where "i < length seqs"
    "sint (seq_l (seqs ! i)) = int (length (G i))"
    "charBits_of_code (seq_word (seqs ! i)) = Some bits" "decode phase bits = Some (G i)" by auto
  then show ?case using Cons.IH [OF Cons.prems] by simp
qed simp

lemma angle_list_Suc:
  "angle_list B (Suc J) = angle_list B J @ map (\<lambda>c. (c, Suc J)) [1..<B]"
  by (simp add: angle_list_def)

lemma length_angle_list: "length (angle_list B J) = Suc ((B - 1) * J)"
  by (induction J) (simp_all add: angle_list_Suc angle_list_def [of B 0])

lemma angle_list_nth:
  assumes "k < J" and "c < B - 1"
  shows "angle_list B J ! Suc ((B - 1) * k + c) = (Suc c, Suc k)"
  using assms
proof (induction J)
  case (Suc J)
  show ?case
  proof (cases "k = J")
    case True
    then show ?thesis
      using Suc.prems by (simp add: angle_list_Suc nth_append length_angle_list)
  next
    case False
    then have "k < J" using Suc.prems by simp
    moreover have "Suc ((B - 1) * k + c) < length (angle_list B J)"
      using calculation Suc.prems mult_le_mono2 [of "Suc k" J "B - 1"]
      by (simp add: length_angle_list)
    ultimately show ?thesis using Suc by (simp add: angle_list_Suc nth_append)
  qed
qed simp

subsection \<open>Properties\<close>

text \<open>C28: loading a saved library into an object overwrites its scalar members with the saved
  ones and appends the saved sequences, bit for bit, as long as the counts fit an \<open>int\<close>.
  The precision and storage members come back as the addresses that were saved, not as what
  they pointed to.\<close>

theorem load_save:
  assumes "length (lib_seqs L) < 2 ^ 31" and "\<forall>si\<in>set (lib_seqs L). seq_fits si"
  shows "load L0 (save L) = Some (L\<lparr>lib_seqs := lib_seqs L0 @ lib_seqs L\<rparr>)"
proof -
  have "read_n (length lib_header) (lib_header @ r) = Some (lib_header, r)" for r
    by (simp add: read_n_def)
  then show ?thesis
    using assms load_seqs_save [of "lib_seqs L" "lib_seqs L0" "[]"]
    by (simp add: load_def save_def sint_of_nat_u32)
qed

lemma load_save_witness:
  "load \<lparr>lib_p = 0, lib_s = 0, lib_basis = 0, lib_phase = False, lib_seqs = []\<rparr>
     (save \<lparr>lib_p = 4096, lib_s = 8192, lib_basis = 10, lib_phase = True,
        lib_seqs = [\<lparr>seq_l = 2, seq_s = 5, seq_c = 1, seq_k = 0, seq_word = [0x30]\<rparr>]\<rparr>) =
   Some \<lparr>lib_p = 4096, lib_s = 8192, lib_basis = 10, lib_phase = True,
        lib_seqs = [\<lparr>seq_l = 2, seq_s = 5, seq_c = 1, seq_k = 0, seq_word = [0x30]\<rparr>]\<rparr>"
  by (subst load_save) (simp_all add: seq_fits_def)

text \<open>the sequence of \<open>c * pi / basis ^ k\<close> stands where \<open>concatenate\<close> looks it up, at
  index \<open>(basis - 1) * (k - 1) + c\<close>, in the list that \<open>generate\<close> builds, for every
  digit \<open>c\<close> from 1 to \<open>basis - 1\<close> and every place \<open>k\<close> from 1 to \<open>J\<close>.\<close>

theorem generate_layout:
  assumes "generate phase exec args_of B J [] = Some seqs" and "1 \<le> k" and "k \<le> J"
    and "1 \<le> c" and "c < B"
  shows "(B - 1) * (k - 1) + c < length seqs \<and>
    seq_c (seqs ! ((B - 1) * (k - 1) + c)) = of_nat c \<and>
    seq_k (seqs ! ((B - 1) * (k - 1) + c)) = of_nat k"
proof -
  define i where "i = (B - 1) * (k - 1) + c"
  have i: "i = Suc ((B - 1) * (k - 1) + (c - 1))" using assms(4) by (simp add: i_def)
  have ck: "angle_list B J ! i = (c, k)"
    using angle_list_nth [of "k - 1" J "c - 1" B] assms(2-5) by (simp add: i)
  have "(B - 1) * (k - 1) + (B - 1) \<le> (B - 1) * J"
    using assms(2) mult_le_mono2 [OF assms(3), of "B - 1"] by (cases k) (simp_all add: add.commute)
  then have lt: "i < length (angle_list B J)"
    using assms(4,5) by (simp add: i length_angle_list)
  obtain "length seqs = length (angle_list B J)"
    and "\<forall>i<length (angle_list B J). generate_angle phase exec (args_of (angle_list B J ! i))
           (angle_list B J ! i) = Some (seqs ! i)"
    using generate_all_nth [OF assms(1) [unfolded generate_def]] by auto
  then have "generate_angle phase exec (args_of (c, k)) (c, k) = Some (seqs ! i)" "i < length seqs"
    using lt ck by (metis, metis)
  then have "i < length seqs \<and> seq_c (seqs ! i) = of_nat c \<and> seq_k (seqs ! i) = of_nat k"
    by (auto dest: generate_angle_ck)
  then show ?thesis by (simp add: i_def)
qed

lemma generate_layout_witness:
  "\<exists>seqs. generate True (\<lambda>_. ''HTS0'') (\<lambda>_. []) 3 2 [] = Some seqs \<and>
     seq_c (seqs ! 4) = of_nat 2 \<and> seq_k (seqs ! 4) = of_nat 2"
proof -
  have "\<not> Option.is_none (generate True (\<lambda>_. ''HTS0'') (\<lambda>_. []) 3 2 [])" by code_simp
  then obtain seqs where "generate True (\<lambda>_. ''HTS0'') (\<lambda>_. []) 3 2 [] = Some seqs"
    by (auto simp: Option.is_none_def)
  then show ?thesis
    using generate_layout [of True "\<lambda>_. ''HTS0''" "\<lambda>_. []" 3 2 seqs 2 2] by simp
qed

text \<open>combining sequences of a generated library gives the concatenation, in the order of the
  indices, of what the decomposer printed for these angles (without the newlines), and its
  number of gates.\<close>

theorem combine_generated:
  assumes "generate phase exec args_of B J [] = Some seqs"
    and "\<forall>ck\<in>set (angle_list B J). exec (args_of ck) \<noteq> [] \<and> length (exec (args_of ck)) < 2 ^ 31"
    and "\<forall>i\<in>set indices. i < length (angle_list B J)"
  shows "let gates = concat (map (\<lambda>i. butlast (exec (args_of (angle_list B J ! i)))) indices)
    in seq_combine phase seqs indices (Some \<lparr>rz_length = 0, rz_gates = []\<rparr>) =
         Some \<lparr>rz_length = int (length gates), rz_gates = gates\<rparr>"
proof -
  let ?G = "\<lambda>i. butlast (exec (args_of (angle_list B J ! i)))"
  have len: "length seqs = length (angle_list B J)"
    and gen: "\<And>i. i < length (angle_list B J) \<Longrightarrow>
      generate_angle phase exec (args_of (angle_list B J ! i)) (angle_list B J ! i) = Some (seqs ! i)"
    using generate_all_nth [OF assms(1) [unfolded generate_def]] by auto
  have "i < length seqs \<and> sint (seq_l (seqs ! i)) = int (length (?G i)) \<and>
      (\<exists>bits. charBits_of_code (seq_word (seqs ! i)) = Some bits \<and> decode phase bits = Some (?G i))"
    if "i \<in> set indices" for i
  proof -
    have i: "i < length (angle_list B J)" using that assms(3) by blast
    then have ex: "exec (args_of (angle_list B J ! i)) \<noteq> []"
      "length (exec (args_of (angle_list B J ! i))) < 2 ^ 31" using assms(2) by auto
    from generate_angle_stored [OF gen [OF i] ex(2,1)] i ex(1) show ?thesis
      by (simp add: len of_nat_diff Suc_le_eq)
  qed
  then show ?thesis
    using combine_loop_generated [of indices seqs ?G] by (simp add: seq_combine_def Let_def)
qed

lemma combine_generated_witness:
  "\<exists>seqs. seq_combine True seqs [0, 2] (Some \<lparr>rz_length = 0, rz_gates = []\<rparr>) =
     Some \<lparr>rz_length = 6, rz_gates = ''HTSHTS''\<rparr>"
proof -
  have "\<not> Option.is_none (generate True (\<lambda>_. ''HTS0'') (\<lambda>_. []) 3 1 [])" by code_simp
  then obtain seqs where g: "generate True (\<lambda>_. ''HTS0'') (\<lambda>_. []) 3 1 [] = Some seqs"
    by (auto simp: Option.is_none_def)
  have "length (angle_list 3 1) = 3" by code_simp
  then have "seq_combine True seqs [0, 2] (Some \<lparr>rz_length = 0, rz_gates = []\<rparr>) =
     Some \<lparr>rz_length = int (length ''HTSHTS''), rz_gates = ''HTSHTS''\<rparr>"
    using combine_generated [OF g, of "[0, 2]"] by (simp add: Let_def)
  then show ?thesis by auto
qed

end
