(* ===== verification/Mesh_Geometry.thy ===== *)
theory Mesh_Geometry
  imports Prelude
begin

text \<open>
  Positions on the surface code mesh of \<open>braidflash/braidflash.cpp\<close>. Logical qubits are numbered
  row by row on a grid of \<open>num_cols\<close> columns; the router nodes around them are the points of a grid
  with one more row and one more column, numbered row by row as well. The functions take
  \<open>num_cols\<close>, a global variable of the program, as their first argument \<open>nc\<close>. Node and qubit
  numbers are far below \<open>2 ^ 32\<close> (the mesh is held in memory), so \<open>unsigned\<close> is modelled by
  natural numbers here.
\<close>

definition top_left :: "nat \<Rightarrow> nat \<Rightarrow> nat" where
  "top_left nc q = q + q div nc"

definition top_right :: "nat \<Rightarrow> nat \<Rightarrow> nat" where
  "top_right nc q = q + q div nc + 1"

definition bottom_left :: "nat \<Rightarrow> nat \<Rightarrow> nat" where
  "bottom_left nc q = q + q div nc + nc + 1"

definition bottom_right :: "nat \<Rightarrow> nat \<Rightarrow> nat" where
  "bottom_right nc q = q + q div nc + nc + 2"

definition find_diagonal :: "nat \<Rightarrow> nat \<Rightarrow> nat \<Rightarrow> nat" where
  "find_diagonal nc q n =
     (if n = top_left nc q then bottom_right nc q
      else if n = top_right nc q then bottom_left nc q
      else if n = bottom_left nc q then top_right nc q
      else if n = bottom_right nc q then top_left nc q
      else 0)"

definition find_vertical :: "nat \<Rightarrow> nat \<Rightarrow> nat \<Rightarrow> nat" where
  "find_vertical nc q n =
     (if n = top_left nc q then bottom_left nc q
      else if n = top_right nc q then bottom_right nc q
      else if n = bottom_left nc q then top_left nc q
      else if n = bottom_right nc q then top_right nc q
      else 0)"

definition find_horizontal :: "nat \<Rightarrow> nat \<Rightarrow> nat \<Rightarrow> nat" where
  "find_horizontal nc q n =
     (if n = top_left nc q then top_right nc q
      else if n = top_right nc q then top_left nc q
      else if n = bottom_left nc q then bottom_right nc q
      else if n = bottom_right nc q then bottom_left nc q
      else 0)"

text \<open>The corner of qubit \<open>q\<close> on the side of node \<open>src_node\<close>.\<close>

definition find_nearest :: "nat \<Rightarrow> nat \<Rightarrow> nat \<Rightarrow> nat" where
  "find_nearest nc q src_node =
     (let qubit_top_left_row = q div nc;
          qubit_top_left_col = q mod nc;
          src_row = src_node div (nc + 1);
          src_col = src_node mod (nc + 1)
      in if src_row \<le> qubit_top_left_row \<and> src_col \<le> qubit_top_left_col then top_left nc q
         else if src_row \<le> qubit_top_left_row \<and> src_col > qubit_top_left_col then top_right nc q
         else if src_row > qubit_top_left_row \<and> src_col \<le> qubit_top_left_col then bottom_left nc q
         else if src_row > qubit_top_left_row \<and> src_col > qubit_top_left_col then bottom_right nc q
         else 0)"

definition are_adjacent :: "nat \<Rightarrow> nat \<Rightarrow> nat \<Rightarrow> bool" where
  "are_adjacent nc src_qubit dest_qubit =
     (let src_row = src_qubit div nc; src_col = src_qubit mod nc;
          dest_row = dest_qubit div nc; dest_col = dest_qubit mod nc
      in src_row = dest_row \<and> max src_col dest_col - min src_col dest_col = 1)"

definition manhattan_cost :: "nat \<Rightarrow> nat \<Rightarrow> nat \<Rightarrow> nat" where
  "manhattan_cost nc src_qubit dest_qubit =
     (let src_row = src_qubit div nc; src_col = src_qubit mod nc;
          dest_row = dest_qubit div nc; dest_col = dest_qubit mod nc;
          row_dist = max src_row dest_row - min src_row dest_row;
          col_dist = max src_col dest_col - min src_col dest_col
      in row_dist + col_dist)"

text \<open>The first magic state of least cost; \<open>0\<close> when there is none. The running minimum starts at
  \<open>numeric_limits<unsigned>::max()\<close>.\<close>

fun closest_loop :: "nat \<Rightarrow> nat \<Rightarrow> nat list \<Rightarrow> nat \<Rightarrow> nat \<Rightarrow> nat" where
  "closest_loop nc q [] mcost result = result"
| "closest_loop nc q (m # ms) mcost result =
     (let d = manhattan_cost nc q m
      in if d < mcost then closest_loop nc q ms d m else closest_loop nc q ms mcost result)"

definition find_closest_magic :: "nat \<Rightarrow> nat \<Rightarrow> nat list \<Rightarrow> nat" where
  "find_closest_magic nc data_qid magic_qids = closest_loop nc data_qid magic_qids (2 ^ 32 - 1) 0"

subsection \<open>Nodes by row and column\<close>

definition node_at :: "nat \<Rightarrow> nat \<Rightarrow> nat \<Rightarrow> nat" where
  "node_at nc r c = r * (nc + 1) + c"

named_theorems corner_at

lemma top_left_at [corner_at]: "top_left nc q = node_at nc (q div nc) (q mod nc)"
  using div_mult_mod_eq [of q nc] by (simp add: top_left_def node_at_def)

lemma top_right_at [corner_at]: "top_right nc q = node_at nc (q div nc) (q mod nc + 1)"
  using top_left_at [of nc q] by (simp add: top_left_def top_right_def node_at_def)

lemma bottom_left_at [corner_at]: "bottom_left nc q = node_at nc (q div nc + 1) (q mod nc)"
  using top_left_at [of nc q] by (simp add: top_left_def bottom_left_def node_at_def)

lemma bottom_right_at [corner_at]: "bottom_right nc q = node_at nc (q div nc + 1) (q mod nc + 1)"
  using top_left_at [of nc q] by (simp add: top_left_def bottom_right_def node_at_def)

lemma node_at_row [simp]: "c \<le> nc \<Longrightarrow> node_at nc r c div Suc nc = r"
  unfolding node_at_def Suc_eq_plus1 by (subst div_mult_self3) simp_all

lemma node_at_col [simp]: "c \<le> nc \<Longrightarrow> node_at nc r c mod Suc nc = c"
  unfolding node_at_def Suc_eq_plus1 by (subst mod_mult_self3) simp

lemma node_at_inj: "c \<le> nc \<Longrightarrow> d \<le> nc \<Longrightarrow> node_at nc r c = node_at nc s d \<longleftrightarrow> r = s \<and> c = d"
  by (metis node_at_row node_at_col)

lemma node_at_cases: "\<exists>r c. n = node_at nc r c \<and> c \<le> nc"
  by (rule exI [of _ "n div (nc + 1)"], rule exI [of _ "n mod (nc + 1)"])
    (use mod_less_divisor [of "nc + 1" n] in \<open>simp only: node_at_def div_mult_mod_eq, simp\<close>)

lemma node_at_bound: "r \<le> nr \<Longrightarrow> c \<le> nc \<Longrightarrow> node_at nc r c < (nr + 1) * (nc + 1)"
proof -
  assume "r \<le> nr" "c \<le> nc"
  then have "r * (nc + 1) + c < r * (nc + 1) + (nc + 1)" by simp
  also have "\<dots> \<le> (nr + 1) * (nc + 1)"
    using \<open>r \<le> nr\<close> mult_le_mono1 [of "r + 1" "nr + 1" "nc + 1"] by simp
  finally show ?thesis by (simp add: node_at_def)
qed

lemma node_at_bound_row: "c \<le> nc \<Longrightarrow> node_at nc r c < (nr + 1) * (nc + 1) \<longleftrightarrow> r \<le> nr"
proof
  assume "c \<le> nc" and "node_at nc r c < (nr + 1) * (nc + 1)"
  then have "node_at nc r c div (nc + 1) < nr + 1"
    using less_mult_imp_div_less by blast
  then show "r \<le> nr" using \<open>c \<le> nc\<close> by simp
qed (rule node_at_bound)

lemma qubit_row: "(q::nat) < nr * nc \<Longrightarrow> q div nc < nr"
  by (simp add: less_mult_imp_div_less)

lemma qubit_col: "(q::nat) < nr * nc \<Longrightarrow> q mod nc < nc"
  by (cases "nc = 0") auto

subsection \<open>Moves between the corners of a qubit\<close>

definition corners :: "nat \<Rightarrow> nat \<Rightarrow> nat set" where
  "corners nc q = {top_left nc q, top_right nc q, bottom_left nc q, bottom_right nc q}"

text \<open>A move takes every corner to another one, and is its own inverse.\<close>

locale corner_move =
  fixes C :: "nat set" and move :: "nat \<Rightarrow> nat"
  assumes move_in: "n \<in> C \<Longrightarrow> move n \<in> C"
    and move_move: "n \<in> C \<Longrightarrow> move (move n) = n"
    and move_other: "n \<in> C \<Longrightarrow> move n \<noteq> n"
begin

lemma move_inj: "m \<in> C \<Longrightarrow> n \<in> C \<Longrightarrow> move m = move n \<Longrightarrow> m = n"
  by (metis move_move)

lemma move_image: "move ` C = C"
  using move_in move_move by (auto simp: image_iff) metis

end

lemma corners_distinct:
  "0 < nc \<Longrightarrow> distinct [top_left nc q, top_right nc q, bottom_left nc q, bottom_right nc q]"
  by (simp add: top_left_def top_right_def bottom_left_def bottom_right_def)

interpretation diagonal: corner_move "corners (Suc n) q" "find_diagonal (Suc n) q" for n q
  using corners_distinct [of "Suc n" q]
  by unfold_locales (auto simp: corners_def find_diagonal_def)

interpretation vertical: corner_move "corners (Suc n) q" "find_vertical (Suc n) q" for n q
  using corners_distinct [of "Suc n" q]
  by unfold_locales (auto simp: corners_def find_vertical_def)

interpretation horizontal: corner_move "corners (Suc n) q" "find_horizontal (Suc n) q" for n q
  using corners_distinct [of "Suc n" q]
  by unfold_locales (auto simp: corners_def find_horizontal_def)

lemma find_nearest_corner: "find_nearest nc q n \<in> corners nc q"
  by (auto simp: find_nearest_def corners_def Let_def)

end
