(* ===== verification/Mesh_Routes.thy ===== *)
theory Mesh_Routes
  imports Mesh_Geometry "HOL-Library.Monad_Syntax"
begin

text \<open>
  The mesh of router nodes and links and the routes of braids on it (\<open>braidflash.cpp\<close>: the
  mesh types, the loops of \<open>main\<close> that build the mesh, \<open>braid_merge\<close>, \<open>braid_short_L\<close>,
  \<open>braid_S\<close>, \<open>braid_dor\<close>, \<open>cnot_ancillas\<close>, \<open>cnot_routes\<close>). A link is the pair of its
  end nodes, the smaller first. A failed assertion and the use of an edge that does not exist
  (whose descriptor is not valid) are the result None.
\<close>

type_synonym link = "nat \<times> nat"

text \<open>The owner of a node or link is the sequence number of a gate, 0 when it is free.\<close>

record mesh =
  node_owner :: "nat list"
  link_owner :: "link \<rightharpoonup> nat"

record braid =
  nodes :: "nat list"
  links :: "link list"

definition link_key :: "nat \<Rightarrow> nat \<Rightarrow> link" where
  "link_key u v = (min u v, max u v)"

lemma link_key_sym: "link_key u v = link_key v u"
  by (simp add: link_key_def min.commute max.commute)

text \<open>\<open>node_map\<close> maps the number of each node to its vertex, which has the same number; the
  subscript of a missing key inserts vertex 0.\<close>

definition node_map :: "mesh \<Rightarrow> nat \<Rightarrow> nat" where
  "node_map m i = (if i < length (node_owner m) then i else 0)"

definition edge :: "mesh \<Rightarrow> nat \<Rightarrow> nat \<Rightarrow> link option" where
  "edge m u v = (if link_owner m (link_key u v) = None then None else Some (link_key u v))"

subsection \<open>Building the mesh\<close>

definition add_edge :: "nat \<Rightarrow> nat \<Rightarrow> mesh \<Rightarrow> mesh" where
  "add_edge u v m = m\<lparr>link_owner := (link_owner m)(link_key u v \<mapsto> 0)\<rparr>"

text \<open>A link added under a condition, as for the neighbours north, south, east and west of a node.\<close>

definition add_link_if :: "bool \<Rightarrow> nat \<Rightarrow> nat \<Rightarrow> mesh \<Rightarrow> mesh" where
  "add_link_if p i j m = (if p then add_edge (node_map m i) (node_map m j) m else m)"

definition add_links :: "nat \<Rightarrow> nat \<Rightarrow> mesh \<Rightarrow> nat \<Rightarrow> mesh" where
  "add_links nr nc m i =
     (let node_row = i div (nc + 1); node_col = i mod (nc + 1);
          north = add_link_if (node_row \<noteq> 0) i (i - nc - 1) m;
          south = add_link_if (node_row \<noteq> nr) i (i + nc + 1) north;
          east = add_link_if (node_col \<noteq> nc) i (i + 1) south
      in add_link_if (node_col \<noteq> 0) i (i - 1) east)"

definition build_mesh :: "nat \<Rightarrow> nat \<Rightarrow> mesh" where
  "build_mesh nr nc =
     foldl (add_links nr nc)
       \<lparr>node_owner = replicate ((nr + 1) * (nc + 1)) 0, link_owner = Map.empty\<rparr>
       [0..<(nr + 1) * (nc + 1)]"

subsection \<open>Braids\<close>

definition braid_merge :: "braid \<Rightarrow> braid \<Rightarrow> braid" where
  "braid_merge b1 b2 = \<lparr>nodes = nodes b1 @ nodes b2, links = links b1 @ links b2\<rparr>"

definition is_corner :: "nat \<Rightarrow> nat \<Rightarrow> nat \<Rightarrow> bool" where
  "is_corner nc q n \<longleftrightarrow>
     n = top_left nc q \<or> n = top_right nc q \<or> n = bottom_left nc q \<or> n = bottom_right nc q"

definition braid_short_L :: "nat \<Rightarrow> mesh \<Rightarrow> nat \<Rightarrow> nat \<Rightarrow> braid option" where
  "braid_short_L nc m qubit_num src_node =
     (if \<not> is_corner nc qubit_num src_node then None
      else let n1 = node_map m src_node;
               n2 = node_map m (find_horizontal nc qubit_num src_node);
               n3 = node_map m (find_diagonal nc qubit_num src_node)
           in do {
             l1 \<leftarrow> edge m n1 n2;
             l2 \<leftarrow> edge m n2 n3;
             Some \<lparr>nodes = [n2, n3], links = [l1, l2]\<rparr>
           })"

definition braid_S :: "nat \<Rightarrow> mesh \<Rightarrow> nat \<Rightarrow> nat \<Rightarrow> braid option" where
  "braid_S nc m qubit_num src_node =
     (if \<not> is_corner nc qubit_num src_node then None
      else let n1 = node_map m src_node;
               n2 = node_map m (find_diagonal nc qubit_num src_node)
           in do {
             l1 \<leftarrow> edge m n1 (find_vertical nc qubit_num src_node);
             l2 \<leftarrow> edge m n2 (find_horizontal nc qubit_num src_node);
             Some \<lparr>nodes = [n2], links = [l1, l2]\<rparr>
           })"

text \<open>The two loops of dimension ordered routing: along a row to column \<open>dest_col\<close>, and along a
  column to row \<open>dest_row\<close>, one step in the direction fixed before the loop. With the wrong
  direction they would not return.\<close>

partial_function (option) dor_cols ::
  "nat \<Rightarrow> mesh \<Rightarrow> int \<Rightarrow> nat \<Rightarrow> nat \<Rightarrow> nat \<Rightarrow> nat \<Rightarrow> braid \<Rightarrow> (nat \<times> nat \<times> braid) option" where
  "dor_cols nc m col_dir dest_col src_row src_col src_node b =
     (if src_col = dest_col then Some (src_col, src_node, b)
      else let src_col' = nat (int src_col + col_dir);
               src_node_next = src_row * (nc + 1) + src_col'
           in do {
             e1 \<leftarrow> edge m (node_map m src_node) (node_map m src_node_next);
             dor_cols nc m col_dir dest_col src_row src_col' src_node_next
               \<lparr>nodes = nodes b @ [node_map m src_node_next], links = links b @ [e1]\<rparr>
           })"

declare dor_cols.simps [code]

partial_function (option) dor_rows ::
  "nat \<Rightarrow> mesh \<Rightarrow> int \<Rightarrow> nat \<Rightarrow> nat \<Rightarrow> nat \<Rightarrow> nat \<Rightarrow> braid \<Rightarrow> (nat \<times> nat \<times> braid) option" where
  "dor_rows nc m row_dir dest_row src_col src_row src_node b =
     (if src_row = dest_row then Some (src_row, src_node, b)
      else let src_row' = nat (int src_row + row_dir);
               src_node_next = src_row' * (nc + 1) + src_col
           in do {
             e1 \<leftarrow> edge m (node_map m src_node) (node_map m src_node_next);
             dor_rows nc m row_dir dest_row src_col src_row' src_node_next
               \<lparr>nodes = nodes b @ [node_map m src_node_next], links = links b @ [e1]\<rparr>
           })"

declare dor_rows.simps [code]

definition braid_dor :: "nat \<Rightarrow> mesh \<Rightarrow> nat \<Rightarrow> nat \<Rightarrow> bool \<Rightarrow> braid option" where
  "braid_dor nc m src_node dest_node YX =
     (let src_row = src_node div (nc + 1); src_col = src_node mod (nc + 1);
          dest_row = dest_node div (nc + 1); dest_col = dest_node mod (nc + 1);
          row_dir = (if src_row < dest_row then 1 else -1);
          col_dir = (if src_col < dest_col then 1 else -1);
          b0 = \<lparr>nodes = [], links = []\<rparr>
      in if YX
         then do {
           (src_col', src_node', b1) \<leftarrow> dor_cols nc m col_dir dest_col src_row src_col src_node b0;
           (_, _, b2) \<leftarrow> dor_rows nc m row_dir dest_row src_col' src_row src_node' b1;
           Some b2
         }
         else do {
           (src_row', src_node', b1) \<leftarrow> dor_rows nc m row_dir dest_row src_col src_row src_node b0;
           (_, _, b2) \<leftarrow> dor_cols nc m col_dir dest_col src_row' src_col src_node' b1;
           Some b2
         })"

definition cnot_ancillas :: "nat \<Rightarrow> nat \<Rightarrow> nat \<Rightarrow> nat \<times> nat" where
  "cnot_ancillas nc src_qubit dest_qubit =
     (let src_row = src_qubit div nc; dest_row = dest_qubit div nc
      in if are_adjacent nc src_qubit dest_qubit
         then (if src_qubit < dest_qubit then (top_left nc src_qubit, bottom_left nc src_qubit)
               else (top_right nc src_qubit, bottom_right nc src_qubit))
         else (if src_row < dest_row then (top_right nc src_qubit, top_left nc src_qubit)
               else (bottom_left nc src_qubit, bottom_right nc src_qubit)))"

definition cnot_routes :: "nat \<Rightarrow> mesh \<Rightarrow> nat \<Rightarrow> nat \<Rightarrow> nat \<Rightarrow> bool \<Rightarrow> (braid \<times> braid) option" where
  "cnot_routes nc m src_qubit dest_qubit anc1 YX =
     (if are_adjacent nc src_qubit dest_qubit
      then let middle_top = find_horizontal nc src_qubit anc1;
               middle_bottom = find_diagonal nc src_qubit anc1;
               dest_bottom = find_horizontal nc dest_qubit middle_bottom
           in do {
             l1 \<leftarrow> edge m (node_map m anc1) (node_map m (find_vertical nc src_qubit anc1));
             l2 \<leftarrow> edge m (node_map m middle_top) (node_map m middle_bottom);
             l3 \<leftarrow> edge m (node_map m dest_bottom) (node_map m (find_vertical nc dest_qubit dest_bottom));
             l4 \<leftarrow> edge m (node_map m dest_bottom) (node_map m middle_bottom);
             Some (\<lparr>nodes = [node_map m dest_bottom], links = [l1, l2, l3]\<rparr>,
                   \<lparr>nodes = [node_map m middle_bottom, node_map m (find_vertical nc src_qubit anc1)],
                    links = [l4, l2, l1]\<rparr>)
           }
      else let diag_anc1 = find_diagonal nc src_qubit anc1;
               nearest_dest_node = find_nearest nc dest_qubit diag_anc1;
               diag_nearest_dest_node = find_diagonal nc dest_qubit nearest_dest_node;
               vertical_anc1 = find_vertical nc src_qubit anc1
           in do {
             S_section_1 \<leftarrow> braid_S nc m src_qubit anc1;
             dor_section_1 \<leftarrow> braid_dor nc m diag_anc1 nearest_dest_node YX;
             S_section_2 \<leftarrow> braid_S nc m dest_qubit nearest_dest_node;
             short_L_section_1 \<leftarrow> braid_short_L nc m dest_qubit diag_nearest_dest_node;
             dor_section_2 \<leftarrow> braid_dor nc m nearest_dest_node vertical_anc1 YX;
             S_section_3 \<leftarrow> braid_S nc m src_qubit vertical_anc1;
             Some (braid_merge (braid_merge S_section_1 dor_section_1) S_section_2,
                   braid_merge (braid_merge short_L_section_1 dor_section_2) S_section_3)
           })"

subsection \<open>The links of the mesh\<close>

definition grid_link :: "nat \<Rightarrow> nat \<Rightarrow> link \<Rightarrow> bool" where
  "grid_link nr nc l \<longleftrightarrow>
     (\<exists>r c. r \<le> nr \<and> c < nc \<and> l = (node_at nc r c, node_at nc r (c + 1))) \<or>
     (\<exists>r c. r < nr \<and> c \<le> nc \<and> l = (node_at nc r c, node_at nc (r + 1) c))"

text \<open>A mesh of \<open>nr\<close> by \<open>nc\<close> qubits: all nodes, and a link between two nodes exactly when they are
  neighbours.\<close>

definition grid_mesh :: "nat \<Rightarrow> nat \<Rightarrow> mesh \<Rightarrow> bool" where
  "grid_mesh nr nc m \<longleftrightarrow>
     length (node_owner m) = (nr + 1) * (nc + 1) \<and>
     (\<forall>l. link_owner m l \<noteq> None \<longleftrightarrow> grid_link nr nc l)"

definition links_at :: "nat \<Rightarrow> nat \<Rightarrow> nat \<Rightarrow> nat \<Rightarrow> link set" where
  "links_at nr nc r c =
     (if r \<noteq> 0 then {(node_at nc (r - 1) c, node_at nc r c)} else {}) \<union>
     (if r \<noteq> nr then {(node_at nc r c, node_at nc (r + 1) c)} else {}) \<union>
     (if c \<noteq> nc then {(node_at nc r c, node_at nc r (c + 1))} else {}) \<union>
     (if c \<noteq> 0 then {(node_at nc r (c - 1), node_at nc r c)} else {})"

lemma node_at_right [simp]: "Suc (node_at nc r c) = node_at nc r (Suc c)"
  by (simp add: node_at_def)

lemma node_at_down [simp]: "Suc (node_at nc r c + nc) = node_at nc (Suc r) c"
  by (simp add: node_at_def)

lemma node_at_up [simp]: "0 < r \<Longrightarrow> node_at nc r c - Suc nc = node_at nc (r - Suc 0) c"
  by (cases r) (simp_all add: node_at_def)

lemma node_at_left [simp]: "0 < c \<Longrightarrow> node_at nc r c - Suc 0 = node_at nc r (c - Suc 0)"
  by (cases c) (simp_all add: node_at_def)

lemma node_at_le_right: "c \<le> d \<Longrightarrow> node_at nc r c \<le> node_at nc r d"
  by (simp add: node_at_def)

lemma node_at_le_down: "r \<le> s \<Longrightarrow> node_at nc r c \<le> node_at nc s c"
  unfolding node_at_def by (intro add_mono mult_le_mono1) simp_all

lemma link_key_right [simp]: "c \<le> d \<Longrightarrow> link_key (node_at nc r c) (node_at nc r d) =
    (node_at nc r c, node_at nc r d)"
  by (simp add: link_key_def node_at_le_right)

lemma link_key_left [simp]: "c \<le> d \<Longrightarrow> link_key (node_at nc r d) (node_at nc r c) =
    (node_at nc r c, node_at nc r d)"
  by (subst link_key_sym) simp

lemma link_key_down [simp]: "r \<le> s \<Longrightarrow> link_key (node_at nc r c) (node_at nc s c) =
    (node_at nc r c, node_at nc s c)"
  by (simp add: link_key_def node_at_le_down)

lemma link_key_up [simp]: "r \<le> s \<Longrightarrow> link_key (node_at nc s c) (node_at nc r c) =
    (node_at nc r c, node_at nc s c)"
  by (subst link_key_sym) simp

lemma add_edge_simps [simp]:
  "node_owner (add_edge u v m) = node_owner m"
  "node_map (add_edge u v m) = node_map m"
  "link_owner (add_edge u v m) = (link_owner m)(link_key u v \<mapsto> 0)"
  by (simp_all add: add_edge_def node_map_def fun_eq_iff)

lemma add_link_if_simps [simp]:
  "node_owner (add_link_if p i j m) = node_owner m"
  "node_map (add_link_if p i j m) = node_map m"
  "link_owner (add_link_if p i j m) l =
     (if p \<and> l = link_key (node_map m i) (node_map m j) then Some 0 else link_owner m l)"
  by (simp_all add: add_link_if_def)

lemma node_map_node_at:
  "length (node_owner m) = (nr + 1) * (nc + 1) \<Longrightarrow> r \<le> nr \<Longrightarrow> c \<le> nc \<Longrightarrow>
   node_map m (node_at nc r c) = node_at nc r c"
  using node_at_bound [of r nr c nc] by (simp add: node_map_def)

lemma add_links_at:
  assumes "length (node_owner m) = (nr + 1) * (nc + 1)" and "r \<le> nr" and "c \<le> nc"
  shows "node_owner (add_links nr nc m (node_at nc r c)) = node_owner m"
    and "link_owner (add_links nr nc m (node_at nc r c)) l =
           (if l \<in> links_at nr nc r c then Some 0 else link_owner m l)"
proof -
  note nm = node_map_node_at [OF assms(1)]
  show "node_owner (add_links nr nc m (node_at nc r c)) = node_owner m"
    by (simp add: add_links_def Let_def)
  have mem: "l \<in> links_at nr nc r c \<longleftrightarrow>
      c \<noteq> 0 \<and> l = (node_at nc r (c - 1), node_at nc r c) \<or>
      c \<noteq> nc \<and> l = (node_at nc r c, node_at nc r (c + 1)) \<or>
      r \<noteq> nr \<and> l = (node_at nc r c, node_at nc (r + 1) c) \<or>
      r \<noteq> 0 \<and> l = (node_at nc (r - 1) c, node_at nc r c)"
    by (auto simp: links_at_def)
  let ?i = "node_at nc r c"
  have west: "c \<noteq> 0 \<Longrightarrow> link_key (node_map m ?i) (node_map m (?i - 1)) = (node_at nc r (c - 1), ?i)"
    and east: "c \<noteq> nc \<Longrightarrow> link_key (node_map m ?i) (node_map m (?i + 1)) = (?i, node_at nc r (c + 1))"
    and south: "r \<noteq> nr \<Longrightarrow>
      link_key (node_map m ?i) (node_map m (?i + nc + 1)) = (?i, node_at nc (r + 1) c)"
    and north: "r \<noteq> 0 \<Longrightarrow>
      link_key (node_map m ?i) (node_map m (?i - nc - 1)) = (node_at nc (r - 1) c, ?i)"
    using assms(2,3) by (simp_all add: nm)
  have rc: "?i div (nc + 1) = r" "?i mod (nc + 1) = c" using assms(3) by simp_all
  have "link_owner (add_links nr nc m ?i) l =
     (if c \<noteq> 0 \<and> l = (node_at nc r (c - 1), ?i) then Some 0
      else if c \<noteq> nc \<and> l = (?i, node_at nc r (c + 1)) then Some 0
      else if r \<noteq> nr \<and> l = (?i, node_at nc (r + 1) c) then Some 0
      else if r \<noteq> 0 \<and> l = (node_at nc (r - 1) c, ?i) then Some 0
      else link_owner m l)"
    by (simp only: add_links_def Let_def add_link_if_simps rc west east south north
        not_False_eq_True cong: conj_cong)
  then show "link_owner (add_links nr nc m ?i) l =
           (if l \<in> links_at nr nc r c then Some 0 else link_owner m l)"
    unfolding mem by argo
qed

definition touched :: "nat \<Rightarrow> nat \<Rightarrow> nat list \<Rightarrow> link \<Rightarrow> bool" where
  "touched nr nc is l \<longleftrightarrow>
     (\<exists>r c. node_at nc r c \<in> set is \<and> r \<le> nr \<and> c \<le> nc \<and> l \<in> links_at nr nc r c)"

lemma touched_Cons:
  "r \<le> nr \<Longrightarrow> c \<le> nc \<Longrightarrow>
   touched nr nc (node_at nc r c # is) l \<longleftrightarrow> l \<in> links_at nr nc r c \<or> touched nr nc is l"
  unfolding touched_def by (auto simp: node_at_inj)

lemma foldl_add_links:
  assumes "length (node_owner m) = (nr + 1) * (nc + 1)"
    and "\<forall>i\<in>set is. \<exists>r c. i = node_at nc r c \<and> r \<le> nr \<and> c \<le> nc"
  shows "node_owner (foldl (add_links nr nc) m is) = node_owner m \<and>
    link_owner (foldl (add_links nr nc) m is) l =
      (if touched nr nc is l then Some 0 else link_owner m l)"
  using assms
proof (induction "is" arbitrary: m)
  case Nil
  then show ?case by (simp add: touched_def)
next
  case (Cons i "is")
  then obtain r c where i: "i = node_at nc r c" "r \<le> nr" "c \<le> nc" by auto
  let ?m = "add_links nr nc m i"
  have m: "node_owner ?m = node_owner m"
    "link_owner ?m l = (if l \<in> links_at nr nc r c then Some 0 else link_owner m l)"
    using Cons.prems(1) i by (simp_all add: add_links_at)
  have "node_owner (foldl (add_links nr nc) ?m is) = node_owner ?m \<and>
    link_owner (foldl (add_links nr nc) ?m is) l =
      (if touched nr nc is l then Some 0 else link_owner ?m l)"
    using Cons.prems m(1) by (intro Cons.IH) simp_all
  then show ?case
    unfolding foldl_Cons i touched_Cons [OF i(2,3)] m(1) [unfolded i] m(2) [unfolded i] by simp
qed

lemma links_at_grid:
  "(\<exists>r c. r \<le> nr \<and> c \<le> nc \<and> l \<in> links_at nr nc r c) \<longleftrightarrow> grid_link nr nc l"
proof
  assume "\<exists>r c. r \<le> nr \<and> c \<le> nc \<and> l \<in> links_at nr nc r c"
  then obtain r c where rc: "r \<le> nr" "c \<le> nc" "l \<in> links_at nr nc r c" by blast
  then consider "r \<noteq> 0" "l = (node_at nc (r - 1) c, node_at nc (r - 1 + 1) c)"
    | "r < nr" "l = (node_at nc r c, node_at nc (r + 1) c)"
    | "c < nc" "l = (node_at nc r c, node_at nc r (c + 1))"
    | "c \<noteq> 0" "l = (node_at nc r (c - 1), node_at nc r (c - 1 + 1))"
    by (auto simp: links_at_def split: if_splits)
  then show "grid_link nr nc l"
  proof cases
    case 1
    then show ?thesis using rc unfolding grid_link_def
      by (intro disjI2 exI [of _ "r - 1"] exI [of _ c]) auto
  next
    case 4
    then show ?thesis using rc unfolding grid_link_def
      by (intro disjI1 exI [of _ r] exI [of _ "c - 1"]) auto
  qed (use rc in \<open>auto simp: grid_link_def\<close>)
next
  assume "grid_link nr nc l"
  then consider r c where "r \<le> nr" "c < nc" "l = (node_at nc r c, node_at nc r (c + 1))"
    | r c where "r < nr" "c \<le> nc" "l = (node_at nc r c, node_at nc (r + 1) c)"
    unfolding grid_link_def by blast
  then show "\<exists>r c. r \<le> nr \<and> c \<le> nc \<and> l \<in> links_at nr nc r c"
  proof cases
    case (1 r c)
    then show ?thesis by (intro exI [of _ r] exI [of _ c]) (simp add: links_at_def)
  next
    case (2 r c)
    then show ?thesis by (intro exI [of _ r] exI [of _ c]) (simp add: links_at_def)
  qed
qed

lemma build_mesh_owner:
  "node_owner (build_mesh nr nc) = replicate ((nr + 1) * (nc + 1)) 0"
  "link_owner (build_mesh nr nc) l = (if grid_link nr nc l then Some 0 else None)"
proof -
  let ?m = "\<lparr>node_owner = replicate ((nr + 1) * (nc + 1)) 0, link_owner = Map.empty\<rparr>"
  let ?is = "[0..<(nr + 1) * (nc + 1)]"
  have all: "\<forall>i\<in>set ?is. \<exists>r c. i = node_at nc r c \<and> r \<le> nr \<and> c \<le> nc"
    using node_at_cases [of _ nc] by (metis atLeast0LessThan lessThan_iff node_at_bound_row set_upt)
  have f: "node_owner (build_mesh nr nc) = node_owner ?m \<and>
    link_owner (build_mesh nr nc) l = (if touched nr nc ?is l then Some 0 else link_owner ?m l)" for l
    unfolding build_mesh_def by (rule foldl_add_links [OF _ all]) simp
  then show "node_owner (build_mesh nr nc) = replicate ((nr + 1) * (nc + 1)) 0" by simp
  have "touched nr nc ?is l \<longleftrightarrow> grid_link nr nc l"
    using links_at_grid [of nr nc l] node_at_bound [of _ nr _ nc]
    unfolding touched_def by (metis atLeast0LessThan lessThan_iff set_upt)
  with f show "link_owner (build_mesh nr nc) l = (if grid_link nr nc l then Some 0 else None)"
    by simp
qed

lemma build_mesh_grid: "grid_mesh nr nc (build_mesh nr nc)"
  by (simp add: grid_mesh_def build_mesh_owner)

subsection \<open>Edges of a grid mesh\<close>

lemma edge_grid:
  "grid_mesh nr nc m \<Longrightarrow> grid_link nr nc (link_key u v) \<Longrightarrow> edge m u v = Some (link_key u v)"
  by (auto simp: grid_mesh_def edge_def simp del: split_paired_All)

lemma grid_link_rowI: "r \<le> nr \<Longrightarrow> c < nc \<Longrightarrow> grid_link nr nc (node_at nc r c, node_at nc r (Suc c))"
  unfolding grid_link_def Suc_eq_plus1 by blast

lemma grid_link_colI: "r < nr \<Longrightarrow> c \<le> nc \<Longrightarrow> grid_link nr nc (node_at nc r c, node_at nc (Suc r) c)"
  unfolding grid_link_def Suc_eq_plus1 by blast

lemma grid_link_row:
  assumes "r \<le> nr" and "c \<le> nc" and "d \<le> nc" and "d = Suc c \<or> c = Suc d"
  shows "grid_link nr nc (link_key (node_at nc r c) (node_at nc r d))"
  using assms by (auto simp: grid_link_rowI Suc_le_eq)

lemma grid_link_col:
  assumes "r \<le> nr" and "s \<le> nr" and "c \<le> nc" and "s = Suc r \<or> r = Suc s"
  shows "grid_link nr nc (link_key (node_at nc r c) (node_at nc s c))"
  using assms by (auto simp: grid_link_colI Suc_le_eq)

lemma node_map_grid:
  "grid_mesh nr nc m \<Longrightarrow> r \<le> nr \<Longrightarrow> c \<le> nc \<Longrightarrow> node_map m (node_at nc r c) = node_at nc r c"
  by (simp add: grid_mesh_def node_map_node_at)

subsection \<open>Walks\<close>

fun path_links :: "nat \<Rightarrow> nat list \<Rightarrow> link list" where
  "path_links s [] = []"
| "path_links s (n # ns) = link_key s n # path_links n ns"

text \<open>The nodes \<open>ns\<close> follow node \<open>s\<close> on the mesh, each a neighbour of the one before, up to \<open>t\<close>.\<close>

definition walk :: "nat \<Rightarrow> nat \<Rightarrow> nat \<Rightarrow> nat list \<Rightarrow> nat \<Rightarrow> bool" where
  "walk nr nc s ns t \<longleftrightarrow>
     last (s # ns) = t \<and> (\<forall>l\<in>set (path_links s ns). grid_link nr nc l) \<and>
     (\<forall>n\<in>set ns. n < (nr + 1) * (nc + 1))"

lemma walk_Nil: "walk nr nc s [] s"
  by (simp add: walk_def)

lemma walk_Cons:
  "grid_link nr nc (link_key s n) \<Longrightarrow> n < (nr + 1) * (nc + 1) \<Longrightarrow> walk nr nc n ns t \<Longrightarrow>
   walk nr nc s (n # ns) t"
  by (simp add: walk_def)

lemma path_links_append: "path_links s (ns @ ms) = path_links s ns @ path_links (last (s # ns)) ms"
  by (induction ns arbitrary: s) auto

lemma length_path_links [simp]: "length (path_links s ns) = length ns"
  by (induction ns arbitrary: s) auto

lemma walk_append:
  "walk nr nc s ns t \<Longrightarrow> walk nr nc t ms u \<Longrightarrow> walk nr nc s (ns @ ms) u"
  by (auto simp: walk_def path_links_append)

lemma node_at_expand: "r + r * nc + c = node_at nc r c"
  by (simp add: node_at_def)

definition toward :: "nat \<Rightarrow> nat \<Rightarrow> int \<Rightarrow> bool" where
  "toward a b dir \<longleftrightarrow> (a < b \<longrightarrow> dir = 1) \<and> (b < a \<longrightarrow> dir = -1)"

definition gap :: "nat \<Rightarrow> nat \<Rightarrow> nat" where
  "gap a b = max a b - min a b"

lemma toward_step:
  assumes "toward a b dir" and "gap a b = Suc n" and "a \<le> k" and "b \<le> k"
  shows "\<exists>a'. nat (int a + dir) = a' \<and> (a' = Suc a \<or> a = Suc a') \<and> a' \<le> k \<and>
    toward a' b dir \<and> gap a' b = n"
  using assms by (intro exI [of _ "nat (int a + dir)"]) (auto simp: toward_def gap_def)

lemma dor_cols_walk:
  assumes g: "grid_mesh nr nc m" and r: "r \<le> nr"
  shows "c \<le> nc \<Longrightarrow> d \<le> nc \<Longrightarrow> toward c d dir \<Longrightarrow> gap c d = n \<Longrightarrow>
    \<exists>ns. dor_cols nc m dir d r c (node_at nc r c) b =
        Some (d, node_at nc r d,
          \<lparr>nodes = nodes b @ ns, links = links b @ path_links (node_at nc r c) ns\<rparr>) \<and>
      walk nr nc (node_at nc r c) ns (node_at nc r d) \<and> length ns = n"
proof (induction n arbitrary: c b)
  case 0
  then have "c = d" by (simp add: gap_def)
  then show ?case by (subst dor_cols.simps) (simp add: walk_Nil)
next
  case (Suc n)
  obtain c' where c': "nat (int c + dir) = c'" "c' = Suc c \<or> c = Suc c'" "c' \<le> nc"
    "toward c' d dir" "gap c' d = n"
    using toward_step [OF Suc.prems(3,4,1,2)] by blast
  have ne: "c \<noteq> d" using Suc.prems by (auto simp: gap_def)
  have l: "grid_link nr nc (link_key (node_at nc r c) (node_at nc r c'))"
    using c' Suc.prems r by (intro grid_link_row) auto
  let ?b = "\<lparr>nodes = nodes b @ [node_at nc r c'],
    links = links b @ [link_key (node_at nc r c) (node_at nc r c')]\<rparr>"
  obtain ns where ns: "dor_cols nc m dir d r c' (node_at nc r c') ?b =
      Some (d, node_at nc r d, \<lparr>nodes = nodes ?b @ ns, links = links ?b @ path_links (node_at nc r c') ns\<rparr>)"
    "walk nr nc (node_at nc r c') ns (node_at nc r d)" "length ns = n"
    using Suc.IH [OF c'(3) Suc.prems(2) c'(4,5)] by blast
  have "dor_cols nc m dir d r c (node_at nc r c) b = dor_cols nc m dir d r c' (node_at nc r c') ?b"
    using ne c' Suc.prems r
    by (subst dor_cols.simps) (simp add: Let_def node_at_expand node_map_grid [OF g] edge_grid [OF g l])
  then show ?case using ns l c' r
    by (intro exI [of _ "node_at nc r c' # ns"]) (auto intro: walk_Cons node_at_bound)
qed

lemma dor_rows_walk:
  assumes g: "grid_mesh nr nc m" and c: "c \<le> nc"
  shows "r \<le> nr \<Longrightarrow> d \<le> nr \<Longrightarrow> toward r d dir \<Longrightarrow> gap r d = n \<Longrightarrow>
    \<exists>ns. dor_rows nc m dir d c r (node_at nc r c) b =
        Some (d, node_at nc d c,
          \<lparr>nodes = nodes b @ ns, links = links b @ path_links (node_at nc r c) ns\<rparr>) \<and>
      walk nr nc (node_at nc r c) ns (node_at nc d c) \<and> length ns = n"
proof (induction n arbitrary: r b)
  case 0
  then have "r = d" by (simp add: gap_def)
  then show ?case by (subst dor_rows.simps) (simp add: walk_Nil)
next
  case (Suc n)
  obtain r' where r': "nat (int r + dir) = r'" "r' = Suc r \<or> r = Suc r'" "r' \<le> nr"
    "toward r' d dir" "gap r' d = n"
    using toward_step [OF Suc.prems(3,4,1,2)] by blast
  have ne: "r \<noteq> d" using Suc.prems by (auto simp: gap_def)
  have l: "grid_link nr nc (link_key (node_at nc r c) (node_at nc r' c))"
    using r' Suc.prems c by (intro grid_link_col) auto
  let ?b = "\<lparr>nodes = nodes b @ [node_at nc r' c],
    links = links b @ [link_key (node_at nc r c) (node_at nc r' c)]\<rparr>"
  obtain ns where ns: "dor_rows nc m dir d c r' (node_at nc r' c) ?b =
      Some (d, node_at nc d c, \<lparr>nodes = nodes ?b @ ns, links = links ?b @ path_links (node_at nc r' c) ns\<rparr>)"
    "walk nr nc (node_at nc r' c) ns (node_at nc d c)" "length ns = n"
    using Suc.IH [OF r'(3) Suc.prems(2) r'(4,5)] by blast
  have "dor_rows nc m dir d c r (node_at nc r c) b = dor_rows nc m dir d c r' (node_at nc r' c) ?b"
    using ne r' Suc.prems c
    by (subst dor_rows.simps) (simp add: Let_def node_at_expand node_map_grid [OF g] edge_grid [OF g l])
  then show ?case using ns l r' c
    by (intro exI [of _ "node_at nc r' c # ns"]) (auto intro: walk_Cons node_at_bound)
qed

lemma toward_dir: "toward a b (if a < b then 1 else -1)"
  by (simp add: toward_def)

lemma braid_dor_walk:
  assumes g: "grid_mesh nr nc m" and "r \<le> nr" "c \<le> nc" "r' \<le> nr" "c' \<le> nc"
  shows "\<exists>ns. braid_dor nc m (node_at nc r c) (node_at nc r' c') YX =
       Some \<lparr>nodes = ns, links = path_links (node_at nc r c) ns\<rparr> \<and>
     walk nr nc (node_at nc r c) ns (node_at nc r' c') \<and> length ns = gap r r' + gap c c'"
proof (cases YX)
  case True
  let ?b0 = "\<lparr>nodes = [], links = []\<rparr>"
  obtain ns where ns: "dor_cols nc m (if c < c' then 1 else -1) c' r c (node_at nc r c) ?b0 =
      Some (c', node_at nc r c', \<lparr>nodes = ns, links = path_links (node_at nc r c) ns\<rparr>)"
    "walk nr nc (node_at nc r c) ns (node_at nc r c')" "length ns = gap c c'"
    using dor_cols_walk [OF g assms(2,3,5) toward_dir refl, of ?b0] by auto
  let ?b1 = "\<lparr>nodes = ns, links = path_links (node_at nc r c) ns\<rparr>"
  obtain ms where ms: "dor_rows nc m (if r < r' then 1 else -1) r' c' r (node_at nc r c') ?b1 =
      Some (r', node_at nc r' c', \<lparr>nodes = ns @ ms,
        links = path_links (node_at nc r c) ns @ path_links (node_at nc r c') ms\<rparr>)"
    "walk nr nc (node_at nc r c') ms (node_at nc r' c')" "length ms = gap r r'"
    using dor_rows_walk [OF g assms(5,2,4) toward_dir refl, of ?b1] by auto
  have "last (node_at nc r c # ns) = node_at nc r c'" using ns(2) by (simp add: walk_def)
  then show ?thesis using True ns ms assms walk_append [OF ns(2) ms(2)]
    by (intro exI [of _ "ns @ ms"]) (simp add: braid_dor_def Let_def path_links_append)
next
  case False
  let ?b0 = "\<lparr>nodes = [], links = []\<rparr>"
  obtain ns where ns: "dor_rows nc m (if r < r' then 1 else -1) r' c r (node_at nc r c) ?b0 =
      Some (r', node_at nc r' c, \<lparr>nodes = ns, links = path_links (node_at nc r c) ns\<rparr>)"
    "walk nr nc (node_at nc r c) ns (node_at nc r' c)" "length ns = gap r r'"
    using dor_rows_walk [OF g assms(3,2,4) toward_dir refl, of ?b0] by auto
  let ?b1 = "\<lparr>nodes = ns, links = path_links (node_at nc r c) ns\<rparr>"
  obtain ms where ms: "dor_cols nc m (if c < c' then 1 else -1) c' r' c (node_at nc r' c) ?b1 =
      Some (c', node_at nc r' c', \<lparr>nodes = ns @ ms,
        links = path_links (node_at nc r c) ns @ path_links (node_at nc r' c) ms\<rparr>)"
    "walk nr nc (node_at nc r' c) ms (node_at nc r' c')" "length ms = gap c c'"
    using dor_cols_walk [OF g assms(4,3,5) toward_dir refl, of ?b1] by auto
  have "last (node_at nc r c # ns) = node_at nc r' c" using ns(2) by (simp add: walk_def)
  then show ?thesis using False ns ms assms walk_append [OF ns(2) ms(2)]
    by (intro exI [of _ "ns @ ms"]) (simp add: braid_dor_def Let_def path_links_append)
qed

subsection \<open>Sections of a route around a qubit\<close>

lemma corner_moves:
  assumes "0 < nc"
  shows "find_diagonal nc q (top_left nc q) = bottom_right nc q"
    "find_diagonal nc q (top_right nc q) = bottom_left nc q"
    "find_diagonal nc q (bottom_left nc q) = top_right nc q"
    "find_diagonal nc q (bottom_right nc q) = top_left nc q"
    "find_vertical nc q (top_left nc q) = bottom_left nc q"
    "find_vertical nc q (top_right nc q) = bottom_right nc q"
    "find_vertical nc q (bottom_left nc q) = top_left nc q"
    "find_vertical nc q (bottom_right nc q) = top_right nc q"
    "find_horizontal nc q (top_left nc q) = top_right nc q"
    "find_horizontal nc q (top_right nc q) = top_left nc q"
    "find_horizontal nc q (bottom_left nc q) = bottom_right nc q"
    "find_horizontal nc q (bottom_right nc q) = bottom_left nc q"
  using assms by (auto simp: find_diagonal_def find_vertical_def find_horizontal_def
      top_left_def top_right_def bottom_left_def bottom_right_def)

text \<open>A braid all of whose links exist and whose nodes are nodes of the mesh.\<close>

definition braid_in :: "nat \<Rightarrow> nat \<Rightarrow> braid \<Rightarrow> bool" where
  "braid_in nr nc b \<longleftrightarrow>
     (\<forall>l\<in>set (links b). grid_link nr nc l) \<and> (\<forall>n\<in>set (nodes b). n < (nr + 1) * (nc + 1))"

lemma braid_in_merge: "braid_in nr nc a \<Longrightarrow> braid_in nr nc b \<Longrightarrow> braid_in nr nc (braid_merge a b)"
  by (auto simp: braid_in_def braid_merge_def)

lemma is_corner_cases:
  assumes "is_corner nc q n"
  obtains "n = top_left nc q" | "n = top_right nc q" | "n = bottom_left nc q" | "n = bottom_right nc q"
  using assms by (auto simp: is_corner_def)

lemma is_corner_corners: "is_corner nc q n \<longleftrightarrow> n \<in> corners nc q"
  by (simp add: is_corner_def corners_def)

lemma qubit_at:
  fixes q :: nat
  assumes "q < nr * nc"
  obtains r c where "q div nc = r" and "q mod nc = c" and "r < nr" and "c < nc" and "0 < nc"
proof -
  have "0 < nc" using assms by (cases nc) auto
  then show thesis using that qubit_row [OF assms] qubit_col [OF assms] by blast
qed

lemma braid_S_ok:
  assumes g: "grid_mesh nr nc m" and q: "q < nr * nc" and n: "is_corner nc q n"
  shows "\<exists>b. braid_S nc m q n = Some b \<and> braid_in nr nc b \<and> length (links b) = 2"
proof -
  obtain r c where rc: "q div nc = r" "q mod nc = c" "r < nr" "c < nc" "0 < nc"
    by (rule qubit_at [OF q])
  note facts = rc(1,2) corner_at node_map_grid [OF g] edge_grid [OF g]
    grid_link_rowI grid_link_colI braid_in_def node_at_bound [of _ nr _ nc]
  have u: "braid_S nc m q n = do {
      l1 \<leftarrow> edge m (node_map m n) (find_vertical nc q n);
      l2 \<leftarrow> edge m (node_map m (find_diagonal nc q n)) (find_horizontal nc q n);
      Some \<lparr>nodes = [node_map m (find_diagonal nc q n)], links = [l1, l2]\<rparr>}"
    using n by (simp add: braid_S_def Let_def)
  from n show ?thesis
    unfolding u using rc(3-5) node_at_bound [of "Suc r" nr c nc] node_at_bound [of "Suc r" nr "Suc c" nc]
      node_at_bound [of r nr c nc] node_at_bound [of r nr "Suc c" nc]
    by (cases rule: is_corner_cases) (simp_all add: corner_moves, simp_all add: facts)
qed

lemma braid_short_L_ok:
  assumes g: "grid_mesh nr nc m" and q: "q < nr * nc" and n: "is_corner nc q n"
  shows "\<exists>b. braid_short_L nc m q n = Some b \<and> braid_in nr nc b \<and> length (links b) = 2"
proof -
  obtain r c where rc: "q div nc = r" "q mod nc = c" "r < nr" "c < nc" "0 < nc"
    by (rule qubit_at [OF q])
  note facts = rc(1,2) corner_at node_map_grid [OF g] edge_grid [OF g]
    grid_link_rowI grid_link_colI braid_in_def
  have u: "braid_short_L nc m q n = do {
      l1 \<leftarrow> edge m (node_map m n) (node_map m (find_horizontal nc q n));
      l2 \<leftarrow> edge m (node_map m (find_horizontal nc q n)) (node_map m (find_diagonal nc q n));
      Some \<lparr>nodes = [node_map m (find_horizontal nc q n), node_map m (find_diagonal nc q n)],
            links = [l1, l2]\<rparr>}"
    using n by (simp add: braid_short_L_def Let_def)
  from n show ?thesis
    unfolding u using rc(3-5) node_at_bound [of "Suc r" nr c nc] node_at_bound [of "Suc r" nr "Suc c" nc]
      node_at_bound [of r nr c nc] node_at_bound [of r nr "Suc c" nc]
    by (cases rule: is_corner_cases) (simp_all add: corner_moves, simp_all add: facts)
qed

lemma node_coords:
  assumes "n < (nr + 1) * (nc + 1)"
  obtains r c where "n = node_at nc r c" and "r \<le> nr" and "c \<le> nc"
    and "n div (nc + 1) = r" and "n mod (nc + 1) = c"
proof -
  obtain r c where rc: "n = node_at nc r c" "c \<le> nc" using node_at_cases by blast
  then show thesis using assms node_at_bound_row [OF rc(2), of r nr] by (intro that [of r c]) auto
qed

lemma dor_walk:
  assumes g: "grid_mesh nr nc m" and s: "s < (nr + 1) * (nc + 1)" and d: "d < (nr + 1) * (nc + 1)"
  shows "\<exists>ns. braid_dor nc m s d YX = Some \<lparr>nodes = ns, links = path_links s ns\<rparr> \<and>
     walk nr nc s ns d \<and>
     length ns = gap (s div (nc + 1)) (d div (nc + 1)) + gap (s mod (nc + 1)) (d mod (nc + 1))"
proof -
  obtain r c where s': "s = node_at nc r c" "r \<le> nr" "c \<le> nc" "s div (nc + 1) = r" "s mod (nc + 1) = c"
    by (rule node_coords [OF s])
  obtain r' c' where d': "d = node_at nc r' c'" "r' \<le> nr" "c' \<le> nc" "d div (nc + 1) = r'"
    "d mod (nc + 1) = c'" by (rule node_coords [OF d])
  show ?thesis
    using braid_dor_walk [OF g s'(2,3) d'(2,3), of YX] s'(3) d'(3) by (simp add: s'(1) d'(1))
qed

lemma corner_bound:
  assumes q: "q < nr * nc" and n: "is_corner nc q n"
  shows "n < (nr + 1) * (nc + 1)"
proof -
  obtain r c where rc: "q div nc = r" "q mod nc = c" "r < nr" "c < nc" "0 < nc"
    by (rule qubit_at [OF q])
  from n show ?thesis
    using rc(3-5) node_at_bound [of "Suc r" nr c nc] node_at_bound [of "Suc r" nr "Suc c" nc]
      node_at_bound [of r nr c nc] node_at_bound [of r nr "Suc c" nc]
    by (cases rule: is_corner_cases) (simp_all add: corner_at rc(1,2))
qed

lemma braid_dor_corners:
  assumes "grid_mesh nr nc m" and "q < nr * nc" and "is_corner nc q n" and "p < nr * nc"
    and "is_corner nc p k"
  shows "\<exists>b. braid_dor nc m n k YX = Some b \<and> braid_in nr nc b"
  using dor_walk [OF assms(1) corner_bound [OF assms(2,3)] corner_bound [OF assms(4,5)], of YX]
  by (force simp: walk_def braid_in_def)

lemma move_corner:
  assumes "0 < nc" and "is_corner nc q n"
  shows "is_corner nc q (find_diagonal nc q n)" and "is_corner nc q (find_vertical nc q n)"
    and "is_corner nc q (find_horizontal nc q n)"
  using assms gr0_conv_Suc [of nc]
  by (auto simp: is_corner_corners dest: diagonal.move_in vertical.move_in horizontal.move_in)

lemma cnot_ancillas_corner: "cnot_ancillas nc p q = (a1, a2) \<Longrightarrow> is_corner nc p a1 \<and> is_corner nc p a2"
  by (auto simp: cnot_ancillas_def is_corner_def Let_def split: if_splits)

lemma cnot_ancillas_linked:
  assumes g: "grid_mesh nr nc m" and q: "p < nr * nc" and a: "cnot_ancillas nc p q = (a1, a2)"
  shows "edge m a1 a2 = Some (link_key a1 a2)"
proof -
  obtain r c where rc: "p div nc = r" "p mod nc = c" "r < nr" "c < nc" "0 < nc"
    by (rule qubit_at [OF q])
  show ?thesis
    using a rc(3-5)
    by (auto simp: cnot_ancillas_def Let_def corner_at rc(1,2) edge_grid [OF g] grid_link_rowI
        grid_link_colI split: if_splits)
qed

lemma cnot_routes_far:
  assumes g: "grid_mesh nr nc m" and p: "p < nr * nc" and q: "q < nr * nc"
    and a: "is_corner nc p a1" and far: "\<not> are_adjacent nc p q"
  shows "\<exists>r1 r2. cnot_routes nc m p q a1 YX = Some (r1, r2) \<and> braid_in nr nc r1 \<and> braid_in nr nc r2 \<and>
    nodes r1 \<noteq> [] \<and> last (nodes r1) = find_diagonal nc q (find_nearest nc q (find_diagonal nc p a1)) \<and>
    links r2 \<noteq> []"
proof -
  have nc: "0 < nc" using p by (cases nc) auto
  let ?d = "find_diagonal nc p a1" and ?v = "find_vertical nc p a1"
  let ?n = "find_nearest nc q (find_diagonal nc p a1)"
  have n: "is_corner nc q ?n" by (simp add: is_corner_corners find_nearest_corner)
  have v: "is_corner nc p ?v" and d: "is_corner nc p ?d" using move_corner [OF nc a] by auto
  have e: "is_corner nc q (find_diagonal nc q ?n)" by (rule move_corner [OF nc n])
  obtain b1 where b1: "braid_S nc m p a1 = Some b1" "braid_in nr nc b1"
    using braid_S_ok [OF g p a] by blast
  obtain b2 where b2: "braid_dor nc m ?d ?n YX = Some b2" "braid_in nr nc b2"
    using braid_dor_corners [OF g p d q n] by blast
  obtain b3 where b3: "braid_S nc m q ?n = Some b3" "braid_in nr nc b3"
    using braid_S_ok [OF g q n] by blast
  obtain b4 where b4: "braid_short_L nc m q (find_diagonal nc q ?n) = Some b4" "braid_in nr nc b4"
    using braid_short_L_ok [OF g q e] by blast
  obtain b5 where b5: "braid_dor nc m ?n ?v YX = Some b5" "braid_in nr nc b5"
    using braid_dor_corners [OF g q n p v] by blast
  obtain b6 where b6: "braid_S nc m p ?v = Some b6" "braid_in nr nc b6" "length (links b6) = 2"
    using braid_S_ok [OF g p v] by blast
  have "node_map m (find_diagonal nc q ?n) = find_diagonal nc q ?n"
    using corner_bound [OF q e] g by (simp add: node_map_def grid_mesh_def)
  then have n3: "nodes b3 = [find_diagonal nc q ?n]"
    using b3(1) by (auto simp: braid_S_def Let_def split: if_splits option.splits bind_splits)
  have "links b6 \<noteq> []" using b6(3) by auto
  then show ?thesis
    using far b1 b2 b3 b4 b5 b6 n3
    by (simp add: cnot_routes_def Let_def braid_in_merge) (simp add: braid_merge_def)
qed

text \<open>Adjacent qubits share a row, and the corners on their common side.\<close>

lemma adjacent_cols:
  assumes "are_adjacent nc p q" and "p < nr * nc" and "q < nr * nc"
  obtains r c where "p div nc = r" "p mod nc = c" "q div nc = r" "q mod nc = Suc c" "r < nr"
      "Suc c < nc" "p < q"
    | r c where "p div nc = r" "p mod nc = Suc c" "q div nc = r" "q mod nc = c" "r < nr"
      "Suc c < nc" "q < p"
proof -
  obtain r c where p: "p div nc = r" "p mod nc = c" "r < nr" "c < nc" by (rule qubit_at [OF assms(2)])
  obtain s d where q: "q div nc = s" "q mod nc = d" "s < nr" "d < nc" by (rule qubit_at [OF assms(3)])
  have rs: "r = s" and cd: "max c d - min c d = 1"
    using assms(1) p q by (auto simp: are_adjacent_def Let_def)
  have pq: "p = r * nc + c" "q = r * nc + d"
    using div_mult_mod_eq [of p nc] div_mult_mod_eq [of q nc] p q rs by auto
  from cd consider "d = Suc c" | "c = Suc d" by (auto simp: max_def min_def split: if_splits)
  then show thesis
  proof cases
    case 1
    with p q pq rs show ?thesis by (intro that(1) [of r c]) auto
  next
    case 2
    with p q pq rs show ?thesis by (intro that(2) [of r d]) auto
  qed
qed

lemma cnot_routes_adjacent:
  assumes g: "grid_mesh nr nc m" and p: "p < nr * nc" and q: "q < nr * nc"
    and a: "cnot_ancillas nc p q = (a1, a2)" and adj: "are_adjacent nc p q"
  shows "\<exists>r1 r2. cnot_routes nc m p q a1 YX = Some (r1, r2) \<and> braid_in nr nc r1 \<and> braid_in nr nc r2 \<and>
    nodes r1 \<noteq> [] \<and> links r2 \<noteq> []"
  using adj p q
proof (cases rule: adjacent_cols)
  case (1 r c)
  then have nc: "0 < nc" by simp
  have a1: "a1 = top_left nc p" using a adj 1 by (simp add: cnot_ancillas_def Let_def)
  have sh: "bottom_right nc p = bottom_left nc q" using 1 by (simp add: corner_at)
  show ?thesis
    using 1 adj node_at_bound [of "Suc r" nr "Suc c" nc] node_at_bound [of "Suc r" nr "Suc (Suc c)" nc]
      node_at_bound [of "Suc r" nr c nc]
    by (simp add: cnot_routes_def Let_def a1 corner_moves [OF nc] sh)
      (simp add: corner_at node_map_grid [OF g] edge_grid [OF g] grid_link_rowI grid_link_colI braid_in_def)
next
  case (2 r c)
  then have nc: "0 < nc" by simp
  have a1: "a1 = top_right nc p" using a adj 2 by (simp add: cnot_ancillas_def Let_def)
  have sh: "bottom_left nc p = bottom_right nc q" using 2 by (simp add: corner_at)
  show ?thesis
    using 2 adj node_at_bound [of "Suc r" nr "Suc c" nc] node_at_bound [of "Suc r" nr "Suc (Suc c)" nc]
      node_at_bound [of "Suc r" nr c nc]
    by (simp add: cnot_routes_def Let_def a1 corner_moves [OF nc] sh)
      (simp add: corner_at node_map_grid [OF g] edge_grid [OF g] grid_link_rowI grid_link_colI braid_in_def)
qed

lemma cnot_routes_ok:
  assumes "grid_mesh nr nc m" and "p < nr * nc" and "q < nr * nc"
    and "cnot_ancillas nc p q = (a1, a2)"
  shows "\<exists>r1 r2. cnot_routes nc m p q a1 YX = Some (r1, r2) \<and> braid_in nr nc r1 \<and> braid_in nr nc r2 \<and>
    nodes r1 \<noteq> [] \<and> links r2 \<noteq> []"
proof (cases "are_adjacent nc p q")
  case True
  then show ?thesis using cnot_routes_adjacent assms by blast
next
  case False
  then show ?thesis using cnot_routes_far assms cnot_ancillas_corner by blast
qed

subsection \<open>Properties\<close>

text \<open>the loops of \<open>main\<close> build the mesh they are meant to build: all nodes and links are free,
  and there is a link exactly between the nodes that are neighbours in a row or in a column.\<close>

theorem build_mesh_correct:
  "node_owner (build_mesh nr nc) = replicate ((nr + 1) * (nc + 1)) 0 \<and>
   (\<forall>u v. link_owner (build_mesh nr nc) (u, v) =
      (if grid_link nr nc (u, v) then Some 0 else None))"
  by (simp add: build_mesh_owner)

text \<open>C29: dimension ordered routing returns, in both orders: the nodes it lists lead from the source
  node to the destination, each over an existing link to a neighbour, and the links are the
  ones between them; their number is the distance in rows plus the distance in columns.\<close>

theorem braid_dor_correct:
  assumes "grid_mesh nr nc m" and "s < (nr + 1) * (nc + 1)" and "d < (nr + 1) * (nc + 1)"
  shows "\<exists>ns. braid_dor nc m s d YX = Some \<lparr>nodes = ns, links = path_links s ns\<rparr> \<and>
     walk nr nc s ns d \<and>
     length ns = gap (s div (nc + 1)) (d div (nc + 1)) + gap (s mod (nc + 1)) (d mod (nc + 1))"
  using assms by (rule dor_walk)

lemma braid_dor_correct_witness:
  "\<exists>ns. braid_dor 3 (build_mesh 2 3) 9 2 True = Some \<lparr>nodes = ns, links = path_links 9 ns\<rparr> \<and>
     walk 2 3 9 ns 2 \<and> length ns = 3"
  using braid_dor_correct [OF build_mesh_grid [of 2 3], of 9 2 True] by (simp add: gap_def)

text \<open>C30: for any two qubits of the grid and the ancilla corner chosen for them, both routes of a CNOT
  exist in either routing order: no assertion on a corner fails, every link used is a link of
  the mesh and every node one of its nodes; route 1 has a node and route 2 a link, which the
  event queue relies on when it takes the last one of each.\<close>

theorem cnot_routes_exist:
  assumes "grid_mesh nr nc m" and "p < nr * nc" and "q < nr * nc"
  shows "\<exists>r1 r2. cnot_routes nc m p q (fst (cnot_ancillas nc p q)) YX = Some (r1, r2) \<and>
    braid_in nr nc r1 \<and> braid_in nr nc r2 \<and> nodes r1 \<noteq> [] \<and> links r2 \<noteq> []"
  using cnot_routes_ok [OF assms, of "fst (cnot_ancillas nc p q)" "snd (cnot_ancillas nc p q)"] by simp

lemma cnot_routes_exist_witness:
  "\<exists>r1 r2. cnot_routes 3 (build_mesh 2 3) 0 5 (fst (cnot_ancillas 3 0 5)) False = Some (r1, r2) \<and>
    braid_in 2 3 r1 \<and> braid_in 2 3 r2 \<and> nodes r1 \<noteq> [] \<and> links r2 \<noteq> []"
  using cnot_routes_exist [OF build_mesh_grid [of 2 3], of 0 5 False] by simp

text \<open>The corner of a qubit found nearest to a node is a corner of that qubit, and the diagonal,
  vertical and horizontal moves each take a corner to a different corner of the same qubit and
  back; the diagonal move is the other two one after the other.\<close>

theorem corner_moves_correct:
  assumes "0 < nc" and "n \<in> corners nc q"
  shows "find_diagonal nc q n = find_vertical nc q (find_horizontal nc q n) \<and>
    find_diagonal nc q (find_diagonal nc q n) = n \<and> find_diagonal nc q n \<in> corners nc q - {n} \<and>
    find_vertical nc q (find_vertical nc q n) = n \<and> find_vertical nc q n \<in> corners nc q - {n} \<and>
    find_horizontal nc q (find_horizontal nc q n) = n \<and> find_horizontal nc q n \<in> corners nc q - {n}"
proof -
  obtain k where k: "nc = Suc k" using assms(1) gr0_conv_Suc by blast
  have "find_diagonal nc q n = find_vertical nc q (find_horizontal nc q n)"
    using assms(2) unfolding corners_def by (auto simp: corner_moves [OF assms(1)])
  moreover have "find_diagonal nc q (find_diagonal nc q n) = n \<and> find_diagonal nc q n \<in> corners nc q - {n}"
    using assms(2) unfolding k
    by (simp add: diagonal.move_in diagonal.move_move diagonal.move_other)
  moreover have "find_vertical nc q (find_vertical nc q n) = n \<and> find_vertical nc q n \<in> corners nc q - {n}"
    using assms(2) unfolding k
    by (simp add: vertical.move_in vertical.move_move vertical.move_other)
  moreover have "find_horizontal nc q (find_horizontal nc q n) = n \<and> find_horizontal nc q n \<in> corners nc q - {n}"
    using assms(2) unfolding k
    by (simp add: horizontal.move_in horizontal.move_move horizontal.move_other)
  ultimately show ?thesis
    by blast
qed

lemma corner_moves_correct_witness:
  "find_diagonal 3 4 5 = 10 \<and> find_diagonal 3 4 (find_diagonal 3 4 5) = 5"
  using corner_moves_correct [of 3 5 4]
  by (simp add: corners_def top_left_def top_right_def bottom_left_def bottom_right_def
      find_diagonal_def)

end
