(* ===== verification/Ownership.thy ===== *)
theory Ownership
  imports Prelude
begin

text \<open>
  Exclusive ownership of cells: an interface for a store whose cells (nodes and links of a mesh)
  each have at most one owner, changed by events that open (claim) or close (release) a set of
  cells for one owner and do nothing when they meet a conflict. The number 0 is no owner.
\<close>

text \<open>A list of events done one after the other, each of which has to succeed.\<close>

fun run_all :: "('e \<Rightarrow> 'm \<Rightarrow> bool \<times> 'm) \<Rightarrow> 'e list \<Rightarrow> 'm \<Rightarrow> 'm option" where
  "run_all step [] m = Some m"
| "run_all step (e # es) m =
     (case step e m of (success, m') \<Rightarrow> if success then run_all step es m' else None)"

text \<open>The cells held after the events, and whether each opening event only claims cells that are
  not held.\<close>

fun held_after :: "('e \<Rightarrow> bool) \<Rightarrow> ('e \<Rightarrow> 'r set) \<Rightarrow> 'e list \<Rightarrow> 'r set \<Rightarrow> 'r set" where
  "held_after opens cells [] H = H"
| "held_after opens cells (e # es) H =
     held_after opens cells es (if opens e then H \<union> cells e else H - cells e)"

fun fresh_opens :: "('e \<Rightarrow> bool) \<Rightarrow> ('e \<Rightarrow> 'r set) \<Rightarrow> 'e list \<Rightarrow> 'r set \<Rightarrow> bool" where
  "fresh_opens opens cells [] H \<longleftrightarrow> True"
| "fresh_opens opens cells (e # es) H \<longleftrightarrow>
     (opens e \<longrightarrow> H \<inter> cells e = {}) \<and>
     fresh_opens opens cells es (if opens e then H \<union> cells e else H - cells e)"

locale exclusive_cells =
  fixes step :: "'e \<Rightarrow> 'm \<Rightarrow> bool \<times> 'm"
    and owner :: "'m \<Rightarrow> 'r \<Rightarrow> nat"
    and who :: "'e \<Rightarrow> nat"
    and opens :: "'e \<Rightarrow> bool"
    and cells :: "'e \<Rightarrow> 'r set"
    and fits :: "'m \<Rightarrow> 'e \<Rightarrow> bool"
  assumes step_blocked: "\<not> fst (step e m) \<Longrightarrow> snd (step e m) = m"
    and step_success:
      "fst (step e m) \<longleftrightarrow> (\<forall>r\<in>cells e. owner m r = 0 \<or> \<not> opens e \<and> owner m r = who e)"
    and step_owner:
      "fits m e \<Longrightarrow> fst (step e m) \<Longrightarrow>
       owner (snd (step e m)) r = (if r \<in> cells e then (if opens e then who e else 0) else owner m r)"
    and step_fits: "fits m e \<Longrightarrow> fits (snd (step e m)) e' = fits m e'"
begin

lemma foreign_kept:
  assumes "fits m e" and "owner m r \<noteq> 0" and "owner m r \<noteq> who e"
  shows "owner (snd (step e m)) r = owner m r"
proof (cases "fst (step e m)")
  case True
  then have "r \<notin> cells e" using assms(2,3) by (auto simp: step_success)
  then show ?thesis using step_owner [OF assms(1) True] by simp
qed (simp add: step_blocked)

lemma owner_step:
  assumes "fits m e"
  shows "owner (snd (step e m)) r \<in> {owner m r, 0, who e}"
  using assms by (cases "fst (step e m)") (auto simp: step_owner step_blocked)

lemma run_all_owner:
  assumes "run_all step es m = Some m'" and "\<forall>e\<in>set es. fits m e \<and> who e = w"
    and "\<forall>r. owner m r = (if r \<in> H then w else f r)" and "w \<noteq> 0" and "\<forall>r\<in>H. f r = 0"
    and "\<forall>r. f r \<noteq> w"
  shows "\<forall>r. owner m' r = (if r \<in> held_after opens cells es H then w else f r)"
  using assms
proof (induction es arbitrary: m H)
  case (Cons e es)
  obtain b m1 where s: "step e m = (b, m1)" by fastforce
  with Cons.prems(1) have b: b and r1: "run_all step es m1 = Some m'"
    by (auto split: if_splits)
  have fits1: "\<forall>x\<in>set es. fits m1 x \<and> who x = w"
    using Cons.prems(2) step_fits [of m e] by (simp add: s)
  have ok: "\<forall>r\<in>cells e. owner m r = 0 \<or> \<not> opens e \<and> owner m r = w"
    using step_success [of e m] b s Cons.prems(2) by simp
  have o1: "owner m1 r = (if r \<in> cells e then (if opens e then w else 0) else owner m r)" for r
    using step_owner [of m e r] b s Cons.prems(2) by simp
  let ?H = "if opens e then H \<union> cells e else H - cells e"
  have free: "f r = 0" if "r \<in> cells e" for r
    using bspec [OF ok that] spec [OF Cons.prems(3), of r] Cons.prems(4,5) spec [OF Cons.prems(6), of r]
    by (cases "r \<in> H") auto
  have "owner m1 r = (if r \<in> ?H then w else f r)" for r
    using o1 [of r] free [of r] spec [OF Cons.prems(3), of r] by (cases "opens e"; cases "r \<in> cells e"; simp)
  then have "\<forall>r. owner m1 r = (if r \<in> ?H then w else f r)" by blast
  moreover have "\<forall>r\<in>?H. f r = 0"
    using free Cons.prems(5) by auto
  ultimately show ?case
    using Cons.IH [OF r1 fits1, of ?H] Cons.prems(4,6) by simp
qed simp

lemma run_all_complete:
  assumes "fresh_opens opens cells es H" and "\<forall>e\<in>set es. fits m e \<and> who e = w"
    and "\<forall>e\<in>set es. \<forall>r\<in>cells e. r \<in> H \<or> owner m r = 0" and "\<forall>r\<in>H. owner m r = w"
  shows "\<exists>m'. run_all step es m = Some m'"
  using assms
proof (induction es arbitrary: m H)
  case (Cons e es)
  let ?H = "if opens e then H \<union> cells e else H - cells e"
  have succ: "fst (step e m)"
    unfolding step_success
  proof
    fix r assume r: "r \<in> cells e"
    show "owner m r = 0 \<or> \<not> opens e \<and> owner m r = who e"
    proof (cases "r \<in> H")
      case True
      then have "\<not> opens e" using Cons.prems(1) r by auto
      then show ?thesis using True Cons.prems(2,4) by simp
    next
      case False
      then show ?thesis using Cons.prems(3) r by auto
    qed
  qed
  have o1: "owner (snd (step e m)) r =
      (if r \<in> cells e then (if opens e then w else 0) else owner m r)" for r
    using step_owner [of m e r] succ Cons.prems(2) by simp
  have "\<exists>m'. run_all step es (snd (step e m)) = Some m'"
  proof (rule Cons.IH [of ?H])
    show "fresh_opens opens cells es ?H" using Cons.prems(1) by simp
    show "\<forall>x\<in>set es. fits (snd (step e m)) x \<and> who x = w"
      using Cons.prems(2) step_fits [of m e] by simp
    show "\<forall>x\<in>set es. \<forall>r\<in>cells x. r \<in> ?H \<or> owner (snd (step e m)) r = 0"
    proof (intro ballI)
      fix x r assume "x \<in> set es" and "r \<in> cells x"
      then have "r \<in> H \<or> owner m r = 0" using Cons.prems(3) by simp
      then show "r \<in> ?H \<or> owner (snd (step e m)) r = 0"
        using o1 [of r] by (cases "opens e"; cases "r \<in> cells e"; simp)
    qed
    show "\<forall>r\<in>?H. owner (snd (step e m)) r = w"
    proof
      fix r assume "r \<in> ?H"
      then show "owner (snd (step e m)) r = w"
        using o1 [of r] bspec [OF Cons.prems(4), of r] by (cases "opens e"; cases "r \<in> cells e"; simp)
    qed
  qed
  then show ?case using succ by (auto split: prod.split)
qed simp

text \<open>Events that start from free cells and release all they claim leave no trace.\<close>

lemma run_all_restores:
  assumes "fresh_opens opens cells es {}" and "held_after opens cells es {} = {}"
    and "\<forall>e\<in>set es. fits m e \<and> who e = w" and "w \<noteq> 0" and "\<forall>r. owner m r \<noteq> w"
    and "\<forall>e\<in>set es. \<forall>r\<in>cells e. owner m r = 0"
  shows "\<exists>m'. run_all step es m = Some m' \<and> (\<forall>r. owner m' r = owner m r)"
proof -
  obtain m' where m': "run_all step es m = Some m'"
    using run_all_complete [OF assms(1,3)] assms(6) by auto
  have "\<forall>r. owner m' r = (if r \<in> held_after opens cells es {} then w else owner m r)"
    by (rule run_all_owner [OF m' assms(3) _ assms(4) _ assms(5)]) auto
  then show ?thesis using m' assms(2) by auto
qed

end

end
