(* ===== verification/Braid_Events.thy ===== *)
theory Braid_Events
  imports Mesh_Routes Ownership
begin

text \<open>
  Gates, the events that open and close their braids, the priority of events, and the effect of
  an event on the mesh (\<open>braidflash.cpp\<close>: \<open>Gate\<close>, \<open>Event\<close>, \<open>events_cnot\<close>, \<open>events_h\<close>,
  \<open>events_t\<close>, \<open>do_event\<close>, \<open>resolve_cnot\<close>, \<open>purge_gate_from_mesh\<close>, \<open>get_mesh_util\<close>). A gate is
  named by its index in the vertices of the dependency graph.
\<close>

record gate =
  gate_seq :: nat
  op_type :: string
  qid :: "nat list"
  criticality :: int

datatype event_type = Cnot1 | Cnot2 | Cnot3 | Cnot4 | Cnot5 | Cnot6 | Cnot7 | H1 | H2 | T1

text \<open>\<open>close_open\<close> is true for an event that opens its braid. The timer is negative while the
  event before it has not succeeded, and counts down to 0.\<close>

record event =
  ev_braid :: braid
  close_open :: bool
  ev_gate :: nat
  ev_type :: event_type
  timer :: int
  attempts :: nat
  policy :: nat

definition is_cnot :: "gate \<Rightarrow> bool" where
  "is_cnot g \<longleftrightarrow> op_type g = ''CNOT'' \<and> length (qid g) = 2"

subsection \<open>Priority\<close>

text \<open>\<open>operator<\<close>: \<open>crit\<close> gives the criticality of a gate and \<open>highest\<close> is
  \<open>highest_criticality\<close>. The policy is the left event's.\<close>

definition event_less :: "(nat \<Rightarrow> int) \<Rightarrow> int \<Rightarrow> event \<Rightarrow> event \<Rightarrow> bool" where
  "event_less crit highest a b =
     (let ca = crit (ev_gate a); cb = crit (ev_gate b);
          la = length (links (ev_braid a)); lb = length (links (ev_braid b))
      in if policy a = 1 then ca > cb
         else if policy a = 2 then la < lb
         else if policy a = 3 then la > lb
         else if policy a = 4 then \<not> close_open a \<and> close_open b
         else if policy a = 5
           then (if \<not> close_open a \<and> close_open b then True
                 else if close_open a \<and> \<not> close_open b then False
                 else if ca > cb then True
                 else if ca = cb then la < lb
                 else False)
         else if policy a = 6
           then (if \<not> close_open a \<and> close_open b then True
                 else if close_open a \<and> \<not> close_open b then False
                 else if ca > cb then True
                 else if ca = cb then (if ca = highest then la < lb else la > lb)
                 else False)
         else False)"

text \<open>The rank that each policy compares, as a pair of a class (closing before opening), the
  criticality and the length, each negated where larger comes first.\<close>

definition event_rank :: "nat \<Rightarrow> (nat \<Rightarrow> int) \<Rightarrow> int \<Rightarrow> event \<Rightarrow> int \<times> int \<times> int" where
  "event_rank p crit highest e =
     (let c = crit (ev_gate e); l = int (length (links (ev_braid e)));
          k = (if close_open e then 1 else 0)
      in if p = 1 then (0, - c, 0)
         else if p = 2 then (0, 0, l)
         else if p = 3 then (0, 0, - l)
         else if p = 4 then (k, 0, 0)
         else if p = 5 then (k, - c, l)
         else if p = 6 then (k, - c, if c = highest then l else - l)
         else (0, 0, 0))"

definition lex3 :: "int \<times> int \<times> int \<Rightarrow> int \<times> int \<times> int \<Rightarrow> bool" where
  "lex3 x y \<longleftrightarrow> fst x < fst y \<or> fst x = fst y \<and>
     (fst (snd x) < fst (snd y) \<or> fst (snd x) = fst (snd y) \<and> snd (snd x) < snd (snd y))"

lemma event_less_rank:
  "policy a = p \<Longrightarrow>
   event_less crit highest a b = lex3 (event_rank p crit highest a) (event_rank p crit highest b)"
  by (auto simp: event_less_def event_rank_def lex3_def Let_def)

lemma lex3_trans: "lex3 x y \<Longrightarrow> lex3 y z \<Longrightarrow> lex3 x z"
  by (auto simp: lex3_def)

lemma lex3_total: "\<not> lex3 x y \<Longrightarrow> \<not> lex3 y x \<Longrightarrow> x = y"
  by (auto simp: lex3_def prod_eq_iff)

lemma lex3_irrefl [simp]: "\<not> lex3 x x"
  by (simp add: lex3_def)

subsection \<open>The events of a gate\<close>

text \<open>The constructor: its policy argument is not stored, so the member holds whatever was in
  memory, which is the parameter \<open>garbage\<close>.\<close>

definition mk_event :: "nat \<Rightarrow> braid \<Rightarrow> bool \<Rightarrow> nat \<Rightarrow> event_type \<Rightarrow> int \<Rightarrow> nat \<Rightarrow> nat \<Rightarrow> event" where
  "mk_event garbage b co g ty tm att pol =
     \<lparr>ev_braid = b, close_open = co, ev_gate = g, ev_type = ty, timer = tm, attempts = att,
      policy = garbage\<rparr>"

text \<open>The seven events of a CNOT: the ancillas are opened and closed, then route 1, then route 2,
  of which the link at the ancillas is closed last. \<open>back\<close> and \<open>pop_back\<close> of an empty vector are
  undefined, here None.\<close>

definition events_cnot ::
  "nat \<Rightarrow> nat \<Rightarrow> nat \<Rightarrow> mesh \<Rightarrow> nat \<Rightarrow> nat \<Rightarrow> nat \<Rightarrow> event list option" where
  "events_cnot garbage pol nc m src_qubit dest_qubit g =
     (let anc1_anc2 = cnot_ancillas nc src_qubit dest_qubit;
          anc1 = fst anc1_anc2; anc2 = snd anc1_anc2;
          ev = (\<lambda>b co ty tm. mk_event garbage b co g ty tm 0 pol);
          n_anc1 = node_map m anc1
      in do {
        anc_link \<leftarrow> edge m (node_map m anc1) (node_map m anc2);
        let anc_route = \<lparr>nodes = [node_map m anc2, n_anc1], links = [anc_link]\<rparr>;
        (route_1, route_2) \<leftarrow> cnot_routes nc m src_qubit dest_qubit anc1 False;
        if nodes route_1 = [] \<or> links route_2 = [] then None
        else do {
          let route_1' = route_1\<lparr>nodes := nodes route_1 @ [n_anc1]\<rparr>;
          let n_last = last (nodes route_1);
          let route_2' = route_2\<lparr>nodes := nodes route_2 @ [n_last]\<rparr>;
          let l_anc = last (links route_2);
          Some [ev anc_route True Cnot1 1,
                ev anc_route False Cnot2 (-1),
                ev route_1' True Cnot3 (-1),
                ev route_1' False Cnot4 (-1),
                ev route_2' True Cnot5 (-1),
                ev (route_2'\<lparr>links := butlast (links route_2')\<rparr>) False Cnot6 (-1),
                ev (anc_route\<lparr>links := [l_anc]\<rparr>) False Cnot7 (-1)]
        }
      })"

definition events_h :: "nat \<Rightarrow> nat \<Rightarrow> nat \<Rightarrow> event list" where
  "events_h garbage src_qubit g =
     (let h_route = \<lparr>nodes = [], links = []\<rparr>
      in [mk_event garbage h_route True g H1 1 0 6, mk_event garbage h_route False g H2 (-1) 0 6])"

definition events_t :: "nat \<Rightarrow> nat \<Rightarrow> event list" where
  "events_t src_qubit g = []"

subsection \<open>Doing an event\<close>

datatype cell = Router nat | Edge link

fun owner :: "mesh \<Rightarrow> cell \<Rightarrow> nat" where
  "owner m (Router n) = (if n < length (node_owner m) then node_owner m ! n else 0)"
| "owner m (Edge l) = (case link_owner m l of None \<Rightarrow> 0 | Some w \<Rightarrow> w)"

fun set_owner :: "nat \<Rightarrow> mesh \<Rightarrow> cell \<Rightarrow> mesh" where
  "set_owner w m (Router n) = m\<lparr>node_owner := (node_owner m)[n := w]\<rparr>"
| "set_owner w m (Edge l) = m\<lparr>link_owner := (link_owner m)(l \<mapsto> w)\<rparr>"

text \<open>The cells of a braid in the order in which \<open>do_event\<close> goes through them: nodes, then
  links.\<close>

definition braid_cells :: "braid \<Rightarrow> cell list" where
  "braid_cells b = map Router (nodes b) @ map Edge (links b)"

definition in_conflict :: "gate list \<Rightarrow> event \<Rightarrow> mesh \<Rightarrow> cell \<Rightarrow> bool" where
  "in_conflict dag e m c \<longleftrightarrow>
     owner m c \<noteq> 0 \<and> (close_open e \<or> owner m c \<noteq> gate_seq (dag ! ev_gate e))"

definition do_event :: "gate list \<Rightarrow> event \<Rightarrow> mesh \<Rightarrow> bool \<times> mesh" where
  "do_event dag e m =
     (if list_ex (in_conflict dag e m) (braid_cells (ev_braid e)) then (False, m)
      else (True, foldl (set_owner (if close_open e then gate_seq (dag ! ev_gate e) else 0)) m
                        (braid_cells (ev_braid e))))"

text \<open>\<open>resolve_cnot\<close>: the event, and the queue of the remaining events of its gate, after its
  route is replaced by the one in the other routing order.\<close>

definition resolve_cnot ::
  "nat \<Rightarrow> mesh \<Rightarrow> gate list \<Rightarrow> event \<Rightarrow> event list \<Rightarrow> (event \<times> event list) option" where
  "resolve_cnot nc m dag e q =
     (let src_qubit = qid (dag ! ev_gate e) ! 0; dest_qubit = qid (dag ! ev_gate e) ! 1;
          anc1 = fst (cnot_ancillas nc src_qubit dest_qubit)
      in if ev_type e \<noteq> Cnot3 \<and> ev_type e \<noteq> Cnot5 then None
         else if are_adjacent nc src_qubit dest_qubit then Some (e, q)
         else do {
           (route_1, route_2) \<leftarrow> cnot_routes nc m src_qubit dest_qubit anc1 True;
           if q = [] then None
           else if ev_type e = Cnot3
           then (if nodes route_1 = [] then None
                 else Some (e\<lparr>ev_braid := route_1\<rparr>,
                   (hd q)\<lparr>ev_braid := route_1\<lparr>nodes := butlast (nodes route_1) @ [node_map m anc1]\<rparr>\<rparr> # tl q))
           else (if nodes route_2 = [] \<or> links route_2 = [] \<or> nodes (ev_braid (hd q)) = [] then None
                 else let held = butlast (nodes route_2); n_last = last (nodes (ev_braid (hd q)))
                      in Some (e\<lparr>ev_braid := route_2\<lparr>nodes := held\<rparr>\<rparr>,
                   (hd q)\<lparr>ev_braid := \<lparr>nodes = held @ [n_last], links = butlast (links route_2)\<rparr>\<rparr> # tl q))
         })"

subsection \<open>Dropping a gate and the load of the mesh\<close>

definition purge_cell :: "nat \<Rightarrow> mesh \<Rightarrow> cell \<Rightarrow> mesh" where
  "purge_cell s m c = (if owner m c = s then set_owner 0 m c else m)"

text \<open>The cells in the order of the loops: in each row the nodes and the links to the next
  column, then the links to the next row.\<close>

definition row_cells :: "nat \<Rightarrow> nat \<Rightarrow> mesh \<Rightarrow> nat \<Rightarrow> cell list" where
  "row_cells nr nc m r =
     concat (map (\<lambda>c. let node_num = r * (nc + 1) + c
                      in Router (node_map m node_num) #
                         (if c \<noteq> nc then [Edge (link_key (node_map m node_num) (node_map m (node_num + 1)))]
                          else [])) [0..<nc + 1]) @
     concat (map (\<lambda>c. let node_num = r * (nc + 1) + c
                      in if r \<noteq> nr
                         then [Edge (link_key (node_map m node_num) (node_map m (node_num + nc + 1)))]
                         else []) [0..<nc + 1])"

definition mesh_cells :: "nat \<Rightarrow> nat \<Rightarrow> mesh \<Rightarrow> cell list" where
  "mesh_cells nr nc m = concat (map (row_cells nr nc m) [0..<nr + 1])"

definition purge_gate_from_mesh :: "nat \<Rightarrow> nat \<Rightarrow> nat \<Rightarrow> mesh \<Rightarrow> mesh" where
  "purge_gate_from_mesh nr nc s m = foldl (purge_cell s) m (mesh_cells nr nc m)"

text \<open>\<open>get_mesh_util\<close> returns the quotient of these two counts of nodes.\<close>

definition get_mesh_util :: "nat \<Rightarrow> nat \<Rightarrow> mesh \<Rightarrow> nat \<times> nat" where
  "get_mesh_util nr nc m =
     foldl (\<lambda>(busy, count) r.
       foldl (\<lambda>(busy, count) c.
         (if owner m (Router (node_map m (r * (nc + 1) + c))) \<noteq> 0 then busy + 1 else busy, count + 1))
         (busy, count) [0..<nc + 1])
       (0, 0) [0..<nr + 1]"

subsection \<open>Lemmas on owners\<close>

text \<open>The cells of a braid are cells of the mesh.\<close>

fun cell_in :: "mesh \<Rightarrow> cell \<Rightarrow> bool" where
  "cell_in m (Router n) \<longleftrightarrow> n < length (node_owner m)"
| "cell_in m (Edge l) \<longleftrightarrow> link_owner m l \<noteq> None"

definition braid_fits :: "mesh \<Rightarrow> braid \<Rightarrow> bool" where
  "braid_fits m b \<longleftrightarrow> (\<forall>c\<in>set (braid_cells b). cell_in m c)"

lemma owner_set_owner:
  "cell_in m c \<Longrightarrow> owner (set_owner w m c) d = (if d = c then w else owner m d)"
  by (cases c; cases d) auto

lemma cell_in_set_owner: "cell_in m c \<Longrightarrow> cell_in (set_owner w m c) d = cell_in m d"
  by (cases c; cases d) auto

lemma cell_in_set_owners: "\<forall>c\<in>set cs. cell_in m c \<Longrightarrow> cell_in (foldl (set_owner w) m cs) d = cell_in m d"
  by (induction cs arbitrary: m) (auto simp: cell_in_set_owner)

lemma owner_set_owners:
  "\<forall>c\<in>set cs. cell_in m c \<Longrightarrow>
   owner (foldl (set_owner w) m cs) d = (if d \<in> set cs then w else owner m d)"
proof (induction cs arbitrary: m)
  case (Cons c cs)
  have "\<forall>x\<in>set cs. cell_in (set_owner w m c) x"
    using Cons.prems by (simp add: cell_in_set_owner)
  from Cons.IH [OF this] show ?case
    using Cons.prems by (auto simp: owner_set_owner)
qed simp

lemma do_event_blocked: "\<not> fst (do_event dag e m) \<Longrightarrow> snd (do_event dag e m) = m"
  by (simp add: do_event_def split: if_splits)

lemma do_event_success:
  "fst (do_event dag e m) \<longleftrightarrow>
   (\<forall>c\<in>set (braid_cells (ev_braid e)).
      owner m c = 0 \<or> \<not> close_open e \<and> owner m c = gate_seq (dag ! ev_gate e))"
  by (auto simp: do_event_def list_ex_iff in_conflict_def)

lemma do_event_owner:
  "braid_fits m (ev_braid e) \<Longrightarrow> fst (do_event dag e m) \<Longrightarrow>
   owner (snd (do_event dag e m)) c =
     (if c \<in> set (braid_cells (ev_braid e))
      then (if close_open e then gate_seq (dag ! ev_gate e) else 0) else owner m c)"
  by (auto simp: do_event_def braid_fits_def owner_set_owners split: if_splits)

lemma do_event_cell_in:
  "braid_fits m (ev_braid e) \<Longrightarrow> cell_in (snd (do_event dag e m)) c = cell_in m c"
  by (simp add: do_event_def braid_fits_def cell_in_set_owners)

interpretation mesh_store: exclusive_cells "do_event dag" owner "\<lambda>e :: event. gate_seq (dag ! ev_gate e)"
    close_open "\<lambda>e. set (braid_cells (ev_braid e))" "\<lambda>m e. braid_fits m (ev_braid e)" for dag
proof unfold_locales
  fix m :: mesh and e e' :: event
  assume "braid_fits m (ev_braid e)"
  then show "braid_fits (snd (do_event dag e m)) (ev_braid e') = braid_fits m (ev_braid e')"
    by (simp add: do_event_cell_in braid_fits_def [of _ "ev_braid e'"])
qed (rule do_event_blocked do_event_success do_event_owner; assumption)+

lemma mesh_eqI:
  assumes "\<And>c. owner m c = owner m' c" and "\<And>c. cell_in m c = cell_in m' c"
  shows "(m :: mesh) = m'"
proof -
  have "n < length (node_owner m) \<longleftrightarrow> n < length (node_owner m')" for n
    using assms(2) [of "Router n"] by simp
  then have len: "length (node_owner m) = length (node_owner m')"
    by (meson less_irrefl linorder_neqE_nat)
  have "node_owner m = node_owner m'"
  proof (rule nth_equalityI [OF len])
    fix n assume "n < length (node_owner m)"
    then show "node_owner m ! n = node_owner m' ! n"
      using assms(1) [of "Router n"] len by simp
  qed
  moreover have "link_owner m l = link_owner m' l" for l
    using assms [of "Edge l"] by (cases "link_owner m l"; cases "link_owner m' l") auto
  then have "link_owner m = link_owner m'" by blast
  ultimately show ?thesis by simp
qed

lemma run_all_cell_in:
  "run_all (do_event dag) es m = Some m' \<Longrightarrow> \<forall>e\<in>set es. braid_fits m (ev_braid e) \<Longrightarrow>
   cell_in m' c = cell_in m c"
proof (induction es arbitrary: m)
  case (Cons e es)
  obtain b m1 where s: "do_event dag e m = (b, m1)" by fastforce
  have "cell_in m1 d = cell_in m d" for d
    using do_event_cell_in [of m e dag d] Cons.prems(2) by (simp add: s)
  moreover from this have "\<forall>x\<in>set es. braid_fits m1 (ev_braid x)"
    using Cons.prems(2) by (simp add: braid_fits_def)
  ultimately show ?case
    using Cons.IH [of m1] Cons.prems(1) by (auto simp: s split: if_splits)
qed simp

lemma braid_in_fits: "grid_mesh nr nc m \<Longrightarrow> braid_in nr nc b \<Longrightarrow> braid_fits m b"
  by (auto simp: braid_fits_def braid_cells_def grid_mesh_def braid_in_def)

subsection \<open>The events of a CNOT\<close>

lemma corner_node:
  assumes g: "grid_mesh nr nc m" and q: "q < nr * nc" and n: "is_corner nc q n"
  shows "node_map m n = n \<and> n < (nr + 1) * (nc + 1)"
proof -
  obtain r c where rc: "q div nc = r" "q mod nc = c" "r < nr" "c < nc" "0 < nc"
    by (rule qubit_at [OF q])
  have "n < (nr + 1) * (nc + 1)"
    using n rc(3-5) node_at_bound [of "Suc r" nr c nc] node_at_bound [of "Suc r" nr "Suc c" nc]
      node_at_bound [of r nr c nc] node_at_bound [of r nr "Suc c" nc]
    by (cases rule: is_corner_cases) (simp_all add: corner_at rc(1,2))
  then show ?thesis using g by (simp add: node_map_def grid_mesh_def)
qed

lemma ancilla_link:
  assumes g: "grid_mesh nr nc m" and p: "p < nr * nc" and a: "cnot_ancillas nc p q = (a1, a2)"
  obtains l where "edge m (node_map m a1) (node_map m a2) = Some l" "grid_link nr nc l"
    "node_map m a1 < (nr + 1) * (nc + 1)" "node_map m a2 < (nr + 1) * (nc + 1)"
proof -
  have n: "node_map m a1 = a1 \<and> a1 < (nr + 1) * (nc + 1)" "node_map m a2 = a2 \<and> a2 < (nr + 1) * (nc + 1)"
    using cnot_ancillas_corner [OF a] corner_node [OF g p] by blast+
  have e: "edge m a1 a2 = Some (link_key a1 a2)"
    by (rule cnot_ancillas_linked [OF g p a])
  then have "grid_link nr nc (link_key a1 a2)"
    using g by (simp add: edge_def grid_mesh_def split: if_splits del: split_paired_All)
  then show thesis using that n e by simp
qed

lemma events_cnot_ok:
  assumes g: "grid_mesh nr nc m" and p: "p < nr * nc" and q: "q < nr * nc"
  shows "\<exists>es. events_cnot garbage pol nc m p q i = Some es \<and>
    map ev_type es = [Cnot1, Cnot2, Cnot3, Cnot4, Cnot5, Cnot6, Cnot7] \<and>
    map timer es = [1, -1, -1, -1, -1, -1, -1] \<and>
    (\<forall>e\<in>set es. ev_gate e = i \<and> braid_in nr nc (ev_braid e)) \<and>
    fresh_opens close_open (\<lambda>e. set (braid_cells (ev_braid e))) es {} \<and>
    held_after close_open (\<lambda>e. set (braid_cells (ev_braid e))) es {} = {}"
proof -
  obtain a1 a2 where a: "cnot_ancillas nc p q = (a1, a2)" by fastforce
  obtain l where l: "edge m (node_map m a1) (node_map m a2) = Some l" "grid_link nr nc l"
    and n: "node_map m a1 < (nr + 1) * (nc + 1)" "node_map m a2 < (nr + 1) * (nc + 1)"
    by (rule ancilla_link [OF g p a])
  obtain r1 r2 where r: "cnot_routes nc m p q a1 False = Some (r1, r2)"
    and i1: "braid_in nr nc r1" and i2: "braid_in nr nc r2"
    and ne: "nodes r1 \<noteq> []" "links r2 \<noteq> []"
    using cnot_routes_ok [OF g p q a] by blast
  have lastn: "last (nodes r1) < (nr + 1) * (nc + 1)" and lastl: "grid_link nr nc (last (links r2))"
    using i1 i2 ne by (simp_all add: braid_in_def)
  have links2: "set (links r2) = insert (last (links r2)) (set (butlast (links r2)))"
    using ne(2) by (metis append_butlast_last_id list.set(1,2) rotate1.simps(2) set_rotate1 Un_insert_right set_append sup_bot_right)
  have img: "Edge ` set (links r2) = insert (Edge (last (links r2))) (Edge ` set (butlast (links r2)))"
    by (subst links2) simp
  show ?thesis
    using n lastn lastl i1 i2 l(2) img
    by (simp add: events_cnot_def a l(1) r ne Let_def mk_event_def braid_in_def braid_cells_def
        image_Un Int_commute)
      (auto dest: in_set_butlastD)
qed

subsection \<open>All cells of the mesh\<close>

lemma mesh_cells_grid:
  assumes g: "grid_mesh nr nc m"
  shows "set (mesh_cells nr nc m) = {c. cell_in m c}"
proof -
  have nm: "node_map m (r * (nc + 1) + c) = node_at nc r c" if "r \<le> nr" "c \<le> nc" for r c
    using node_map_grid [OF g that] by (simp add: node_at_def)
  have nm_right: "node_map m (r * (nc + 1) + c + 1) = node_at nc r (c + 1)" if "r \<le> nr" "c < nc" for r c
    using node_map_grid [OF g that(1), of "c + 1"] that by (simp add: node_at_def)
  have nm_down: "node_map m (r * (nc + 1) + c + nc + 1) = node_at nc (r + 1) c" if "r < nr" "c \<le> nc" for r c
    using node_map_grid [OF g, of "r + 1" c] that by (simp add: node_at_def algebra_simps)
  have key: "link_key (node_at nc r c) (node_at nc r (c + 1)) = (node_at nc r c, node_at nc r (c + 1))"
    "link_key (node_at nc r c) (node_at nc (r + 1) c) = (node_at nc r c, node_at nc (r + 1) c)" for r c
    by (simp_all add: link_key_def node_at_def)
  have row: "set (row_cells nr nc m r) =
      (\<Union>c\<in>{0..nc}. {Router (node_at nc r c)} \<union>
        (if c < nc then {Edge (node_at nc r c, node_at nc r (c + 1))} else {})) \<union>
      (\<Union>c\<in>{0..nc}. if r < nr then {Edge (node_at nc r c, node_at nc (r + 1) c)} else {})"
    if r: "r \<le> nr" for r
  proof -
    have 1: "set (let node_num = r * (nc + 1) + c
             in Router (node_map m node_num) #
                (if c \<noteq> nc then [Edge (link_key (node_map m node_num) (node_map m (node_num + 1)))] else [])) =
          {Router (node_at nc r c)} \<union>
          (if c < nc then {Edge (node_at nc r c, node_at nc r (c + 1))} else {})" if "c \<in> {0..nc}" for c
      using that nm [OF r, of c] nm_right [OF r, of c] key(1) [of r c]
      by (cases "c < nc") (simp_all add: Let_def insert_commute)
    have 2: "set (let node_num = r * (nc + 1) + c
             in if r \<noteq> nr then [Edge (link_key (node_map m node_num) (node_map m (node_num + nc + 1)))] else []) =
          (if r < nr then {Edge (node_at nc r c, node_at nc (r + 1) c)} else {})" if "c \<in> {0..nc}" for c
      using that r nm [OF r, of c] nm_down [of r c] key(2) [of r c]
      by (cases "r < nr") (simp_all add: Let_def)
    have u: "set [0..<nc + 1] = {0..nc}" by auto
    show ?thesis
      unfolding row_cells_def set_append set_concat set_map image_image u
      by (intro arg_cong2 [where f = "(\<union>)"] SUP_cong refl 1 2)
  qed
  have in_node: "Router n \<in> set (row_cells nr nc m r) \<longleftrightarrow> (\<exists>c\<le>nc. n = node_at nc r c)"
    if "r \<le> nr" for r n
    unfolding row [OF that] by auto
  have in_edge: "Edge l \<in> set (row_cells nr nc m r) \<longleftrightarrow>
      (\<exists>c<nc. l = (node_at nc r c, node_at nc r (c + 1))) \<or>
      (r < nr \<and> (\<exists>c\<le>nc. l = (node_at nc r c, node_at nc (r + 1) c)))"
    if "r \<le> nr" for r l
    unfolding row [OF that] by (auto simp del: split_paired_All split_paired_Ex)
      (metis le_neq_implies_less)+
  have "set (mesh_cells nr nc m) = (\<Union>r\<in>{0..nr}. set (row_cells nr nc m r))"
  proof -
    have u: "set [0..<nr + 1] = {0..nr}" by auto
    show ?thesis unfolding mesh_cells_def set_concat set_map image_image u ..
  qed
  also have "\<dots> = {c. cell_in m c}"
  proof (rule set_eqI)
    fix c
    show "c \<in> (\<Union>r\<in>{0..nr}. set (row_cells nr nc m r)) \<longleftrightarrow> c \<in> {c. cell_in m c}"
    proof (cases c)
      case (Router n)
      have "(\<exists>r\<le>nr. \<exists>c\<le>nc. n = node_at nc r c) \<longleftrightarrow> n < (nr + 1) * (nc + 1)"
      proof
        assume n: "n < (nr + 1) * (nc + 1)"
        have "n div (nc + 1) \<le> nr" using less_mult_imp_div_less [OF n] by simp
        moreover have "n mod (nc + 1) \<le> nc" by (simp add: less_Suc_eq_le [symmetric])
        moreover have "n = node_at nc (n div (nc + 1)) (n mod (nc + 1))"
          unfolding node_at_def by (rule div_mult_mod_eq [symmetric])
        ultimately show "\<exists>r\<le>nr. \<exists>c\<le>nc. n = node_at nc r c" by blast
      qed (use node_at_bound in blast)
      moreover have "c \<in> (\<Union>r\<in>{0..nr}. set (row_cells nr nc m r)) \<longleftrightarrow>
          (\<exists>r\<le>nr. \<exists>c\<le>nc. n = node_at nc r c)"
        using in_node by (simp add: Router Bex_def)
      ultimately show ?thesis
        using g by (simp add: Router grid_mesh_def del: split_paired_All)
    next
      case (Edge l)
      have "cell_in m c \<longleftrightarrow> grid_link nr nc l"
        using g by (simp add: Edge grid_mesh_def del: split_paired_All)
      moreover have "c \<in> (\<Union>r\<in>{0..nr}. set (row_cells nr nc m r)) \<longleftrightarrow>
          (\<exists>r\<le>nr. (\<exists>c<nc. l = (node_at nc r c, node_at nc r (c + 1))) \<or>
            (r < nr \<and> (\<exists>c\<le>nc. l = (node_at nc r c, node_at nc (r + 1) c))))"
        by (simp only: Edge UN_iff Bex_def atLeastAtMost_iff le0 simp_thms in_edge cong: conj_cong)
      moreover have "\<dots> \<longleftrightarrow> grid_link nr nc l"
        unfolding grid_link_def by (blast intro: less_imp_le)
      ultimately show ?thesis by simp
    qed
  qed
  finally show ?thesis .
qed

lemma events_cnot_facts:
  assumes "grid_mesh nr nc m" and "p < nr * nc" and "q < nr * nc"
    and "events_cnot garbage pol nc m p q i = Some es"
  shows "map ev_type es = [Cnot1, Cnot2, Cnot3, Cnot4, Cnot5, Cnot6, Cnot7]"
    and "map timer es = [1, -1, -1, -1, -1, -1, -1]"
    and "\<forall>e\<in>set es. ev_gate e = i \<and> braid_in nr nc (ev_braid e)"
    and "fresh_opens close_open (\<lambda>e. set (braid_cells (ev_braid e))) es {}"
    and "held_after close_open (\<lambda>e. set (braid_cells (ev_braid e))) es {} = {}"
  using events_cnot_ok [OF assms(1-3), of garbage pol i]
  by (elim exE conjE, simp only: assms(4) option.inject)+

lemma owner_purge:
  "\<forall>c\<in>set cs. cell_in m c \<Longrightarrow>
   owner (foldl (purge_cell s) m cs) d = (if d \<in> set cs \<and> owner m d = s then 0 else owner m d)"
proof (induction cs arbitrary: m)
  case (Cons c cs)
  have "\<forall>x\<in>set cs. cell_in (purge_cell s m c) x"
    using Cons.prems by (simp add: purge_cell_def cell_in_set_owner)
  from Cons.IH [OF this] show ?case
    using Cons.prems by (auto simp: purge_cell_def owner_set_owner)
qed simp

lemma cell_in_purge:
  "\<forall>c\<in>set cs. cell_in m c \<Longrightarrow> cell_in (foldl (purge_cell s) m cs) d = cell_in m d"
  by (induction cs arbitrary: m) (auto simp: cell_in_set_owner purge_cell_def)

lemma purge_owner:
  assumes "grid_mesh nr nc m"
  shows "owner (purge_gate_from_mesh nr nc s m) c = (if owner m c = s then 0 else owner m c)"
proof -
  have "owner m c = 0" if "\<not> cell_in m c"
    using that by (cases c) auto
  then show ?thesis
    by (auto simp: purge_gate_from_mesh_def owner_purge mesh_cells_grid [OF assms])
qed

lemma grid_mesh_cell_in:
  assumes "grid_mesh nr nc m" and "\<And>c. cell_in m' c = cell_in m c"
  shows "grid_mesh nr nc m'"
proof -
  have "n < length (node_owner m') \<longleftrightarrow> n < length (node_owner m)" for n
    using assms(2) [of "Router n"] by simp
  then have "length (node_owner m') = length (node_owner m)"
    by (meson less_irrefl linorder_neqE_nat)
  moreover have "(link_owner m' l \<noteq> None) = (link_owner m l \<noteq> None)" for l
    using assms(2) [of "Edge l"] by (simp only: cell_in.simps)
  ultimately show ?thesis
    using assms(1) unfolding grid_mesh_def by presburger
qed

lemma purge_grid:
  assumes "grid_mesh nr nc m"
  shows "grid_mesh nr nc (purge_gate_from_mesh nr nc s m)"
  using assms
proof (rule grid_mesh_cell_in)
  show "cell_in (purge_gate_from_mesh nr nc s m) c = cell_in m c" for c
    unfolding purge_gate_from_mesh_def
    by (rule cell_in_purge) (simp add: mesh_cells_grid [OF assms])
qed

lemma do_event_grid:
  "grid_mesh nr nc m \<Longrightarrow> braid_fits m (ev_braid e) \<Longrightarrow> grid_mesh nr nc (snd (do_event dag e m))"
  by (erule grid_mesh_cell_in) (simp add: do_event_cell_in)

subsection \<open>Properties\<close>

text \<open>doing an event either fails and changes nothing, or succeeds on every cell of its braid.
  It fails exactly when it would open a cell that is not free or close one of another gate. On
  success the cells of the braid, and no others, become the gate's (open) or free (close); so a
  cell of another gate always stays that gate's.\<close>

theorem do_event_exclusive:
  assumes "braid_fits m (ev_braid e)" and "do_event dag e m = (success, m')"
  shows "(success \<longleftrightarrow> (\<forall>c\<in>set (braid_cells (ev_braid e)).
            owner m c = 0 \<or> \<not> close_open e \<and> owner m c = gate_seq (dag ! ev_gate e))) \<and>
    (\<not> success \<longrightarrow> m' = m) \<and>
    (success \<longrightarrow> (\<forall>c. owner m' c =
        (if c \<in> set (braid_cells (ev_braid e))
         then (if close_open e then gate_seq (dag ! ev_gate e) else 0) else owner m c))) \<and>
    (\<forall>c. owner m c \<noteq> 0 \<longrightarrow> owner m c \<noteq> gate_seq (dag ! ev_gate e) \<longrightarrow> owner m' c = owner m c)"
  using do_event_success [of dag e m] do_event_blocked [of dag e m] do_event_owner [OF assms(1), of dag]
    mesh_store.foreign_kept [OF assms(1), of _ dag]
  by (simp add: assms(2))

lemma do_event_exclusive_witness:
  "let g = \<lparr>gate_seq = 7, op_type = ''CNOT'', qid = [0, 1], criticality = 0\<rparr>;
       e = mk_event 6 \<lparr>nodes = [0, 1], links = [(0, 1)]\<rparr> True 0 Cnot1 1 0 6
   in fst (do_event [g] e (build_mesh 1 1)) \<and>
      owner (snd (do_event [g] e (build_mesh 1 1))) (Router 1) = 7 \<and>
      owner (snd (do_event [g] e (build_mesh 1 1))) (Edge (2, 3)) = 0"
proof -
  let ?g = "\<lparr>gate_seq = 7, op_type = ''CNOT'', qid = [0, 1], criticality = 0\<rparr>"
  let ?e = "mk_event 6 \<lparr>nodes = [0, 1], links = [(0, 1)]\<rparr> True 0 Cnot1 1 0 6"
  have f: "braid_fits (build_mesh 1 1) (ev_braid ?e)" by code_simp
  have z: "\<forall>c\<in>set (braid_cells (ev_braid ?e)). owner (build_mesh 1 1) c = 0" by code_simp
  have z2: "owner (build_mesh 1 1) (Edge (2, 3)) = 0" by code_simp
  have "do_event [?g] ?e (build_mesh 1 1) =
     (fst (do_event [?g] ?e (build_mesh 1 1)), snd (do_event [?g] ?e (build_mesh 1 1)))" by simp
  from do_event_exclusive [OF f this] show ?thesis
    using z z2 unfolding Let_def
    by (simp add: mk_event_def braid_cells_def del: owner.simps)
qed

text \<open>C4: on the grid, the seven events of a CNOT between any two qubits can be done one after the
  other if the cells they use are free, none is blocked by an earlier one, and the last one
  leaves the mesh exactly as it was: every node and link that was opened is closed.\<close>

theorem events_cnot_complete:
  assumes "grid_mesh nr nc m" and "p < nr * nc" and "q < nr * nc"
    and "events_cnot garbage pol nc m p q g = Some es"
    and "0 < gate_seq (dag ! g)" and "\<forall>c. owner m c \<noteq> gate_seq (dag ! g)"
    and "\<forall>e\<in>set es. \<forall>c\<in>set (braid_cells (ev_braid e)). owner m c = 0"
  shows "run_all (do_event dag) es m = Some m"
proof -
  note es = events_cnot_facts [OF assms(1-4)]
  have fits: "\<forall>e\<in>set es. braid_fits m (ev_braid e) \<and> gate_seq (dag ! ev_gate e) = gate_seq (dag ! g)"
    using es(3) by (intro ballI conjI) (simp_all add: braid_in_fits [OF assms(1)])
  obtain m' where m': "run_all (do_event dag) es m = Some m'" "\<forall>c. owner m' c = owner m c"
    using mesh_store.run_all_restores [OF es(4,5) fits _ assms(6,7)] assms(5) by blast
  have "m' = m"
  proof (rule mesh_eqI)
    show "owner m' c = owner m c" for c using m'(2) by blast
    show "cell_in m' c = cell_in m c" for c using run_all_cell_in [OF m'(1)] fits by blast
  qed
  then show ?thesis using m'(1) by simp
qed

lemma events_cnot_complete_witness:
  "\<exists>es. events_cnot 6 6 3 (build_mesh 3 3) 0 8 0 = Some es \<and>
     run_all (do_event [\<lparr>gate_seq = 1, op_type = ''CNOT'', qid = [0, 8], criticality = 0\<rparr>]) es
       (build_mesh 3 3) = Some (build_mesh 3 3)"
proof -
  obtain es where es: "events_cnot 6 6 3 (build_mesh 3 3) 0 8 0 = Some es"
    using events_cnot_ok [OF build_mesh_grid [of 3 3], of 0 8 6 6 0] by auto
  have z: "owner (build_mesh 3 3) c = 0" for c
    by (cases c) (auto simp: build_mesh_owner split: option.split if_splits)
  show ?thesis
    using events_cnot_complete [OF build_mesh_grid _ _ es] es by (simp add: z)
qed

text \<open>\<open>operator<\<close> orders events that carry the same policy, as \<open>std::sort\<close> requires: it is
  irreflexive and transitive, and being neither before the other is transitive. Under the
  policies 4, 5 and 6 every closing event is before every opening one.\<close>

theorem event_less_strict_weak_order:
  assumes "policy a = p" and "policy b = p" and "policy c = p"
  shows "\<not> event_less crit highest a a \<and>
    (event_less crit highest a b \<longrightarrow> event_less crit highest b c \<longrightarrow> event_less crit highest a c) \<and>
    (\<not> event_less crit highest a b \<longrightarrow> \<not> event_less crit highest b a \<longrightarrow>
     \<not> event_less crit highest b c \<longrightarrow> \<not> event_less crit highest c b \<longrightarrow>
     \<not> event_less crit highest a c \<and> \<not> event_less crit highest c a) \<and>
    (p \<in> {4, 5, 6} \<longrightarrow> \<not> close_open a \<longrightarrow> close_open b \<longrightarrow>
     event_less crit highest a b \<and> \<not> event_less crit highest b a)"
proof (intro conjI impI)
  note rank = assms [THEN event_less_rank, of crit highest]
  show "\<not> event_less crit highest a a"
    by (simp add: rank)
  show "event_less crit highest a c" if "event_less crit highest a b" "event_less crit highest b c"
    using that unfolding rank by (rule lex3_trans)
  show "\<not> event_less crit highest a c" "\<not> event_less crit highest c a"
    if "\<not> event_less crit highest a b" "\<not> event_less crit highest b a"
      "\<not> event_less crit highest b c" "\<not> event_less crit highest c b"
    using that lex3_total unfolding rank by (metis lex3_irrefl)+
  show "event_less crit highest a b" "\<not> event_less crit highest b a"
    if "p \<in> {4, 5, 6}" "\<not> close_open a" "close_open b"
    using that assms by (auto simp: event_less_def Let_def)
qed

lemma event_less_strict_weak_order_witness:
  "let e = (\<lambda>co g. mk_event 6 \<lparr>nodes = [], links = []\<rparr> co g H1 1 0 6)
   in event_less (\<lambda>_. 0) 0 (e False 0) (e True 1) \<and> \<not> event_less (\<lambda>_. 0) 0 (e True 1) (e False 0)"
  using event_less_strict_weak_order [of "mk_event 6 \<lparr>nodes = [], links = []\<rparr> False 0 H1 1 0 6" 6
      "mk_event 6 \<lparr>nodes = [], links = []\<rparr> True 1 H1 1 0 6"
      "mk_event 6 \<lparr>nodes = [], links = []\<rparr> True 1 H1 1 0 6" "\<lambda>_. 0" 0]
  unfolding Let_def by (simp add: mk_event_def)

text \<open>dropping a gate frees exactly the cells that it owns; the mesh keeps its shape.\<close>

theorem purge_frees_gate:
  assumes "grid_mesh nr nc m"
  shows "(\<forall>c. owner (purge_gate_from_mesh nr nc s m) c = (if owner m c = s then 0 else owner m c)) \<and>
    grid_mesh nr nc (purge_gate_from_mesh nr nc s m)"
  using purge_owner [OF assms] purge_grid [OF assms] by blast

lemma purge_frees_gate_witness:
  "owner (purge_gate_from_mesh 1 1 7 ((build_mesh 1 1)\<lparr>node_owner := [7, 3, 7, 0]\<rparr>)) (Router 0) = 0 \<and>
   owner (purge_gate_from_mesh 1 1 7 ((build_mesh 1 1)\<lparr>node_owner := [7, 3, 7, 0]\<rparr>)) (Router 1) = 3"
proof -
  have "grid_mesh 1 1 ((build_mesh 1 1)\<lparr>node_owner := [7, 3, 7, 0]\<rparr>)"
    using build_mesh_grid [of 1 1] by (simp add: grid_mesh_def)
  note owners = purge_frees_gate [OF this, of 7, THEN conjunct1, THEN spec]
  show ?thesis unfolding owners by simp
qed

lemma cnot_routes_nodes2:
  assumes "cnot_routes nc m p q a YX = Some (r1, r2)"
  shows "nodes r2 \<noteq> []"
proof (cases "are_adjacent nc p q")
  case True
  then show ?thesis using assms by (auto simp: cnot_routes_def Let_def bind_eq_Some_conv)
next
  case False
  then obtain s d t where "braid_short_L nc m q (find_diagonal nc q (find_nearest nc q (find_diagonal nc p a))) = Some s"
    and r2: "r2 = braid_merge (braid_merge s d) t"
    using assms by (auto simp: cnot_routes_def Let_def bind_eq_Some_conv)
  then have "nodes s \<noteq> []"
    by (auto simp: braid_short_L_def Let_def bind_eq_Some_conv split: if_splits)
  then show ?thesis by (simp add: r2 braid_merge_def)
qed

text \<open>changing the route of a waiting CNOT event always succeeds on the grid. Between adjacent
  qubits it changes nothing; otherwise only the braids of the event and of the next event of the
  gate change, to braids of the mesh, and every other event of the queue stays as it was.\<close>

theorem resolve_cnot_ok:
  assumes "grid_mesh nr nc m" and "qid (dag ! ev_gate e) = [p, q]" and "p < nr * nc" and "q < nr * nc"
    and "ev_type e = Cnot3 \<or> ev_type e = Cnot5" and "nodes (ev_braid c) \<noteq> []"
    and "\<forall>x\<in>set (e # c # cs). braid_in nr nc (ev_braid x)"
  shows "\<exists>b b'. resolve_cnot nc m dag e (c # cs) = Some (e\<lparr>ev_braid := b\<rparr>, c\<lparr>ev_braid := b'\<rparr> # cs) \<and>
    braid_in nr nc b \<and> braid_in nr nc b' \<and>
    (are_adjacent nc p q \<longrightarrow> b = ev_braid e \<and> b' = ev_braid c)"
proof (cases "are_adjacent nc p q")
  case True
  then have "resolve_cnot nc m dag e (c # cs) =
      Some (e\<lparr>ev_braid := ev_braid e\<rparr>, c\<lparr>ev_braid := ev_braid c\<rparr> # cs)"
    using assms(2,5) by (auto simp: resolve_cnot_def)
  then show ?thesis using assms(7) by force
next
  case False
  obtain a1 a2 where a: "cnot_ancillas nc p q = (a1, a2)" by fastforce
  obtain r1 r2 where r: "cnot_routes nc m p q a1 True = Some (r1, r2)"
    and i1: "braid_in nr nc r1" and i2: "braid_in nr nc r2"
    and ne: "nodes r1 \<noteq> []" "links r2 \<noteq> []"
    using cnot_routes_ok [OF assms(1,3,4) a, of True] by (elim exE conjE) simp
  have ne2: "nodes r2 \<noteq> []" by (rule cnot_routes_nodes2 [OF r])
  have n1: "node_map m a1 < (nr + 1) * (nc + 1)"
    by (rule ancilla_link [OF assms(1,3) a])
  have nl: "last (nodes (ev_braid c)) < (nr + 1) * (nc + 1)"
    using assms(6,7) by (simp add: braid_in_def)
  have in1: "braid_in nr nc (r1\<lparr>nodes := butlast (nodes r1) @ [node_map m a1]\<rparr>)"
    using i1 n1 by (auto simp: braid_in_def dest: in_set_butlastD)
  have in2: "braid_in nr nc (r2\<lparr>nodes := butlast (nodes r2)\<rparr>)"
    "braid_in nr nc \<lparr>nodes = butlast (nodes r2) @ [last (nodes (ev_braid c))], links = butlast (links r2)\<rparr>"
    using i2 nl by (auto simp: braid_in_def dest: in_set_butlastD)
  show ?thesis
    using assms(2,5,6) False ne ne2 i1 in1 in2
    by (elim disjE) (auto simp: resolve_cnot_def a r Let_def)
qed

lemma resolve_cnot_ok_witness:
  "let g = \<lparr>gate_seq = 1, op_type = ''CNOT'', qid = [0, 8], criticality = 0\<rparr>;
       e = mk_event 6 \<lparr>nodes = [0], links = []\<rparr> True 0 Cnot3 0 9 6;
       c = mk_event 6 \<lparr>nodes = [0], links = []\<rparr> False 0 Cnot4 (-1) 0 6
   in resolve_cnot 3 (build_mesh 3 3) [g] e [c] \<noteq> None"
proof -
  let ?g = "\<lparr>gate_seq = 1, op_type = ''CNOT'', qid = [0, 8], criticality = 0\<rparr>"
  let ?e = "mk_event 6 \<lparr>nodes = [0], links = []\<rparr> True 0 Cnot3 0 9 6"
  let ?c = "mk_event 6 \<lparr>nodes = [0], links = []\<rparr> False 0 Cnot4 (-1) 0 6"
  have "qid ([?g] ! ev_gate ?e) = [0, 8]" "ev_type ?e = Cnot3 \<or> ev_type ?e = Cnot5"
    "nodes (ev_braid ?c) \<noteq> []" "\<forall>x\<in>set [?e, ?c]. braid_in 3 3 (ev_braid x)"
    by (simp_all add: mk_event_def braid_in_def)
  from resolve_cnot_ok [OF build_mesh_grid this(1) _ _ this(2-4)] show ?thesis
    unfolding Let_def by fastforce
qed

text \<open>The mesh load that is reported is that of the nodes: the first count is the number of
  nodes that a gate owns, the second the number of all nodes.\<close>

theorem mesh_util_counts:
  assumes "grid_mesh nr nc m"
  shows "get_mesh_util nr nc m =
    (length (filter (\<lambda>w. w \<noteq> 0) (node_owner m)), length (node_owner m))"
proof -
  define N where "N = nc + 1"
  have row: "foldl (\<lambda>(busy, count) c. (if owner m (Router (node_map m (r * N + c))) \<noteq> 0 then busy + 1 else busy, Suc count))
        (b, k) [0..<j] = (b + length (filter (\<lambda>c. owner m (Router (node_map m (r * N + c))) \<noteq> 0) [0..<j]), k + j)"
    for r b k j
    by (induction j) auto
  have len: "length (node_owner m) = (nr + 1) * N"
    using assms by (simp add: grid_mesh_def N_def)
  have own: "owner m (Router (node_map m i)) = node_owner m ! i" if "i < (nr + 1) * N" for i
    using that by (simp add: node_map_def len)
  have all: "foldl (\<lambda>(busy, count) r.
       foldl (\<lambda>(busy, count) c.
         (if owner m (Router (node_map m (r * N + c))) \<noteq> 0 then busy + 1 else busy, count + 1))
         (busy, count) [0..<N]) (0, 0) [0..<j] =
      (length (filter (\<lambda>i. node_owner m ! i \<noteq> 0) [0..<j * N]), j * N)" if "j \<le> nr + 1" for j
    using that
  proof (induction j)
    case (Suc j)
    have "j * N + c < (nr + 1) * N" if "c < N" for c
    proof -
      have "j * N + c < (j + 1) * N" using that by simp
      also have "\<dots> \<le> (nr + 1) * N" using Suc.prems by (intro mult_le_mono1) simp
      finally show ?thesis .
    qed
    then have "filter (\<lambda>c. owner m (Router (node_map m (j * N + c))) \<noteq> 0) [0..<N] =
        filter (\<lambda>c. node_owner m ! (j * N + c) \<noteq> 0) [0..<N]"
      by (intro filter_cong refl) (simp only: own set_upt atLeastLessThan_iff)
    moreover have "[0..<Suc j * N] = [0..<j * N] @ map (\<lambda>c. j * N + c) [0..<N]"
    proof -
      have "[0..<j * N + N] = [0..<j * N] @ [j * N..<j * N + N]"
        by (rule upt_add_eq_append) simp
      moreover have "[j * N..<j * N + N] = map (\<lambda>c. j * N + c) [0..<N]"
        using map_add_upt [of "j * N" N] by (simp add: add.commute)
      moreover have "Suc j * N = j * N + N" by simp
      ultimately show ?thesis by (simp only:)
    qed
    ultimately show ?case
      using Suc by (simp add: row filter_map comp_def del: owner.simps neq0_conv)
  qed simp
  have "map ((!) (node_owner m)) [0..<(nr + 1) * N] = node_owner m"
    unfolding len [symmetric] by (rule map_nth)
  then have "filter (\<lambda>w. w \<noteq> 0) (node_owner m) =
      filter (\<lambda>w. w \<noteq> 0) (map ((!) (node_owner m)) [0..<(nr + 1) * N])" by simp
  then have "length (filter (\<lambda>w. w \<noteq> 0) (node_owner m)) =
      length (filter (\<lambda>i. node_owner m ! i \<noteq> 0) [0..<(nr + 1) * N])"
    by (simp add: filter_map comp_def)
  then show ?thesis
    unfolding get_mesh_util_def N_def [symmetric] using all [of "nr + 1"] len by simp
qed

lemma mesh_util_counts_witness:
  "get_mesh_util 1 1 ((build_mesh 1 1)\<lparr>node_owner := [7, 3, 7, 0]\<rparr>) = (3, 4)"
proof -
  have "grid_mesh 1 1 ((build_mesh 1 1)\<lparr>node_owner := [7, 3, 7, 0]\<rparr>)"
    using build_mesh_grid [of 1 1] by (simp add: grid_mesh_def)
  from mesh_util_counts [OF this] show ?thesis by simp
qed

end
