(* ===== verification/Gate_Dag.thy ===== *)
theory Gate_Dag
  imports Braid_Events
begin

text \<open>
  The dependency graph of the gates of a module and the passes over it (\<open>braidflash.cpp\<close>: the
  loops of \<open>main\<close> that build the graph, \<open>get_gate_latency\<close>, \<open>get_critical_clk\<close>,
  \<open>assign_criticality\<close>, \<open>update_highest_criticality\<close>, \<open>initialize_ready_list\<close>). Vertices are
  indices into the list of gates; the edges are a list without repetitions, as the out-edges of
  a vertex are kept in a set.
\<close>

record dag =
  dag_gates :: "gate list"
  dag_edges :: "(nat \<times> nat) list"

definition in_degree :: "(nat \<times> nat) list \<Rightarrow> nat \<Rightarrow> nat" where
  "in_degree E g = length (filter (\<lambda>e. snd e = g) E)"

definition out_degree :: "(nat \<times> nat) list \<Rightarrow> nat \<Rightarrow> nat" where
  "out_degree E g = length (filter (\<lambda>e. fst e = g) E)"

text \<open>The targets of the out-edges, in the order of the set that holds them.\<close>

definition adjacent_vertices :: "(nat \<times> nat) list \<Rightarrow> nat \<Rightarrow> nat list" where
  "adjacent_vertices E g = sort (map snd (filter (\<lambda>e. fst e = g) E))"

definition clear_out_edges :: "nat \<Rightarrow> (nat \<times> nat) list \<Rightarrow> (nat \<times> nat) list" where
  "clear_out_edges g E = filter (\<lambda>e. fst e \<noteq> g) E"

subsection \<open>Building the graph\<close>

text \<open>\<open>gate_map\<close>: the vertex of a sequence number; \<open>emplace\<close> keeps the first, and the subscript
  of a missing key gives vertex 0.\<close>

fun gate_map :: "gate list \<Rightarrow> nat \<Rightarrow> nat" where
  "gate_map [] s = 0"
| "gate_map (g # gs) s =
     (if gate_seq g = s then 0 else if s \<in> gate_seq ` set gs then Suc (gate_map gs s) else 0)"

text \<open>The next gate that has the qubit among its operands.\<close>

fun next_user :: "nat \<Rightarrow> gate list \<Rightarrow> gate option" where
  "next_user q [] = None"
| "next_user q (g # gs) = (if q \<in> set (qid g) then Some g else next_user q gs)"

definition add_dep :: "gate list \<Rightarrow> gate \<Rightarrow> gate list \<Rightarrow> (nat \<times> nat) list \<Rightarrow> nat \<Rightarrow> (nat \<times> nat) list" where
  "add_dep all g later E q =
     (case next_user q later of
        None \<Rightarrow> E
      | Some h \<Rightarrow> List.insert (gate_map all (gate_seq g), gate_map all (gate_seq h)) E)"

fun add_deps :: "gate list \<Rightarrow> gate list \<Rightarrow> (nat \<times> nat) list \<Rightarrow> (nat \<times> nat) list" where
  "add_deps all [] E = E"
| "add_deps all (g # later) E = add_deps all later (foldl (add_dep all g later) E (qid g))"

definition build_dag :: "gate list \<Rightarrow> dag" where
  "build_dag module_gates =
     \<lparr>dag_gates = map (\<lambda>g. g\<lparr>criticality := -1\<rparr>) module_gates,
      dag_edges = add_deps module_gates module_gates []\<rparr>"

subsection \<open>Latencies and the passes in topological order\<close>

definition get_gate_latency :: "(string \<Rightarrow> nat) \<Rightarrow> gate \<Rightarrow> nat" where
  "get_gate_latency gate_latencies g =
     (if op_type g = ''CNOT'' then gate_latencies ''CNOT''
      else if op_type g = ''H'' then gate_latencies ''H''
      else if op_type g = ''T'' then gate_latencies ''T''
      else if op_type g = ''Tdag'' then gate_latencies ''Tdag''
      else 0)"

text \<open>One out-edge of a gate: the path to its target is set or made longer, \<open>upd\<close> does what the
  pass does with a new value, and the target is queued when this is its last in-edge.\<close>

definition relax ::
  "(nat \<Rightarrow> nat) \<Rightarrow> (nat \<Rightarrow> nat \<Rightarrow> 's \<Rightarrow> 's) \<Rightarrow> (nat \<times> nat) list \<Rightarrow> nat \<Rightarrow>
   (nat \<rightharpoonup> nat) \<times> nat list \<times> 's \<Rightarrow> nat \<Rightarrow> (nat \<rightharpoonup> nat) \<times> nat list \<times> 's" where
  "relax lat upd E g = (\<lambda>(cps, next_gates, s) g_out.
     let along = (case cps g of None \<Rightarrow> 0 | Some c \<Rightarrow> c) + lat g_out;
         c = (case cps g_out of None \<Rightarrow> along | Some old \<Rightarrow> max old along)
     in (cps(g_out \<mapsto> c), if in_degree E g_out = 1 then next_gates @ [g_out] else next_gates,
         upd g_out c s))"

text \<open>One round: the gates of the current level, with the assertion after each.\<close>

fun level_round ::
  "(nat \<Rightarrow> nat) \<Rightarrow> (nat \<Rightarrow> nat \<Rightarrow> 's \<Rightarrow> 's) \<Rightarrow> nat list \<Rightarrow> (nat \<times> nat) list \<Rightarrow>
   (nat \<rightharpoonup> nat) \<times> nat list \<times> 's \<Rightarrow> ((nat \<times> nat) list \<times> (nat \<rightharpoonup> nat) \<times> nat list \<times> 's) option" where
  "level_round lat upd [] E st = Some (E, st)"
| "level_round lat upd (g # gs) E st =
     (let st' = foldl (relax lat upd E g) st (adjacent_vertices E g);
          E' = clear_out_edges g E
      in if in_degree E' g = 0 \<and> out_degree E' g = 0 then level_round lat upd gs E' st' else None)"

text \<open>The loop over the levels. On a graph with a cycle it would not return.\<close>

partial_function (option) level_loop ::
  "(nat \<Rightarrow> nat) \<Rightarrow> (nat \<Rightarrow> nat \<Rightarrow> 's \<Rightarrow> 's) \<Rightarrow> (nat \<times> nat) list \<Rightarrow> nat list \<Rightarrow> (nat \<rightharpoonup> nat) \<Rightarrow> 's \<Rightarrow> 's option" where
  "level_loop lat upd E current cps s =
     (if E = [] \<and> current = [] then Some s
      else do {
        (E', cps', next_gates, s') \<leftarrow> level_round lat upd current E (cps, [], s);
        level_loop lat upd E' next_gates cps' s'
      })"

declare level_loop.simps [code]

text \<open>The loop over the vertices that starts the pass with the gates that have no in-edges.\<close>

definition root_step ::
  "(nat \<Rightarrow> nat) \<Rightarrow> (nat \<Rightarrow> nat \<Rightarrow> 's \<Rightarrow> 's) \<Rightarrow> (nat \<times> nat) list \<Rightarrow>
   nat list \<times> (nat \<rightharpoonup> nat) \<times> 's \<Rightarrow> nat \<Rightarrow> nat list \<times> (nat \<rightharpoonup> nat) \<times> 's" where
  "root_step lat upd E = (\<lambda>(current, cps, s) g.
     if in_degree E g = 0 then (current @ [g], cps(g \<mapsto> lat g), upd g (lat g) s)
     else (current, cps, s))"

definition level_pass ::
  "(nat \<Rightarrow> nat) \<Rightarrow> (nat \<Rightarrow> nat \<Rightarrow> 's \<Rightarrow> 's) \<Rightarrow> nat \<Rightarrow> (nat \<times> nat) list \<Rightarrow> 's \<Rightarrow> 's option" where
  "level_pass lat upd n E s =
     (let (current, cps, s') = foldl (root_step lat upd E) ([], Map.empty, s) [0..<n]
      in level_loop lat upd E current cps s')"

definition get_critical_clk :: "(string \<Rightarrow> nat) \<Rightarrow> dag \<Rightarrow> nat option" where
  "get_critical_clk gate_latencies dag_copy =
     level_pass (\<lambda>g. get_gate_latency gate_latencies (dag_gates dag_copy ! g))
       (\<lambda>g c result. if c > result then c else result)
       (length (dag_gates dag_copy)) (dag_edges dag_copy) 0"

text \<open>\<open>assign_criticality\<close> makes the same pass over the reversed graph and stores each value in the
  gate that the sequence number maps to.\<close>

definition set_criticality :: "nat \<Rightarrow> nat \<Rightarrow> gate list \<Rightarrow> gate list" where
  "set_criticality g c gs =
     (let i = gate_map gs (gate_seq (gs ! g)) in gs[i := (gs ! i)\<lparr>criticality := int c\<rparr>])"

definition assign_criticality :: "(string \<Rightarrow> nat) \<Rightarrow> dag \<Rightarrow> dag option" where
  "assign_criticality gate_latencies d =
     (case level_pass (\<lambda>g. get_gate_latency gate_latencies (dag_gates d ! g)) set_criticality
             (length (dag_gates d)) (map (\<lambda>(a, b). (b, a)) (dag_edges d)) (dag_gates d) of
        None \<Rightarrow> None
      | Some gs \<Rightarrow> Some (d\<lparr>dag_gates := gs\<rparr>))"

definition update_highest_criticality :: "dag \<Rightarrow> int" where
  "update_highest_criticality d =
     foldl (\<lambda>highest g.
        if in_degree (dag_edges d) g \<noteq> 0 \<or> out_degree (dag_edges d) g \<noteq> 0
        then (let crit = criticality (dag_gates d ! g) in if crit > highest then crit else highest)
        else highest)
       0 [0..<length (dag_gates d)]"

definition initialize_ready_list :: "dag \<Rightarrow> nat list" where
  "initialize_ready_list d =
     filter (\<lambda>g. in_degree (dag_edges d) g = 0) [0..<length (dag_gates d)]"

definition serial_clk :: "(string \<Rightarrow> nat) \<Rightarrow> gate list \<Rightarrow> nat" where
  "serial_clk gate_latencies module_gates =
     foldl (\<lambda>clk g. clk + get_gate_latency gate_latencies g) 0 module_gates"

end
