(* ===== verification/Dag_Passes.thy ===== *)
theory Dag_Passes
  imports Gate_Dag
begin

text \<open>
  Correctness of the passes over the dependency graph: the graph that \<open>build_dag\<close> makes orders
  every two gates that share a qubit, and the level-by-level passes return with the weights of
  the longest chains of dependent gates.
\<close>

subsection \<open>The level-by-level pass\<close>

definition preds :: "(nat \<times> nat) list \<Rightarrow> nat \<Rightarrow> nat set" where
  "preds E g = {a. (a, g) \<in> set E}"

text \<open>The edges left when the gates of \<open>D\<close> are done, and the value of a gate at that time.\<close>

definition edges_left :: "(nat \<times> nat) list \<Rightarrow> nat set \<Rightarrow> (nat \<times> nat) list" where
  "edges_left E D = filter (\<lambda>e. fst e \<notin> D) E"

definition value_at :: "(nat \<times> nat) list \<Rightarrow> (nat \<Rightarrow> nat) \<Rightarrow> (nat \<Rightarrow> nat) \<Rightarrow> nat set \<Rightarrow> nat \<Rightarrow> nat option" where
  "value_at E lat cp D g =
     (if preds E g = {} \<or> preds E g \<inter> D \<noteq> {}
      then Some (lat g + Max (insert 0 (cp ` (preds E g \<inter> D)))) else None)"

lemma finite_preds [simp]: "finite (preds E g)"
proof -
  have "preds E g \<subseteq> fst ` set E" by (force simp: preds_def)
  then show ?thesis by (rule finite_subset) simp
qed

lemma in_degree_left: "distinct E \<Longrightarrow> in_degree (edges_left E D) g = card (preds E g - D)"
proof -
  assume "distinct E"
  then have "in_degree (edges_left E D) g = card (set (filter (\<lambda>e. snd e = g) (edges_left E D)))"
    by (simp add: in_degree_def edges_left_def distinct_card del: set_filter filter_filter)
  also have "\<dots> = card ((\<lambda>a. (a, g)) ` (preds E g - D))"
    by (rule arg_cong [where f = card]) (force simp: edges_left_def preds_def)
  also have "\<dots> = card (preds E g - D)"
    by (rule card_image) (simp add: inj_on_def)
  finally show ?thesis .
qed

lemma set_adjacent: "set (adjacent_vertices (edges_left E D) g) = {h. g \<in> preds E h \<and> g \<notin> D}"
  by (force simp: adjacent_vertices_def edges_left_def preds_def)

lemma distinct_adjacent: "distinct E \<Longrightarrow> distinct (adjacent_vertices E g)"
  by (auto simp: adjacent_vertices_def distinct_map inj_on_def prod_eq_iff)

lemma clear_left: "clear_out_edges g (edges_left E D) = edges_left E (insert g D)"
  by (auto simp: clear_out_edges_def edges_left_def intro: filter_cong)

lemma edges_left_empty [simp]: "edges_left E {} = E"
  by (simp add: edges_left_def)

lemma newly_ready:
  assumes "distinct E" and "\<forall>(a, b)\<in>set E. a < n \<and> b < n \<and> a \<noteq> b"
    and "g \<notin> D" and "\<forall>x\<in>D. preds E x \<subseteq> D"
  shows "h \<in> set (filter (\<lambda>h. in_degree (edges_left E D) h = 1) (adjacent_vertices (edges_left E D) g)) \<longleftrightarrow>
    h < n \<and> h \<noteq> g \<and> h \<notin> D \<and> g \<in> preds E h \<and> preds E h \<subseteq> insert g D"
proof -
  have "card (preds E h - D) = 1 \<longleftrightarrow> preds E h \<subseteq> insert g D" if "g \<in> preds E h"
  proof
    assume "card (preds E h - D) = 1"
    then obtain x where "preds E h - D = {x}" by (rule card_1_singletonE)
    moreover have "g \<in> preds E h - D" using that assms(3) by simp
    ultimately show "preds E h \<subseteq> insert g D" by auto
  next
    assume "preds E h \<subseteq> insert g D"
    then have "preds E h - D = {g}" using that assms(3) by auto
    then show "card (preds E h - D) = 1" by simp
  qed
  moreover have "h < n \<and> h \<noteq> g \<and> h \<notin> D" if "g \<in> preds E h"
    using that assms(2-4) by (auto simp: preds_def)
  ultimately show ?thesis
    using assms(3) by (auto simp: set_adjacent in_degree_left [OF assms(1)])
qed

locale level_graph =
  fixes n :: nat
    and E :: "(nat \<times> nat) list"
    and lat :: "nat \<Rightarrow> nat"
    and cp :: "nat \<Rightarrow> nat"
    and rk :: "nat \<Rightarrow> nat"
    and upd :: "nat \<Rightarrow> nat \<Rightarrow> 's \<Rightarrow> 's"
    and J :: "(nat \<rightharpoonup> nat) \<Rightarrow> 's \<Rightarrow> bool"
  assumes distinct_E: "distinct E"
    and E_in: "(a, b) \<in> set E \<Longrightarrow> a < n \<and> b < n \<and> rk a < rk b"
    and cp_eq: "g < n \<Longrightarrow> cp g = lat g + Max (insert 0 (cp ` preds E g))"
    and J_upd: "J cps s \<Longrightarrow> g < n \<Longrightarrow> (\<And>old. cps g = Some old \<Longrightarrow> old \<le> c) \<Longrightarrow> J (cps(g \<mapsto> c)) (upd g c s)"
begin

lemma preds_less: "a \<in> preds E g \<Longrightarrow> a < n \<and> g < n \<and> rk a < rk g"
  using E_in by (auto simp: preds_def)

lemma relax_fold:
  assumes "J cps s" and "cps g = Some v" and "g \<notin> set os" and "distinct os" and "\<forall>h\<in>set os. h < n"
  shows "\<exists>cps' s'. foldl (relax lat upd F g) (cps, nx, s) os =
      (cps', nx @ filter (\<lambda>h. in_degree F h = 1) os, s') \<and> J cps' s' \<and>
      (\<forall>h. cps' h = (if h \<in> set os
         then Some (case cps h of None \<Rightarrow> v + lat h | Some old \<Rightarrow> max old (v + lat h)) else cps h))"
  using assms
proof (induction os arbitrary: cps nx s)
  case (Cons h os)
  let ?c = "case cps h of None \<Rightarrow> v + lat h | Some old \<Rightarrow> max old (v + lat h)"
  let ?nx = "if in_degree F h = 1 then nx @ [h] else nx"
  have step: "relax lat upd F g (cps, nx, s) h = (cps(h \<mapsto> ?c), ?nx, upd h ?c s)"
    by (cases "cps h") (simp_all add: relax_def Let_def Cons.prems(2))
  have J1: "J (cps(h \<mapsto> ?c)) (upd h ?c s)"
    using Cons.prems(1,5) by (intro J_upd) (auto split: option.splits)
  have "\<exists>cps' s'. foldl (relax lat upd F g) (cps(h \<mapsto> ?c), ?nx, upd h ?c s) os =
      (cps', ?nx @ filter (\<lambda>h. in_degree F h = 1) os, s') \<and> J cps' s' \<and>
      (\<forall>k. cps' k = (if k \<in> set os
         then Some (case (cps(h \<mapsto> ?c)) k of None \<Rightarrow> v + lat k | Some old \<Rightarrow> max old (v + lat k))
         else (cps(h \<mapsto> ?c)) k))"
    using Cons.prems by (intro Cons.IH J1) auto
  then obtain cps' s' where *: "foldl (relax lat upd F g) (cps(h \<mapsto> ?c), ?nx, upd h ?c s) os =
      (cps', ?nx @ filter (\<lambda>h. in_degree F h = 1) os, s')" "J cps' s'"
    "\<forall>k. cps' k = (if k \<in> set os
         then Some (case (cps(h \<mapsto> ?c)) k of None \<Rightarrow> v + lat k | Some old \<Rightarrow> max old (v + lat k))
         else (cps(h \<mapsto> ?c)) k)" by blast
  have "foldl (relax lat upd F g) (cps, nx, s) (h # os) =
      (cps', nx @ filter (\<lambda>h. in_degree F h = 1) (h # os), s')"
    using *(1) step by simp
  moreover have "\<forall>k. cps' k = (if k \<in> set (h # os)
       then Some (case cps k of None \<Rightarrow> v + lat k | Some old \<Rightarrow> max old (v + lat k)) else cps k)"
    using *(3) Cons.prems(4) by auto
  ultimately show ?case using *(2) by blast
qed simp

definition level_inv :: "nat set \<Rightarrow> nat list \<Rightarrow> (nat \<rightharpoonup> nat) \<Rightarrow> bool" where
  "level_inv D P cps \<longleftrightarrow>
     D \<subseteq> {..<n} \<and> (\<forall>g\<in>D. preds E g \<subseteq> D) \<and>
     distinct P \<and> set P = {g. g < n \<and> g \<notin> D \<and> preds E g \<subseteq> D} \<and>
     (\<forall>g<n. cps g = value_at E lat cp D g)"

lemma value_done: "g < n \<Longrightarrow> preds E g \<subseteq> D \<Longrightarrow> value_at E lat cp D g = Some (cp g)"
  using cp_eq [of g] by (auto simp: value_at_def Int_absorb2)

lemma value_more:
  assumes "g \<in> preds E h" and "g \<notin> D"
  shows "value_at E lat cp (insert g D) h =
    Some (case value_at E lat cp D h of None \<Rightarrow> cp g + lat h | Some old \<Rightarrow> max old (cp g + lat h))"
proof -
  have ins: "preds E h \<inter> insert g D = insert g (preds E h \<inter> D)" and ne: "preds E h \<noteq> {}"
    using assms by auto
  define x where "x = Max (insert 0 (cp ` (preds E h \<inter> D)))"
  have new: "Max (insert 0 (cp ` insert g (preds E h \<inter> D))) = max (cp g) x"
    using Max_insert [of "insert 0 (cp ` (preds E h \<inter> D))" "cp g"]
    by (simp add: insert_commute x_def)
  have old: "value_at E lat cp D h = (if preds E h \<inter> D = {} then None else Some (lat h + x))"
    using ne by (simp add: value_at_def x_def)
  have "x = 0" if "preds E h \<inter> D = {}" using that by (simp add: x_def)
  then show ?thesis
    unfolding value_at_def [of E lat cp "insert g D"] ins new old by (simp add: max_def)
qed

lemma value_same: "g \<notin> preds E h \<Longrightarrow> value_at E lat cp (insert g D) h = value_at E lat cp D h"
  by (simp add: value_at_def)

lemma process_gate:
  assumes inv: "level_inv D (g # P) cps" and J: "J cps s"
  shows "\<exists>cps' os s'. foldl (relax lat upd (edges_left E D) g) (cps, nx, s)
        (adjacent_vertices (edges_left E D) g) = (cps', nx @ os, s') \<and> J cps' s' \<and>
      level_inv (insert g D) (P @ os) cps' \<and>
      in_degree (edges_left E (insert g D)) g = 0 \<and> out_degree (edges_left E (insert g D)) g = 0"
proof -
  let ?F = "edges_left E D"
  let ?os = "filter (\<lambda>h. in_degree ?F h = 1) (adjacent_vertices ?F g)"
  from inv have g: "g < n" "g \<notin> D" "preds E g \<subseteq> D" and P: "distinct (g # P)"
    "set (g # P) = {g. g < n \<and> g \<notin> D \<and> preds E g \<subseteq> D}" and D: "D \<subseteq> {..<n}" "\<forall>g\<in>D. preds E g \<subseteq> D"
    and v: "\<forall>g<n. cps g = value_at E lat cp D g"
    unfolding level_inv_def by auto
  have adj: "set (adjacent_vertices ?F g) = {h. g \<in> preds E h}"
    using g(2) by (simp add: set_adjacent)
  have dF: "distinct ?F" using distinct_E by (simp add: edges_left_def)
  have cg: "cps g = Some (cp g)" using v g value_done by simp
  have "g \<notin> set (adjacent_vertices ?F g)" "\<forall>h\<in>set (adjacent_vertices ?F g). h < n"
    using preds_less by (auto simp: adj)
  from relax_fold [OF J cg this(1) distinct_adjacent [OF dF] this(2), of ?F nx]
  obtain cps' s' where f: "foldl (relax lat upd ?F g) (cps, nx, s) (adjacent_vertices ?F g) = (cps', nx @ ?os, s')"
    and J': "J cps' s'"
    and c': "\<forall>h. cps' h = (if g \<in> preds E h
       then Some (case cps h of None \<Rightarrow> cp g + lat h | Some old \<Rightarrow> max old (cp g + lat h)) else cps h)"
    unfolding adj by auto
  have os: "h \<in> set ?os \<longleftrightarrow> h < n \<and> h \<noteq> g \<and> h \<notin> D \<and> g \<in> preds E h \<and> preds E h \<subseteq> insert g D" for h
    by (rule newly_ready [OF distinct_E _ g(2) D(2)]) (auto dest: E_in)
  have "level_inv (insert g D) (P @ ?os) cps'"
    unfolding level_inv_def
  proof (intro conjI)
    show "insert g D \<subseteq> {..<n}" using g D by simp
    show "\<forall>h\<in>insert g D. preds E h \<subseteq> insert g D" using g(3) D(2) by auto
    have "set P \<inter> set ?os = {}"
    proof -
      have "preds E h \<subseteq> D" if "h \<in> set P" for h using P(2) that by auto
      then show ?thesis using g(2) os by auto
    qed
    then show "distinct (P @ ?os)" using P(1) distinct_adjacent [OF dF] by simp
    show "set (P @ ?os) = {h. h < n \<and> h \<notin> insert g D \<and> preds E h \<subseteq> insert g D}"
    proof (rule set_eqI)
      fix h
      have "h \<in> set P \<longleftrightarrow> h < n \<and> h \<noteq> g \<and> h \<notin> D \<and> preds E h \<subseteq> D"
        using P by auto
      then show "h \<in> set (P @ ?os) \<longleftrightarrow> h \<in> {h. h < n \<and> h \<notin> insert g D \<and> preds E h \<subseteq> insert g D}"
        using os [of h] by auto
    qed
    show "\<forall>h<n. cps' h = value_at E lat cp (insert g D) h"
      using c' v value_more [of g _ D] g(2) value_same [of g _ D] by auto
  qed
  moreover have "in_degree (edges_left E (insert g D)) g = 0"
    using g(3) by (simp add: in_degree_left [OF distinct_E] card_eq_0_iff Diff_eq_empty_iff subset_insertI2)
  moreover have "out_degree (edges_left E (insert g D)) g = 0"
    by (auto simp: out_degree_def edges_left_def filter_empty_conv)
  ultimately show ?thesis using f J' by blast
qed

lemma level_round_ok:
  "level_inv D (gs @ nx) cps \<Longrightarrow> J cps s \<Longrightarrow>
   \<exists>cps' nx' s'. level_round lat upd gs (edges_left E D) (cps, nx, s) =
       Some (edges_left E (D \<union> set gs), cps', nx', s') \<and>
     level_inv (D \<union> set gs) nx' cps' \<and> J cps' s'"
proof (induction gs arbitrary: D nx cps s)
  case (Cons g gs)
  from process_gate [of D g "gs @ nx" cps s nx] Cons.prems
  obtain cps1 os s1 where 1: "foldl (relax lat upd (edges_left E D) g) (cps, nx, s)
        (adjacent_vertices (edges_left E D) g) = (cps1, nx @ os, s1)" "J cps1 s1"
      "level_inv (insert g D) (gs @ nx @ os) cps1"
      "in_degree (edges_left E (insert g D)) g = 0" "out_degree (edges_left E (insert g D)) g = 0"
    by auto
  from Cons.IH [OF 1(3,2)] show ?case
    using 1 by (simp add: clear_left Let_def)
qed simp

lemma level_loop_ok:
  "level_inv D gs cps \<Longrightarrow> J cps s \<Longrightarrow>
   \<exists>cps' s'. level_loop lat upd (edges_left E D) gs cps s = Some s' \<and> J cps' s' \<and>
     (\<forall>g<n. cps' g = Some (cp g))"
proof (induction "n - card D" arbitrary: D gs cps s rule: less_induct)
  case less
  show ?case
  proof (cases "gs = []")
    case True
    have all: "{..<n} \<subseteq> D"
    proof (rule ccontr)
      assume "\<not> {..<n} \<subseteq> D"
      then obtain x where "x < n \<and> x \<notin> D" by auto
      from ex_has_least_nat [of "\<lambda>x. x < n \<and> x \<notin> D", OF this, of rk]
      obtain g where g: "g < n" "g \<notin> D" "\<And>y. y < n \<Longrightarrow> y \<notin> D \<Longrightarrow> rk g \<le> rk y" by auto
      have "preds E g \<subseteq> D"
      proof
        fix a assume "a \<in> preds E g"
        then show "a \<in> D" using preds_less [of a g] g(3) [of a] by (meson not_le)
      qed
      then show False using g(1,2) less.prems(1) True by (auto simp: level_inv_def)
    qed
    have "fst e \<in> D" if "e \<in> set E" for e
      using E_in [of "fst e" "snd e"] that all by auto
    then have "edges_left E D = []" by (auto simp: edges_left_def filter_empty_conv)
    moreover have "\<forall>g<n. cps g = Some (cp g)"
    proof (intro allI impI)
      fix g assume g: "g < n"
      have "preds E g \<subseteq> D" using all preds_less by auto
      then show "cps g = Some (cp g)"
        using less.prems(1) g value_done by (simp add: level_inv_def)
    qed
    ultimately show ?thesis
      using True less.prems(2) by (subst level_loop.simps) auto
  next
    case False
    let ?D = "D \<union> set gs"
    from level_round_ok [of D gs "[]" cps s] less.prems
    obtain cps1 nx s1 where r: "level_round lat upd gs (edges_left E D) (cps, [], s) =
        Some (edges_left E ?D, cps1, nx, s1)" "level_inv ?D nx cps1" "J cps1 s1"
      by auto
    have sub: "D \<subset> ?D" "?D \<subseteq> {..<n}"
      using False less.prems(1) by (cases gs; auto simp: level_inv_def)+
    then have "card D < card ?D" "card ?D \<le> n"
      using psubset_card_mono [of ?D D] card_mono [of "{..<n}" ?D] finite_subset [of ?D "{..<n}"] by auto
    then have "n - card ?D < n - card D" by simp
    from less.hyps [OF this r(2,3)] show ?thesis
      using False r(1) by (subst level_loop.simps) simp
  qed
qed

lemma roots_ok:
  assumes "J Map.empty s" and "k \<le> n"
  shows "\<exists>cps s'. foldl (root_step lat upd E) ([], Map.empty, s) [0..<k] =
      (filter (\<lambda>g. in_degree E g = 0) [0..<k], cps, s') \<and> J cps s' \<and>
      (\<forall>g. cps g = (if g < k \<and> in_degree E g = 0 then Some (lat g) else None))"
  using assms(2)
proof (induction k)
  case (Suc k)
  then obtain cps s' where *: "foldl (root_step lat upd E) ([], Map.empty, s) [0..<k] =
      (filter (\<lambda>g. in_degree E g = 0) [0..<k], cps, s')" "J cps s'"
      "\<forall>g. cps g = (if g < k \<and> in_degree E g = 0 then Some (lat g) else None)" by auto
  have "J (cps(k \<mapsto> lat k)) (upd k (lat k) s')"
    using *(2,3) Suc.prems by (intro J_upd) auto
  then show ?case
    using * by (auto simp: root_step_def less_Suc_eq)
qed (use assms(1) in auto)

lemma level_pass_ok:
  assumes "J Map.empty s"
  shows "\<exists>cps s'. level_pass lat upd n E s = Some s' \<and> J cps s' \<and> (\<forall>g<n. cps g = Some (cp g))"
proof -
  obtain cps s' where *: "foldl (root_step lat upd E) ([], Map.empty, s) [0..<n] =
      (filter (\<lambda>g. in_degree E g = 0) [0..<n], cps, s')" "J cps s'"
      "\<forall>g. cps g = (if g < n \<and> in_degree E g = 0 then Some (lat g) else None)"
    using roots_ok [OF assms order_refl] by blast
  have d0: "in_degree E g = 0 \<longleftrightarrow> preds E g = {}" for g
    using in_degree_left [OF distinct_E, of "{}" g] by simp
  have "level_inv {} (filter (\<lambda>g. in_degree E g = 0) [0..<n]) cps"
    using *(3) by (auto simp: level_inv_def value_at_def d0)
  from level_loop_ok [OF this *(2)] show ?thesis
    using *(1) by (simp add: level_pass_def)
qed

end

subsection \<open>The edges of the graph\<close>

text \<open>Gate \<open>j\<close> is the next gate after \<open>i\<close> that uses one of its qubits.\<close>

definition next_use :: "gate list \<Rightarrow> nat \<Rightarrow> nat \<Rightarrow> bool" where
  "next_use gs i j \<longleftrightarrow> i < j \<and> j < length gs \<and>
     (\<exists>q\<in>set (qid (gs ! i)). q \<in> set (qid (gs ! j)) \<and> (\<forall>k. i < k \<and> k < j \<longrightarrow> q \<notin> set (qid (gs ! k))))"

lemma gate_map_nth:
  "distinct (map gate_seq gs) \<Longrightarrow> i < length gs \<Longrightarrow> gate_map gs (gate_seq (gs ! i)) = i"
proof (induction gs arbitrary: i)
  case (Cons g gs)
  then show ?case
    by (cases i) (auto simp: image_iff)
qed simp

lemma next_user_Some:
  "next_user q gs = Some h \<longleftrightarrow>
   (\<exists>k<length gs. gs ! k = h \<and> q \<in> set (qid h) \<and> (\<forall>k'<k. q \<notin> set (qid (gs ! k'))))"
proof (induction gs)
  case (Cons g gs)
  show ?case
  proof (cases "q \<in> set (qid g)")
    case True
    then show ?thesis by (auto simp: less_Suc_eq_0_disj)
  next
    case False
    then have "next_user q (g # gs) = Some h \<longleftrightarrow>
        (\<exists>k<length gs. gs ! k = h \<and> q \<in> set (qid h) \<and> (\<forall>k'<k. q \<notin> set (qid (gs ! k'))))"
      using Cons.IH by simp
    also have "\<dots> \<longleftrightarrow> (\<exists>k<length (g # gs). (g # gs) ! k = h \<and> q \<in> set (qid h) \<and>
        (\<forall>k'<k. q \<notin> set (qid ((g # gs) ! k'))))"
      using False by (auto simp: Ex_less_Suc2 All_less_Suc2)
    finally show ?thesis .
  qed
qed simp

lemma set_add_dep:
  "set (foldl (add_dep all g later) E qs) =
   set E \<union> {(gate_map all (gate_seq g), gate_map all (gate_seq h)) | q h. q \<in> set qs \<and> next_user q later = Some h}"
  by (induction qs arbitrary: E) (auto simp: add_dep_def split: option.splits)

lemma distinct_add_dep: "distinct E \<Longrightarrow> distinct (foldl (add_dep all g later) E qs)"
  by (induction qs arbitrary: E) (auto simp: add_dep_def distinct_insert split: option.splits)

lemma distinct_add_deps: "distinct E \<Longrightarrow> distinct (add_deps all gs E)"
  by (induction gs arbitrary: E) (simp_all add: distinct_add_dep)

lemma set_add_deps:
  assumes "distinct (map gate_seq all)" and "all = pre @ gs"
  shows "set (add_deps all gs E) = set E \<union> {(i, j). length pre \<le> i \<and> next_use all i j}"
  using assms(2)
proof (induction gs arbitrary: pre E)
  case Nil
  then show ?case by (auto simp: next_use_def)
next
  case (Cons g later)
  let ?i = "length pre"
  have gi: "all ! ?i = g" "?i < length all" using Cons.prems by simp_all
  have later: "later ! k = all ! (Suc ?i + k)" if "k < length later" for k
    using Cons.prems by (simp add: nth_append)
  have len: "length all = Suc ?i + length later" using Cons.prems by simp
  have mg: "gate_map all (gate_seq g) = ?i" using gate_map_nth [OF assms(1) gi(2)] gi(1) by simp
  have step: "(\<exists>q h. q \<in> set (qid g) \<and> next_user q later = Some h \<and> j = gate_map all (gate_seq h)) \<longleftrightarrow>
      next_use all ?i j" for j
  proof
    assume "\<exists>q h. q \<in> set (qid g) \<and> next_user q later = Some h \<and> j = gate_map all (gate_seq h)"
    then obtain q k where q: "q \<in> set (qid g)" and k: "k < length later" "q \<in> set (qid (later ! k))"
      "\<forall>k'<k. q \<notin> set (qid (later ! k'))" and j: "j = gate_map all (gate_seq (later ! k))"
      by (auto simp: next_user_Some)
    have j': "j = Suc ?i + k"
      using gate_map_nth [OF assms(1), of "Suc ?i + k"] k(1) len later j by simp
    have "q \<notin> set (qid (all ! x))" if "?i < x \<and> x < j" for x
    proof -
      have "x - Suc ?i < k" using that j' by arith
      then have "later ! (x - Suc ?i) = all ! x" "q \<notin> set (qid (later ! (x - Suc ?i)))"
        using that k(1,3) later [of "x - Suc ?i"] by auto
      then show ?thesis by simp
    qed
    then show "next_use all ?i j"
      using q k gi later j' len unfolding next_use_def by auto
  next
    assume "next_use all ?i j"
    then obtain q where q: "?i < j" "j < length all" "q \<in> set (qid g)" "q \<in> set (qid (all ! j))"
      "\<forall>k. ?i < k \<and> k < j \<longrightarrow> q \<notin> set (qid (all ! k))" by (auto simp: next_use_def gi(1))
    define k where "k = j - Suc ?i"
    have k: "k < length later" "j = Suc ?i + k" using q(1,2) len by (simp_all add: k_def)
    have "q \<notin> set (qid (later ! k'))" if "k' < k" for k'
      using that q(5) k later [of k'] by simp
    then have "next_user q later = Some (later ! k)"
      using q(4) k later by (auto simp: next_user_Some)
    moreover have "gate_map all (gate_seq (later ! k)) = j"
      using gate_map_nth [OF assms(1) q(2)] k later by simp
    ultimately show "\<exists>q h. q \<in> set (qid g) \<and> next_user q later = Some h \<and> j = gate_map all (gate_seq h)"
      using q(3) by metis
  qed
  have "set (foldl (add_dep all g later) E (qid g)) = set E \<union> {(?i, j) | j. next_use all ?i j}"
    unfolding set_add_dep mg step [symmetric] by blast
  moreover have "all = (pre @ [g]) @ later" using Cons.prems by simp
  from Cons.IH [OF this]
  have "set (add_deps all later F) = set F \<union> {(i, j). Suc ?i \<le> i \<and> next_use all i j}" for F
    by simp
  ultimately show ?case by (auto simp: Suc_le_eq le_less)
qed

lemma build_dag_edges:
  "distinct (map gate_seq gs) \<Longrightarrow> (i, j) \<in> set (dag_edges (build_dag gs)) \<longleftrightarrow> next_use gs i j"
  using set_add_deps [of gs "[]" gs "[]"] by (simp add: build_dag_def)

lemma build_dag_distinct: "distinct (dag_edges (build_dag gs))"
  by (simp add: build_dag_def distinct_add_deps)

lemma build_dag_length [simp]: "length (dag_gates (build_dag gs)) = length gs"
  by (simp add: build_dag_def)

subsection \<open>Chains of dependent gates\<close>

fun chain :: "nat \<Rightarrow> (nat \<times> nat) list \<Rightarrow> nat list \<Rightarrow> bool" where
  "chain n E [] \<longleftrightarrow> False"
| "chain n E [x] \<longleftrightarrow> x < n"
| "chain n E (x # y # zs) \<longleftrightarrow> (x, y) \<in> set E \<and> x < n \<and> chain n E (y # zs)"

text \<open>The largest weight of a chain that ends, or starts, in a gate.\<close>

function longest_to :: "(nat \<times> nat) list \<Rightarrow> (nat \<Rightarrow> nat) \<Rightarrow> nat \<Rightarrow> nat" where
  "longest_to E lat g =
     lat g + Max (insert 0 (longest_to E lat ` {a. a < g \<and> (a, g) \<in> set E}))"
  by pat_completeness auto
termination
  by (relation "measure (\<lambda>(E, lat, g). g)") auto

function longest_from :: "nat \<Rightarrow> (nat \<times> nat) list \<Rightarrow> (nat \<Rightarrow> nat) \<Rightarrow> nat \<Rightarrow> nat" where
  "longest_from n E lat g =
     lat g + Max (insert 0 (longest_from n E lat ` {b. g < b \<and> b < n \<and> (g, b) \<in> set E}))"
  by pat_completeness auto
termination
  by (relation "measure (\<lambda>(n, E, lat, g). n - g)") auto

declare longest_to.simps [simp del] longest_from.simps [simp del]

lemma chain_less: "chain n E p \<Longrightarrow> x \<in> set p \<Longrightarrow> x < n"
  by (induction p rule: induct_list012) auto

lemma chain_snoc: "chain n E (p @ [x]) \<longleftrightarrow> x < n \<and> (p = [] \<or> chain n E p \<and> (last p, x) \<in> set E)"
  by (induction p rule: induct_list012) auto

text \<open>Edges that go from earlier to later gates.\<close>

definition forward :: "nat \<Rightarrow> (nat \<times> nat) list \<Rightarrow> bool" where
  "forward n E \<longleftrightarrow> (\<forall>(a, b)\<in>set E. a < b \<and> b < n)"

lemma forwardD: "forward n E \<Longrightarrow> (a, b) \<in> set E \<Longrightarrow> a < b \<and> b < n"
  by (auto simp: forward_def)

lemma longest_to_eq:
  "forward n E \<Longrightarrow> longest_to E lat g = lat g + Max (insert 0 (longest_to E lat ` preds E g))"
proof -
  assume "forward n E"
  then have "{a. a < g \<and> (a, g) \<in> set E} = preds E g"
    by (auto simp: preds_def dest: forwardD)
  then show ?thesis by (subst longest_to.simps) simp
qed

lemma preds_reverse: "preds (map (\<lambda>(a, b). (b, a)) E) g = {b. (g, b) \<in> set E}"
  by (force simp: preds_def)

lemma longest_from_eq:
  "forward n E \<Longrightarrow> longest_from n E lat g =
     lat g + Max (insert 0 (longest_from n E lat ` preds (map (\<lambda>(a, b). (b, a)) E) g))"
proof -
  assume "forward n E"
  then have "{b. g < b \<and> b < n \<and> (g, b) \<in> set E} = preds (map (\<lambda>(a, b). (b, a)) E) g"
    by (auto simp: preds_reverse dest: forwardD)
  then show ?thesis by (subst longest_from.simps) simp
qed

lemma chain_le_longest_to:
  "forward n E \<Longrightarrow> chain n E p \<Longrightarrow> sum_list (map lat p) \<le> longest_to E lat (last p)"
proof (induction p rule: rev_induct)
  case (snoc x p)
  show ?case
  proof (cases "p = []")
    case True
    then show ?thesis by (simp add: longest_to.simps [of E lat x])
  next
    case False
    then have le: "sum_list (map lat p) \<le> longest_to E lat (last p)" and e: "last p \<in> preds E x"
      using snoc by (auto simp: chain_snoc preds_def)
    have "longest_to E lat (last p) \<le> Max (insert 0 (longest_to E lat ` preds E x))"
      using e by (intro Max_ge) auto
    from order_trans [OF le this] show ?thesis
      using longest_to_eq [OF snoc.prems(1), of lat x] by simp
  qed
qed simp

lemma chain_longest_to:
  assumes "forward n E" and "g < n"
  shows "\<exists>p. chain n E p \<and> last p = g \<and> sum_list (map lat p) = longest_to E lat g"
  using assms(2)
proof (induction g rule: less_induct)
  case (less g)
  let ?M = "insert 0 (longest_to E lat ` preds E g)"
  have "Max ?M \<in> ?M" by (rule Max_in) auto
  then consider "Max ?M = 0" | a where "a \<in> preds E g" "Max ?M = longest_to E lat a" by auto
  then show ?case
  proof cases
    case 1
    then show ?thesis
      using longest_to_eq [OF assms(1), of lat g] less.prems by (intro exI [of _ "[g]"]) simp
  next
    case (2 a)
    then have "a < g" "(a, g) \<in> set E" using forwardD [OF assms(1)] by (auto simp: preds_def)
    with less obtain p where "chain n E p" "last p = a" "sum_list (map lat p) = longest_to E lat a"
      by (meson less_trans)
    then show ?thesis
      using longest_to_eq [OF assms(1), of lat g] 2(2) less.prems \<open>(a, g) \<in> set E\<close>
      by (intro exI [of _ "p @ [g]"]) (auto simp: chain_snoc)
  qed
qed

lemma chain_le_longest_from:
  "forward n E \<Longrightarrow> chain n E p \<Longrightarrow> sum_list (map lat p) \<le> longest_from n E lat (hd p)"
proof (induction p rule: induct_list012)
  case (2 x)
  then show ?case by (simp add: longest_from.simps [of n E lat x])
next
  case (3 x y zs)
  then have le: "sum_list (map lat (y # zs)) \<le> longest_from n E lat y"
    and e: "y \<in> preds (map (\<lambda>(a, b). (b, a)) E) x"
    by (auto simp: preds_reverse)
  have "longest_from n E lat y \<le>
      Max (insert 0 (longest_from n E lat ` preds (map (\<lambda>(a, b). (b, a)) E) x))"
    using e by (intro Max_ge) auto
  from order_trans [OF le this] show ?case
    using longest_from_eq [OF 3(3), of lat x] by simp
qed simp

lemma chain_longest_from:
  assumes "forward n E" and "g < n"
  shows "\<exists>p. chain n E p \<and> hd p = g \<and> sum_list (map lat p) = longest_from n E lat g"
  using assms(2)
proof (induction "n - g" arbitrary: g rule: less_induct)
  case (less g)
  let ?R = "preds (map (\<lambda>(a, b). (b, a)) E) g"
  let ?M = "insert 0 (longest_from n E lat ` ?R)"
  have "Max ?M \<in> ?M" by (rule Max_in) auto
  then consider "Max ?M = 0" | b where "b \<in> ?R" "Max ?M = longest_from n E lat b" by auto
  then show ?case
  proof cases
    case 1
    then show ?thesis
      using longest_from_eq [OF assms(1), of lat g] less.prems by (intro exI [of _ "[g]"]) simp
  next
    case (2 b)
    then have b: "g < b" "b < n" "(g, b) \<in> set E"
      using forwardD [OF assms(1)] by (auto simp: preds_reverse)
    then have "n - b < n - g" by simp
    from less.hyps [OF this b(2)] obtain p where p: "chain n E p" "hd p = b"
      "sum_list (map lat p) = longest_from n E lat b" by blast
    then obtain zs where "p = b # zs" by (cases p) auto
    then show ?thesis
      using p longest_from_eq [OF assms(1), of lat g] 2(2) less.prems b
      by (intro exI [of _ "g # p"]) auto
  qed
qed

lemma chain_sorted: "forward n E \<Longrightarrow> chain n E p \<Longrightarrow> sorted_wrt (<) p"
proof (induction p rule: induct_list012)
  case (3 x y zs)
  then have "sorted_wrt (<) (y # zs)" "x < y" by (auto dest: forwardD)
  then show ?case by auto
qed simp_all

lemma chain_weight_le:
  fixes lat :: "nat \<Rightarrow> nat"
  assumes "forward n E" and "chain n E p"
  shows "sum_list (map lat p) \<le> (\<Sum>g<n. lat g)"
proof -
  have "distinct p" using chain_sorted [OF assms] by (simp add: strict_sorted_iff)
  then have "sum_list (map lat p) = sum lat (set p)" by (rule sum_list_distinct_conv_sum_set)
  also have "\<dots> \<le> (\<Sum>g<n. lat g)"
    by (rule sum_mono2) (use chain_less [OF assms(2)] in auto)
  finally show ?thesis .
qed

subsection \<open>The critical path\<close>

lemma build_dag_forward:
  "distinct (map gate_seq gs) \<Longrightarrow> forward (length gs) (dag_edges (build_dag gs))"
  using build_dag_edges by (auto simp: forward_def next_use_def)

text \<open>The invariants of the two passes over the values given out so far.\<close>

definition clk_inv :: "nat \<Rightarrow> (nat \<rightharpoonup> nat) \<Rightarrow> nat \<Rightarrow> bool" where
  "clk_inv n cps r \<longleftrightarrow> (\<forall>g<n. \<forall>c. cps g = Some c \<longrightarrow> c \<le> r) \<and> (r = 0 \<or> (\<exists>g<n. cps g = Some r))"

definition crit_inv :: "gate list \<Rightarrow> (nat \<rightharpoonup> nat) \<Rightarrow> gate list \<Rightarrow> bool" where
  "crit_inv gs0 cps gs \<longleftrightarrow>
     gs = map (\<lambda>i. (gs0 ! i)\<lparr>criticality := (case cps i of None \<Rightarrow> criticality (gs0 ! i) | Some c \<Rightarrow> int c)\<rparr>)
              [0..<length gs0]"

lemma clk_inv_upd:
  assumes "clk_inv n cps r" and "g < n" and "\<And>old. cps g = Some old \<Longrightarrow> old \<le> c"
  shows "clk_inv n (cps(g \<mapsto> c)) (if c > r then c else r)"
proof (cases "c > r")
  case True
  then show ?thesis using assms by (auto simp: clk_inv_def)
next
  case False
  have "r = 0 \<or> (\<exists>h<n. (cps(g \<mapsto> c)) h = Some r)"
  proof (cases "r = 0")
    case False
    then obtain h where h: "h < n" "cps h = Some r" using assms(1) by (auto simp: clk_inv_def)
    then show ?thesis using assms(2,3) \<open>\<not> c > r\<close> by (cases "h = g") (fastforce simp: not_less)+
  qed simp
  then show ?thesis using assms False by (auto simp: clk_inv_def)
qed

lemma crit_inv_upd:
  assumes "distinct (map gate_seq gs0)" and "crit_inv gs0 cps gs" and "g < length gs0"
  shows "crit_inv gs0 (cps(g \<mapsto> c)) (set_criticality g c gs)"
proof -
  have gs: "gs = map (\<lambda>i. (gs0 ! i)\<lparr>criticality := (case cps i of None \<Rightarrow> criticality (gs0 ! i) | Some c \<Rightarrow> int c)\<rparr>)
              [0..<length gs0]"
    using assms(2) by (simp add: crit_inv_def)
  have "map gate_seq gs = map gate_seq gs0"
    unfolding gs by (rule nth_equalityI) simp_all
  then have "gate_map gs (gate_seq (gs ! g)) = g"
    using assms(1,3) by (intro gate_map_nth) (simp_all add: gs)
  then have "set_criticality g c gs = gs[g := (gs ! g)\<lparr>criticality := int c\<rparr>]"
    by (simp add: set_criticality_def Let_def)
  also have "\<dots> = map (\<lambda>i. (gs0 ! i)\<lparr>criticality :=
        (case (cps(g \<mapsto> c)) i of None \<Rightarrow> criticality (gs0 ! i) | Some c \<Rightarrow> int c)\<rparr>) [0..<length gs0]"
    by (rule nth_equalityI) (auto simp: gs nth_list_update assms(3))
  finally show ?thesis by (simp add: crit_inv_def)
qed

text \<open>A list of gates with different sequence numbers, and both passes over its graph.\<close>

locale gate_sequence =
  fixes gs :: "gate list"
  assumes distinct_seqs: "distinct (map gate_seq gs)"
begin

lemma forward_graph: "forward (length gs) (dag_edges (build_dag gs))"
  by (rule build_dag_forward [OF distinct_seqs])

end

sublocale gate_sequence \<subseteq> critical: level_graph "length gs" "dag_edges (build_dag gs)" lat
  "longest_to (dag_edges (build_dag gs)) lat" "\<lambda>g. g" "\<lambda>g c result. if c > result then c else result"
  "clk_inv (length gs)" for lat
proof unfold_locales
  show "distinct (dag_edges (build_dag gs))" by (rule build_dag_distinct)
  show "a < length gs \<and> b < length gs \<and> a < b" if "(a, b) \<in> set (dag_edges (build_dag gs))" for a b
    using forwardD [OF forward_graph that] by simp
qed (use longest_to_eq [OF forward_graph] clk_inv_upd in blast)+

sublocale gate_sequence \<subseteq> crits: level_graph "length gs"
  "map (\<lambda>(a, b). (b, a)) (dag_edges (build_dag gs))" lat
  "longest_from (length gs) (dag_edges (build_dag gs)) lat" "\<lambda>g. length gs - g" set_criticality
  "crit_inv (dag_gates (build_dag gs))" for lat
proof unfold_locales
  show "distinct (map (\<lambda>(a, b). (b, a)) (dag_edges (build_dag gs)))"
    using build_dag_distinct by (auto simp: distinct_map inj_on_def)
  show "a < length gs \<and> b < length gs \<and> length gs - a < length gs - b"
    if "(a, b) \<in> set (map (\<lambda>(a, b). (b, a)) (dag_edges (build_dag gs)))" for a b
    using forwardD [OF forward_graph, of b a] that by (auto intro!: diff_less_mono2)
  have d: "distinct (map gate_seq (dag_gates (build_dag gs)))"
    using distinct_seqs by (simp add: build_dag_def comp_def)
  show "crit_inv (dag_gates (build_dag gs)) (cps(g \<mapsto> c)) (set_criticality g c s)"
    if "crit_inv (dag_gates (build_dag gs)) cps s" "g < length gs" for cps s g c
    using crit_inv_upd [OF d that(1)] that(2) by simp
qed (rule longest_from_eq [OF forward_graph])

context gate_sequence
begin

lemma critical_pass:
  "\<exists>r. get_critical_clk L (build_dag gs) = Some r \<and>
     (\<forall>g<length gs. longest_to (dag_edges (build_dag gs))
        (\<lambda>g. get_gate_latency L (dag_gates (build_dag gs) ! g)) g \<le> r) \<and>
     (r = 0 \<or> (\<exists>g<length gs. r = longest_to (dag_edges (build_dag gs))
        (\<lambda>g. get_gate_latency L (dag_gates (build_dag gs) ! g)) g))"
proof -
  have "clk_inv (length gs) Map.empty 0" by (simp add: clk_inv_def)
  from critical.level_pass_ok [OF this, of "\<lambda>g. get_gate_latency L (dag_gates (build_dag gs) ! g)"]
  show ?thesis by (auto simp: get_critical_clk_def clk_inv_def)
qed

lemma criticality_pass:
  "\<exists>d. assign_criticality L (build_dag gs) = Some d \<and> dag_edges d = dag_edges (build_dag gs) \<and>
     dag_gates d = map (\<lambda>i. (gs ! i)\<lparr>criticality := int (longest_from (length gs) (dag_edges (build_dag gs))
        (\<lambda>g. get_gate_latency L (dag_gates (build_dag gs) ! g)) i)\<rparr>) [0..<length gs]"
proof -
  have "crit_inv (dag_gates (build_dag gs)) Map.empty (dag_gates (build_dag gs))"
    by (auto simp: crit_inv_def intro: nth_equalityI)
  from crits.level_pass_ok [OF this, of "\<lambda>g. get_gate_latency L (dag_gates (build_dag gs) ! g)"]
  obtain cps s where s: "level_pass (\<lambda>g. get_gate_latency L (dag_gates (build_dag gs) ! g)) set_criticality
      (length gs) (map (\<lambda>(a, b). (b, a)) (dag_edges (build_dag gs))) (dag_gates (build_dag gs)) = Some s"
    and i: "crit_inv (dag_gates (build_dag gs)) cps s"
    and c: "\<forall>g<length gs. cps g = Some (longest_from (length gs) (dag_edges (build_dag gs))
       (\<lambda>g. get_gate_latency L (dag_gates (build_dag gs) ! g)) g)" by blast
  have "s = map (\<lambda>i. (gs ! i)\<lparr>criticality := int (longest_from (length gs) (dag_edges (build_dag gs))
        (\<lambda>g. get_gate_latency L (dag_gates (build_dag gs) ! g)) i)\<rparr>) [0..<length gs]"
    using i c by (auto simp: crit_inv_def build_dag_def intro!: nth_equalityI)
  then show ?thesis using s by (simp add: assign_criticality_def)
qed

end

subsection \<open>Properties\<close>

text \<open>C31: the graph of a list of gates with different sequence numbers has an edge from each gate to
  the next gate on each of its qubits and no other edge, so edges only go to later gates; and
  every two gates that share a qubit are ordered by a chain of edges.\<close>

theorem build_dag_correct:
  assumes "distinct (map gate_seq gs)"
  shows "(\<forall>i j. (i, j) \<in> set (dag_edges (build_dag gs)) \<longleftrightarrow> next_use gs i j) \<and>
    (\<forall>i j q. i < j \<longrightarrow> j < length gs \<longrightarrow> q \<in> set (qid (gs ! i)) \<longrightarrow> q \<in> set (qid (gs ! j)) \<longrightarrow>
       (i, j) \<in> (set (dag_edges (build_dag gs)))\<^sup>+)"
proof (intro conjI allI impI)
  show e: "(i, j) \<in> set (dag_edges (build_dag gs)) \<longleftrightarrow> next_use gs i j" for i j
    by (rule build_dag_edges [OF assms])
  fix i j q
  assume "i < j" "j < length gs" "q \<in> set (qid (gs ! i))" "q \<in> set (qid (gs ! j))"
  then show "(i, j) \<in> (set (dag_edges (build_dag gs)))\<^sup>+"
  proof (induction "j - i" arbitrary: i rule: less_induct)
    case less
    show ?case
    proof (cases "\<exists>k. i < k \<and> k < j \<and> q \<in> set (qid (gs ! k))")
      case True
      then obtain k where k: "i < k" "k < j" "q \<in> set (qid (gs ! k))"
        and least: "\<forall>k'<k. \<not> (i < k' \<and> k' < j \<and> q \<in> set (qid (gs ! k')))"
        using exists_least_iff [of "\<lambda>k. i < k \<and> k < j \<and> q \<in> set (qid (gs ! k))"] by auto
      have "next_use gs i k"
        unfolding next_use_def using k least less.prems by auto
      moreover have "(k, j) \<in> (set (dag_edges (build_dag gs)))\<^sup>+"
        using less.hyps [of k] k less.prems by simp
      ultimately show ?thesis using e by (meson r_into_trancl trancl_trans)
    next
      case False
      then have "next_use gs i j"
        unfolding next_use_def using less.prems by auto
      then show ?thesis using e by blast
    qed
  qed
qed

lemma build_dag_correct_witness:
  "let g = (\<lambda>s a b. \<lparr>gate_seq = s, op_type = ''CNOT'', qid = [a, b], criticality = -1\<rparr>)
   in (0, 2) \<in> (set (dag_edges (build_dag [g 1 0 1, g 2 1 2, g 3 2 0])))\<^sup>+"
proof -
  let ?g = "\<lambda>s a b. \<lparr>gate_seq = s, op_type = ''CNOT'', qid = [a, b], criticality = -1\<rparr>"
  have "distinct (map gate_seq [?g 1 0 1, ?g 2 1 2, ?g 3 2 0])" by simp
  from build_dag_correct [OF this, THEN conjunct2, rule_format, of 0 2 0] show ?thesis
    by (simp add: Let_def numeral_2_eq_2)
qed

lemma serial_clk_sum: "serial_clk L gs = (\<Sum>g<length gs. get_gate_latency L (gs ! g))"
proof -
  have "foldl (\<lambda>clk g. clk + get_gate_latency L g) c gs = c + sum_list (map (get_gate_latency L) gs)" for c
    by (induction gs arbitrary: c) simp_all
  then show ?thesis
    by (simp add: serial_clk_def sum_list_sum_nth atLeast0LessThan)
qed

lemma dag_latency:
  "g < length gs \<Longrightarrow> get_gate_latency L (dag_gates (build_dag gs) ! g) = get_gate_latency L (gs ! g)"
  by (simp add: build_dag_def get_gate_latency_def)

lemma chain_latency:
  "chain (length gs) E p \<Longrightarrow>
   sum_list (map (\<lambda>g. get_gate_latency L (dag_gates (build_dag gs) ! g)) p) =
   sum_list (map (\<lambda>g. get_gate_latency L (gs ! g)) p)"
  by (rule arg_cong [where f = sum_list], rule map_cong [OF refl])
    (simp add: dag_latency chain_less)

text \<open>C3: \<open>get_critical_clk\<close> returns, and its result is the largest total latency of a chain of
  dependent gates; it is at most the serial time.\<close>

theorem critical_clk_longest_chain:
  assumes "distinct (map gate_seq gs)"
  shows "\<exists>r. get_critical_clk L (build_dag gs) = Some r \<and>
    (\<forall>p. chain (length gs) (dag_edges (build_dag gs)) p \<longrightarrow>
       sum_list (map (\<lambda>g. get_gate_latency L (gs ! g)) p) \<le> r) \<and>
    (gs \<noteq> [] \<longrightarrow> (\<exists>p. chain (length gs) (dag_edges (build_dag gs)) p \<and>
       sum_list (map (\<lambda>g. get_gate_latency L (gs ! g)) p) = r)) \<and>
    r \<le> serial_clk L gs"
proof -
  note seqs = gate_sequence.intro [OF assms]
  note fwd = gate_sequence.forward_graph [OF seqs]
  let ?E = "dag_edges (build_dag gs)"
  let ?lat = "\<lambda>g. get_gate_latency L (dag_gates (build_dag gs) ! g)"
  obtain r where r: "get_critical_clk L (build_dag gs) = Some r"
    and up: "\<forall>g<length gs. longest_to ?E ?lat g \<le> r"
    and hit: "r = 0 \<or> (\<exists>g<length gs. r = longest_to ?E ?lat g)"
    using gate_sequence.critical_pass [OF seqs] by blast
  have bound: "sum_list (map ?lat p) \<le> r" if "chain (length gs) ?E p" for p
  proof -
    have "p \<noteq> []" using that by auto
    then have "longest_to ?E ?lat (last p) \<le> r" using up chain_less [OF that] by simp
    then show ?thesis using chain_le_longest_to [OF fwd that, of ?lat] by simp
  qed
  have reach: "\<exists>p. chain (length gs) ?E p \<and> sum_list (map ?lat p) = r" if "gs \<noteq> []"
  proof -
    obtain g where "g < length gs" "longest_to ?E ?lat g = r"
    proof (cases "r = 0")
      case True
      then show thesis using that up \<open>gs \<noteq> []\<close> by fastforce
    qed (use that hit in blast)
    then show ?thesis using chain_longest_to [OF fwd, of g ?lat] by metis
  qed
  have "r \<le> serial_clk L gs"
  proof (cases "gs = []")
    case True
    then show ?thesis using hit by simp
  next
    case False
    then obtain p where p: "chain (length gs) ?E p" "sum_list (map ?lat p) = r" using reach by blast
    then show ?thesis
      using chain_weight_le [OF fwd p(1), of ?lat] by (simp add: serial_clk_sum dag_latency)
  qed
  then show ?thesis
    using r bound reach chain_latency [of gs ?E] by metis
qed

lemma critical_clk_longest_chain_witness:
  "let g = (\<lambda>s a b. \<lparr>gate_seq = s, op_type = ''CNOT'', qid = [a, b], criticality = -1\<rparr>);
       gs = [g 1 0 1, g 2 1 2, g 3 2 0]
   in \<exists>r. get_critical_clk (\<lambda>_. 5) (build_dag gs) = Some r \<and> r \<le> 15"
proof -
  let ?g = "\<lambda>s a b. \<lparr>gate_seq = s, op_type = ''CNOT'', qid = [a, b], criticality = -1\<rparr>"
  have d: "distinct (map gate_seq [?g 1 0 1, ?g 2 1 2, ?g 3 2 0])" by simp
  have "serial_clk (\<lambda>_. 5) [?g 1 0 1, ?g 2 1 2, ?g 3 2 0] = 15"
    by (simp add: serial_clk_def get_gate_latency_def)
  then show ?thesis
    using critical_clk_longest_chain [OF d, of "\<lambda>_. 5"] unfolding Let_def by metis
qed

text \<open>\<open>assign_criticality\<close> returns, changes nothing but the criticalities, and makes each
  the largest total latency of a chain of dependent gates that starts with the gate.\<close>

theorem criticality_longest_chain:
  assumes "distinct (map gate_seq gs)"
  shows "\<exists>crit. assign_criticality L (build_dag gs) =
      Some \<lparr>dag_gates = map (\<lambda>i. (gs ! i)\<lparr>criticality := int (crit i)\<rparr>) [0..<length gs],
            dag_edges = dag_edges (build_dag gs)\<rparr> \<and>
    (\<forall>p. chain (length gs) (dag_edges (build_dag gs)) p \<longrightarrow>
       sum_list (map (\<lambda>g. get_gate_latency L (gs ! g)) p) \<le> crit (hd p)) \<and>
    (\<forall>g<length gs. \<exists>p. chain (length gs) (dag_edges (build_dag gs)) p \<and> hd p = g \<and>
       sum_list (map (\<lambda>g. get_gate_latency L (gs ! g)) p) = crit g)"
proof -
  note seqs = gate_sequence.intro [OF assms]
  note fwd = gate_sequence.forward_graph [OF seqs]
  let ?E = "dag_edges (build_dag gs)"
  let ?lat = "\<lambda>g. get_gate_latency L (dag_gates (build_dag gs) ! g)"
  let ?crit = "longest_from (length gs) ?E ?lat"
  obtain d where "assign_criticality L (build_dag gs) = Some d" "dag_edges d = ?E"
    "dag_gates d = map (\<lambda>i. (gs ! i)\<lparr>criticality := int (?crit i)\<rparr>) [0..<length gs]"
    using gate_sequence.criticality_pass [OF seqs] by blast
  then have "assign_criticality L (build_dag gs) =
      Some \<lparr>dag_gates = map (\<lambda>i. (gs ! i)\<lparr>criticality := int (?crit i)\<rparr>) [0..<length gs], dag_edges = ?E\<rparr>"
    by (simp add: dag.equality)
  moreover have "sum_list (map (\<lambda>g. get_gate_latency L (gs ! g)) p) \<le> ?crit (hd p)"
    if "chain (length gs) ?E p" for p
    using chain_le_longest_from [OF fwd that, of ?lat] chain_latency [OF that, of L] by simp
  moreover have "\<exists>p. chain (length gs) ?E p \<and> hd p = g \<and>
       sum_list (map (\<lambda>g. get_gate_latency L (gs ! g)) p) = ?crit g" if "g < length gs" for g
    using chain_longest_from [OF fwd that, of ?lat] chain_latency [of gs ?E] by metis
  ultimately show ?thesis by blast
qed

lemma criticality_longest_chain_witness:
  "let g = (\<lambda>s a b. \<lparr>gate_seq = s, op_type = ''CNOT'', qid = [a, b], criticality = -1\<rparr>)
   in \<exists>d. assign_criticality (\<lambda>_. 5) (build_dag [g 1 0 1, g 2 1 2, g 3 2 0]) = Some d \<and>
        length (dag_gates d) = 3"
proof -
  let ?g = "\<lambda>s a b. \<lparr>gate_seq = s, op_type = ''CNOT'', qid = [a, b], criticality = -1\<rparr>"
  have d: "distinct (map gate_seq [?g 1 0 1, ?g 2 1 2, ?g 3 2 0])" by simp
  from criticality_longest_chain [OF d, of "\<lambda>_. 5"] show ?thesis
    unfolding Let_def by (elim exE conjE) simp
qed

end
