(* ===== verification/Braid_Sim.thy ===== *)
theory Braid_Sim
  imports Dag_Passes
begin

text \<open>
  The clocked simulation of a module on the mesh (\<open>braidflash.cpp\<close>: \<open>increment_clock\<close> and the
  main loop of \<open>main\<close> from \<open>initialize_ready_list\<close> to the end of the module). One \<open>tick\<close> is one
  turn of the loop: the events of the ready gates are queued, the clock advances, and the lapsed
  events are done in the order of their priorities.
\<close>

subsection \<open>State\<close>

text \<open>The parameters of a run. \<open>std::sort\<close> is the parameter \<open>sort_events\<close>, of which the proofs
  only use that it permutes the events; \<open>garbage\<close> is the content of the policy member, which the
  constructor of an event leaves uninitialised.\<close>

record config =
  num_rows :: nat
  num_cols :: nat
  priority_policy :: nat
  attempt_th_yx :: nat
  attempt_th_drop :: nat
  event_timers :: "event_type \<Rightarrow> int"
  sort_events :: "(event \<Rightarrow> event \<Rightarrow> bool) \<Rightarrow> event list \<Rightarrow> event list"
  garbage :: nat

record sim =
  sim_mesh :: mesh
  sim_dag :: dag
  event_queues :: "nat \<rightharpoonup> event list"
  ready_events :: "event list"
  ready_gates :: "nat list"
  clk :: nat
  highest_criticality :: int
  success_events :: "(nat \<times> event_type) list"
  total_conflict_events :: "(nat \<times> event_type) list"
  unique_conflict_events :: "(nat \<times> event_type) list"
  total_dropped_gates :: "nat list"
  unique_dropped_gates :: "nat list"
  attempts_hist :: "nat \<rightharpoonup> nat"

abbreviation sim_gates :: "sim \<Rightarrow> gate list" where
  "sim_gates st \<equiv> dag_gates (sim_dag st)"

abbreviation sim_edges :: "sim \<Rightarrow> (nat \<times> nat) list" where
  "sim_edges st \<equiv> dag_edges (sim_dag st)"

subsection \<open>Queueing the ready gates\<close>

definition queue_gate :: "config \<Rightarrow> nat \<Rightarrow> sim \<Rightarrow> sim option" where
  "queue_gate cfg g st =
     (let gt = sim_gates st ! g
      in if op_type gt = ''CNOT''
         then do {
           q \<leftarrow> events_cnot (garbage cfg) (priority_policy cfg) (num_cols cfg) (sim_mesh st)
                  (qid gt ! 0) (qid gt ! 1) g;
           Some (st\<lparr>event_queues := (event_queues st)(g \<mapsto> q)\<rparr>)
         }
         else if op_type gt = ''H''
         then Some (st\<lparr>event_queues := (event_queues st)(g \<mapsto> events_h (garbage cfg) (qid gt ! 0) g)\<rparr>)
         else if op_type gt = ''T''
         then Some (st\<lparr>event_queues := (event_queues st)(g \<mapsto> events_t (qid gt ! 0) g)\<rparr>)
         else Some st)"

fun queue_gates :: "config \<Rightarrow> nat list \<Rightarrow> sim \<Rightarrow> sim option" where
  "queue_gates cfg [] st = Some st"
| "queue_gates cfg (g # gs) st = do { st' \<leftarrow> queue_gate cfg g st; queue_gates cfg gs st' }"

definition queue_ready_gates :: "config \<Rightarrow> sim \<Rightarrow> sim option" where
  "queue_ready_gates cfg st = do {
     st' \<leftarrow> queue_gates cfg (ready_gates st) st;
     Some (st'\<lparr>ready_gates := []\<rparr>)
   }"

subsection \<open>The clock\<close>

text \<open>One entry of \<open>event_queues\<close>: the front of an empty queue does not exist.\<close>

definition clock_queue :: "nat \<Rightarrow> sim \<Rightarrow> sim option" where
  "clock_queue g st =
     (case event_queues st g of
        None \<Rightarrow> Some st
      | Some [] \<Rightarrow> None
      | Some (head_event # q) \<Rightarrow>
          if timer head_event < 0 then Some st
          else let head' = (if timer head_event \<noteq> 0 then head_event\<lparr>timer := timer head_event - 1\<rparr> else head_event)
               in if timer head' = 0
                  then Some (st\<lparr>ready_events := ready_events st @ [head'],
                                event_queues := (event_queues st)(g := (if q = [] then None else Some q))\<rparr>)
                  else Some (st\<lparr>event_queues := (event_queues st)(g \<mapsto> head' # q)\<rparr>))"

fun clock_queues :: "nat list \<Rightarrow> sim \<Rightarrow> sim option" where
  "clock_queues [] st = Some st"
| "clock_queues (g # gs) st = do { st' \<leftarrow> clock_queue g st; clock_queues gs st' }"

text \<open>The keys are visited in increasing order; all of them are vertices.\<close>

definition increment_clock :: "sim \<Rightarrow> sim option" where
  "increment_clock st = clock_queues [0..<length (sim_gates st)] (st\<lparr>clk := clk st + 1\<rparr>)"

subsection \<open>Doing the lapsed events\<close>

text \<open>A gate without further events is completed: its out-edges go, and the gates of which it was
  the last predecessor become ready.\<close>

definition complete_gate :: "nat \<Rightarrow> sim \<Rightarrow> sim option" where
  "complete_gate g st =
     (let E = sim_edges st;
          E' = clear_out_edges g E;
          d' = (sim_dag st)\<lparr>dag_edges := E'\<rparr>
      in if in_degree E' g = 0 \<and> out_degree E' g = 0
         then Some (st\<lparr>event_queues := (event_queues st)(g := None),
                       ready_gates := ready_gates st @
                         filter (\<lambda>g_out. in_degree E g_out = 1) (adjacent_vertices E g),
                       sim_dag := d',
                       highest_criticality := update_highest_criticality d'\<rparr>)
         else None)"

definition event_success :: "config \<Rightarrow> event \<Rightarrow> mesh \<Rightarrow> sim \<Rightarrow> sim option" where
  "event_success cfg e m st =
     (let g = ev_gate e;
          st1 = st\<lparr>sim_mesh := m,
                   attempts_hist := (attempts_hist st)(attempts e \<mapsto>
                      (case attempts_hist st (attempts e) of None \<Rightarrow> 1 | Some k \<Rightarrow> k + 1)),
                   success_events := success_events st @ [(g, ev_type e)]\<rparr>
      in case event_queues st1 g of
           None \<Rightarrow> complete_gate g st1
         | Some [] \<Rightarrow> complete_gate g st1
         | Some (f # q) \<Rightarrow>
             Some (st1\<lparr>event_queues := (event_queues st1)(g \<mapsto> f\<lparr>timer := event_timers cfg (ev_type f)\<rparr> # q)\<rparr>))"

definition drop_gate :: "config \<Rightarrow> nat \<Rightarrow> sim \<Rightarrow> sim" where
  "drop_gate cfg g st =
     st\<lparr>total_dropped_gates := total_dropped_gates st @ [g],
        unique_dropped_gates :=
          (if g \<in> set (unique_dropped_gates st) then unique_dropped_gates st else unique_dropped_gates st @ [g]),
        sim_mesh := purge_gate_from_mesh (num_rows cfg) (num_cols cfg) (gate_seq (sim_gates st ! g)) (sim_mesh st),
        ready_gates := ready_gates st @ [g],
        event_queues := (event_queues st)(g := None)\<rparr>"

definition record_conflict :: "event \<Rightarrow> sim \<Rightarrow> sim" where
  "record_conflict e st =
     (let c = (ev_gate e, ev_type e)
      in st\<lparr>total_conflict_events := total_conflict_events st @ [c],
            unique_conflict_events :=
              (if c \<in> set (unique_conflict_events st) then unique_conflict_events st
               else unique_conflict_events st @ [c])\<rparr>)"

text \<open>The change of route after too many attempts, for at most one event of each cycle. Changing
  the route of an event whose gate has no queued event would access an empty queue.\<close>

definition maybe_reroute :: "config \<Rightarrow> bool \<Rightarrow> event \<Rightarrow> sim \<Rightarrow> (event \<times> bool \<times> sim) option" where
  "maybe_reroute cfg YX_flag e st =
     (if attempts e > attempt_th_yx cfg \<and> \<not> YX_flag \<and> (ev_type e = Cnot3 \<or> ev_type e = Cnot5)
      then (let q = (case event_queues st (ev_gate e) of None \<Rightarrow> [] | Some q \<Rightarrow> q)
            in do {
              (e', q') \<leftarrow> resolve_cnot (num_cols cfg) (sim_mesh st) (sim_gates st) e q;
              Some (e', True, st\<lparr>event_queues :=
                (if event_queues st (ev_gate e) = None then event_queues st
                 else (event_queues st)(ev_gate e \<mapsto> q'))\<rparr>)
            })
      else Some (e, YX_flag, st))"

text \<open>The loop over the ready events: the events before the iterator that stay are collected in
  \<open>kept\<close>.\<close>

fun do_ready_events ::
  "config \<Rightarrow> bool \<Rightarrow> bool \<Rightarrow> event list \<Rightarrow> event list \<Rightarrow> sim \<Rightarrow> sim option" where
  "do_ready_events cfg YX_flag drop_flag kept [] st = Some (st\<lparr>ready_events := kept\<rparr>)"
| "do_ready_events cfg YX_flag drop_flag kept (e # es) st =
     (case do_event (sim_gates st) e (sim_mesh st) of
        (True, m) \<Rightarrow> do {
          st' \<leftarrow> event_success cfg e m st;
          do_ready_events cfg YX_flag drop_flag kept es st'
        }
      | (False, _) \<Rightarrow> do {
          (e', YX_flag', st') \<leftarrow> maybe_reroute cfg YX_flag (e\<lparr>attempts := attempts e + 1\<rparr>) st;
          if attempts e' > attempt_th_drop cfg \<and> \<not> drop_flag
          then do_ready_events cfg YX_flag' True kept es (drop_gate cfg (ev_gate e') st')
          else do_ready_events cfg YX_flag' drop_flag (kept @ [e']) es (record_conflict e' st')
        })"

definition tick :: "config \<Rightarrow> sim \<Rightarrow> sim option" where
  "tick cfg st = do {
     st1 \<leftarrow> queue_ready_gates cfg st;
     st2 \<leftarrow> increment_clock st1;
     let crit = (\<lambda>g. criticality (sim_gates st2 ! g));
     let evs = (if priority_policy cfg \<noteq> 0
                then sort_events cfg (event_less crit (highest_criticality st2)) (ready_events st2)
                else ready_events st2);
     do_ready_events cfg False False [] evs st2
   }"

definition sim_busy :: "sim \<Rightarrow> bool" where
  "sim_busy st \<longleftrightarrow>
     (\<exists>g\<in>set [0..<length (sim_gates st)]. event_queues st g \<noteq> None) \<or> ready_events st \<noteq> [] \<or>
     sim_edges st \<noteq> [] \<or> ready_gates st \<noteq> []"

text \<open>The loop. It may run forever (then, or when an assertion fails, the result is None).\<close>

partial_function (option) sim_loop :: "config \<Rightarrow> sim \<Rightarrow> sim option" where
  "sim_loop cfg st =
     (if sim_busy st then do { st' \<leftarrow> tick cfg st; sim_loop cfg st' } else Some st)"

declare sim_loop.simps [code]

text \<open>The state at the start of a module.\<close>

definition sim_init :: "config \<Rightarrow> dag \<Rightarrow> sim" where
  "sim_init cfg d =
     \<lparr>sim_mesh = build_mesh (num_rows cfg) (num_cols cfg), sim_dag = d, event_queues = Map.empty,
      ready_events = [], ready_gates = initialize_ready_list d, clk = 0,
      highest_criticality = update_highest_criticality d, success_events = [],
      total_conflict_events = [], unique_conflict_events = [], total_dropped_gates = [],
      unique_dropped_gates = [], attempts_hist = Map.empty\<rparr>"

definition simulate :: "(string \<Rightarrow> nat) \<Rightarrow> config \<Rightarrow> gate list \<Rightarrow> sim option" where
  "simulate gate_latencies cfg module_gates = do {
     d \<leftarrow> assign_criticality gate_latencies (build_dag module_gates);
     sim_loop cfg (sim_init cfg d)
   }"

end
