(* ===== verification/Braid_Scripts.thy ===== *)
theory Braid_Scripts
  imports Braid_Sim
begin

text \<open>
  What a gate may own between its events. Between any two events of a CNOT the cells that the
  gate owns lie in the room of the next event, also after its routes were changed, and the last
  event releases all of them.
\<close>

subsection \<open>The ends of the routes\<close>

text \<open>The node that ends route 1 and the link that ends route 2 between two qubits that are not
  adjacent, in either routing order.\<close>

definition end_node :: "nat \<Rightarrow> nat \<Rightarrow> nat \<Rightarrow> nat \<Rightarrow> nat" where
  "end_node nc p q anc1 = find_diagonal nc q (find_nearest nc q (find_diagonal nc p anc1))"

definition end_link :: "nat \<Rightarrow> nat \<Rightarrow> nat \<Rightarrow> link" where
  "end_link nc p anc1 =
     (let v = find_vertical nc p anc1 in link_key (find_diagonal nc p v) (find_horizontal nc p v))"

lemma edge_key: "edge m u v = Some l \<Longrightarrow> l = link_key u v"
  by (simp add: edge_def split: if_splits)

lemma routes_end:
  assumes g: "grid_mesh nr nc m" and p: "p < nr * nc" and q: "q < nr * nc"
    and a: "is_corner nc p a1" and far: "\<not> are_adjacent nc p q"
    and r: "cnot_routes nc m p q a1 YX = Some (r1, r2)"
  shows "last (nodes r1) = end_node nc p q a1" and "last (links r2) = end_link nc p a1"
proof -
  have nc: "0 < nc" using p by (cases nc) auto
  show "last (nodes r1) = end_node nc p q a1"
    using cnot_routes_far [OF g p q a far, of YX] r by (auto simp: end_node_def)
  let ?v = "find_vertical nc p a1"
  obtain ls b6 where b6: "braid_S nc m p ?v = Some b6" and r2: "links r2 = ls @ links b6"
    using r far by (auto simp: cnot_routes_def Let_def bind_eq_Some_conv braid_merge_def
        append_assoc [symmetric] simp del: append_assoc)
  have n: "node_map m (find_diagonal nc p ?v) = find_diagonal nc p ?v"
    using corner_node [OF g p] move_corner [OF nc move_corner(2) [OF nc a]] by blast
  show "last (links r2) = end_link nc p a1"
    using b6 by (auto simp: braid_S_def Let_def n r2 end_link_def bind_eq_Some_conv split: if_splits
        dest: edge_key)
qed

subsection \<open>Rooms\<close>

definition cells :: "event \<Rightarrow> cell set" where
  "cells e = set (braid_cells (ev_braid e))"

fun is_opening :: "event_type \<Rightarrow> bool" where
  "is_opening Cnot1 = True" | "is_opening Cnot3 = True" | "is_opening Cnot5 = True" | "is_opening H1 = True"
| "is_opening _ = False"

text \<open>The cells that the gate may own before the event.\<close>

fun room :: "cell \<Rightarrow> cell \<Rightarrow> event_type \<Rightarrow> cell set \<Rightarrow> cell set" where
  "room NL LA Cnot2 C = C"
| "room NL LA Cnot4 C = insert NL C"
| "room NL LA Cnot5 C = {NL}"
| "room NL LA Cnot6 C = insert LA C"
| "room NL LA Cnot7 C = insert LA C"
| "room NL LA _ C = {}"

fun covered :: "cell \<Rightarrow> cell \<Rightarrow> event list \<Rightarrow> bool" where
  "covered NL LA [] \<longleftrightarrow> True"
| "covered NL LA [e] \<longleftrightarrow> \<not> close_open e \<and> room NL LA (ev_type e) (cells e) \<subseteq> cells e"
| "covered NL LA (e # e' # es) \<longleftrightarrow>
     (if close_open e then room NL LA (ev_type e) (cells e) \<union> cells e
      else room NL LA (ev_type e) (cells e) - cells e) \<subseteq> room NL LA (ev_type e') (cells e') \<and>
     covered NL LA (e' # es)"

fun gate_types :: "gate \<Rightarrow> event_type list" where
  "gate_types g = (if op_type g = ''CNOT'' then [Cnot1, Cnot2, Cnot3, Cnot4, Cnot5, Cnot6, Cnot7] else [H1, H2])"

declare gate_types.simps [simp del]

text \<open>The remaining events of a gate.\<close>

definition script :: "nat \<Rightarrow> nat \<Rightarrow> gate list \<Rightarrow> nat \<Rightarrow> cell \<Rightarrow> cell \<Rightarrow> event list \<Rightarrow> bool" where
  "script nr nc G g NL LA es \<longleftrightarrow>
     (\<exists>k. map ev_type es = drop k (gate_types (G ! g))) \<and>
     (\<forall>e\<in>set es. ev_gate e = g \<and> braid_in nr nc (ev_braid e) \<and> close_open e = is_opening (ev_type e) \<and>
        (ev_type e = Cnot4 \<longrightarrow> nodes (ev_braid e) \<noteq> []) \<and>
        (ev_type e = Cnot6 \<longrightarrow> nodes (ev_braid e) \<noteq> [] \<and> NL = Router (last (nodes (ev_braid e))))) \<and>
     covered NL LA es \<and>
     (op_type (G ! g) = ''CNOT'' \<longrightarrow>
       (let p = qid (G ! g) ! 0; q = qid (G ! g) ! 1; a1 = fst (cnot_ancillas nc p q)
        in \<not> are_adjacent nc p q \<longrightarrow> NL = Router (end_node nc p q a1) \<and> LA = Edge (end_link nc p a1)))"

text \<open>A gate that the simulation can do: a CNOT between two qubits of the mesh, or an H.\<close>

definition gate_ok :: "nat \<Rightarrow> nat \<Rightarrow> gate \<Rightarrow> bool" where
  "gate_ok nr nc g \<longleftrightarrow> 0 < gate_seq g \<and>
     (op_type g = ''H'' \<or>
      op_type g = ''CNOT'' \<and> length (qid g) = 2 \<and> qid g ! 0 < nr * nc \<and> qid g ! 1 < nr * nc)"

lemma script_tl: "script nr nc G g NL LA (e # es) \<Longrightarrow> script nr nc G g NL LA es"
  unfolding script_def
proof (elim conjE exE, intro conjI)
  fix k assume "map ev_type (e # es) = drop k (gate_types (G ! g))"
  then have "map ev_type es = drop (Suc k) (gate_types (G ! g))"
    by (metis drop_Suc list.sel(3) list.simps(9) tl_drop)
  then show "\<exists>k. map ev_type es = drop k (gate_types (G ! g))" by blast
qed (cases es; simp)+

lemma script_gate: "script nr nc G g NL LA es \<Longrightarrow> e \<in> set es \<Longrightarrow> ev_gate e = g \<and> braid_in nr nc (ev_braid e)"
  by (simp add: script_def)

text \<open>Setting a timer or counting an attempt does not matter.\<close>

lemma script_same:
  assumes "script nr nc G g NL LA (e # es)" and "ev_braid e' = ev_braid e" and "close_open e' = close_open e"
    and "ev_gate e' = ev_gate e" and "ev_type e' = ev_type e"
  shows "script nr nc G g NL LA (e' # es)"
proof -
  have "cells e' = cells e" using assms(2) by (simp add: cells_def)
  then have "covered NL LA (e' # es) = covered NL LA (e # es)"
    using assms(3,5) by (cases es) simp_all
  then show ?thesis using assms by (simp add: script_def)
qed

lemma events_cnot_script:
  assumes g: "grid_mesh nr nc m" and op: "op_type (G ! i) = ''CNOT''"
    and qids: "qid (G ! i) ! 0 = p" "qid (G ! i) ! 1 = q" and p: "p < nr * nc" and q: "q < nr * nc"
  shows "\<exists>es NL LA. events_cnot gb pol nc m p q i = Some es \<and>
    script nr nc G i NL LA es \<and> length es = 7 \<and> (\<forall>e\<in>set (tl es). timer e < 0)"
proof -
  obtain a1 a2 where a: "cnot_ancillas nc p q = (a1, a2)" by fastforce
  have corner: "is_corner nc p a1" using cnot_ancillas_corner [OF a] by blast
  obtain l where l: "edge m (node_map m a1) (node_map m a2) = Some l" "grid_link nr nc l"
    and n: "node_map m a1 < (nr + 1) * (nc + 1)" "node_map m a2 < (nr + 1) * (nc + 1)"
    by (rule ancilla_link [OF g p a])
  obtain r1 r2 where r: "cnot_routes nc m p q a1 False = Some (r1, r2)"
    and i1: "braid_in nr nc r1" and i2: "braid_in nr nc r2"
    and ne: "nodes r1 \<noteq> []" "links r2 \<noteq> []"
    using cnot_routes_ok [OF g p q a, of False] by (elim exE conjE)
  let ?NL = "Router (last (nodes r1))" and ?LA = "Edge (last (links r2))"
  have lastn: "last (nodes r1) < (nr + 1) * (nc + 1)" and lastl: "grid_link nr nc (last (links r2))"
    using i1 i2 ne by (simp_all add: braid_in_def)
  have links2: "set (links r2) \<subseteq> insert (last (links r2)) (set (butlast (links r2)))"
    using ne(2) by (metis append_butlast_last_id list.set(1,2) set_append Un_insert_right
        sup_bot_right subset_refl)
  have img: "Edge l \<in> insert (Edge (last (links r2))) (Edge ` set (butlast (links r2)))"
    if "l \<in> set (links r2)" for l using that links2 by auto
  have last1: "last (nodes r1) \<in> set (nodes r1)" using ne(1) by simp
  obtain es where es: "events_cnot gb pol nc m p q i = Some es"
    and facts: "map ev_type es = [Cnot1, Cnot2, Cnot3, Cnot4, Cnot5, Cnot6, Cnot7]"
      "map timer es = [1, -1, -1, -1, -1, -1, -1]"
      "\<forall>e\<in>set es. ev_gate e = i \<and> braid_in nr nc (ev_braid e)"
    using events_cnot_ok [OF g p q, of gb pol i] by (elim exE conjE)
  have cov: "covered ?NL ?LA es"
    and attr: "\<forall>e\<in>set es. close_open e = is_opening (ev_type e) \<and>
        (ev_type e = Cnot4 \<longrightarrow> nodes (ev_braid e) \<noteq> []) \<and>
        (ev_type e = Cnot6 \<longrightarrow> nodes (ev_braid e) \<noteq> [] \<and> ?NL = Router (last (nodes (ev_braid e))))"
    using es last1
    by (auto simp: events_cnot_def a l(1) r ne Let_def mk_event_def cells_def braid_cells_def)
      (use img in blast)
  have ends: "\<not> are_adjacent nc p q \<longrightarrow>
      ?NL = Router (end_node nc p q a1) \<and> ?LA = Edge (end_link nc p a1)"
    using routes_end [OF g p q corner _ r] by simp
  have "script nr nc G i ?NL ?LA es"
    unfolding script_def
    using facts(1,3) cov attr ends a
    by (auto simp: op qids [simplified] gate_types.simps Let_def intro: exI [of _ 0])
  moreover have "length es = 7" using arg_cong [OF facts(1), of length] by simp
  moreover have "\<forall>e\<in>set (tl es). timer e < 0"
  proof -
    have "map timer (tl es) = [-1, -1, -1, -1, -1, -1]" using facts(2) by (simp add: map_tl)
    then have "timer e \<in> set [-1, -1, -1, -1, -1, -1]" if "e \<in> set (tl es)" for e
      using that by (metis image_eqI list.set_map)
    then show ?thesis by auto
  qed
  ultimately show ?thesis using es by blast
qed

lemma events_h_script:
  assumes "op_type (G ! i) = ''H''"
  shows "script nr nc G i NL LA (events_h gb p i)"
    and "\<forall>e\<in>set (tl (events_h gb p i)). timer e < 0"
  using assms by (auto simp: script_def events_h_def mk_event_def Let_def gate_types.simps braid_in_def cells_def
      braid_cells_def intro: exI [of _ 0])

subsection \<open>Changing a route\<close>

lemma drop_types_next:
  assumes "map ev_type (e # q) = drop k (gate_types g)"
  shows "ev_type e = Cnot3 \<Longrightarrow> map ev_type q = [Cnot4, Cnot5, Cnot6, Cnot7]"
    and "ev_type e = Cnot5 \<Longrightarrow> map ev_type q = [Cnot6, Cnot7]"
proof -
  have "k < length (gate_types g)"
  proof (rule ccontr)
    assume "\<not> k < length (gate_types g)"
    then have "drop k (gate_types g) = []" by simp
    then show False using assms by simp
  qed
  then consider "gate_types g = [H1, H2]" "k = 0 \<or> k = 1"
    | "gate_types g = [Cnot1, Cnot2, Cnot3, Cnot4, Cnot5, Cnot6, Cnot7]"
      "k = 0 \<or> k = 1 \<or> k = 2 \<or> k = 3 \<or> k = 4 \<or> k = 5 \<or> k = 6"
    by (fastforce simp: gate_types.simps split: if_splits)
  note cases = this
  show "map ev_type q = [Cnot4, Cnot5, Cnot6, Cnot7]" if "ev_type e = Cnot3"
    using cases assms that by cases auto
  show "map ev_type q = [Cnot6, Cnot7]" if "ev_type e = Cnot5"
    using cases assms that by cases auto
qed

lemma drop_types_last:
  assumes "map ev_type [e] = drop k (gate_types g)"
  shows "ev_type e = last (gate_types g)"
proof -
  have "drop k (gate_types g) \<noteq> []" using assms by auto
  then have "last (drop k (gate_types g)) = last (gate_types g)"
    by (metis append_take_drop_id last_appendR)
  then show ?thesis using assms by (metis last_ConsL list.map(1) list.simps(9))
qed

lemma last_gate_types: "last (gate_types g) = (if op_type g = ''CNOT'' then Cnot7 else H2)"
  by (simp add: gate_types.simps)

lemma last_cover: "xs \<noteq> [] \<Longrightarrow> set xs \<subseteq> insert (last xs) (set (butlast xs))"
  by (metis append_butlast_last_id list.set(1,2) set_append Un_insert_right sup_bot_right subset_refl)

lemma reroute_script:
  assumes g: "grid_mesh nr nc m" and s: "script nr nc G i NL LA (e # es)"
    and ok: "gate_ok nr nc (G ! i)" and qids: "qid (G ! i) ! 0 = p" "qid (G ! i) ! 1 = q"
    and ty: "ev_type e = Cnot3 \<or> ev_type e = Cnot5"
  shows "\<exists>e' c cs c'. es = c # cs \<and> resolve_cnot nc m G e es = Some (e', c' # cs) \<and>
    script nr nc G i NL LA (e' # c' # cs) \<and> timer c' = timer c \<and> timer e' = timer e \<and>
    ev_type e' = ev_type e \<and> ev_gate e' = i \<and> attempts e' = attempts e"
proof -
  obtain k where k: "map ev_type (e # es) = drop k (gate_types (G ! i))"
    and attr: "\<forall>x\<in>set (e # es). ev_gate x = i \<and> braid_in nr nc (ev_braid x) \<and> close_open x = is_opening (ev_type x) \<and>
        (ev_type x = Cnot4 \<longrightarrow> nodes (ev_braid x) \<noteq> []) \<and>
        (ev_type x = Cnot6 \<longrightarrow> nodes (ev_braid x) \<noteq> [] \<and> NL = Router (last (nodes (ev_braid x))))"
    and cov: "covered NL LA (e # es)"
    and ends: "op_type (G ! i) = ''CNOT'' \<longrightarrow>
       (let p = qid (G ! i) ! 0; q = qid (G ! i) ! 1; a1 = fst (cnot_ancillas nc p q)
        in \<not> are_adjacent nc p q \<longrightarrow> NL = Router (end_node nc p q a1) \<and> LA = Edge (end_link nc p a1))"
    using s unfolding script_def by blast
  have "ev_type e \<in> set (gate_types (G ! i))"
    using k by (metis in_set_dropD list.set_intros(1) list.simps(9))
  then have op: "op_type (G ! i) = ''CNOT''" using ty by (auto simp: gate_types.simps split: if_splits)
  then have pq: "length (qid (G ! i)) = 2" "p < nr * nc" "q < nr * nc"
    using ok qids by (auto simp: gate_ok_def)
  have ge: "ev_gate e = i" using attr by simp
  note types = drop_types_next [OF k]
  obtain c cs where es: "es = c # cs" using types ty by (cases es) auto
  obtain a1 a2 where a: "cnot_ancillas nc p q = (a1, a2)" by fastforce
  have corner: "is_corner nc p a1" using cnot_ancillas_corner [OF a] by blast
  have n1: "node_map m a1 < (nr + 1) * (nc + 1)" by (rule ancilla_link [OF g pq(2) a])
  show ?thesis
  proof (cases "are_adjacent nc p q")
    case True
    then have "resolve_cnot nc m G e es = Some (e, c # cs)"
      using ty qids ge by (auto simp: resolve_cnot_def es)
    then show ?thesis using s attr by (auto simp: es)
  next
    case False
    obtain r1 r2 where r: "cnot_routes nc m p q a1 True = Some (r1, r2)"
      and i1: "braid_in nr nc r1" and i2: "braid_in nr nc r2"
      and ne: "nodes r1 \<noteq> []" "links r2 \<noteq> []"
      using cnot_routes_ok [OF g pq(2,3) a, of True] by (elim exE conjE)
    have ne2: "nodes r2 \<noteq> []" by (rule cnot_routes_nodes2 [OF r])
    have NL: "NL = Router (last (nodes r1))" and LA: "LA = Edge (last (links r2))"
      using routes_end [OF g pq(2,3) corner False r] ends op a False qids by (simp_all add: Let_def)
    from ty show ?thesis
    proof
      assume t3: "ev_type e = Cnot3"
      let ?e = "e\<lparr>ev_braid := r1\<rparr>"
      let ?c = "c\<lparr>ev_braid := r1\<lparr>nodes := butlast (nodes r1) @ [node_map m a1]\<rparr>\<rparr>"
      have res: "resolve_cnot nc m G e es = Some (?e, ?c # cs)"
        using qids False ne t3 ge by (simp add: resolve_cnot_def a r es Let_def)
      have in1: "braid_in nr nc (ev_braid ?c)"
        using i1 n1 by (auto simp: braid_in_def dest: in_set_butlastD)
      obtain d ds where ds: "cs = d # ds" "ev_type c = Cnot4" "ev_type d = Cnot5"
        using types(1) [OF t3] es by (cases cs) auto
      have co: "close_open e" "\<not> close_open c" using attr t3 ds es by auto
      have "covered NL LA (?c # cs)"
        using cov co ds es by auto
      moreover have "cells ?e \<subseteq> insert NL (cells ?c)"
        using last_cover [OF ne(1)] NL by (auto simp: cells_def braid_cells_def)
      ultimately have "covered NL LA (?e # ?c # cs)"
        using t3 co ds by simp
      then have "script nr nc G i NL LA (?e # ?c # cs)"
        using k attr i1 in1 ends t3 ds es by (auto simp: script_def)
      then show ?thesis using res es ge by auto
    next
      assume t5: "ev_type e = Cnot5"
      obtain d ds where ds: "cs = d # ds" "ev_type c = Cnot6" "ev_type d = Cnot7"
        using types(2) [OF t5] es by (cases cs) auto
      have nl: "nodes (ev_braid c) \<noteq> []" "NL = Router (last (nodes (ev_braid c)))"
        using attr ds es by auto
      let ?e = "e\<lparr>ev_braid := r2\<lparr>nodes := butlast (nodes r2)\<rparr>\<rparr>"
      let ?c = "c\<lparr>ev_braid := \<lparr>nodes = butlast (nodes r2) @ [last (nodes (ev_braid c))],
                                links = butlast (links r2)\<rparr>\<rparr>"
      have res: "resolve_cnot nc m G e es = Some (?e, ?c # cs)"
        using qids False ne ne2 nl(1) t5 ge by (simp add: resolve_cnot_def a r es Let_def)
      have "last (nodes (ev_braid c)) < (nr + 1) * (nc + 1)"
        using attr nl(1) es by (simp add: braid_in_def)
      then have in2: "braid_in nr nc (ev_braid ?c)" "braid_in nr nc (ev_braid ?e)"
        using i2 by (auto simp: braid_in_def dest: in_set_butlastD)
      have co: "close_open e" "\<not> close_open c" using attr t5 ds es by auto
      have "covered NL LA (?c # cs)"
        using cov co ds es by auto
      moreover have "insert NL (cells ?e) \<subseteq> insert LA (cells ?c)"
        using last_cover [OF ne(2)] nl(2) LA by (auto simp: cells_def braid_cells_def)
      ultimately have "covered NL LA (?e # ?c # cs)"
        using t5 co ds by simp
      then have "script nr nc G i NL LA (?e # ?c # cs)"
        using k attr in2 ends t5 ds es nl by (auto simp: script_def)
      then show ?thesis using res es ge by auto
    qed
  qed
qed

end
