(* ===== verification/Sim_Safety.thy ===== *)
theory Sim_Safety
  imports Braid_Scripts "HOL-Library.Multiset"
begin

text \<open>
  The invariant of the simulation loop: which gates are ready, in flight and completed, what the
  events of the gates in flight are, who owns the cells of the mesh, and in which order events
  succeeded. Every operation of the loop keeps it, so no assertion of the loop fails.
\<close>

subsection \<open>The invariant\<close>

text \<open>The parts of the state are: the mesh \<open>m\<close>, the edges \<open>E\<close> that are left, the queues \<open>qs\<close>, the
  ready events \<open>R\<close>, the ready gates \<open>rg\<close> and the log of the events that succeeded. \<open>G\<close> are the
  gates and \<open>E0\<close> the edges at the start.\<close>

definition flying :: "event list \<Rightarrow> (nat \<rightharpoonup> event list) \<Rightarrow> nat \<Rightarrow> bool" where
  "flying R qs g \<longleftrightarrow> g \<in> ev_gate ` set R \<or> qs g \<noteq> None"

definition pend :: "event list \<Rightarrow> (nat \<rightharpoonup> event list) \<Rightarrow> nat \<Rightarrow> event list" where
  "pend R qs g = filter (\<lambda>e. ev_gate e = g) R @ (case qs g of None \<Rightarrow> [] | Some q \<Rightarrow> q)"

definition done_in :: "gate list \<Rightarrow> (nat \<times> event_type) list \<Rightarrow> nat set" where
  "done_in G log = {g. (g, last (gate_types (G ! g))) \<in> set log}"

definition inv_ready ::
  "gate list \<Rightarrow> (nat \<times> nat) list \<Rightarrow> event list \<Rightarrow> (nat \<rightharpoonup> event list) \<Rightarrow> nat list \<Rightarrow>
   (nat \<times> event_type) list \<Rightarrow> bool" where
  "inv_ready G E0 R qs rg log \<longleftrightarrow>
     distinct rg \<and> (\<forall>g\<in>set rg. \<not> flying R qs g) \<and>
     (\<forall>g. g \<in> set rg \<or> flying R qs g \<longleftrightarrow>
        g < length G \<and> g \<notin> done_in G log \<and> preds E0 g \<subseteq> done_in G log)"

definition inv_queues :: "event list \<Rightarrow> (nat \<rightharpoonup> event list) \<Rightarrow> bool" where
  "inv_queues R qs \<longleftrightarrow>
     distinct (map ev_gate R) \<and>
     (\<forall>g q. qs g = Some q \<longrightarrow> q \<noteq> [] \<and> (\<forall>e\<in>set (if g \<in> ev_gate ` set R then q else tl q). timer e < 0))"

definition script_room :: "nat \<Rightarrow> nat \<Rightarrow> gate list \<Rightarrow> mesh \<Rightarrow> nat \<Rightarrow> event list \<Rightarrow> bool" where
  "script_room nr nc G m g es \<longleftrightarrow>
     (\<exists>NL LA. script nr nc G g NL LA es \<and>
        {c. owner m c = gate_seq (G ! g)} \<subseteq> room NL LA (ev_type (hd es)) (cells (hd es)))"

definition inv_scripts ::
  "nat \<Rightarrow> nat \<Rightarrow> gate list \<Rightarrow> mesh \<Rightarrow> event list \<Rightarrow> (nat \<rightharpoonup> event list) \<Rightarrow> bool" where
  "inv_scripts nr nc G m R qs \<longleftrightarrow> (\<forall>g. flying R qs g \<longrightarrow> script_room nr nc G m g (pend R qs g))"

definition inv_owner :: "gate list \<Rightarrow> mesh \<Rightarrow> event list \<Rightarrow> (nat \<rightharpoonup> event list) \<Rightarrow> bool" where
  "inv_owner G m R qs \<longleftrightarrow>
     (\<forall>c. owner m c \<noteq> 0 \<longrightarrow> (\<exists>g. flying R qs g \<and> owner m c = gate_seq (G ! g)))"

definition inv_log ::
  "gate list \<Rightarrow> (nat \<times> nat) list \<Rightarrow> (nat \<times> nat) list \<Rightarrow> (nat \<times> event_type) list \<Rightarrow> bool" where
  "inv_log G E0 E log \<longleftrightarrow>
     E = edges_left E0 (done_in G log) \<and>
     (\<forall>xs y ys. log = xs @ y # ys \<longrightarrow> fst y < length G \<and> preds E0 (fst y) \<subseteq> done_in G xs)"

definition sim_inv ::
  "config \<Rightarrow> gate list \<Rightarrow> (nat \<times> nat) list \<Rightarrow> mesh \<Rightarrow> (nat \<times> nat) list \<Rightarrow> (nat \<rightharpoonup> event list) \<Rightarrow>
   event list \<Rightarrow> nat list \<Rightarrow> (nat \<times> event_type) list \<Rightarrow> bool" where
  "sim_inv cfg G E0 m E qs R rg log \<longleftrightarrow>
     grid_mesh (num_rows cfg) (num_cols cfg) m \<and> inv_ready G E0 R qs rg log \<and> inv_queues R qs \<and>
     inv_scripts (num_rows cfg) (num_cols cfg) G m R qs \<and> inv_owner G m R qs \<and> inv_log G E0 E log"

text \<open>What a run needs of its gates, edges and parameters.\<close>

definition run_ok :: "config \<Rightarrow> gate list \<Rightarrow> (nat \<times> nat) list \<Rightarrow> bool" where
  "run_ok cfg G E0 \<longleftrightarrow>
     distinct (map gate_seq G) \<and> (\<forall>g\<in>set G. gate_ok (num_rows cfg) (num_cols cfg) g) \<and>
     distinct E0 \<and> forward (length G) E0 \<and>
     (\<forall>lt xs. mset (sort_events cfg lt xs) = mset xs)"

lemma run_okD:
  assumes "run_ok cfg G E0"
  shows "distinct (map gate_seq G)" "distinct E0" "forward (length G) E0"
    "mset (sort_events cfg lt xs) = mset xs"
    "i < length G \<Longrightarrow> gate_ok (num_rows cfg) (num_cols cfg) (G ! i)"
  using assms by (simp_all add: run_ok_def)

lemma seq_inj:
  "run_ok cfg G E0 \<Longrightarrow> i < length G \<Longrightarrow> j < length G \<Longrightarrow> gate_seq (G ! i) = gate_seq (G ! j) \<Longrightarrow> i = j"
  using gate_map_nth [OF run_okD(1)] by metis

lemma seq_pos: "run_ok cfg G E0 \<Longrightarrow> i < length G \<Longrightarrow> 0 < gate_seq (G ! i)"
  using run_okD(5) by (auto simp: gate_ok_def)

lemma done_closed:
  assumes "inv_log G E0 E log" and "g \<in> done_in G log"
  shows "g < length G \<and> preds E0 g \<subseteq> done_in G log"
proof -
  obtain xs ys where "log = xs @ (g, last (gate_types (G ! g))) # ys"
    using assms(2) by (auto simp: done_in_def dest: split_list)
  then show ?thesis using assms(1) by (fastforce simp: inv_log_def done_in_def)
qed

lemma inv_log_append:
  assumes "inv_log G E0 E log" and "g < length G" and "preds E0 g \<subseteq> done_in G log"
    and "E' = edges_left E0 (done_in G (log @ [(g, t)]))"
  shows "inv_log G E0 E' (log @ [(g, t)])"
proof -
  have "fst y < length G \<and> preds E0 (fst y) \<subseteq> done_in G xs" if "log @ [(g, t)] = xs @ y # ys" for xs y ys
  proof (cases ys rule: rev_cases)
    case Nil
    then show ?thesis using that assms(2,3) by auto
  next
    case (snoc zs z)
    then have "log = xs @ y # zs" using that by simp
    then show ?thesis using assms(1) unfolding inv_log_def by blast
  qed
  then show ?thesis using assms(4) by (simp add: inv_log_def)
qed

lemma pend_other: "ev_gate e \<noteq> h \<Longrightarrow> pend (kept @ e # es) qs h = pend (kept @ es) qs h"
  by (simp add: pend_def)

lemma pend_head:
  assumes "distinct (map ev_gate (kept @ e # es))"
  shows "pend (kept @ e # es) qs (ev_gate e) = e # (case qs (ev_gate e) of None \<Rightarrow> [] | Some q \<Rightarrow> q)"
    and "filter (\<lambda>x. ev_gate x = ev_gate e) (kept @ es) = []"
proof -
  have none: "filter (\<lambda>x. ev_gate x = ev_gate e) kept = []" "filter (\<lambda>x. ev_gate x = ev_gate e) es = []"
    using assms by (auto simp: filter_empty_conv image_iff)
  then show "pend (kept @ e # es) qs (ev_gate e) = e # (case qs (ev_gate e) of None \<Rightarrow> [] | Some q \<Rightarrow> q)"
    and "filter (\<lambda>x. ev_gate x = ev_gate e) (kept @ es) = []"
    by (simp_all add: pend_def)
qed

lemma script_room_cong:
  "script_room nr nc G m g es \<Longrightarrow> (\<And>c. owner m' c = gate_seq (G ! g) \<Longrightarrow> owner m c = gate_seq (G ! g)) \<Longrightarrow>
   script_room nr nc G m' g es"
  unfolding script_room_def by blast

lemma script_room_same:
  assumes "script_room nr nc G m g (e # es)" and "ev_braid e' = ev_braid e" and "close_open e' = close_open e"
    and "ev_gate e' = ev_gate e" and "ev_type e' = ev_type e"
  shows "script_room nr nc G m g (e' # es)"
proof -
  have "cells e' = cells e" using assms(2) by (simp add: cells_def)
  then show ?thesis using assms script_same unfolding script_room_def by fastforce
qed

subsection \<open>Queueing and the clock\<close>

lemma queue_gate_inv:
  assumes run: "run_ok cfg G E0" and gates: "sim_gates st = G"
    and i: "sim_inv cfg G E0 (sim_mesh st) (sim_edges st) (event_queues st) (ready_events st) (g # gs) (success_events st)"
  shows "\<exists>q. queue_gate cfg g st = Some (st\<lparr>event_queues := (event_queues st)(g \<mapsto> q)\<rparr>) \<and>
    sim_inv cfg G E0 (sim_mesh st) (sim_edges st) ((event_queues st)(g \<mapsto> q)) (ready_events st) gs (success_events st)"
proof -
  let ?m = "sim_mesh st" and ?R = "ready_events st" and ?qs = "event_queues st" and ?log = "success_events st"
  let ?nr = "num_rows cfg" and ?nc = "num_cols cfg"
  have grid: "grid_mesh ?nr ?nc ?m" and rd: "inv_ready G E0 ?R ?qs (g # gs) ?log" and qu: "inv_queues ?R ?qs"
    and sc: "inv_scripts ?nr ?nc G ?m ?R ?qs" and ow: "inv_owner G ?m ?R ?qs"
    and lg: "inv_log G E0 (sim_edges st) ?log"
    using i unfolding sim_inv_def by blast+
  have g: "g < length G" "\<not> flying ?R ?qs g" "distinct gs" "g \<notin> set gs"
    using rd unfolding inv_ready_def by (auto dest: spec [of _ g])
  have fl: "h < length G" if "flying ?R ?qs h" for h
    using rd that unfolding inv_ready_def by blast
  have ok: "gate_ok ?nr ?nc (G ! g)" by (rule run_okD(5) [OF run g(1)])
  obtain q NL LA where q: "queue_gate cfg g st = Some (st\<lparr>event_queues := ?qs(g \<mapsto> q)\<rparr>)"
    and s: "script ?nr ?nc G g NL LA q" and ne: "q \<noteq> []" and tm: "\<forall>e\<in>set (tl q). timer e < 0"
    and hd: "ev_type (hd q) = Cnot1 \<or> ev_type (hd q) = H1"
  proof (cases "op_type (G ! g) = ''CNOT''")
    case True
    have pq: "qid (G ! g) ! 0 < ?nr * ?nc" "qid (G ! g) ! 1 < ?nr * ?nc"
      using ok True by (auto simp: gate_ok_def)
    obtain es NL LA where es: "events_cnot (garbage cfg) (priority_policy cfg) ?nc ?m (qid (G ! g) ! 0) (qid (G ! g) ! 1) g = Some es"
      "script ?nr ?nc G g NL LA es" "length es = 7" "\<forall>e\<in>set (tl es). timer e < 0"
      using events_cnot_script [OF grid True refl refl pq] by blast
    have "map ev_type es = [Cnot1, Cnot2, Cnot3, Cnot4, Cnot5, Cnot6, Cnot7]"
      using events_cnot_facts(1) [OF grid pq es(1)] .
    then have "ev_type (hd es) = Cnot1" by (cases es) auto
    then show thesis
      using that [of es NL LA] es True gates by (cases es) (auto simp: queue_gate_def Let_def)
  next
    case False
    then have h: "op_type (G ! g) = ''H''" using ok by (auto simp: gate_ok_def)
    then show thesis
      using that [of "events_h (garbage cfg) (qid (G ! g) ! 0) g" "Router 0" "Router 0"]
        events_h_script(1) [OF h, of ?nr ?nc "Router 0" "Router 0" "garbage cfg" "qid (G ! g) ! 0"]
        events_h_script(2) [OF h, of "garbage cfg" "qid (G ! g) ! 0"] gates
      by (simp add: queue_gate_def Let_def) (simp add: events_h_def mk_event_def Let_def)
  qed
  let ?qs' = "?qs(g \<mapsto> q)"
  have fly: "flying ?R ?qs' h \<longleftrightarrow> h = g \<or> flying ?R ?qs h" for h by (simp add: flying_def)
  have nog: "g \<notin> ev_gate ` set ?R" using g(2) by (simp add: flying_def)
  have pg: "pend ?R ?qs' g = q"
    using nog by (auto simp: pend_def filter_empty_conv image_iff)
  have ph: "pend ?R ?qs' h = pend ?R ?qs h" if "h \<noteq> g" for h using that by (simp add: pend_def)
  have free: "{c. owner ?m c = gate_seq (G ! g)} = {}"
  proof (rule ccontr)
    assume "{c. owner ?m c = gate_seq (G ! g)} \<noteq> {}"
    then obtain c where c: "owner ?m c = gate_seq (G ! g)" by blast
    then obtain h where "flying ?R ?qs h" "gate_seq (G ! g) = gate_seq (G ! h)"
      using ow seq_pos [OF run g(1)] unfolding inv_owner_def by (metis less_irrefl)
    then show False using seq_inj [OF run g(1) fl] g(2) by blast
  qed
  have "inv_ready G E0 ?R ?qs' gs ?log"
    unfolding inv_ready_def
  proof (intro conjI)
    show "distinct gs" by (rule g(3))
    show "\<forall>h\<in>set gs. \<not> flying ?R ?qs' h" using rd g(4) unfolding inv_ready_def fly by auto
    show "\<forall>h. h \<in> set gs \<or> flying ?R ?qs' h \<longleftrightarrow>
        h < length G \<and> h \<notin> done_in G ?log \<and> preds E0 h \<subseteq> done_in G ?log"
      using rd unfolding inv_ready_def fly by (metis set_ConsD list.set_intros(1,2))
  qed
  moreover have "inv_queues ?R ?qs'"
    using qu ne tm nog unfolding inv_queues_def by auto
  moreover have "inv_scripts ?nr ?nc G ?m ?R ?qs'"
    unfolding inv_scripts_def
  proof (intro allI impI)
    fix h assume "flying ?R ?qs' h"
    then show "script_room ?nr ?nc G ?m h (pend ?R ?qs' h)"
      using sc s free pg ph fly unfolding inv_scripts_def script_room_def by (cases "h = g") auto
  qed
  moreover have "inv_owner G ?m ?R ?qs'"
    using ow unfolding inv_owner_def fly by blast
  ultimately show ?thesis using q grid lg unfolding sim_inv_def by blast
qed

lemma queue_gates_inv:
  assumes "run_ok cfg G E0" and "sim_gates st = G"
    and "sim_inv cfg G E0 (sim_mesh st) (sim_edges st) (event_queues st) (ready_events st) gs (success_events st)"
  shows "\<exists>qs. queue_gates cfg gs st = Some (st\<lparr>event_queues := qs\<rparr>) \<and>
    sim_inv cfg G E0 (sim_mesh st) (sim_edges st) qs (ready_events st) [] (success_events st)"
  using assms(2,3)
proof (induction gs arbitrary: st)
  case Nil
  then show ?case by (intro exI [of _ "event_queues st"]) simp
next
  case (Cons g gs)
  obtain q where q: "queue_gate cfg g st = Some (st\<lparr>event_queues := (event_queues st)(g \<mapsto> q)\<rparr>)"
    "sim_inv cfg G E0 (sim_mesh st) (sim_edges st) ((event_queues st)(g \<mapsto> q)) (ready_events st) gs (success_events st)"
    using queue_gate_inv [OF assms(1) Cons.prems] by blast
  from Cons.IH [of "st\<lparr>event_queues := (event_queues st)(g \<mapsto> q)\<rparr>"] Cons.prems(1) q(2)
  obtain qs where "queue_gates cfg gs (st\<lparr>event_queues := (event_queues st)(g \<mapsto> q)\<rparr>) =
      Some (st\<lparr>event_queues := qs\<rparr>)"
    "sim_inv cfg G E0 (sim_mesh st) (sim_edges st) qs (ready_events st) [] (success_events st)"
    by (auto simp del: fun_upd_apply)
  then show ?case using q(1) by auto
qed

lemma clock_queue_inv:
  assumes i: "sim_inv cfg G E0 m E (event_queues st) (ready_events st) rg log"
  shows "\<exists>qs R. clock_queue g st = Some (st\<lparr>event_queues := qs, ready_events := R\<rparr>) \<and>
    sim_inv cfg G E0 m E qs R rg log"
proof -
  let ?R = "ready_events st" and ?qs = "event_queues st"
  let ?nr = "num_rows cfg" and ?nc = "num_cols cfg"
  have grid: "grid_mesh ?nr ?nc m" and rd: "inv_ready G E0 ?R ?qs rg log" and qu: "inv_queues ?R ?qs"
    and sc: "inv_scripts ?nr ?nc G m ?R ?qs" and ow: "inv_owner G m ?R ?qs" and lg: "inv_log G E0 E log"
    using i unfolding sim_inv_def by blast+
  have same: ?thesis if "clock_queue g st = Some st"
    using that i by (intro exI [of _ ?qs] exI [of _ ?R]) simp
  show ?thesis
  proof (cases "?qs g")
    case None
    then show ?thesis by (intro same) (simp add: clock_queue_def)
  next
    case (Some q0)
    then obtain h q where q0: "?qs g = Some (h # q)" using qu unfolding inv_queues_def by (cases q0) auto
    have tm: "\<forall>e\<in>set (if g \<in> ev_gate ` set ?R then h # q else q). timer e < 0"
      using qu [unfolded inv_queues_def, THEN conjunct2, rule_format, OF q0] by simp
    show ?thesis
    proof (cases "timer h < 0")
      case True
      then show ?thesis using q0 by (intro same) (simp add: clock_queue_def)
    next
      case False
      then have nog: "g \<notin> ev_gate ` set ?R" and tq: "\<forall>e\<in>set q. timer e < 0"
        using tm by (auto split: if_splits)
      define h' where "h' = (if timer h \<noteq> 0 then h\<lparr>timer := timer h - 1\<rparr> else h)"
      have h': "ev_braid h' = ev_braid h" "close_open h' = close_open h" "ev_gate h' = ev_gate h"
        "ev_type h' = ev_type h" by (simp_all add: h'_def)
      have pg: "pend ?R ?qs g = h # q"
        using nog q0 by (auto simp: pend_def filter_empty_conv image_iff)
      have fg: "flying ?R ?qs g" using q0 by (simp add: flying_def)
      then have srg: "script_room ?nr ?nc G m g (h # q)"
        using sc pg unfolding inv_scripts_def by metis
      then have gate: "ev_gate h' = g"
        using script_gate h'(3) unfolding script_room_def by fastforce
      have srg': "script_room ?nr ?nc G m g (h' # q)"
        by (rule script_room_same [OF srg h'])
      show ?thesis
      proof (cases "timer h' = 0")
        case True
        let ?R' = "?R @ [h']" and ?qs' = "?qs(g := (if q = [] then None else Some q))"
        have c: "clock_queue g st = Some (st\<lparr>event_queues := ?qs', ready_events := ?R'\<rparr>)"
          using q0 \<open>\<not> timer h < 0\<close> True by (simp add: clock_queue_def h'_def Let_def)
        have fly: "flying ?R' ?qs' x \<longleftrightarrow> flying ?R ?qs x" for x
          using gate q0 by (auto simp: flying_def)
        have px: "pend ?R' ?qs' x = pend ?R ?qs x" if "x \<noteq> g" for x
          using gate that by (simp add: pend_def)
        have pg': "pend ?R' ?qs' g = h' # q"
          using nog gate by (auto simp: pend_def filter_empty_conv image_iff)
        have "inv_queues ?R' ?qs'"
          using qu nog gate tq unfolding inv_queues_def by (auto split: if_splits)
        moreover have "inv_ready G E0 ?R' ?qs' rg log" "inv_owner G m ?R' ?qs'"
          using rd ow unfolding inv_ready_def inv_owner_def fly by blast+
        moreover have "inv_scripts ?nr ?nc G m ?R' ?qs'"
          using sc srg' pg' px unfolding inv_scripts_def fly by metis
        ultimately show ?thesis using c grid lg unfolding sim_inv_def by blast
      next
        case nz: False
        let ?qs' = "?qs(g \<mapsto> h' # q)"
        have c: "clock_queue g st = Some (st\<lparr>event_queues := ?qs', ready_events := ?R\<rparr>)"
          using q0 \<open>\<not> timer h < 0\<close> nz by (simp add: clock_queue_def h'_def Let_def)
        have fly: "flying ?R ?qs' x \<longleftrightarrow> flying ?R ?qs x" for x
          using q0 by (auto simp: flying_def)
        have px: "pend ?R ?qs' x = pend ?R ?qs x" if "x \<noteq> g" for x
          using that by (simp add: pend_def)
        have pg': "pend ?R ?qs' g = h' # q"
          using nog by (auto simp: pend_def filter_empty_conv image_iff)
        have "inv_queues ?R ?qs'"
          using qu nog tq unfolding inv_queues_def by auto
        moreover have "inv_ready G E0 ?R ?qs' rg log" "inv_owner G m ?R ?qs'"
          using rd ow unfolding inv_ready_def inv_owner_def fly by blast+
        moreover have "inv_scripts ?nr ?nc G m ?R ?qs'"
          using sc srg' pg' px unfolding inv_scripts_def fly by metis
        ultimately show ?thesis using c grid lg unfolding sim_inv_def by blast
      qed
    qed
  qed
qed

lemma clock_queues_inv:
  assumes "sim_inv cfg G E0 m E (event_queues st) (ready_events st) rg log"
  shows "\<exists>qs R. clock_queues gs st = Some (st\<lparr>event_queues := qs, ready_events := R\<rparr>) \<and>
    sim_inv cfg G E0 m E qs R rg log"
  using assms
proof (induction gs arbitrary: st)
  case Nil
  then show ?case by (intro exI [of _ "event_queues st"] exI [of _ "ready_events st"]) simp
next
  case (Cons g gs)
  obtain qs R where 1: "clock_queue g st = Some (st\<lparr>event_queues := qs, ready_events := R\<rparr>)"
    "sim_inv cfg G E0 m E qs R rg log"
    using clock_queue_inv [OF Cons.prems] by blast
  from Cons.IH [of "st\<lparr>event_queues := qs, ready_events := R\<rparr>"] 1(2)
  obtain qs' R' where "clock_queues gs (st\<lparr>event_queues := qs, ready_events := R\<rparr>) =
      Some (st\<lparr>event_queues := qs', ready_events := R'\<rparr>)" "sim_inv cfg G E0 m E qs' R' rg log" by auto
  then show ?case using 1(1) by auto
qed

subsection \<open>Successful events\<close>

text \<open>What an event of a gate in flight does to the owners of the mesh.\<close>

lemma event_owner:
  assumes run: "run_ok cfg G E0" and grid: "grid_mesh (num_rows cfg) (num_cols cfg) m"
    and s: "script (num_rows cfg) (num_cols cfg) G g NL LA (e # q)" and g: "g < length G"
    and d: "do_event G e m = (True, m')"
  shows "grid_mesh (num_rows cfg) (num_cols cfg) m'"
    and "{c. owner m' c = gate_seq (G ! g)} =
      (if close_open e then {c. owner m c = gate_seq (G ! g)} \<union> cells e
       else {c. owner m c = gate_seq (G ! g)} - cells e)"
    and "h < length G \<Longrightarrow> h \<noteq> g \<Longrightarrow> owner m' c = gate_seq (G ! h) \<longleftrightarrow> owner m c = gate_seq (G ! h)"
    and "owner m' c \<noteq> 0 \<Longrightarrow> owner m c \<noteq> 0 \<or> owner m' c = gate_seq (G ! g)"
    and "owner m' c \<noteq> 0 \<Longrightarrow> owner m' c = owner m c \<or> owner m' c = gate_seq (G ! g)"
proof -
  have e: "ev_gate e = g" "braid_in (num_rows cfg) (num_cols cfg) (ev_braid e)"
    using script_gate [OF s] by auto
  have fits: "braid_fits m (ev_braid e)" by (rule braid_in_fits [OF grid e(2)])
  have ow: "owner m' c = (if c \<in> cells e then (if close_open e then gate_seq (G ! g) else 0) else owner m c)" for c
    using do_event_owner [OF fits, of G c] d e(1) by (simp add: cells_def)
  have free: "owner m c = 0 \<or> \<not> close_open e \<and> owner m c = gate_seq (G ! g)" if "c \<in> cells e" for c
    using do_event_success [of G e m] d e(1) that by (simp add: cells_def)
  have pos: "0 < gate_seq (G ! g)" by (rule seq_pos [OF run g])
  show "grid_mesh (num_rows cfg) (num_cols cfg) m'"
    using do_event_grid [OF grid fits, of G] d by simp
  show "{c. owner m' c = gate_seq (G ! g)} =
      (if close_open e then {c. owner m c = gate_seq (G ! g)} \<union> cells e
       else {c. owner m c = gate_seq (G ! g)} - cells e)"
    using pos by (auto simp: ow)
  show "owner m' c = gate_seq (G ! h) \<longleftrightarrow> owner m c = gate_seq (G ! h)" if h: "h < length G" "h \<noteq> g"
    using seq_pos [OF run h(1)] seq_inj [OF run h(1) g] h(2) free [of c] by (auto simp: ow)
  show "owner m c \<noteq> 0 \<or> owner m' c = gate_seq (G ! g)" if "owner m' c \<noteq> 0"
    using that by (auto simp: ow split: if_splits)
  show "owner m' c = owner m c \<or> owner m' c = gate_seq (G ! g)" if "owner m' c \<noteq> 0"
    using that by (auto simp: ow split: if_splits)
qed

lemma gate_types_distinct: "distinct (gate_types g)"
  by (simp add: gate_types.simps)

lemma head_not_last:
  assumes "map ev_type (e # f # q) = drop k (gate_types g)"
  shows "ev_type e \<noteq> last (gate_types g)"
proof -
  have ne: "drop k (gate_types g) \<noteq> []" using assms by auto
  have "last (gate_types g) = last (map ev_type (e # f # q))"
    using ne assms by (metis append_take_drop_id last_appendR)
  also have "\<dots> = last (map ev_type (f # q))" by simp
  also have "\<dots> \<in> set (map ev_type (f # q))" by (rule last_in_set) simp
  finally have l: "last (gate_types g) \<in> set (map ev_type (f # q))" .
  have "distinct (map ev_type (e # f # q))"
    unfolding assms by (simp add: gate_types_distinct)
  then show ?thesis using l by auto
qed

text \<open>The head of the script of a gate succeeds and there are more events.\<close>

lemma success_next_inv:
  assumes run: "run_ok cfg G E0"
    and i: "sim_inv cfg G E0 m E qs (kept @ e # es) rg log"
    and d: "do_event G e m = (True, m')" and q: "qs (ev_gate e) = Some (f # q)"
  shows "sim_inv cfg G E0 m' E (qs(ev_gate e \<mapsto> f\<lparr>timer := t\<rparr> # q)) (kept @ es) rg (log @ [(ev_gate e, ev_type e)])"
proof -
  let ?g = "ev_gate e" and ?R = "kept @ e # es" and ?R' = "kept @ es"
  let ?nr = "num_rows cfg" and ?nc = "num_cols cfg"
  let ?qs' = "qs(?g \<mapsto> f\<lparr>timer := t\<rparr> # q)"
  have grid: "grid_mesh ?nr ?nc m" and rd: "inv_ready G E0 ?R qs rg log" and qu: "inv_queues ?R qs"
    and sc: "inv_scripts ?nr ?nc G m ?R qs" and ow: "inv_owner G m ?R qs" and lg: "inv_log G E0 E log"
    using i unfolding sim_inv_def by blast+
  have dist: "distinct (map ev_gate ?R)" using qu unfolding inv_queues_def by blast
  have fg: "flying ?R qs ?g" by (simp add: flying_def)
  then have g: "?g < length G" "?g \<notin> done_in G log" "preds E0 ?g \<subseteq> done_in G log"
    using rd unfolding inv_ready_def by blast+
  have fl: "h < length G" if "flying ?R qs h" for h
    using rd that unfolding inv_ready_def by blast
  have "pend ?R qs ?g = e # f # q" using pend_head(1) [OF dist] q by simp
  then obtain NL LA where s: "script ?nr ?nc G ?g NL LA (e # f # q)"
    and room: "{c. owner m c = gate_seq (G ! ?g)} \<subseteq> room NL LA (ev_type e) (cells e)"
    using sc fg unfolding inv_scripts_def script_room_def by fastforce
  note own = event_owner [OF run grid s g(1) d]
  have cov: "(if close_open e then room NL LA (ev_type e) (cells e) \<union> cells e
      else room NL LA (ev_type e) (cells e) - cells e) \<subseteq> room NL LA (ev_type f) (cells f)"
  proof -
    have "covered NL LA (e # f # q)" using s unfolding script_def by blast
    then show ?thesis by (simp only: covered.simps)
  qed
  have "{c. owner m' c = gate_seq (G ! ?g)} \<subseteq> room NL LA (ev_type f) (cells f)"
    unfolding own(2) using room cov by (cases "close_open e") auto
  then have "script_room ?nr ?nc G m' ?g (f # q)"
    using script_tl [OF s] unfolding script_room_def by auto
  then have srg: "script_room ?nr ?nc G m' ?g (f\<lparr>timer := t\<rparr> # q)"
    by (rule script_room_same) simp_all
  have nog: "?g \<notin> ev_gate ` set ?R'" using dist by auto
  have pg: "pend ?R' ?qs' ?g = f\<lparr>timer := t\<rparr> # q"
    using pend_head(2) [OF dist] by (simp add: pend_def)
  have ph: "pend ?R' ?qs' h = pend ?R qs h" if "h \<noteq> ?g" for h
    using that by (simp add: pend_def)
  have fly: "flying ?R' ?qs' h \<longleftrightarrow> flying ?R qs h" for h
    using q by (auto simp: flying_def)
  obtain k where k: "map ev_type (e # f # q) = drop k (gate_types (G ! ?g))"
    using s by (auto simp: script_def)
  have dn: "done_in G (log @ [(?g, ev_type e)]) = done_in G log"
    using head_not_last [OF k] by (auto simp: done_in_def)
  have "inv_ready G E0 ?R' ?qs' rg (log @ [(?g, ev_type e)])"
    using rd unfolding inv_ready_def fly dn .
  moreover have "inv_queues ?R' ?qs'"
  proof -
    have "\<forall>x\<in>set q. timer x < 0"
      using qu [unfolded inv_queues_def, THEN conjunct2, rule_format, OF q] by simp
    moreover have "x \<noteq> [] \<and> (\<forall>y\<in>set (if h \<in> ev_gate ` set ?R' then x else tl x). timer y < 0)"
      if "qs h = Some x" "h \<noteq> ?g" for h x
      using qu [unfolded inv_queues_def, THEN conjunct2, rule_format, OF that(1)] that(2) by simp
    ultimately show ?thesis using dist nog unfolding inv_queues_def by auto
  qed
  moreover have "inv_scripts ?nr ?nc G m' ?R' ?qs'"
    unfolding inv_scripts_def fly
  proof (intro allI impI)
    fix h assume h: "flying ?R qs h"
    show "script_room ?nr ?nc G m' h (pend ?R' ?qs' h)"
    proof (cases "h = ?g")
      case True
      then show ?thesis using srg pg by simp
    next
      case False
      then have "script_room ?nr ?nc G m h (pend ?R' ?qs' h)"
        using sc h ph unfolding inv_scripts_def by simp
      then show ?thesis
        by (rule script_room_cong) (use own(3) [OF fl [OF h] False] in blast)
    qed
  qed
  moreover have "inv_owner G m' ?R' ?qs'"
    using ow own(5) fg unfolding inv_owner_def fly by metis
  moreover have "inv_log G E0 E (log @ [(?g, ev_type e)])"
    using lg by (intro inv_log_append [OF lg g(1,3)]) (simp add: dn inv_log_def)
  ultimately show ?thesis using own(1) unfolding sim_inv_def by blast
qed

text \<open>The last event of a gate succeeds: the gate is completed.\<close>

lemma success_last_inv:
  assumes run: "run_ok cfg G E0"
    and i: "sim_inv cfg G E0 m E qs (kept @ e # es) rg log"
    and d: "do_event G e m = (True, m')" and q: "qs (ev_gate e) = None"
  shows "sim_inv cfg G E0 m' (clear_out_edges (ev_gate e) E) qs (kept @ es)
      (rg @ filter (\<lambda>h. in_degree E h = 1) (adjacent_vertices E (ev_gate e))) (log @ [(ev_gate e, ev_type e)])"
    and "in_degree (clear_out_edges (ev_gate e) E) (ev_gate e) = 0"
    and "out_degree (clear_out_edges (ev_gate e) E) (ev_gate e) = 0"
proof -
  let ?g = "ev_gate e" and ?R = "kept @ e # es" and ?R' = "kept @ es"
  let ?nr = "num_rows cfg" and ?nc = "num_cols cfg"
  let ?D = "done_in G log"
  let ?new = "filter (\<lambda>h. in_degree E h = 1) (adjacent_vertices E ?g)"
  have grid: "grid_mesh ?nr ?nc m" and rd: "inv_ready G E0 ?R qs rg log" and qu: "inv_queues ?R qs"
    and sc: "inv_scripts ?nr ?nc G m ?R qs" and ow: "inv_owner G m ?R qs" and lg: "inv_log G E0 E log"
    using i unfolding sim_inv_def by blast+
  have dist: "distinct (map ev_gate ?R)" using qu unfolding inv_queues_def by blast
  have fg: "flying ?R qs ?g" by (simp add: flying_def)
  then have g: "?g < length G" "?g \<notin> ?D" "preds E0 ?g \<subseteq> ?D"
    using rd unfolding inv_ready_def by blast+
  have fl: "h < length G" if "flying ?R qs h" for h
    using rd that unfolding inv_ready_def by blast
  have "pend ?R qs ?g = [e]" using pend_head(1) [OF dist] q by simp
  then obtain NL LA where s: "script ?nr ?nc G ?g NL LA [e]"
    and room: "{c. owner m c = gate_seq (G ! ?g)} \<subseteq> room NL LA (ev_type e) (cells e)"
    using sc fg unfolding inv_scripts_def script_room_def by fastforce
  note own = event_owner [OF run grid s g(1) d]
  have "covered NL LA [e]" using s unfolding script_def by blast
  then have none: "{c. owner m' c = gate_seq (G ! ?g)} = {}"
    unfolding own(2) using room by auto
  have last: "ev_type e = last (gate_types (G ! ?g))"
    using s drop_types_last unfolding script_def by blast
  have dn: "done_in G (log @ [(?g, ev_type e)]) = insert ?g ?D"
    using last by (auto simp: done_in_def)
  have E: "E = edges_left E0 ?D" using lg by (simp add: inv_log_def)
  have cl: "clear_out_edges ?g E = edges_left E0 (insert ?g ?D)"
    unfolding E by (rule clear_left)
  have dE: "distinct E0" by (rule run_okD(2) [OF run])
  show "in_degree (clear_out_edges ?g E) ?g = 0"
    unfolding cl using g(3) by (simp add: in_degree_left [OF dE] Diff_eq_empty_iff subset_insertI2)
  show "out_degree (clear_out_edges ?g E) ?g = 0"
    by (auto simp: out_degree_def clear_out_edges_def filter_empty_conv)
  have closed: "\<forall>x\<in>?D. preds E0 x \<subseteq> ?D" using done_closed [OF lg] by blast
  have edges: "\<forall>(a, b)\<in>set E0. a < length G \<and> b < length G \<and> a \<noteq> b"
    using forwardD [OF run_okD(3) [OF run]] by fastforce
  have new: "h \<in> set ?new \<longleftrightarrow>
      h < length G \<and> h \<noteq> ?g \<and> h \<notin> ?D \<and> ?g \<in> preds E0 h \<and> preds E0 h \<subseteq> insert ?g ?D" for h
    unfolding E by (rule newly_ready [OF dE edges g(2) closed])
  have nog: "?g \<notin> ev_gate ` set ?R'" using dist by auto
  have fly: "flying ?R' qs h \<longleftrightarrow> flying ?R qs h \<and> h \<noteq> ?g" for h
    using nog q by (cases "h = ?g") (simp_all add: flying_def)
  have ph: "pend ?R' qs h = pend ?R qs h" if "h \<noteq> ?g" for h
    using that by (simp add: pend_def)
  have rdy: "h \<in> set rg \<or> flying ?R qs h \<longleftrightarrow> h < length G \<and> h \<notin> ?D \<and> preds E0 h \<subseteq> ?D" for h
    using rd unfolding inv_ready_def by blast
  have disj: "h \<notin> set rg" "\<not> flying ?R qs h" if "h \<in> set ?new" for h
    using rdy [of h] that g(2) unfolding new by auto
  have "inv_ready G E0 ?R' qs (rg @ ?new) (log @ [(?g, ev_type e)])"
    unfolding inv_ready_def dn
  proof (intro conjI allI ballI)
    have "distinct E" using dE by (simp add: E edges_left_def)
    then show "distinct (rg @ ?new)"
      using rd disj distinct_adjacent [of E] unfolding inv_ready_def by auto
    show "\<not> flying ?R' qs h" if "h \<in> set (rg @ ?new)" for h
      using that disj rd unfolding fly inv_ready_def by auto
    have "?g \<notin> set rg" using rd fg unfolding inv_ready_def by blast
    then show "h \<in> set (rg @ ?new) \<or> flying ?R' qs h \<longleftrightarrow>
        h < length G \<and> h \<notin> insert ?g ?D \<and> preds E0 h \<subseteq> insert ?g ?D" for h
      using rdy [of h] new [of h] unfolding fly set_append by auto
  qed
  moreover have "inv_queues ?R' qs"
  proof -
    have "x \<noteq> [] \<and> (\<forall>y\<in>set (if h \<in> ev_gate ` set ?R' then x else tl x). timer y < 0)"
      if "qs h = Some x" for h x
      using qu [unfolded inv_queues_def, THEN conjunct2, rule_format, OF that] that q
      by (cases "h = ?g") auto
    then show ?thesis using dist unfolding inv_queues_def by auto
  qed
  moreover have "inv_scripts ?nr ?nc G m' ?R' qs"
    unfolding inv_scripts_def fly
  proof (intro allI impI, elim conjE)
    fix h assume h: "flying ?R qs h" "h \<noteq> ?g"
    then have "script_room ?nr ?nc G m h (pend ?R' qs h)"
      using sc ph unfolding inv_scripts_def by simp
    then show "script_room ?nr ?nc G m' h (pend ?R' qs h)"
      by (rule script_room_cong) (use own(3) [OF fl [OF h(1)] h(2)] in blast)
  qed
  moreover have "inv_owner G m' ?R' qs"
    unfolding inv_owner_def fly
  proof (intro allI impI)
    fix c assume c: "owner m' c \<noteq> 0"
    have "owner m' c \<noteq> gate_seq (G ! ?g)" using none by blast
    then have "owner m' c = owner m c" using own(5) [OF c] by blast
    then obtain h where h: "flying ?R qs h" "owner m' c = gate_seq (G ! h)"
      using ow c unfolding inv_owner_def by metis
    then show "\<exists>h. (flying ?R qs h \<and> h \<noteq> ?g) \<and> owner m' c = gate_seq (G ! h)"
      using none by blast
  qed
  moreover have "inv_log G E0 (clear_out_edges ?g E) (log @ [(?g, ev_type e)])"
    by (rule inv_log_append [OF lg g(1,3)]) (simp only: dn cl)
  ultimately show "sim_inv cfg G E0 m' (clear_out_edges ?g E) qs ?R' (rg @ ?new) (log @ [(?g, ev_type e)])"
    using own(1) unfolding sim_inv_def by blast
qed

subsection \<open>Failed events\<close>

text \<open>Another head event and another queue for the same gate.\<close>

lemma replace_inv:
  assumes i: "sim_inv cfg G E0 m E qs (kept @ e # es) rg log"
    and ge: "ev_gate e' = ev_gate e" and x: "x = None \<longleftrightarrow> qs (ev_gate e) = None"
    and room: "script_room (num_rows cfg) (num_cols cfg) G m (ev_gate e)
      (e' # (case x of None \<Rightarrow> [] | Some q \<Rightarrow> q))"
    and q: "\<And>q. x = Some q \<Longrightarrow> q \<noteq> [] \<and> (\<forall>y\<in>set q. timer y < 0)"
  shows "sim_inv cfg G E0 m E (qs(ev_gate e := x)) (kept @ e' # es) rg log"
proof -
  let ?g = "ev_gate e" and ?R = "kept @ e # es" and ?R' = "kept @ e' # es" and ?qs' = "qs(ev_gate e := x)"
  have grid: "grid_mesh (num_rows cfg) (num_cols cfg) m" and rd: "inv_ready G E0 ?R qs rg log"
    and qu: "inv_queues ?R qs" and sc: "inv_scripts (num_rows cfg) (num_cols cfg) G m ?R qs"
    and ow: "inv_owner G m ?R qs" and lg: "inv_log G E0 E log"
    using i unfolding sim_inv_def by blast+
  have dist: "distinct (map ev_gate ?R)" using qu unfolding inv_queues_def by blast
  have gates: "map ev_gate ?R' = map ev_gate ?R" using ge by simp
  have img: "ev_gate ` set ?R' = ev_gate ` set ?R" using ge by auto
  have fly: "flying ?R' ?qs' h \<longleftrightarrow> flying ?R qs h" for h
    unfolding flying_def img using x by auto
  have pg: "pend ?R' ?qs' ?g = e' # (case x of None \<Rightarrow> [] | Some q \<Rightarrow> q)"
    using pend_head(1) [of kept e' es ?qs'] dist gates ge by simp
  have ph: "pend ?R' ?qs' h = pend ?R qs h" if "h \<noteq> ?g" for h
    using that ge by (simp add: pend_def)
  have "inv_queues ?R' ?qs'"
  proof -
    have "y \<noteq> [] \<and> (\<forall>z\<in>set (if h \<in> ev_gate ` set ?R then y else tl y). timer z < 0)"
      if "?qs' h = Some y" for h y
    proof (cases "h = ?g")
      case True
      then show ?thesis using that q [of y] by simp
    next
      case False
      then have "qs h = Some y" using that by simp
      then show ?thesis using qu [unfolded inv_queues_def, THEN conjunct2, rule_format, of h y] by blast
    qed
    then show ?thesis using dist unfolding inv_queues_def gates img by blast
  qed
  moreover have "inv_scripts (num_rows cfg) (num_cols cfg) G m ?R' ?qs'"
    using sc room pg ph unfolding inv_scripts_def fly by metis
  moreover have "inv_ready G E0 ?R' ?qs' rg log" "inv_owner G m ?R' ?qs'"
    using rd ow unfolding inv_ready_def inv_owner_def fly by blast+
  ultimately show ?thesis using grid lg unfolding sim_inv_def by blast
qed

lemma head_room:
  assumes i: "sim_inv cfg G E0 m E qs (kept @ e # es) rg log"
  shows "script_room (num_rows cfg) (num_cols cfg) G m (ev_gate e)
      (e # (case qs (ev_gate e) of None \<Rightarrow> [] | Some q \<Rightarrow> q))"
    and "qs (ev_gate e) = Some q \<Longrightarrow> q \<noteq> [] \<and> (\<forall>y\<in>set q. timer y < 0)"
    and "ev_gate e < length G"
proof -
  have qu: "inv_queues (kept @ e # es) qs" and fg: "flying (kept @ e # es) qs (ev_gate e)"
    using i unfolding sim_inv_def by (auto simp: flying_def)
  then have dist: "distinct (map ev_gate (kept @ e # es))" unfolding inv_queues_def by blast
  have "script_room (num_rows cfg) (num_cols cfg) G m (ev_gate e) (pend (kept @ e # es) qs (ev_gate e))"
    using i fg unfolding sim_inv_def inv_scripts_def by blast
  then show "script_room (num_rows cfg) (num_cols cfg) G m (ev_gate e)
      (e # (case qs (ev_gate e) of None \<Rightarrow> [] | Some q \<Rightarrow> q))"
    unfolding pend_head(1) [OF dist] .
  show "q \<noteq> [] \<and> (\<forall>y\<in>set q. timer y < 0)" if "qs (ev_gate e) = Some q"
    using qu [unfolded inv_queues_def, THEN conjunct2, rule_format, OF that] by simp
  show "ev_gate e < length G"
    using i fg unfolding sim_inv_def inv_ready_def by blast
qed

lemma maybe_reroute_inv:
  assumes run: "run_ok cfg G E0" and gates: "sim_gates st = G"
    and i: "sim_inv cfg G E0 (sim_mesh st) E (event_queues st) (kept @ e # es) rg log"
  shows "\<exists>e' YX' qs. maybe_reroute cfg YX (e\<lparr>attempts := a\<rparr>) st = Some (e', YX', st\<lparr>event_queues := qs\<rparr>) \<and>
    ev_gate e' = ev_gate e \<and> sim_inv cfg G E0 (sim_mesh st) E qs (kept @ e' # es) rg log"
proof -
  let ?e = "e\<lparr>attempts := a\<rparr>" and ?g = "ev_gate e"
  let ?q = "case event_queues st ?g of None \<Rightarrow> [] | Some q \<Rightarrow> q"
  note head = head_room [OF i]
  have room1: "script_room (num_rows cfg) (num_cols cfg) G (sim_mesh st) ?g (?e # ?q)"
    by (rule script_room_same [OF head(1)]) simp_all
  have i1: "sim_inv cfg G E0 (sim_mesh st) E (event_queues st) (kept @ ?e # es) rg log"
    using replace_inv [OF i, of ?e "event_queues st ?g"] room1 head(2) by simp
  show ?thesis
  proof (cases "a > attempt_th_yx cfg \<and> \<not> YX \<and> (ev_type e = Cnot3 \<or> ev_type e = Cnot5)")
    case False
    then have "maybe_reroute cfg YX ?e st = Some (?e, YX, st)" by (auto simp: maybe_reroute_def)
    then show ?thesis using i1 by (intro exI [of _ ?e] exI [of _ YX] exI [of _ "event_queues st"]) simp
  next
    case True
    obtain NL LA where s: "script (num_rows cfg) (num_cols cfg) G ?g NL LA (?e # ?q)"
      and own: "{c. owner (sim_mesh st) c = gate_seq (G ! ?g)} \<subseteq> room NL LA (ev_type e) (cells ?e)"
      using room1 unfolding script_room_def by auto
    have grid: "grid_mesh (num_rows cfg) (num_cols cfg) (sim_mesh st)"
      using i unfolding sim_inv_def by blast
    have ty: "ev_type ?e = Cnot3 \<or> ev_type ?e = Cnot5" using True by simp
    from reroute_script [OF grid s run_okD(5) [OF run head(3)] refl refl ty]
    obtain e' c cs c' where q: "?q = c # cs"
      and res: "resolve_cnot (num_cols cfg) (sim_mesh st) G ?e ?q = Some (e', c' # cs)"
      and s': "script (num_rows cfg) (num_cols cfg) G ?g NL LA (e' # c' # cs)"
      and tm: "timer c' = timer c" and ty': "ev_type e' = ev_type e" and ge: "ev_gate e' = ?g"
      by auto
    have qs: "event_queues st ?g = Some (c # cs)" using q by (cases "event_queues st ?g") auto
    have m: "maybe_reroute cfg YX ?e st = Some (e', True, st\<lparr>event_queues := (event_queues st)(?g \<mapsto> c' # cs)\<rparr>)"
      using True res qs gates by (simp add: maybe_reroute_def Let_def)
    have "room NL LA (ev_type e) (cells ?e) \<subseteq> room NL LA (ev_type e') (cells e')"
      using True ty' by auto
    then have "script_room (num_rows cfg) (num_cols cfg) G (sim_mesh st) ?g (e' # c' # cs)"
      using s' own unfolding script_room_def by auto
    moreover have "\<forall>y\<in>set (c' # cs). timer y < 0" using head(2) [OF qs] tm by simp
    ultimately have "sim_inv cfg G E0 (sim_mesh st) E ((event_queues st)(?g \<mapsto> c' # cs)) (kept @ e' # es) rg log"
      using qs ge by (intro replace_inv [OF i]) auto
    then show ?thesis using m ge by blast
  qed
qed

lemma drop_gate_inv:
  assumes run: "run_ok cfg G E0"
    and i: "sim_inv cfg G E0 m E qs (kept @ e # es) rg log"
  shows "sim_inv cfg G E0 (purge_gate_from_mesh (num_rows cfg) (num_cols cfg) (gate_seq (G ! ev_gate e)) m)
    E (qs(ev_gate e := None)) (kept @ es) (rg @ [ev_gate e]) log"
proof -
  let ?g = "ev_gate e" and ?R = "kept @ e # es" and ?R' = "kept @ es" and ?qs' = "qs(ev_gate e := None)"
  let ?nr = "num_rows cfg" and ?nc = "num_cols cfg"
  let ?m' = "purge_gate_from_mesh ?nr ?nc (gate_seq (G ! ?g)) m"
  have grid: "grid_mesh ?nr ?nc m" and rd: "inv_ready G E0 ?R qs rg log" and qu: "inv_queues ?R qs"
    and sc: "inv_scripts ?nr ?nc G m ?R qs" and ow: "inv_owner G m ?R qs" and lg: "inv_log G E0 E log"
    using i unfolding sim_inv_def by blast+
  have dist: "distinct (map ev_gate ?R)" using qu unfolding inv_queues_def by blast
  have fg: "flying ?R qs ?g" by (simp add: flying_def)
  note g = head_room(3) [OF i]
  have fl: "h < length G" if "flying ?R qs h" for h
    using rd that unfolding inv_ready_def by blast
  have nog: "?g \<notin> ev_gate ` set ?R'" using dist by auto
  have fly: "flying ?R' ?qs' h \<longleftrightarrow> flying ?R qs h \<and> h \<noteq> ?g" for h
    using nog by (cases "h = ?g") (simp_all add: flying_def)
  have ph: "pend ?R' ?qs' h = pend ?R qs h" if "h \<noteq> ?g" for h
    using that by (simp add: pend_def)
  note own = purge_owner [OF grid, of "gate_seq (G ! ?g)"]
  have pos: "0 < gate_seq (G ! h)" if "h < length G" for h by (rule seq_pos [OF run that])
  have "inv_ready G E0 ?R' ?qs' (rg @ [?g]) log"
    unfolding inv_ready_def
  proof (intro conjI allI ballI)
    have "?g \<notin> set rg" using rd fg unfolding inv_ready_def by blast
    then show "distinct (rg @ [?g])" using rd unfolding inv_ready_def by simp
    show "\<not> flying ?R' ?qs' h" if "h \<in> set (rg @ [?g])" for h
      using that rd unfolding fly inv_ready_def by auto
    show "h \<in> set (rg @ [?g]) \<or> flying ?R' ?qs' h \<longleftrightarrow>
        h < length G \<and> h \<notin> done_in G log \<and> preds E0 h \<subseteq> done_in G log" for h
      using rd fg unfolding fly inv_ready_def by (metis Un_iff set_append empty_set list.simps(15) insert_iff empty_iff)
  qed
  moreover have "inv_queues ?R' ?qs'"
  proof -
    have "x \<noteq> [] \<and> (\<forall>y\<in>set (if h \<in> ev_gate ` set ?R' then x else tl x). timer y < 0)"
      if "?qs' h = Some x" for h x
    proof -
      have "h \<noteq> ?g" "qs h = Some x" using that by (auto split: if_splits)
      then show ?thesis
        using qu [unfolded inv_queues_def, THEN conjunct2, rule_format, of h x] by simp
    qed
    then show ?thesis using dist unfolding inv_queues_def by auto
  qed
  moreover have "inv_scripts ?nr ?nc G ?m' ?R' ?qs'"
    unfolding inv_scripts_def fly
  proof (intro allI impI, elim conjE)
    fix h assume h: "flying ?R qs h" "h \<noteq> ?g"
    then have "script_room ?nr ?nc G m h (pend ?R' ?qs' h)"
      using sc ph unfolding inv_scripts_def by simp
    then show "script_room ?nr ?nc G ?m' h (pend ?R' ?qs' h)"
      by (rule script_room_cong) (use own pos [OF fl [OF h(1)]] in \<open>auto split: if_splits\<close>)
  qed
  moreover have "inv_owner G ?m' ?R' ?qs'"
    unfolding inv_owner_def fly
  proof (intro allI impI)
    fix c assume c: "owner ?m' c \<noteq> 0"
    then have "owner ?m' c = owner m c" "owner m c \<noteq> gate_seq (G ! ?g)"
      using own [of c] by (auto split: if_splits)
    then show "\<exists>h. (flying ?R qs h \<and> h \<noteq> ?g) \<and> owner ?m' c = gate_seq (G ! h)"
      using ow c unfolding inv_owner_def by metis
  qed
  ultimately show ?thesis using purge_grid [OF grid] lg unfolding sim_inv_def by blast
qed

subsection \<open>The loop\<close>

text \<open>The invariant of a state between two turns of the loop.\<close>

definition safe :: "config \<Rightarrow> gate list \<Rightarrow> (nat \<times> nat) list \<Rightarrow> sim \<Rightarrow> bool" where
  "safe cfg G E0 st \<longleftrightarrow> sim_gates st = G \<and>
     sim_inv cfg G E0 (sim_mesh st) (sim_edges st) (event_queues st) (ready_events st) (ready_gates st)
       (success_events st)"

lemma event_success_inv:
  assumes run: "run_ok cfg G E0" and gates: "sim_gates st = G"
    and i: "sim_inv cfg G E0 (sim_mesh st) (sim_edges st) (event_queues st) (kept @ e # es) (ready_gates st)
       (success_events st)"
    and d: "do_event G e (sim_mesh st) = (True, m')"
  shows "\<exists>st'. event_success cfg e m' st = Some st' \<and> sim_gates st' = G \<and>
    sim_inv cfg G E0 (sim_mesh st') (sim_edges st') (event_queues st') (kept @ es) (ready_gates st')
       (success_events st')"
proof (cases "event_queues st (ev_gate e)")
  case None
  note last = success_last_inv [OF run i d None]
  have "(event_queues st)(ev_gate e := None) = event_queues st" using None by auto
  then show ?thesis
    using None last gates by (simp add: event_success_def complete_gate_def Let_def)
next
  case (Some q)
  then obtain f q' where q: "event_queues st (ev_gate e) = Some (f # q')"
    using head_room(2) [OF i] by (cases q) auto
  show ?thesis
    using q success_next_inv [OF run i d q] gates by (simp add: event_success_def Let_def)
qed

lemma do_ready_events_inv:
  assumes run: "run_ok cfg G E0"
  shows "sim_gates st = G \<Longrightarrow>
    sim_inv cfg G E0 (sim_mesh st) (sim_edges st) (event_queues st) (kept @ es) (ready_gates st)
       (success_events st) \<Longrightarrow>
    \<exists>st'. do_ready_events cfg YX dr kept es st = Some st' \<and> safe cfg G E0 st'"
proof (induction es arbitrary: kept st YX dr)
  case Nil
  then show ?case by (simp add: safe_def)
next
  case (Cons e es)
  obtain b m' where d: "do_event G e (sim_mesh st) = (b, m')" by fastforce
  show ?case
  proof (cases b)
    case True
    then have d': "do_event G e (sim_mesh st) = (True, m')" using d by simp
    obtain st' where s: "event_success cfg e m' st = Some st'" "sim_gates st' = G"
      "sim_inv cfg G E0 (sim_mesh st') (sim_edges st') (event_queues st') (kept @ es) (ready_gates st')
         (success_events st')"
      using event_success_inv [OF run Cons.prems d'] by blast
    from Cons.IH [OF s(2,3)] show ?thesis using d' s(1) Cons.prems(1) by simp
  next
    case False
    from maybe_reroute_inv [OF run Cons.prems(1,2), of YX "attempts e + 1"]
    obtain e' YX' qs where r: "maybe_reroute cfg YX (e\<lparr>attempts := attempts e + 1\<rparr>) st =
        Some (e', YX', st\<lparr>event_queues := qs\<rparr>)" "ev_gate e' = ev_gate e"
      and i: "sim_inv cfg G E0 (sim_mesh st) (sim_edges st) qs (kept @ e' # es) (ready_gates st) (success_events st)"
      by blast
    let ?st = "st\<lparr>event_queues := qs\<rparr>"
    have step: "do_ready_events cfg YX dr kept (e # es) st =
        (if attempts e' > attempt_th_drop cfg \<and> \<not> dr
         then do_ready_events cfg YX' True kept es (drop_gate cfg (ev_gate e') ?st)
         else do_ready_events cfg YX' dr (kept @ [e']) es (record_conflict e' ?st))"
      using d False r(1) Cons.prems(1) by simp
    show ?thesis
    proof (cases "attempts e' > attempt_th_drop cfg \<and> \<not> dr")
      case True
      let ?st' = "drop_gate cfg (ev_gate e') ?st"
      have "sim_inv cfg G E0 (sim_mesh ?st') (sim_edges ?st') (event_queues ?st') (kept @ es) (ready_gates ?st')
          (success_events ?st')"
        using drop_gate_inv [OF run i] Cons.prems(1) by (simp add: drop_gate_def)
      moreover have "sim_gates ?st' = G" using Cons.prems(1) by (simp add: drop_gate_def)
      ultimately show ?thesis using Cons.IH [of ?st' kept] step True by simp
    next
      case False
      let ?st' = "record_conflict e' ?st"
      have "sim_inv cfg G E0 (sim_mesh ?st') (sim_edges ?st') (event_queues ?st') ((kept @ [e']) @ es)
          (ready_gates ?st') (success_events ?st')"
        using i by (simp add: record_conflict_def Let_def)
      moreover have "sim_gates ?st' = G" using Cons.prems(1) by (simp add: record_conflict_def Let_def)
      ultimately show ?thesis using Cons.IH [of ?st' "kept @ [e']"] step False by simp
    qed
  qed
qed

text \<open>The order of the ready events does not matter.\<close>

lemma filter_perm:
  assumes "mset xs = mset ys" and "length (filter P ys) \<le> 1"
  shows "filter P xs = filter P ys"
proof -
  have m: "mset (filter P xs) = mset (filter P ys)" using assms(1) by simp
  then have l: "length (filter P xs) = length (filter P ys)" using mset_eq_length by blast
  show ?thesis
  proof (cases "filter P ys")
    case Nil
    then show ?thesis using l by simp
  next
    case (Cons y zs)
    then have ys: "filter P ys = [y]" using assms(2) by (cases zs) auto
    then have "mset (filter P xs) = mset [y]" using m by (simp only:)
    then have "filter P xs = [y]" by (simp del: mset_filter)
    then show ?thesis using ys by simp
  qed
qed

lemma perm_inv:
  assumes i: "sim_inv cfg G E0 m E qs R rg log" and perm: "mset R' = mset R"
  shows "sim_inv cfg G E0 m E qs R' rg log"
proof -
  have dist: "distinct (map ev_gate R)" using i unfolding sim_inv_def inv_queues_def by blast
  have dist': "distinct (map ev_gate R')"
    using dist perm by (metis mset_map mset_eq_imp_distinct_iff)
  have img: "ev_gate ` set R' = ev_gate ` set R" using perm by (metis mset_eq_setD)
  have fly: "flying R' qs g = flying R qs g" for g by (simp add: flying_def img)
  have "length (filter (\<lambda>e. ev_gate e = g) R) \<le> 1" for g
    using dist
  proof (induction R)
    case (Cons e R)
    show ?case
    proof (cases "ev_gate e = g")
      case True
      then have "filter (\<lambda>e. ev_gate e = g) R = []"
        using Cons.prems by (auto simp: filter_empty_conv image_iff)
      then show ?thesis by simp
    qed (use Cons in simp)
  qed simp
  then have "pend R' qs g = pend R qs g" for g
    unfolding pend_def using filter_perm [OF perm] by simp
  then show ?thesis
    using i dist dist' unfolding sim_inv_def inv_ready_def inv_queues_def inv_scripts_def inv_owner_def fly img
    by simp
qed

lemma tick_safe:
  assumes run: "run_ok cfg G E0" and s: "safe cfg G E0 st"
  shows "\<exists>st'. tick cfg st = Some st' \<and> safe cfg G E0 st'"
proof -
  have gates: "sim_gates st = G" and i: "sim_inv cfg G E0 (sim_mesh st) (sim_edges st) (event_queues st)
      (ready_events st) (ready_gates st) (success_events st)" using s by (auto simp: safe_def)
  obtain qs where q: "queue_gates cfg (ready_gates st) st = Some (st\<lparr>event_queues := qs\<rparr>)"
    "sim_inv cfg G E0 (sim_mesh st) (sim_edges st) qs (ready_events st) [] (success_events st)"
    using queue_gates_inv [OF run gates i] by blast
  define st1 where "st1 = st\<lparr>event_queues := qs, ready_gates := []\<rparr>"
  have r: "queue_ready_gates cfg st = Some st1"
    using q(1) by (simp add: queue_ready_gates_def st1_def)
  from clock_queues_inv [of cfg G E0 "sim_mesh st" "sim_edges st" "st1\<lparr>clk := clk st1 + 1\<rparr>" "[]" "success_events st"
      "[0..<length (sim_gates st1)]"] q(2)
  obtain qs' R where c: "increment_clock st1 = Some (st1\<lparr>clk := clk st1 + 1, event_queues := qs', ready_events := R\<rparr>)"
    "sim_inv cfg G E0 (sim_mesh st) (sim_edges st) qs' R [] (success_events st)"
    by (auto simp: increment_clock_def st1_def)
  define st2 where "st2 = st1\<lparr>clk := clk st1 + 1, event_queues := qs', ready_events := R\<rparr>"
  define evs where "evs = (if priority_policy cfg \<noteq> 0
      then sort_events cfg (event_less (\<lambda>g. criticality (sim_gates st2 ! g)) (highest_criticality st2)) R else R)"
  have "mset evs = mset R" using run_okD(4) [OF run] by (simp add: evs_def)
  from perm_inv [OF c(2) this]
  have "sim_inv cfg G E0 (sim_mesh st2) (sim_edges st2) (event_queues st2) ([] @ evs) (ready_gates st2) (success_events st2)"
    by (simp add: st2_def st1_def)
  moreover have "sim_gates st2 = G" using gates by (simp add: st2_def st1_def)
  ultimately obtain st' where "do_ready_events cfg False False [] evs st2 = Some st'" "safe cfg G E0 st'"
    using do_ready_events_inv [OF run] by blast
  moreover have "tick cfg st = do_ready_events cfg False False [] evs st2"
    using r c(1) by (simp add: tick_def evs_def st2_def [symmetric] Let_def) (simp add: st2_def)
  ultimately show ?thesis by simp
qed

end
