(* ===== verification/Sim_Runs.thy ===== *)
theory Sim_Runs
  imports Sim_Safety
begin

text \<open>
  Runs of the simulation from the start of a module: the states that ticks reach, what holds in
  all of them, what a finished run has done, and a run that cannot finish.
\<close>

subsection \<open>Reachable states\<close>

inductive reachable :: "config \<Rightarrow> dag \<Rightarrow> sim \<Rightarrow> bool" for cfg d where
  reach_init: "reachable cfg d (sim_init cfg d)"
| reach_tick: "reachable cfg d st \<Longrightarrow> tick cfg st = Some st' \<Longrightarrow> reachable cfg d st'"

inductive_cases reachableE: "reachable cfg d st"

text \<open>What a module needs: different sequence numbers, and gates that fit the mesh.\<close>

definition module_ok :: "config \<Rightarrow> gate list \<Rightarrow> bool" where
  "module_ok cfg gs \<longleftrightarrow>
     distinct (map gate_seq gs) \<and> (\<forall>g\<in>set gs. gate_ok (num_rows cfg) (num_cols cfg) g) \<and>
     (\<forall>lt xs. mset (sort_events cfg lt xs) = mset xs)"

text \<open>The gates of the graph after its criticalities are set.\<close>

definition same_gates :: "gate list \<Rightarrow> gate list \<Rightarrow> bool" where
  "same_gates gs G \<longleftrightarrow> length G = length gs \<and>
     (\<forall>i<length gs. gate_seq (G ! i) = gate_seq (gs ! i) \<and> op_type (G ! i) = op_type (gs ! i) \<and>
        qid (G ! i) = qid (gs ! i))"

lemma assigned_run:
  assumes ok: "module_ok cfg gs" and d: "assign_criticality L (build_dag gs) = Some d"
  shows "run_ok cfg (dag_gates d) (dag_edges (build_dag gs))" and "dag_edges d = dag_edges (build_dag gs)"
    and "same_gates gs (dag_gates d)"
proof -
  have dist: "distinct (map gate_seq gs)" using ok by (simp add: module_ok_def)
  note seqs = gate_sequence.intro [OF dist]
  define crit where "crit i = int (longest_from (length gs) (dag_edges (build_dag gs))
      (\<lambda>g. get_gate_latency L (dag_gates (build_dag gs) ! g)) i)" for i
  have G: "dag_gates d = map (\<lambda>i. (gs ! i)\<lparr>criticality := crit i\<rparr>) [0..<length gs]"
    and E: "dag_edges d = dag_edges (build_dag gs)"
    using gate_sequence.criticality_pass [OF seqs, of L] unfolding d option.inject crit_def by blast+
  show "dag_edges d = dag_edges (build_dag gs)" by (rule E)
  show "same_gates gs (dag_gates d)" by (simp add: G same_gates_def)
  have "map gate_seq (dag_gates d) = map gate_seq gs"
    unfolding G by (rule nth_equalityI) simp_all
  moreover have "gate_ok (num_rows cfg) (num_cols cfg) (gs ! i)" if "i < length gs" for i
    using ok that by (simp add: module_ok_def)
  then have "\<forall>g\<in>set (dag_gates d). gate_ok (num_rows cfg) (num_cols cfg) g"
    by (auto simp: G gate_ok_def)
  ultimately show "run_ok cfg (dag_gates d) (dag_edges (build_dag gs))"
    using ok dist build_dag_distinct build_dag_forward [OF dist]
    unfolding run_ok_def module_ok_def by (simp add: G)
qed

lemma build_mesh_free: "owner (build_mesh nr nc) c = 0"
  by (cases c) (auto simp: build_mesh_owner simp del: replicate.simps split: option.split if_splits)

lemma init_safe:
  assumes "distinct (dag_edges d)" and "forward (length (dag_gates d)) (dag_edges d)"
  shows "safe cfg (dag_gates d) (dag_edges d) (sim_init cfg d)"
proof -
  have d0: "done_in (dag_gates d) [] = {}" by (simp add: done_in_def)
  have fly: "\<not> flying [] Map.empty g" for g by (simp add: flying_def)
  have "in_degree (dag_edges d) g = 0 \<longleftrightarrow> preds (dag_edges d) g = {}" for g
    using in_degree_left [OF assms(1), of "{}" g] by simp
  then show ?thesis
    using build_mesh_grid
    by (simp add: safe_def sim_inv_def sim_init_def inv_ready_def inv_queues_def inv_scripts_def
        inv_owner_def inv_log_def d0 fly initialize_ready_list_def build_mesh_free)
qed

lemma reachable_safe:
  assumes ok: "module_ok cfg gs" and d: "assign_criticality L (build_dag gs) = Some d"
    and r: "reachable cfg d st"
  shows "safe cfg (dag_gates d) (dag_edges (build_dag gs)) st"
  using r
proof induction
  case reach_init
  show ?case
    using init_safe [of d cfg] assigned_run [OF ok d] run_okD by metis
next
  case (reach_tick st st')
  then show ?case using tick_safe [OF assigned_run(1) [OF ok d]] by fastforce
qed

subsection \<open>Finished runs\<close>



lemma shared_qubit_pred:
  assumes "distinct (map gate_seq gs)" and "i < j" and "j < length gs"
    and "q \<in> set (qid (gs ! i))" and "q \<in> set (qid (gs ! j))"
    and "\<And>x. x \<in> D \<Longrightarrow> preds (dag_edges (build_dag gs)) x \<subseteq> D"
    and "preds (dag_edges (build_dag gs)) j \<subseteq> D"
  shows "i \<in> D"
  using assms(2-5,7)
proof (induction "j - i" arbitrary: j rule: less_induct)
  case less
  show ?case
  proof (cases "\<exists>k. i < k \<and> k < j \<and> q \<in> set (qid (gs ! k))")
    case True
    define k where "k = (GREATEST k. i < k \<and> k < j \<and> q \<in> set (qid (gs ! k)))"
    have k: "i < k \<and> k < j \<and> q \<in> set (qid (gs ! k))"
      unfolding k_def using True by (rule GreatestI_ex_nat [where b = j]) auto
    have le: "k' \<le> k" if "i < k' \<and> k' < j \<and> q \<in> set (qid (gs ! k'))" for k'
      unfolding k_def using that by (intro Greatest_le_nat [where b = j]) auto
    then have "next_use gs k j"
      unfolding next_use_def using k less.prems by (meson le less_trans not_less)
    then have "k \<in> D"
      using less.prems(5) build_dag_edges [OF assms(1)] by (auto simp: preds_def)
    moreover have "k - i < j - i" using k by arith
    ultimately show ?thesis
      using less.hyps [of k] k less.prems assms(6) by simp
  next
    case False
    then have "next_use gs i j"
      unfolding next_use_def using less.prems by auto
    then show ?thesis
      using less.prems(5) build_dag_edges [OF assms(1)] by (auto simp: preds_def)
  qed
qed

subsection \<open>An example module\<close>

text \<open>An implementation of \<open>std::sort\<close>: insertion.\<close>

fun insert_by :: "('a \<Rightarrow> 'a \<Rightarrow> bool) \<Rightarrow> 'a \<Rightarrow> 'a list \<Rightarrow> 'a list" where
  "insert_by lt x [] = [x]"
| "insert_by lt x (y # ys) = (if lt x y then x # y # ys else y # insert_by lt x ys)"

definition sort_by :: "('a \<Rightarrow> 'a \<Rightarrow> bool) \<Rightarrow> 'a list \<Rightarrow> 'a list" where
  "sort_by lt xs = foldl (\<lambda>ys x. insert_by lt x ys) [] xs"

lemma mset_insert_by: "mset (insert_by lt x ys) = add_mset x (mset ys)"
  by (induction ys) auto

lemma mset_sort_by: "mset (sort_by lt xs) = mset xs"
proof -
  have "mset (foldl (\<lambda>ys x. insert_by lt x ys) ys xs) = mset ys + mset xs" for ys
    by (induction xs arbitrary: ys) (auto simp: mset_insert_by)
  then show ?thesis by (simp add: sort_by_def)
qed

definition example_config :: "(event_type \<Rightarrow> int) \<Rightarrow> config" where
  "example_config timers =
     \<lparr>num_rows = 1, num_cols = 2, priority_policy = 6, attempt_th_yx = 3, attempt_th_drop = 6,
      event_timers = timers, sort_events = sort_by, garbage = 6\<rparr>"

definition example_module :: "gate list" where
  "example_module =
     [\<lparr>gate_seq = 1, op_type = ''H'', qid = [0], criticality = -1\<rparr>,
      \<lparr>gate_seq = 2, op_type = ''CNOT'', qid = [0, 1], criticality = -1\<rparr>]"

lemma example_ok: "module_ok (example_config timers) example_module"
  by (simp add: module_ok_def example_config_def example_module_def gate_ok_def mset_sort_by)

subsection \<open>Properties\<close>

text \<open>C2: in every state that the simulation of a module reaches from its start, the next turn of the
  loop fails no assertion and uses no missing queue entry; every busy node and link belongs to a
  gate in flight; and gates in flight at the same time act on different qubits.\<close>

theorem simulation_safe:
  assumes "module_ok cfg gs" and "assign_criticality L (build_dag gs) = Some d" and "reachable cfg d st"
  shows "(\<exists>st'. tick cfg st = Some st') \<and>
    (\<forall>c. owner (sim_mesh st) c \<noteq> 0 \<longrightarrow>
      (\<exists>g<length gs. flying (ready_events st) (event_queues st) g \<and> owner (sim_mesh st) c = gate_seq (gs ! g))) \<and>
    (\<forall>i j. flying (ready_events st) (event_queues st) i \<longrightarrow> flying (ready_events st) (event_queues st) j \<longrightarrow>
      i \<noteq> j \<longrightarrow> set (qid (gs ! i)) \<inter> set (qid (gs ! j)) = {})"
proof -
  let ?R = "ready_events st" and ?qs = "event_queues st"
  let ?D = "done_in (dag_gates d) (success_events st)"
  let ?E0 = "dag_edges (build_dag gs)"
  have dist: "distinct (map gate_seq gs)" using assms(1) by (simp add: module_ok_def)
  note run = assigned_run [OF assms(1,2)]
  have s: "safe cfg (dag_gates d) ?E0 st" by (rule reachable_safe [OF assms])
  then have i: "sim_inv cfg (dag_gates d) ?E0 (sim_mesh st) (sim_edges st) ?qs ?R (ready_gates st) (success_events st)"
    by (simp add: safe_def)
  have len: "length (dag_gates d) = length gs" using run(3) by (simp add: same_gates_def)
  have fl: "g < length gs \<and> g \<notin> ?D \<and> preds ?E0 g \<subseteq> ?D" if "flying ?R ?qs g" for g
    using i that unfolding sim_inv_def inv_ready_def len by blast
  have closed: "preds ?E0 x \<subseteq> ?D" if "x \<in> ?D" for x
    using done_closed i that unfolding sim_inv_def by blast
  have disjoint: "set (qid (gs ! i)) \<inter> set (qid (gs ! j)) = {}"
    if f: "flying ?R ?qs i" "flying ?R ?qs j" "i < j" for i j
  proof (rule ccontr)
    assume "set (qid (gs ! i)) \<inter> set (qid (gs ! j)) \<noteq> {}"
    then obtain q where "q \<in> set (qid (gs ! i))" "q \<in> set (qid (gs ! j))" by blast
    then have "i \<in> ?D"
      using shared_qubit_pred [OF dist f(3), of q ?D] fl f closed by blast
    then show False using fl f by blast
  qed
  show ?thesis
  proof (intro conjI allI impI)
    show "\<exists>st'. tick cfg st = Some st'" using tick_safe [OF run(1) s] by blast
    show "\<exists>g<length gs. flying ?R ?qs g \<and> owner (sim_mesh st) c = gate_seq (gs ! g)"
      if "owner (sim_mesh st) c \<noteq> 0" for c
      using i that fl run(3) unfolding sim_inv_def inv_owner_def same_gates_def by metis
    show "set (qid (gs ! i)) \<inter> set (qid (gs ! j)) = {}"
      if "flying ?R ?qs i" "flying ?R ?qs j" "i \<noteq> j" for i j
      using disjoint [of i j] disjoint [of j i] that by (cases "i < j") (auto simp: Int_commute)
  qed
qed


lemma simulation_safe_witness:
  "\<exists>d st. assign_criticality (\<lambda>_. 1) (build_dag example_module) = Some d \<and>
     tick (example_config (\<lambda>_. 1)) (sim_init (example_config (\<lambda>_. 1)) d) = Some st"
proof -
  obtain d where d: "assign_criticality (\<lambda>_. 1) (build_dag example_module) = Some d"
    using gate_sequence.criticality_pass [of example_module "\<lambda>_. 1"] example_ok
    unfolding gate_sequence_def module_ok_def by blast
  from simulation_safe [OF example_ok d reach_init] d show ?thesis by blast
qed


subsection \<open>A run that cannot finish\<close>

text \<open>No event of type \<open>t\<close> is ready, none has succeeded, and those that wait do not count down.\<close>

definition never :: "event_type \<Rightarrow> (nat \<rightharpoonup> event list) \<Rightarrow> event list \<Rightarrow> (nat \<times> event_type) list \<Rightarrow> bool" where
  "never t qs R log \<longleftrightarrow>
     (\<forall>e\<in>set R. ev_type e \<noteq> t) \<and>
     (\<forall>g q. qs g = Some q \<longrightarrow> (\<forall>e\<in>set q. ev_type e = t \<longrightarrow> timer e < 0)) \<and>
     (\<forall>x\<in>set log. snd x \<noteq> t)"

lemma never_upd:
  "never t qs R log \<Longrightarrow> \<forall>e\<in>set q. ev_type e = t \<longrightarrow> timer e < 0 \<Longrightarrow> never t (qs(g \<mapsto> q)) R log"
  "never t qs R log \<Longrightarrow> never t (qs(g := None)) R log"
  by (auto simp: never_def)

lemma events_cnot_timer:
  assumes "events_cnot gb pol nc m p q g = Some es" and "e \<in> set es" and "ev_type e \<noteq> Cnot1"
  shows "timer e < 0"
  using assms by (auto simp: events_cnot_def Let_def bind_eq_Some_conv mk_event_def split: if_splits)

lemma never_queue_gate:
  assumes "t \<noteq> Cnot1" and "t \<noteq> H1" and "queue_gate cfg g st = Some st'"
    and "never t (event_queues st) (ready_events st) (success_events st)"
  shows "never t (event_queues st') (ready_events st') (success_events st')"
  using assms never_upd(1) [OF assms(4)] events_cnot_timer
  by (auto simp: queue_gate_def Let_def bind_eq_Some_conv events_h_def events_t_def mk_event_def
      simp del: fun_upd_apply split: if_splits)

lemma never_queue_gates:
  assumes "t \<noteq> Cnot1" and "t \<noteq> H1"
  shows "queue_gates cfg gs st = Some st' \<Longrightarrow>
    never t (event_queues st) (ready_events st) (success_events st) \<Longrightarrow>
    never t (event_queues st') (ready_events st') (success_events st')"
  by (induction gs arbitrary: st) (auto simp: bind_eq_Some_conv dest: never_queue_gate [OF assms])

lemma never_clock_queue:
  assumes "clock_queue g st = Some st'"
    and n: "never t (event_queues st) (ready_events st) (success_events st)"
  shows "never t (event_queues st') (ready_events st') (success_events st')"
proof (cases "event_queues st g")
  case None
  then show ?thesis using assms by (simp add: clock_queue_def)
next
  case (Some q0)
  then obtain h q where q: "event_queues st g = Some (h # q)"
    using assms(1) by (cases q0) (auto simp: clock_queue_def)
  have tm: "\<forall>e\<in>set (h # q). ev_type e = t \<longrightarrow> timer e < 0"
    using n q unfolding never_def by blast
  show ?thesis
  proof (cases "timer h < 0")
    case True
    then show ?thesis using assms q by (simp add: clock_queue_def)
  next
    case False
    then have h: "ev_type h \<noteq> t" using tm by auto
    define h' where "h' = (if timer h \<noteq> 0 then h\<lparr>timer := timer h - 1\<rparr> else h)"
    have h': "ev_type h' \<noteq> t" using h by (simp add: h'_def)
    have st': "st' = (if timer h' = 0
        then st\<lparr>ready_events := ready_events st @ [h'],
                event_queues := (event_queues st)(g := (if q = [] then None else Some q))\<rparr>
        else st\<lparr>event_queues := (event_queues st)(g \<mapsto> h' # q)\<rparr>)"
      using assms(1) q False by (auto simp: clock_queue_def h'_def Let_def split: if_splits)
    show ?thesis
      using n h' tm never_upd(1) [OF n, of q g] never_upd(1) [OF n, of "h' # q" g] never_upd(2) [OF n, of g]
      unfolding st' by (auto simp: never_def simp del: fun_upd_apply)
  qed
qed

lemma never_clock_queues:
  "clock_queues gs st = Some st' \<Longrightarrow> never t (event_queues st) (ready_events st) (success_events st) \<Longrightarrow>
   never t (event_queues st') (ready_events st') (success_events st')"
  by (induction gs arbitrary: st) (auto simp: bind_eq_Some_conv dest: never_clock_queue)

lemma never_event_success:
  assumes "event_success cfg e m st = Some st'" and n: "never t (event_queues st) R (success_events st)"
    and "ev_type e \<noteq> t" and "event_timers cfg t < 0"
  shows "never t (event_queues st') R (success_events st')"
proof -
  have n': "never t (event_queues st) R (success_events st @ [(ev_gate e, ev_type e)])"
    using n assms(3) by (auto simp: never_def)
  show ?thesis
  proof (cases "event_queues st (ev_gate e)")
    case None
    then show ?thesis using assms(1) never_upd(2) [OF n']
      by (auto simp: event_success_def complete_gate_def Let_def simp del: fun_upd_apply split: if_splits)
  next
    case (Some q)
    have "\<forall>x\<in>set q. ev_type x = t \<longrightarrow> timer x < 0" using n Some by (auto simp: never_def)
    then have "\<forall>x\<in>set (f\<lparr>timer := event_timers cfg (ev_type f)\<rparr> # q'). ev_type x = t \<longrightarrow> timer x < 0"
      if "q = f # q'" for f q' using that assms(4) by auto
    then show ?thesis using assms(1) never_upd(2) [OF n'] never_upd(1) [OF n'] Some
      by (cases q) (auto simp: event_success_def complete_gate_def Let_def simp del: fun_upd_apply split: if_splits)
  qed
qed

lemma resolve_cnot_same:
  assumes "resolve_cnot nc m dag e q = Some (e', q')"
  shows "ev_type e' = ev_type e" and "q \<noteq> [] \<Longrightarrow> (\<exists>b. q' = (hd q)\<lparr>ev_braid := b\<rparr> # tl q)"
proof -
  have "ev_type e' = ev_type e \<and> (q' = q \<or> (\<exists>b. q' = (hd q)\<lparr>ev_braid := b\<rparr> # tl q))"
    using assms by (auto simp: resolve_cnot_def Let_def bind_eq_Some_conv split: if_splits prod.splits)
  then show "ev_type e' = ev_type e" by blast
  assume "q \<noteq> []"
  then have "q = (hd q)\<lparr>ev_braid := ev_braid (hd q)\<rparr> # tl q" by simp
  then show "\<exists>b. q' = (hd q)\<lparr>ev_braid := b\<rparr> # tl q"
    using \<open>ev_type e' = ev_type e \<and> (q' = q \<or> (\<exists>b. q' = (hd q)\<lparr>ev_braid := b\<rparr> # tl q))\<close> by metis
qed

lemma never_reroute:
  assumes "maybe_reroute cfg YX e st = Some (e', YX', st')" and n: "never t (event_queues st) R log"
  shows "ev_type e' = ev_type e" and "never t (event_queues st') R log"
    and "success_events st' = success_events st" and "ready_events st' = ready_events st"
proof -
  show "ev_type e' = ev_type e"
    using assms(1) resolve_cnot_same(1)
    by (auto simp: maybe_reroute_def Let_def bind_eq_Some_conv split: if_splits)
  show "success_events st' = success_events st" "ready_events st' = ready_events st"
    using assms(1) by (auto simp: maybe_reroute_def Let_def bind_eq_Some_conv split: if_splits)
  show "never t (event_queues st') R log"
  proof (cases "st' = st")
    case False
    then obtain q e1 q1 where q: "event_queues st (ev_gate e) = Some q"
      and r: "resolve_cnot (num_cols cfg) (sim_mesh st) (sim_gates st) e q = Some (e1, q1)"
      and st': "st' = st\<lparr>event_queues := (event_queues st)(ev_gate e \<mapsto> q1)\<rparr>"
      using assms(1) by (auto simp: maybe_reroute_def Let_def bind_eq_Some_conv split: if_splits)
    have old: "\<forall>x\<in>set q. ev_type x = t \<longrightarrow> timer x < 0" using n q by (auto simp: never_def)
    have "\<forall>x\<in>set q1. ev_type x = t \<longrightarrow> timer x < 0"
    proof (cases "q = []")
      case True
      then have "q1 = []" using r by (auto simp: resolve_cnot_def Let_def bind_eq_Some_conv split: if_splits)
      then show ?thesis by simp
    next
      case False
      from resolve_cnot_same(2) [OF r this] obtain b where "q1 = (hd q)\<lparr>ev_braid := b\<rparr> # tl q" by blast
      then show ?thesis using old False by (cases q) auto
    qed
    from never_upd(1) [OF n this] show ?thesis by (simp add: st' del: fun_upd_apply)
  qed (use n in simp)
qed

lemma never_do_ready_events:
  assumes neg: "event_timers cfg t < 0"
  shows "do_ready_events cfg YX dr kept es st = Some st' \<Longrightarrow>
    never t (event_queues st) (kept @ es) (success_events st) \<Longrightarrow>
    never t (event_queues st') (ready_events st') (success_events st')"
proof (induction es arbitrary: kept st YX dr)
  case Nil
  then show ?case by (auto simp: never_def)
next
  case (Cons e es)
  have e: "ev_type e \<noteq> t" using Cons.prems(2) by (simp add: never_def)
  have kes: "never t qs (kept @ es) log" if "never t qs (kept @ e # es) log" for qs log
    using that by (auto simp: never_def)
  obtain b m' where d: "do_event (sim_gates st) e (sim_mesh st) = (b, m')" by fastforce
  show ?case
  proof (cases b)
    case True
    then obtain st1 where s: "event_success cfg e m' st = Some st1"
      "do_ready_events cfg YX dr kept es st1 = Some st'"
      using Cons.prems(1) d by (auto simp: bind_eq_Some_conv)
    show ?thesis
      by (rule Cons.IH [OF s(2)]) (rule never_event_success [OF s(1) kes [OF Cons.prems(2)] e neg])
  next
    case False
    then obtain e' YX' st1 where r: "maybe_reroute cfg YX (e\<lparr>attempts := attempts e + 1\<rparr>) st = Some (e', YX', st1)"
      and next_step: "(if attempts e' > attempt_th_drop cfg \<and> \<not> dr
         then do_ready_events cfg YX' True kept es (drop_gate cfg (ev_gate e') st1)
         else do_ready_events cfg YX' dr (kept @ [e']) es (record_conflict e' st1)) = Some st'"
      using Cons.prems(1) d by (auto simp: bind_eq_Some_conv)
    note n1 = never_reroute [OF r Cons.prems(2)]
    show ?thesis
    proof (cases "attempts e' > attempt_th_drop cfg \<and> \<not> dr")
      case True
      have "never t (event_queues (drop_gate cfg (ev_gate e') st1)) (kept @ es)
          (success_events (drop_gate cfg (ev_gate e') st1))"
        using never_upd(2) [OF kes [OF n1(2)], of "ev_gate e'"] n1(3)
        by (simp add: drop_gate_def del: fun_upd_apply)
      then show ?thesis using Cons.IH [of YX' True kept "drop_gate cfg (ev_gate e') st1"] next_step True by simp
    next
      case False
      have "never t (event_queues (record_conflict e' st1)) ((kept @ [e']) @ es)
          (success_events (record_conflict e' st1))"
        using n1 e by (auto simp: record_conflict_def Let_def never_def)
      then show ?thesis
        using Cons.IH [of YX' dr "kept @ [e']" "record_conflict e' st1"] next_step False by simp
    qed
  qed
qed

lemma never_tick:
  assumes neg: "event_timers cfg t < 0" and t: "t \<noteq> Cnot1" "t \<noteq> H1"
    and perm: "\<And>lt xs. mset (sort_events cfg lt xs) = mset xs" and tick: "tick cfg st = Some st'"
    and n: "never t (event_queues st) (ready_events st) (success_events st)"
  shows "never t (event_queues st') (ready_events st') (success_events st')"
proof -
  obtain st1 st2 evs where q: "queue_ready_gates cfg st = Some st1" and c: "increment_clock st1 = Some st2"
    and d: "do_ready_events cfg False False [] evs st2 = Some st'" and evs: "set evs = set (ready_events st2)"
  proof -
    obtain st1 st2 where s: "queue_ready_gates cfg st = Some st1" "increment_clock st1 = Some st2"
      "do_ready_events cfg False False [] (if priority_policy cfg \<noteq> 0
          then sort_events cfg (event_less (\<lambda>g. criticality (sim_gates st2 ! g)) (highest_criticality st2)) (ready_events st2)
          else ready_events st2) st2 = Some st'"
      using tick by (auto simp: tick_def Let_def bind_eq_Some_conv)
    have sorted: "set (sort_events cfg lt xs) = set xs" for lt xs
      using perm by (rule mset_eq_setD)
    show thesis by (rule that [OF s]) (simp add: sorted)
  qed
  have n1: "never t (event_queues st1) (ready_events st1) (success_events st1)"
    using q never_queue_gates [OF t _ n] by (auto simp: queue_ready_gates_def bind_eq_Some_conv)
  have n2: "never t (event_queues st2) (ready_events st2) (success_events st2)"
    using c never_clock_queues [of _ "st1\<lparr>clk := clk st1 + 1\<rparr>" st2 t] n1 by (simp add: increment_clock_def)
  have "never t (event_queues st2) ([] @ evs) (success_events st2)"
    using n2 by (simp add: never_def evs)
  then show ?thesis by (rule never_do_ready_events [OF neg d])
qed

lemma never_loop:
  assumes neg: "event_timers cfg t < 0" and t: "t \<noteq> Cnot1" "t \<noteq> H1"
    and perm: "\<And>lt xs. mset (sort_events cfg lt xs) = mset xs" and loop: "sim_loop cfg st = Some st'"
    and n: "never t (event_queues st) (ready_events st) (success_events st)"
  shows "\<forall>x\<in>set (success_events st'). snd x \<noteq> t"
proof -
  define c where "c = cfg"
  have "sim_loop c st = Some st'" using loop by (simp add: c_def)
  then have "c = cfg \<longrightarrow> never t (event_queues st) (ready_events st) (success_events st) \<longrightarrow>
      (\<forall>x\<in>set (success_events st'). snd x \<noteq> t)"
  proof (rule sim_loop.raw_induct [rotated], intro impI)
    fix loop c st r
    assume IH: "\<And>c st r. loop c st = Some r \<Longrightarrow> c = cfg \<longrightarrow>
        never t (event_queues st) (ready_events st) (success_events st) \<longrightarrow> (\<forall>x\<in>set (success_events r). snd x \<noteq> t)"
      and body: "(if sim_busy st then tick c st \<bind> loop c else Some st) = Some r"
      and ok: "c = cfg" "never t (event_queues st) (ready_events st) (success_events st)"
    show "\<forall>x\<in>set (success_events r). snd x \<noteq> t"
    proof (cases "sim_busy st")
      case False
      then show ?thesis using body ok by (auto simp: never_def)
    next
      case True
      then obtain st1 where "tick cfg st = Some st1" "loop c st1 = Some r"
        using body ok by (auto simp: bind_eq_Some_conv)
      then show ?thesis using IH never_tick [OF neg t perm _ ok(2)] ok(1) by blast
    qed
  qed
  then show ?thesis using n by (simp add: c_def)
qed

end
