(* ===== verification/Surface_Timing.thy ===== *)
theory Surface_Timing
  imports Sim_Runs
begin

text \<open>
  The code distance and the tables of event timers and gate latencies derived from it
  (\<open>braidflash.cpp\<close>: \<open>set_code_distance\<close> and the two tables that \<open>main\<close> builds), with the
  unsigned and int conversions of the code, and what they mean for the simulation.
\<close>

unbundle bit_operations_syntax


definition event_timer_table :: "u32 \<Rightarrow> event_type \<Rightarrow> int" where
  "event_timer_table code_distance t =
     (case t of
        Cnot1 \<Rightarrow> 1 | Cnot2 \<Rightarrow> 1 | Cnot3 \<Rightarrow> 1 | Cnot4 \<Rightarrow> 1
      | Cnot5 \<Rightarrow> sint (code_distance - 1)
      | Cnot6 \<Rightarrow> 1
      | Cnot7 \<Rightarrow> sint (code_distance - 1)
      | H1 \<Rightarrow> 1
      | H2 \<Rightarrow> sint (8 + code_distance)
      | T1 \<Rightarrow> 1)"

text \<open>The latencies are sums of unsigned integers; a gate without an entry has latency 0.\<close>

definition gate_latency_table :: "(event_type \<Rightarrow> int) \<Rightarrow> string \<Rightarrow> nat" where
  "gate_latency_table timers op =
     (let w = (\<lambda>t. of_int (timers t) :: u32)
      in if op = ''CNOT''
         then unat (0 + w Cnot1 + w Cnot2 + w Cnot3 + w Cnot4 + w Cnot5 + w Cnot6 + w Cnot7)
         else if op = ''H'' then unat (0 + w H1 + w H2)
         else if op = ''T'' then unat (w T1)
         else 0)"

lemma unat_of_nat_u32: "n < 2 ^ 32 \<Longrightarrow> unat (of_nat n :: u32) = n"
  by (simp add: unat_of_nat take_bit_nat_eq_self)

lemma timers_of_nat:
  assumes "1 \<le> k" and "k < 2 ^ 31 - 8"
  shows "event_timer_table (of_nat k) Cnot5 = int k - 1"
    and "event_timer_table (of_nat k) Cnot7 = int k - 1"
    and "event_timer_table (of_nat k) H2 = 8 + int k"
proof -
  have m: "(of_nat k - 1 :: u32) = of_int (int k - 1)" and h: "(8 + of_nat k :: u32) = of_int (8 + int k)"
    by simp_all
  show "event_timer_table (of_nat k) Cnot5 = int k - 1" "event_timer_table (of_nat k) Cnot7 = int k - 1"
    using assms sint_of_int_u32 [of "int k - 1"] unfolding event_timer_table_def m by simp_all
  show "event_timer_table (of_nat k) H2 = 8 + int k"
    using assms sint_of_int_u32 [of "8 + int k"] unfolding event_timer_table_def h by simp
qed

subsection \<open>Properties\<close>

text \<open>for a code distance d of at least 1 (below \<open>2 ^ 31 - 8\<close>) no conversion wraps: no timer is
  negative, so no event waits forever on its timer, and the latencies of CNOT, H and T are
  \<open>2 * d + 3\<close>, \<open>d + 9\<close> and 1, the sums of the timers of their events.\<close>

theorem timers_and_latencies:
  assumes "1 \<le> k" and "k < 2 ^ 31 - 8"
  shows "0 \<le> event_timer_table (of_nat k) t \<and>
    gate_latency_table (event_timer_table (of_nat k)) ''CNOT'' = 2 * k + 3 \<and>
    gate_latency_table (event_timer_table (of_nat k)) ''H'' = k + 9 \<and>
    gate_latency_table (event_timer_table (of_nat k)) ''T'' = 1"
proof (intro conjI)
  note tm = timers_of_nat [OF assms]
  show "0 \<le> event_timer_table (of_nat k) t"
    using tm assms by (cases t) (simp_all add: event_timer_table_def)
  have one: "event_timer_table d Cnot1 = 1" "event_timer_table d Cnot2 = 1" "event_timer_table d Cnot3 = 1"
    "event_timer_table d Cnot4 = 1" "event_timer_table d Cnot6 = 1" "event_timer_table d H1 = 1"
    "event_timer_table d T1 = 1" for d by (simp_all add: event_timer_table_def)
  have "gate_latency_table (event_timer_table (of_nat k)) ''CNOT'' = unat (of_nat (2 * k + 3) :: u32)"
    by (simp add: gate_latency_table_def Let_def tm one)
  also have "\<dots> = 2 * k + 3" using assms(2) by (intro unat_of_nat_u32) simp
  finally show "gate_latency_table (event_timer_table (of_nat k)) ''CNOT'' = 2 * k + 3" .
  have "gate_latency_table (event_timer_table (of_nat k)) ''H'' = unat (of_nat (k + 9) :: u32)"
    by (simp add: gate_latency_table_def Let_def tm one add.commute)
  also have "\<dots> = k + 9" using assms(2) by (intro unat_of_nat_u32) simp
  finally show "gate_latency_table (event_timer_table (of_nat k)) ''H'' = k + 9" .
  show "gate_latency_table (event_timer_table (of_nat k)) ''T'' = 1"
    by (simp add: gate_latency_table_def Let_def one)
qed

lemma timers_and_latencies_witness:
  "0 \<le> event_timer_table (of_nat 5) Cnot5 \<and>
   gate_latency_table (event_timer_table (of_nat 5)) ''CNOT'' = 13"
  using timers_and_latencies [of 5 Cnot5] by simp



end
