(* ===== verification/Lpfs_Parse.thy ===== *)
theory Lpfs_Parse
  imports Braid_Events
begin

text \<open>
  The input files of the braid simulator (\<open>braidflash.cpp\<close>: \<open>is_there\<close>, \<open>split\<close>,
  \<open>parse_LPFS\<close>, \<open>parse_tr\<close>, \<open>parse_freq\<close>, and the loop of \<open>main\<close> that writes the trace file).
  A file is the list of its lines; the use of a token that a line does not have is the result
  None.
\<close>

subsection \<open>Strings\<close>

text \<open>\<open>string::find\<close>: the first position of the needle; None is \<open>npos\<close>.\<close>

fun find_sub :: "string \<Rightarrow> string \<Rightarrow> nat option" where
  "find_sub needle [] = (if needle = [] then Some 0 else None)"
| "find_sub needle (c # cs) =
     (if take (length needle) (c # cs) = needle then Some 0 else map_option Suc (find_sub needle cs))"

fun is_there :: "string list \<Rightarrow> string \<Rightarrow> nat option" where
  "is_there [] haystack = None"
| "is_there (needle # needles) haystack =
     (case find_sub needle haystack of Some pos \<Rightarrow> Some pos | None \<Rightarrow> is_there needles haystack)"

text \<open>The items that \<open>getline\<close> with a delimiter reads from a string.\<close>

function getline_items :: "char \<Rightarrow> string \<Rightarrow> string list" where
  "getline_items delim s =
     (if s = [] then []
      else takeWhile (\<lambda>c. c \<noteq> delim) s #
        (case dropWhile (\<lambda>c. c \<noteq> delim) s of [] \<Rightarrow> [] | _ # rest \<Rightarrow> getline_items delim rest))"
  by pat_completeness auto
termination
  by (relation "measure (\<lambda>(d, s). length s)")
    (auto, metis length_dropWhile_le length_Cons less_eq_Suc_le order_trans)

declare getline_items.simps [simp del]

definition split :: "string \<Rightarrow> char \<Rightarrow> string list" where
  "split s delim = filter (\<lambda>item. item \<noteq> []) (getline_items delim s)"

subsection \<open>The scheduler's output\<close>

record lpfs_state =
  leaf_func :: string
  lp_seq :: nat
  module_q_count :: nat
  q_name_to_num :: "string \<rightharpoonup> nat"
  module_gates :: "gate list"
  all_gates :: "string \<rightharpoonup> gate list"
  all_q_counts :: "string \<rightharpoonup> nat"

definition lpfs_start :: lpfs_state where
  "lpfs_start = \<lparr>leaf_func = [], lp_seq = 1, module_q_count = 0, q_name_to_num = Map.empty,
     module_gates = [], all_gates = Map.empty, all_q_counts = Map.empty\<rparr>"

definition op_strings :: "string list" where
  "op_strings = [''PrepZ '', ''X '', ''Z '', ''H '', ''CNOT '', ''T '', ''Tdag '', ''S '', ''Sdag '', ''MeasZ '']"

definition save_module :: "lpfs_state \<Rightarrow> lpfs_state" where
  "save_module st =
     (if leaf_func st \<noteq> []
      then st\<lparr>all_gates := (all_gates st)(leaf_func st \<mapsto> module_gates st),
              all_q_counts := (all_q_counts st)(leaf_func st \<mapsto> module_q_count st)\<rparr>
      else st)"

text \<open>The number of a qubit name; a new name gets the next number.\<close>

definition qubit_number :: "string \<Rightarrow> lpfs_state \<Rightarrow> nat \<times> lpfs_state" where
  "qubit_number name st =
     (case q_name_to_num st name of
        Some n \<Rightarrow> (n, st)
      | None \<Rightarrow> (module_q_count st,
          st\<lparr>q_name_to_num := (q_name_to_num st)(name \<mapsto> module_q_count st),
             module_q_count := module_q_count st + 1\<rparr>))"

definition new_gate :: "string \<Rightarrow> nat list \<Rightarrow> lpfs_state \<Rightarrow> lpfs_state" where
  "new_gate op q st =
     st\<lparr>module_gates := module_gates st @ [\<lparr>gate_seq = lp_seq st, op_type = op, qid = q, criticality = -1\<rparr>],
        lp_seq := lp_seq st + 1\<rparr>"

definition add_gate :: "bool \<Rightarrow> string \<Rightarrow> nat list \<Rightarrow> lpfs_state \<Rightarrow> lpfs_state" where
  "add_gate replaceS op q st =
     (if op \<in> {''CNOT'', ''H'', ''T'', ''Tdag'', ''S'', ''Sdag''}
      then (if replaceS \<and> op = ''S'' then new_gate ''T'' q (new_gate ''T'' q st)
            else if replaceS \<and> op = ''Sdag'' then new_gate ''Tdag'' q (new_gate ''Tdag'' q st)
            else new_gate op q st)
      else st)"

definition lpfs_line :: "bool \<Rightarrow> lpfs_state \<Rightarrow> string \<Rightarrow> lpfs_state option" where
  "lpfs_line replaceS st line =
     (let elems = split line CHR '' ''
      in if find_sub ''Function'' line \<noteq> None
         then (if length elems < 2 then None
               else Some ((save_module st)\<lparr>leaf_func := elems ! 1, lp_seq := 1, module_q_count := 0,
                            q_name_to_num := Map.empty, module_gates := []\<rparr>))
         else if is_there op_strings line \<noteq> None
         then (if length elems < 3 then None
               else let (n1, st1) = qubit_number (elems ! 2) st
                    in if length elems = 4
                       then (let (n2, st2) = qubit_number (elems ! 3) st1
                             in Some (add_gate replaceS (elems ! 1) [n1, n2] st2))
                       else Some (add_gate replaceS (elems ! 1) [n1] st1))
         else Some st)"

fun lpfs_lines :: "bool \<Rightarrow> lpfs_state \<Rightarrow> string list \<Rightarrow> lpfs_state option" where
  "lpfs_lines replaceS st [] = Some st"
| "lpfs_lines replaceS st (line # rest) =
     (case lpfs_line replaceS st line of None \<Rightarrow> None | Some st' \<Rightarrow> lpfs_lines replaceS st' rest)"

definition parse_LPFS :: "bool \<Rightarrow> string list \<Rightarrow> lpfs_state option" where
  "parse_LPFS replaceS file = map_option save_module (lpfs_lines replaceS lpfs_start file)"

subsection \<open>Numbers\<close>

text \<open>
  Decimal output, and \<open>stol\<close> and \<open>stoull\<close>: they read the leading digits, and throw without any
  digit or when the value does not fit.
\<close>

definition digit_char :: "nat \<Rightarrow> char" where
  "digit_char d = char_of (48 + d)"

definition char_digit :: "char \<Rightarrow> nat option" where
  "char_digit c = (let k = of_char c :: nat in if 48 \<le> k \<and> k < 58 then Some (k - 48) else None)"

fun show_nat :: "nat \<Rightarrow> string" where
  "show_nat n = (if n < 10 then [digit_char n] else show_nat (n div 10) @ [digit_char (n mod 10)])"

declare show_nat.simps [simp del]

fun read_digits :: "nat \<Rightarrow> string \<Rightarrow> nat" where
  "read_digits acc [] = acc"
| "read_digits acc (c # cs) =
     (case char_digit c of None \<Rightarrow> acc | Some d \<Rightarrow> read_digits (10 * acc + d) cs)"

definition is_space :: "char \<Rightarrow> bool" where
  "is_space c = (c \<in> {CHR '' '', CHR 0x09, CHR 0x0A, CHR 0x0B, CHR 0x0C, CHR 0x0D})"

text \<open>White space is skipped and a sign may precede the digits: the sign and the magnitude.\<close>

definition read_number :: "string \<Rightarrow> (bool \<times> nat) option" where
  "read_number s =
     (let t = dropWhile is_space s;
          signed = (t \<noteq> [] \<and> hd t \<in> {CHR ''-'', CHR ''+''});
          ds = (if signed then tl t else t)
      in if ds = [] \<or> char_digit (hd ds) = None then None
         else Some (signed \<and> hd t = CHR ''-'', read_digits 0 ds))"

definition stol :: "string \<Rightarrow> int option" where
  "stol s = (case read_number s of None \<Rightarrow> None
     | Some (neg, n) \<Rightarrow>
         let v = (if neg then - int n else int n)
         in if - (2 ^ 63) \<le> v \<and> v < 2 ^ 63 then Some v else None)"

definition stoull :: "string \<Rightarrow> nat option" where
  "stoull s = (case read_number s of None \<Rightarrow> None
     | Some (neg, n) \<Rightarrow> if n < 2 ^ 64 then Some (if neg then (2 ^ 64 - n) mod 2 ^ 64 else n) else None)"

text \<open>The cast of a \<open>long\<close> to \<open>unsigned\<close>.\<close>

definition to_unsigned :: "int \<Rightarrow> nat" where
  "to_unsigned v = nat (v mod 2 ^ 32)"

subsection \<open>The trace file\<close>

definition tr_gate :: "gate \<Rightarrow> string list" where
  "tr_gate g =
     (if length (qid g) = 1
      then [''ID: '' @ show_nat (gate_seq g) @ '' TYPE: '' @ op_type g @ '' SRC: '' @ show_nat (qid g ! 0)]
      else if length (qid g) = 2
      then [''ID: '' @ show_nat (gate_seq g) @ '' TYPE: '' @ op_type g @ '' SRC: '' @ show_nat (qid g ! 0) @
            '' DST: '' @ show_nat (qid g ! 1)]
      else [])"

definition tr_module :: "string \<times> nat \<times> gate list \<Rightarrow> string list" where
  "tr_module m =
     (case m of (name, q_count, gs) \<Rightarrow>
        if gs = [] then []
        else (''module: '' @ name) # (''num_nodes: '' @ show_nat q_count) # concat (map tr_gate gs))"

definition write_tr :: "(string \<times> nat \<times> gate list) list \<Rightarrow> string list" where
  "write_tr mods = concat (map tr_module mods)"

record tr_state =
  tr_name :: string
  tr_gates :: "gate list"
  all_gates_opt :: "string \<rightharpoonup> gate list"

definition tr_save :: "tr_state \<Rightarrow> tr_state" where
  "tr_save st =
     (if tr_name st \<noteq> [] then st\<lparr>all_gates_opt := (all_gates_opt st)(tr_name st \<mapsto> tr_gates st)\<rparr> else st)"

definition tr_line :: "tr_state \<Rightarrow> string \<Rightarrow> tr_state option" where
  "tr_line st line =
     (let elems = split line CHR '' ''
      in if find_sub ''module: '' line \<noteq> None
         then (if length elems < 2 then None
               else Some ((tr_save st)\<lparr>tr_gates := [], tr_name := elems ! 1\<rparr>))
         else if find_sub ''ID: '' line \<noteq> None
         then (if length elems < 6 then None
               else case (stol (elems ! 1), stol (elems ! 5)) of
                      (Some seq, Some q1) \<Rightarrow>
                        if length elems > 6
                        then (if length elems < 8 then None
                              else case stol (elems ! 7) of
                                     None \<Rightarrow> None
                                   | Some q2 \<Rightarrow> Some (st\<lparr>tr_gates := tr_gates st @
                                       [\<lparr>gate_seq = to_unsigned seq, op_type = elems ! 3,
                                        qid = [to_unsigned q1, to_unsigned q2], criticality = -1\<rparr>]\<rparr>))
                        else Some (st\<lparr>tr_gates := tr_gates st @
                               [\<lparr>gate_seq = to_unsigned seq, op_type = elems ! 3, qid = [to_unsigned q1], criticality = -1\<rparr>]\<rparr>)
                    | _ \<Rightarrow> None)
         else Some st)"

fun tr_lines :: "tr_state \<Rightarrow> string list \<Rightarrow> tr_state option" where
  "tr_lines st [] = Some st"
| "tr_lines st (line # rest) = (case tr_line st line of None \<Rightarrow> None | Some st' \<Rightarrow> tr_lines st' rest)"

definition parse_tr :: "string list \<Rightarrow> (string \<rightharpoonup> gate list) \<Rightarrow> (string \<rightharpoonup> gate list) option" where
  "parse_tr file opt =
     map_option (\<lambda>st. all_gates_opt (tr_save st))
       (tr_lines \<lparr>tr_name = [], tr_gates = [], all_gates_opt = opt\<rparr> file)"

subsection \<open>The module frequencies\<close>

fun parse_freq :: "string list \<Rightarrow> (string \<rightharpoonup> nat) \<Rightarrow> (string \<rightharpoonup> nat) option" where
  "parse_freq [] module_freqs = Some module_freqs"
| "parse_freq (line # rest) module_freqs =
     (let elems = split line CHR '' ''
      in if length elems < 10 then None
         else case stoull (elems ! 9) of
                None \<Rightarrow> None
              | Some freq \<Rightarrow> parse_freq rest (module_freqs(elems ! 0 \<mapsto> freq)))"

end
