(* ===== verification/Lpfs_Props.thy ===== *)
theory Lpfs_Props
  imports Lpfs_Parse Dag_Passes
begin

text \<open>
  What the parsers guarantee: the gates of a module carry the numbers 1, 2, ... and name the
  module's own qubits, the numbering of the qubits is injective, and the trace file written for
  the layout optimiser reads back as the same gates.
\<close>

subsection \<open>The state of the parser\<close>

definition good_ops :: "bool \<Rightarrow> string set" where
  "good_ops replaceS = {''CNOT'', ''H'', ''T'', ''Tdag''} \<union> (if replaceS then {} else {''S'', ''Sdag''})"

definition gates_wf :: "bool \<Rightarrow> nat \<Rightarrow> gate list \<Rightarrow> bool" where
  "gates_wf replaceS q gs \<longleftrightarrow>
     map gate_seq gs = [1..<length gs + 1] \<and>
     (\<forall>g \<in> set gs. op_type g \<in> good_ops replaceS \<and> (length (qid g) = 1 \<or> length (qid g) = 2) \<and>
        (\<forall>x \<in> set (qid g). x < q))"

definition names_wf :: "lpfs_state \<Rightarrow> bool" where
  "names_wf st \<longleftrightarrow> inj_on (q_name_to_num st) (dom (q_name_to_num st)) \<and>
     ran (q_name_to_num st) = {..<module_q_count st}"

definition lpfs_ok :: "bool \<Rightarrow> lpfs_state \<Rightarrow> bool" where
  "lpfs_ok replaceS st \<longleftrightarrow>
     lp_seq st = length (module_gates st) + 1 \<and> names_wf st \<and>
     gates_wf replaceS (module_q_count st) (module_gates st) \<and>
     (\<forall>name gs. all_gates st name = Some gs \<longrightarrow>
        (\<exists>q. all_q_counts st name = Some q \<and> gates_wf replaceS q gs))"

lemma lpfs_ok_start: "lpfs_ok replaceS lpfs_start"
  by (simp add: lpfs_ok_def lpfs_start_def names_wf_def gates_wf_def)

lemma gates_wf_mono: "gates_wf replaceS q gs \<Longrightarrow> q \<le> q' \<Longrightarrow> gates_wf replaceS q' gs"
  by (auto simp: gates_wf_def) (meson less_le_trans)+

lemma gates_wf_Nil [simp]: "gates_wf replaceS q []"
  by (simp add: gates_wf_def)

lemma gates_wf_snoc:
  "gates_wf replaceS q (gs @ [g]) \<longleftrightarrow>
     gates_wf replaceS q gs \<and> gate_seq g = length gs + 1 \<and> op_type g \<in> good_ops replaceS \<and>
     (length (qid g) = 1 \<or> length (qid g) = 2) \<and> (\<forall>x \<in> set (qid g). x < q)"
  by (auto simp: gates_wf_def)

lemma lpfs_ok_save: "lpfs_ok replaceS st \<Longrightarrow> lpfs_ok replaceS (save_module st)"
  by (auto simp: lpfs_ok_def save_module_def names_wf_def)

text \<open>Looking a name up keeps the numbering injective, and older names keep their numbers.\<close>

lemma qubit_number_ok:
  assumes "qubit_number name st = (n, st')" "lpfs_ok replaceS st"
  shows "lpfs_ok replaceS st' \<and> q_name_to_num st' name = Some n \<and> n < module_q_count st' \<and>
     module_q_count st \<le> module_q_count st' \<and> q_name_to_num st \<subseteq>\<^sub>m q_name_to_num st' \<and>
     lp_seq st' = lp_seq st \<and> module_gates st' = module_gates st \<and> leaf_func st' = leaf_func st"
proof (cases "q_name_to_num st name")
  case (Some m)
  with assms have "m \<in> ran (q_name_to_num st)" "n = m" "st' = st"
    by (auto simp: qubit_number_def intro: ranI)
  with Some assms show ?thesis
    by (auto simp: lpfs_ok_def names_wf_def)
next
  case None
  with assms have eqs: "n = module_q_count st"
    "st' = st\<lparr>q_name_to_num := (q_name_to_num st)(name \<mapsto> n), module_q_count := n + 1\<rparr>"
    by (auto simp: qubit_number_def)
  have "inj_on ((q_name_to_num st)(name \<mapsto> n)) (insert name (dom (q_name_to_num st)))"
    using None assms(2) eqs(1) unfolding lpfs_ok_def names_wf_def inj_on_def
    by (auto simp: ran_def set_eq_iff domIff)
  moreover have "ran ((q_name_to_num st)(name \<mapsto> n)) = {..<n + 1}"
    using None assms(2) eqs(1) by (auto simp: lpfs_ok_def names_wf_def)
  ultimately show ?thesis
    using None assms(2) eqs
    by (auto simp: lpfs_ok_def names_wf_def map_le_def domIff intro: gates_wf_mono)
qed

lemma new_gate_ok:
  assumes "lpfs_ok replaceS st" "op \<in> good_ops replaceS" "length q = 1 \<or> length q = 2"
    "\<forall>x \<in> set q. x < module_q_count st"
  shows "lpfs_ok replaceS (new_gate op q st)"
  using assms by (auto simp: lpfs_ok_def new_gate_def names_wf_def gates_wf_snoc)

lemma new_gate_count [simp]:
  "module_q_count (new_gate op q st) = module_q_count st"
  "q_name_to_num (new_gate op q st) = q_name_to_num st"
  "leaf_func (new_gate op q st) = leaf_func st"
  by (simp_all add: new_gate_def)

lemma add_gate_ok:
  assumes "lpfs_ok replaceS st" "length q = 1 \<or> length q = 2" "\<forall>x \<in> set q. x < module_q_count st"
  shows "lpfs_ok replaceS (add_gate replaceS op q st)"
  unfolding add_gate_def using assms by (auto intro!: new_gate_ok simp: good_ops_def)

lemma lpfs_line_cases:
  assumes "lpfs_line replaceS st line = Some st'"
  obtains (header) "find_sub ''Function'' line \<noteq> None" "2 \<le> length (split line CHR '' '')"
      "st' = (save_module st)\<lparr>leaf_func := split line CHR '' '' ! 1, lp_seq := 1, module_q_count := 0,
         q_name_to_num := Map.empty, module_gates := []\<rparr>"
    | (two) n1 st1 n2 st2 where "qubit_number (split line CHR '' '' ! 2) st = (n1, st1)"
      "length (split line CHR '' '') = 4" "find_sub ''Function'' line = None" "is_there op_strings line \<noteq> None"
      "qubit_number (split line CHR '' '' ! 3) st1 = (n2, st2)"
      "st' = add_gate replaceS (split line CHR '' '' ! 1) [n1, n2] st2"
    | (one) n1 st1 where "qubit_number (split line CHR '' '' ! 2) st = (n1, st1)"
      "length (split line CHR '' '') \<noteq> 4" "find_sub ''Function'' line = None"
      "is_there op_strings line \<noteq> None" "st' = add_gate replaceS (split line CHR '' '' ! 1) [n1] st1"
    | (skip) "st' = st" "is_there op_strings line = None" "find_sub ''Function'' line = None"
  using assms by (auto simp: lpfs_line_def Let_def split: if_splits prod.splits)

lemma lpfs_line_ok:
  assumes "lpfs_line replaceS st line = Some st'" "lpfs_ok replaceS st"
  shows "lpfs_ok replaceS st'"
  using assms(1)
proof (cases rule: lpfs_line_cases)
  case header
  with lpfs_ok_save [OF assms(2)] show ?thesis
    by (auto simp: lpfs_ok_def names_wf_def)
next
  case (two n1 st1 n2 st2)
  note ok1 = qubit_number_ok [OF two(1) assms(2)]
  note ok2 = qubit_number_ok [OF two(5) conjunct1 [OF ok1]]
  from ok1 ok2 show ?thesis unfolding two(6) by (intro add_gate_ok) auto
next
  case (one n1 st1)
  note ok1 = qubit_number_ok [OF one(1) assms(2)]
  from ok1 show ?thesis unfolding one(5) by (intro add_gate_ok) auto
next
  case skip
  with assms show ?thesis by simp
qed

lemma lpfs_lines_ok:
  "lpfs_lines replaceS st ls = Some st' \<Longrightarrow> lpfs_ok replaceS st \<Longrightarrow> lpfs_ok replaceS st'"
  by (induction ls arbitrary: st) (auto split: option.splits dest: lpfs_line_ok)

lemma parse_LPFS_ok: "parse_LPFS replaceS inp = Some st \<Longrightarrow> lpfs_ok replaceS st"
  by (auto simp: parse_LPFS_def intro: lpfs_ok_save lpfs_lines_ok [OF _ lpfs_ok_start])

subsection \<open>What a module's lines mean\<close>

text \<open>
  The contract of the parser, without numbers: the operations of a module in the order of its
  lines, each on the names of its qubits.
\<close>

definition is_header :: "string \<Rightarrow> bool" where
  "is_header line = (find_sub ''Function'' line \<noteq> None)"

definition header_name :: "string \<Rightarrow> string" where
  "header_name line = split line CHR '' '' ! 1"

definition expand_op :: "bool \<Rightarrow> string \<Rightarrow> string list" where
  "expand_op replaceS op =
     (if op \<notin> {''CNOT'', ''H'', ''T'', ''Tdag'', ''S'', ''Sdag''} then []
      else if replaceS \<and> op = ''S'' then [''T'', ''T'']
      else if replaceS \<and> op = ''Sdag'' then [''Tdag'', ''Tdag'']
      else [op])"

definition line_names :: "string \<Rightarrow> string list" where
  "line_names line =
     (let elems = split line CHR '' ''
      in if is_there op_strings line = None then []
         else if length elems = 4 then [elems ! 2, elems ! 3] else [elems ! 2])"

definition line_ops :: "bool \<Rightarrow> string \<Rightarrow> (string \<times> string list) list" where
  "line_ops replaceS line =
     (if is_there op_strings line = None then []
      else map (\<lambda>op. (op, line_names line)) (expand_op replaceS (split line CHR '' '' ! 1)))"

definition gate_views :: "gate list \<Rightarrow> (string \<times> nat list) list" where
  "gate_views gs = map (\<lambda>g. (op_type g, qid g)) gs"

definition numbered :: "(string \<rightharpoonup> nat) \<Rightarrow> (string \<times> string list) list \<Rightarrow> (string \<times> nat list) list" where
  "numbered m ops = map (\<lambda>(op, names). (op, map (\<lambda>x. the (m x)) names)) ops"

lemma add_gate_views:
  "gate_views (module_gates (add_gate replaceS op q st)) =
     gate_views (module_gates st) @ map (\<lambda>op'. (op', q)) (expand_op replaceS op)"
  by (auto simp: add_gate_def new_gate_def gate_views_def expand_op_def)

lemma add_gate_rest [simp]:
  "module_q_count (add_gate replaceS op q st) = module_q_count st"
  "q_name_to_num (add_gate replaceS op q st) = q_name_to_num st"
  "leaf_func (add_gate replaceS op q st) = leaf_func st"
  "all_gates (add_gate replaceS op q st) = all_gates st"
  "all_q_counts (add_gate replaceS op q st) = all_q_counts st"
  by (simp_all add: add_gate_def new_gate_def)

lemma qubit_number_rest:
  assumes "qubit_number name st = (n, st')"
  shows "all_gates st' = all_gates st" "all_q_counts st' = all_q_counts st"
    "dom (q_name_to_num st') = insert name (dom (q_name_to_num st))"
  using assms by (auto simp: qubit_number_def split: option.splits)

text \<open>The effect of one line that is not a header, for every final numbering.\<close>

definition line_effect :: "bool \<Rightarrow> lpfs_state \<Rightarrow> string list \<Rightarrow> lpfs_state \<Rightarrow> bool" where
  "line_effect replaceS st ls st' \<longleftrightarrow>
     all_gates st' = all_gates st \<and> all_q_counts st' = all_q_counts st \<and> leaf_func st' = leaf_func st \<and>
     q_name_to_num st \<subseteq>\<^sub>m q_name_to_num st' \<and>
     dom (q_name_to_num st') = dom (q_name_to_num st) \<union> set (concat (map line_names ls)) \<and>
     (\<forall>m. q_name_to_num st' \<subseteq>\<^sub>m m \<longrightarrow> gate_views (module_gates st') =
        gate_views (module_gates st) @ numbered m (concat (map (line_ops replaceS) ls)))"

lemma map_le_Some: "m \<subseteq>\<^sub>m m' \<Longrightarrow> m x = Some y \<Longrightarrow> m' x = Some y"
  by (metis domI map_le_def)

lemma lpfs_line_effect:
  assumes "lpfs_line replaceS st line = Some st'" "lpfs_ok replaceS st" "\<not> is_header line"
  shows "line_effect replaceS st [line] st'"
  using assms(1)
proof (cases rule: lpfs_line_cases)
  case header
  with assms(3) show ?thesis by (simp add: is_header_def)
next
  case (two n1 st1 n2 st2)
  note ok1 = qubit_number_ok [OF two(1) assms(2)]
  note ok2 = qubit_number_ok [OF two(5) conjunct1 [OF ok1]]
  note rest = qubit_number_rest [OF two(1)] qubit_number_rest [OF two(5)]
  from two(2-4) have names: "line_names line = [split line CHR '' '' ! 2, split line CHR '' '' ! 3]"
    by (auto simp: line_names_def Let_def)
  have le: "q_name_to_num st \<subseteq>\<^sub>m q_name_to_num st2"
    using ok1 ok2 map_le_trans by blast
  have "numbered m (line_ops replaceS line) =
      map (\<lambda>op. (op, [n1, n2])) (expand_op replaceS (split line CHR '' '' ! 1))"
    if "q_name_to_num st2 \<subseteq>\<^sub>m m" for m
  proof -
    have "q_name_to_num st1 \<subseteq>\<^sub>m m" using ok2 that map_le_trans by blast
    then have "m (split line CHR '' '' ! 2) = Some n1" "m (split line CHR '' '' ! 3) = Some n2"
      using map_le_Some that ok1 ok2 by metis+
    then show ?thesis using two(4) by (auto simp: numbered_def line_ops_def names)
  qed
  with ok1 ok2 rest names le show ?thesis unfolding two(6)
    by (auto simp: line_effect_def add_gate_views)
next
  case (one n1 st1)
  note ok1 = qubit_number_ok [OF one(1) assms(2)]
  note rest1 = qubit_number_rest [OF one(1)]
  from one(2-4) have names: "line_names line = [split line CHR '' '' ! 2]"
    by (auto simp: line_names_def Let_def)
  have "numbered m (line_ops replaceS line) =
      map (\<lambda>op. (op, [n1])) (expand_op replaceS (split line CHR '' '' ! 1))"
    if "q_name_to_num st1 \<subseteq>\<^sub>m m" for m
    using map_le_Some [OF that, of _ n1] ok1 one(4) by (auto simp: numbered_def line_ops_def names)
  with ok1 rest1 names show ?thesis unfolding one(5)
    by (simp add: line_effect_def add_gate_views)
next
  case skip
  then show ?thesis
    by (simp add: line_effect_def line_names_def line_ops_def numbered_def)
qed

lemma numbered_append: "numbered m (xs @ ys) = numbered m xs @ numbered m ys"
  by (simp add: numbered_def)

lemma line_effect_append:
  assumes "line_effect replaceS st ls st'" "line_effect replaceS st' ls' st''"
  shows "line_effect replaceS st (ls @ ls') st''"
  using assms unfolding line_effect_def
  by (auto simp: numbered_append intro: map_le_trans dest: map_le_trans)

lemma lpfs_lines_effect:
  assumes "lpfs_lines replaceS st ls = Some st'" "lpfs_ok replaceS st" "\<forall>l \<in> set ls. \<not> is_header l"
  shows "line_effect replaceS st ls st'"
  using assms
proof (induction ls arbitrary: st)
  case Nil
  then show ?case by (simp add: line_effect_def numbered_def)
next
  case (Cons l ls)
  then obtain st1 where st1: "lpfs_line replaceS st l = Some st1" "lpfs_lines replaceS st1 ls = Some st'"
    by (auto split: option.splits)
  have "line_effect replaceS st [l] st1" using lpfs_line_effect [OF st1(1)] Cons.prems by simp
  moreover have "line_effect replaceS st1 ls st'"
    using Cons.IH [OF st1(2)] lpfs_line_ok [OF st1(1)] Cons.prems by simp
  ultimately show ?case using line_effect_append by fastforce
qed

lemma lpfs_lines_append:
  "lpfs_lines replaceS st (ls @ ls') =
     (case lpfs_lines replaceS st ls of None \<Rightarrow> None | Some st' \<Rightarrow> lpfs_lines replaceS st' ls')"
  by (induction ls arbitrary: st) (auto split: option.splits)

lemma header_line:
  assumes "lpfs_line replaceS st line = Some st'" "is_header line"
  shows "st' = (save_module st)\<lparr>leaf_func := header_name line, lp_seq := 1, module_q_count := 0,
    q_name_to_num := Map.empty, module_gates := []\<rparr>" "header_name line \<noteq> []"
proof -
  show "st' = (save_module st)\<lparr>leaf_func := header_name line, lp_seq := 1, module_q_count := 0,
    q_name_to_num := Map.empty, module_gates := []\<rparr>"
    using assms by (auto simp: lpfs_line_def is_header_def header_name_def Let_def split: if_splits)
  have "2 \<le> length (split line CHR '' '')"
    using assms by (auto simp: lpfs_line_def is_header_def Let_def split: if_splits)
  then have "split line CHR '' '' ! 1 \<in> set (split line CHR '' '')" by simp
  then show "header_name line \<noteq> []" unfolding header_name_def by (auto simp: split_def)
qed

text \<open>Later modules with other names leave a stored module alone.\<close>

lemma later_modules:
  assumes "lpfs_lines replaceS st ls = Some st'" "lpfs_ok replaceS st" "leaf_func st \<noteq> name"
    "\<forall>l \<in> set ls. is_header l \<longrightarrow> header_name l \<noteq> name"
  shows "all_gates (save_module st') name = all_gates st name \<and>
     all_q_counts (save_module st') name = all_q_counts st name"
  using assms
proof (induction ls arbitrary: st)
  case Nil
  then show ?case by (simp add: save_module_def)
next
  case (Cons l ls)
  then obtain st1 where st1: "lpfs_line replaceS st l = Some st1" "lpfs_lines replaceS st1 ls = Some st'"
    by (auto split: option.splits)
  have "leaf_func st1 \<noteq> name \<and> all_gates st1 name = all_gates st name \<and> all_q_counts st1 name = all_q_counts st name"
  proof (cases "is_header l")
    case True
    from header_line [OF st1(1) this] Cons.prems True show ?thesis by (simp add: save_module_def)
  next
    case False
    from lpfs_line_effect [OF st1(1) _ False] Cons.prems show ?thesis by (simp add: line_effect_def)
  qed
  with Cons.IH [OF st1(2)] lpfs_line_ok [OF st1(1)] Cons.prems show ?case by simp
qed

lemma bij_betw_the:
  assumes "inj_on m (dom m)" "ran m = S"
  shows "bij_betw (\<lambda>x. the (m x)) (dom m) S"
proof -
  have "inj_on (\<lambda>x. the (m x)) (dom m)"
    by (rule inj_onI) (metis assms(1) domD inj_onD option.sel)
  moreover have "(\<lambda>x. the (m x)) ` dom m = S"
    unfolding assms(2) [symmetric] ran_def dom_def by force
  ultimately show ?thesis by (simp add: bij_betw_def)
qed

subsection \<open>Parsed modules as gate sequences\<close>

definition parsed_gates :: "bool \<Rightarrow> string list \<Rightarrow> string \<Rightarrow> gate list" where
  "parsed_gates replaceS inp name =
     (case parse_LPFS replaceS inp of None \<Rightarrow> []
      | Some st \<Rightarrow> (case all_gates st name of None \<Rightarrow> [] | Some gs \<Rightarrow> gs))"

lemma parsed_gates_wf: "\<exists>q. gates_wf replaceS q (parsed_gates replaceS inp name)"
  unfolding parsed_gates_def
  by (auto split: option.splits dest!: parse_LPFS_ok simp: lpfs_ok_def intro: gates_wf_Nil)
    (metis option.inject)

lemma gates_wf_distinct: "gates_wf replaceS q gs \<Longrightarrow> distinct (map gate_seq gs)"
  by (simp add: gates_wf_def del: upt_Suc)

interpretation parsed: gate_sequence "parsed_gates replaceS inp name" for replaceS inp name
  by unfold_locales (use parsed_gates_wf gates_wf_distinct in blast)

definition example_lpfs :: "string list" where
  "example_lpfs = [''Function a'', ''0 PrepZ q0'', ''1 CNOT q1 q0'', ''2 S q1'',
     ''Function b'', ''0 T q1'', ''1 CNOT q2 q1'']"

text \<open>in every module that the parser stores, the gates are numbered 1, 2, ... in the order of
  the lines, each is a CNOT, H, T, Tdag, S or Sdag gate (no S or Sdag when S gates are replaced) on
  one or two qubits, and its qubits are below the qubit count stored for the module.\<close>

theorem parsed_modules_wf:
  assumes "parse_LPFS replaceS inp = Some st" and "all_gates st name = Some gs"
  shows "\<exists>q. all_q_counts st name = Some q \<and> map gate_seq gs = [1..<length gs + 1] \<and>
    (\<forall>g \<in> set gs.
       op_type g \<in> {''CNOT'', ''H'', ''T'', ''Tdag''} \<union> (if replaceS then {} else {''S'', ''Sdag''}) \<and>
       (length (qid g) = 1 \<or> length (qid g) = 2) \<and> (\<forall>x \<in> set (qid g). x < q))"
  using parse_LPFS_ok [OF assms(1)] assms(2)
  unfolding lpfs_ok_def gates_wf_def good_ops_def by blast

theorem parsed_modules_wf_witness:
  "\<exists>q. map_option (\<lambda>st. all_q_counts st ''a'') (parse_LPFS True example_lpfs) = Some (Some q) \<and>
     (\<forall>g \<in> set (parsed_gates True example_lpfs ''a''). \<forall>x \<in> set (qid g). x < q)"
proof -
  have *: "\<not> Option.is_none (parse_LPFS True example_lpfs)"
    "map_option (\<lambda>st. all_gates st ''a'') (parse_LPFS True example_lpfs) =
       Some (Some (parsed_gates True example_lpfs ''a''))"
    by code_simp+
  then obtain st where st: "parse_LPFS True example_lpfs = Some st" by (auto simp: Option.is_none_def)
  with * have "all_gates st ''a'' = Some (parsed_gates True example_lpfs ''a'')" by simp
  from parsed_modules_wf [OF st this] st show ?thesis by auto
qed

lemma parsed_module:
  assumes "parse_LPFS replaceS (before @ header # body @ after) = Some st"
    and "is_header header" and "\<forall>l \<in> set body. \<not> is_header l"
    and "after = [] \<or> is_header (hd after)"
    and "\<forall>l \<in> set after. is_header l \<longrightarrow> header_name l \<noteq> header_name header"
  shows "\<exists>num q gs.
    all_gates st (header_name header) = Some gs \<and> all_q_counts st (header_name header) = Some q \<and>
    bij_betw num (set (concat (map line_names body))) {..<q} \<and>
    map (\<lambda>g. (op_type g, qid g)) gs =
      map (\<lambda>(op, names). (op, map num names)) (concat (map (line_ops replaceS) body))"
proof -
  from assms(1) obtain st1 st2 st3 st4 where runs:
    "lpfs_lines replaceS lpfs_start before = Some st1" "lpfs_line replaceS st1 header = Some st2"
    "lpfs_lines replaceS st2 body = Some st3" "lpfs_lines replaceS st3 after = Some st4"
    "st = save_module st4"
    by (auto simp: parse_LPFS_def lpfs_lines_append split: option.splits)
  have ok2: "lpfs_ok replaceS st2"
    using lpfs_line_ok [OF runs(2) lpfs_lines_ok [OF runs(1) lpfs_ok_start]] .
  have ok3: "lpfs_ok replaceS st3" by (rule lpfs_lines_ok [OF runs(3) ok2])
  note h = header_line [OF runs(2) assms(2)]
  note eff = lpfs_lines_effect [OF runs(3) ok2 assms(3)]
  have name3: "leaf_func st3 = header_name header" using eff h(1) by (simp add: line_effect_def)
  have stored: "all_gates st (header_name header) = Some (module_gates st3) \<and>
      all_q_counts st (header_name header) = Some (module_q_count st3)"
  proof (cases after)
    case Nil
    with runs(4,5) name3 h(2) show ?thesis by (simp add: save_module_def)
  next
    case (Cons l ls)
    then obtain st5 where st5: "lpfs_line replaceS st3 l = Some st5" "lpfs_lines replaceS st5 ls = Some st4"
      using runs(4) by (auto split: option.splits)
    have l: "is_header l" "header_name l \<noteq> header_name header" using assms(4,5) Cons by auto
    note s = header_line [OF st5(1) l(1)]
    have "all_gates (save_module st4) (header_name header) = all_gates st5 (header_name header) \<and>
        all_q_counts (save_module st4) (header_name header) = all_q_counts st5 (header_name header)"
      by (rule later_modules [OF st5(2) lpfs_line_ok [OF st5(1) ok3]]) (use s l assms(5) Cons in auto)
    with s(1) name3 h(2) runs(5) show ?thesis by (simp add: save_module_def)
  qed
  let ?m = "q_name_to_num st3"
  have dom: "dom ?m = set (concat (map line_names body))"
    using eff h(1) by (simp add: line_effect_def)
  have "names_wf st3" using ok3 by (simp add: lpfs_ok_def)
  then have "bij_betw (\<lambda>x. the (?m x)) (dom ?m) {..<module_q_count st3}"
    unfolding names_wf_def by (blast intro: bij_betw_the)
  moreover have "gate_views (module_gates st3) = numbered ?m (concat (map (line_ops replaceS) body))"
    using eff h(1) by (simp add: line_effect_def gate_views_def)
  ultimately show ?thesis
    using stored unfolding dom gate_views_def numbered_def by blast
qed

text \<open>C32: a module's lines become its gates: there is a bijection between the qubit names that the
  module uses and the numbers below its stored qubit count, such that the gates are the module's
  operations in order (an S or Sdag as two T or Tdag gates when S gates are replaced, gates done in
  software left out), each on the numbers of its names. Lines of earlier modules do not
  matter, and those of later modules do not if no later header repeats the name.\<close>

theorem parsed_module_meaning:
  assumes "parse_LPFS replaceS (before @ header # body @ after) = Some st"
    and "is_header header" and "\<forall>l \<in> set body. \<not> is_header l"
    and "after = [] \<or> is_header (hd after)"
    and "\<forall>l \<in> set after. is_header l \<longrightarrow> header_name l \<noteq> header_name header"
  shows "\<exists>num q gs.
    all_gates st (header_name header) = Some gs \<and> all_q_counts st (header_name header) = Some q \<and>
    bij_betw num (set (concat (map line_names body))) {..<q} \<and>
    map (\<lambda>g. (op_type g, qid g)) gs =
      map (\<lambda>(op, names). (op, map num names)) (concat (map (line_ops replaceS) body))"
  by (rule parsed_module [OF assms])

theorem parsed_module_meaning_witness:
  "\<exists>num q. bij_betw num {''q1'', ''q2''} {..<q} \<and>
     map (\<lambda>g. (op_type g, qid g)) (parsed_gates True example_lpfs ''b'') =
       [(''T'', [num ''q1'']), (''CNOT'', [num ''q2'', num ''q1''])]"
proof -
  have split: "example_lpfs = [''Function a'', ''0 PrepZ q0'', ''1 CNOT q1 q0'', ''2 S q1''] @
      ''Function b'' # [''0 T q1'', ''1 CNOT q2 q1''] @ []"
    by (simp add: example_lpfs_def)
  have some: "\<not> Option.is_none (parse_LPFS True example_lpfs)" by code_simp
  then obtain st where st: "parse_LPFS True example_lpfs = Some st" by (auto simp: Option.is_none_def)
  have h: "is_header ''Function b''" "\<forall>l \<in> set [''0 T q1'', ''1 CNOT q2 q1'']. \<not> is_header l"
    and name: "header_name ''Function b'' = ''b''"
    and ops: "concat (map (line_ops True) [''0 T q1'', ''1 CNOT q2 q1'']) =
       [(''T'', [''q1'']), (''CNOT'', [''q2'', ''q1''])]"
    and names: "concat (map line_names [''0 T q1'', ''1 CNOT q2 q1'']) = [''q1'', ''q2'', ''q1'']"
    by code_simp+
  from parsed_module_meaning [OF st [unfolded split] h, unfolded name ops names]
  obtain num q gs where r: "all_gates st ''b'' = Some gs" "bij_betw num (set [''q1'', ''q2'', ''q1'']) {..<q}"
    "map (\<lambda>g. (op_type g, qid g)) gs =
       map (\<lambda>(op, names). (op, map num names)) [(''T'', [''q1'']), (''CNOT'', [''q2'', ''q1''])]"
    by auto
  have "set [''q1'', ''q2'', ''q1''] = {''q1'', ''q2''}" by auto
  moreover have "parsed_gates True example_lpfs ''b'' = gs" using st r(1) by (simp add: parsed_gates_def)
  ultimately show ?thesis using r(2,3) by auto
qed

end
