(* ===== verification/Trace_File.thy ===== *)
theory Trace_File
  imports Lpfs_Props
begin

text \<open>
  The trace file of the layout optimiser: what \<open>main\<close> writes, \<open>parse_tr\<close> reads back as the same
  gates. Decimal numbers, the splitting of lines and the searches for the line types come first.
\<close>

subsection \<open>Decimal numbers\<close>

lemma char_digit_char [simp]: "d < 10 \<Longrightarrow> char_digit (digit_char d) = Some d"
  by (auto simp: char_digit_def digit_char_def Let_def)

definition all_digits :: "string \<Rightarrow> bool" where
  "all_digits s \<longleftrightarrow> (\<forall>c \<in> set s. \<exists>d<10. c = digit_char d)"

lemma all_digits_show_nat: "all_digits (show_nat n)"
proof (induction n rule: show_nat.induct)
  case (1 n)
  then show ?case
    by (subst show_nat.simps) (auto simp: all_digits_def intro: exI [of _ "n mod 10"])
qed

lemma show_nat_not_Nil [simp]: "show_nat n \<noteq> []"
  by (subst show_nat.simps) simp

lemma read_digits_snoc:
  "all_digits ds \<Longrightarrow> d < 10 \<Longrightarrow> read_digits acc (ds @ [digit_char d]) = 10 * read_digits acc ds + d"
  by (induction ds arbitrary: acc) (auto simp: all_digits_def split: option.splits)

lemma read_show_nat: "read_digits 0 (show_nat n) = n"
proof (induction n rule: show_nat.induct)
  case (1 n)
  then show ?case
    by (subst show_nat.simps) (simp add: read_digits_snoc all_digits_show_nat)
qed

lemma digit_chars: "\<forall>d \<in> set [0..<10]. digit_char d \<in> set ''0123456789''"
  by code_simp

lemma digit_char_set: "d < 10 \<Longrightarrow> digit_char d \<in> set ''0123456789''"
  using digit_chars by (simp del: list.set)

lemma show_nat_chars: "c \<in> set (show_nat n) \<Longrightarrow> c \<in> set ''0123456789''"
  using all_digits_show_nat [of n] digit_char_set [THEN subsetD [OF subset_refl]]
  by (auto simp: all_digits_def simp del: list.set)

lemma show_nat_not_char [simp]: "c \<notin> set ''0123456789'' \<Longrightarrow> c \<notin> set (show_nat n)"
  using show_nat_chars by blast

lemma read_number_show_nat: "read_number (show_nat n) = Some (False, n)"
proof -
  obtain c cs where cs: "show_nat n = c # cs" using show_nat_not_Nil [of n] by (cases "show_nat n") blast+
  then have c: "c \<in> set ''0123456789''" using show_nat_chars [of c n] by simp
  obtain d where d: "d < 10" "c = digit_char d"
    using all_digits_show_nat [of n] cs unfolding all_digits_def by auto
  have "\<not> is_space c" "c \<noteq> CHR ''-''" "c \<noteq> CHR ''+''"
    using c by (auto simp: is_space_def)
  then show ?thesis
    using cs d read_show_nat [of n] by (simp add: read_number_def)
qed

lemma stol_show_nat: "n < 2 ^ 63 \<Longrightarrow> stol (show_nat n) = Some (int n)"
  by (simp add: stol_def read_number_show_nat)

lemma unsigned_show_nat: "n < 2 ^ 32 \<Longrightarrow> to_unsigned (int n) = n"
  by (simp add: to_unsigned_def)

subsection \<open>Lines\<close>

lemma getline_items_Nil [simp]: "getline_items d [] = []"
  by (simp add: getline_items.simps)

lemma getline_items_end: "d \<notin> set s \<Longrightarrow> s \<noteq> [] \<Longrightarrow> getline_items d s = [s]"
proof -
  assume d: "d \<notin> set s" and "s \<noteq> []"
  have *: "takeWhile (\<lambda>c. c \<noteq> d) s = s" "dropWhile (\<lambda>c. c \<noteq> d) s = []"
    using d by (auto simp: takeWhile_eq_all_conv dropWhile_eq_Nil_conv)
  show ?thesis unfolding getline_items.simps [of d s] * using \<open>s \<noteq> []\<close> by simp
qed

lemma getline_items_delim: "d \<notin> set s \<Longrightarrow> getline_items d (s @ d # rest) = s # getline_items d rest"
proof -
  assume d: "d \<notin> set s"
  have "takeWhile (\<lambda>c. c \<noteq> d) (s @ d # rest) = s" "dropWhile (\<lambda>c. c \<noteq> d) (s @ d # rest) = d # rest"
    using d by (induction s) auto
  then show ?thesis by (subst getline_items.simps) simp
qed

lemma split_end: "d \<notin> set s \<Longrightarrow> s \<noteq> [] \<Longrightarrow> split s d = [s]"
  by (simp add: split_def getline_items_end)

lemma split_delim: "d \<notin> set s \<Longrightarrow> s \<noteq> [] \<Longrightarrow> split (s @ d # rest) d = s # split rest d"
  by (simp add: split_def getline_items_delim)

lemma find_sub_SomeD: "find_sub needle s = Some k \<Longrightarrow> set needle \<subseteq> set s"
proof (induction s arbitrary: k)
  case Nil
  then show ?case by (simp split: if_splits)
next
  case (Cons c s)
  show ?case
  proof (cases "take (length needle) (c # s) = needle")
    case True
    then show ?thesis by (metis set_take_subset)
  next
    case False
    with Cons show ?thesis by (auto split: if_splits)
  qed
qed

lemma find_sub_absent: "c \<in> set needle \<Longrightarrow> c \<notin> set s \<Longrightarrow> find_sub needle s = None"
  using find_sub_SomeD by (cases "find_sub needle s") auto

lemma find_sub_prefix: "find_sub needle (needle @ s) = Some 0"
proof (cases "needle @ s")
  case (Cons c cs)
  then have "take (length needle) (c # cs) = needle" by (metis append_eq_conv_conj)
  with Cons show ?thesis by simp
qed simp

subsection \<open>One gate and one module\<close>

definition tr_ops :: "string set" where
  "tr_ops = {''CNOT'', ''H'', ''T'', ''Tdag'', ''S'', ''Sdag''}"

definition tr_gate_ok :: "gate \<Rightarrow> bool" where
  "tr_gate_ok g \<longleftrightarrow> op_type g \<in> tr_ops \<and> (length (qid g) = 1 \<or> length (qid g) = 2) \<and>
     gate_seq g < 2 ^ 32 \<and> (\<forall>x \<in> set (qid g). x < 2 ^ 32) \<and> criticality g = -1"

definition tr_module_ok :: "string \<times> nat \<times> gate list \<Rightarrow> bool" where
  "tr_module_ok m \<longleftrightarrow>
     (case m of (name, q_count, gs) \<Rightarrow> name \<noteq> [] \<and> CHR '' '' \<notin> set name \<and> (\<forall>g \<in> set gs. tr_gate_ok g))"

lemma tr_ops_chars:
  "op \<in> tr_ops \<Longrightarrow> op \<noteq> [] \<and> CHR '' '' \<notin> set op \<and> CHR ''l'' \<notin> set op"
  by (auto simp: tr_ops_def)

lemma tr_gate_read:
  assumes "tr_gate_ok g"
  shows "tr_lines st (tr_gate g) = Some (st\<lparr>tr_gates := tr_gates st @ [g]\<rparr>)"
proof -
  note op = tr_ops_chars [of "op_type g"]
  have g: "g = \<lparr>gate_seq = gate_seq g, op_type = op_type g, qid = qid g, criticality = -1\<rparr>"
    using assms by (simp add: tr_gate_ok_def)
  have seq: "gate_seq g < 2 ^ 63" "gate_seq g < 2 ^ 32" and ok: "op_type g \<in> tr_ops"
    using assms by (auto simp: tr_gate_ok_def)
  note simps = split_delim [of "CHR '' ''" "''ID:''", simplified] split_delim [of "CHR '' ''" "''TYPE:''", simplified]
    split_delim [of "CHR '' ''" "''SRC:''", simplified] split_delim [of "CHR '' ''" "''DST:''", simplified]
    split_delim split_end find_sub_absent [of "CHR ''l''" "''module: ''"]
  consider (one) p where "qid g = [p]" | (two) p q where "qid g = [p, q]"
    using assms by (auto simp: tr_gate_ok_def length_Suc_conv numeral_2_eq_2)
  then show ?thesis
  proof cases
    case one
    then have "p < 2 ^ 32" "p < 2 ^ 63" using assms by (auto simp: tr_gate_ok_def)
    then show ?thesis
      using one op ok seq by (subst (2) g) (simp add: tr_gate_def tr_line_def simps stol_show_nat unsigned_show_nat)
  next
    case two
    then have "p < 2 ^ 32" "p < 2 ^ 63" "q < 2 ^ 32" "q < 2 ^ 63" using assms by (auto simp: tr_gate_ok_def)
    then show ?thesis
      using two op ok seq by (subst (2) g) (simp add: tr_gate_def tr_line_def simps stol_show_nat unsigned_show_nat)
  qed
qed

lemma tr_lines_append:
  "tr_lines st (ls @ ls') = (case tr_lines st ls of None \<Rightarrow> None | Some st' \<Rightarrow> tr_lines st' ls')"
  by (induction ls arbitrary: st) (auto split: option.splits)

lemma tr_gates_read:
  "\<forall>g \<in> set gs. tr_gate_ok g \<Longrightarrow>
     tr_lines st (concat (map tr_gate gs)) = Some (st\<lparr>tr_gates := tr_gates st @ gs\<rparr>)"
  by (induction gs arbitrary: st) (simp_all add: tr_lines_append tr_gate_read)

lemma tr_header_read:
  assumes "name \<noteq> []" "CHR '' '' \<notin> set name"
  shows "tr_lines st [''module: '' @ name, ''num_nodes: '' @ show_nat q] =
    Some ((tr_save st)\<lparr>tr_gates := [], tr_name := name\<rparr>)"
proof -
  have "find_sub ''module: '' (''module: '' @ name) = Some 0" by (rule find_sub_prefix)
  moreover have "find_sub ''module: '' (''num_nodes: '' @ show_nat q) = None"
    by (rule find_sub_absent [of "CHR ''l''"]) simp_all
  moreover have "find_sub ''ID: '' (''num_nodes: '' @ show_nat q) = None"
    by (rule find_sub_absent [of "CHR ''I''"]) simp_all
  moreover have "split (''module: '' @ name) CHR '' '' = [''module:'', name]"
    using split_delim [of "CHR '' ''" "''module:''" name] assms by (simp add: split_end)
  ultimately show ?thesis by (simp add: tr_line_def del: append.simps)
qed

definition tr_entries :: "(string \<times> nat \<times> gate list) list \<Rightarrow> (string \<times> gate list) list" where
  "tr_entries mods = map (\<lambda>(name, q, gs). (name, gs)) (filter (\<lambda>(name, q, gs). gs \<noteq> []) mods)"

lemma tr_module_read:
  assumes "tr_module_ok (name, q, gs)" "gs \<noteq> []"
  shows "tr_lines st (tr_module (name, q, gs)) = Some ((tr_save st)\<lparr>tr_gates := gs, tr_name := name\<rparr>)"
proof -
  have ok: "name \<noteq> []" "CHR '' '' \<notin> set name" "\<forall>g \<in> set gs. tr_gate_ok g"
    using assms(1) by (auto simp: tr_module_ok_def)
  have "tr_module (name, q, gs) =
      [''module: '' @ name, ''num_nodes: '' @ show_nat q] @ concat (map tr_gate gs)"
    using assms(2) by (simp add: tr_module_def)
  then show ?thesis
    by (simp only: tr_lines_append tr_header_read [OF ok(1,2)] option.case tr_gates_read [OF ok(3)]) simp
qed

lemma tr_modules_read:
  assumes "\<forall>m \<in> set mods. tr_module_ok m"
  shows "\<exists>st'. tr_lines st (write_tr mods) = Some st' \<and>
    all_gates_opt (tr_save st') = all_gates_opt (tr_save st) ++ map_of (rev (tr_entries mods))"
  using assms
proof (induction mods arbitrary: st)
  case Nil
  then show ?case by (simp add: write_tr_def tr_entries_def)
next
  case (Cons m mods)
  obtain name q gs where m: "m = (name, q, gs)" by (cases m)
  show ?case
  proof (cases "gs = []")
    case True
    with Cons m show ?thesis by (simp add: write_tr_def tr_entries_def tr_module_def)
  next
    case False
    let ?st = "(tr_save st)\<lparr>tr_gates := gs, tr_name := name\<rparr>"
    have "tr_module_ok (name, q, gs)" using Cons.prems m by simp
    note read = tr_module_read [OF this False, of st] and this
    then have save: "all_gates_opt (tr_save ?st) = (all_gates_opt (tr_save st))(name \<mapsto> gs)"
      by (simp add: tr_save_def tr_module_ok_def)
    from Cons obtain st' where st': "tr_lines ?st (write_tr mods) = Some st'"
      "all_gates_opt (tr_save st') = all_gates_opt (tr_save ?st) ++ map_of (rev (tr_entries mods))"
      by (meson list.set_intros(2))
    have "tr_lines st (write_tr (m # mods)) = Some st'"
      using read(1) st'(1) by (simp add: write_tr_def m tr_lines_append)
    moreover have "tr_entries (m # mods) = (name, gs) # tr_entries mods"
      using False by (simp add: m tr_entries_def)
    ultimately show ?thesis using st'(2) save by (simp add: map_add_assoc)
  qed
qed

subsection \<open>The round trip\<close>

text \<open>C33: the trace file that \<open>main\<close> writes for the layout optimiser reads back as the gates it was
  written from: modules without gates are left out, and of two modules with one name the later
  one counts. The modules have nonempty names without blanks, and their gates are the parser's
  operations on one or two qubits with numbers that fit 32 bits and no criticality yet.\<close>

theorem trace_roundtrip:
  assumes "\<forall>m \<in> set mods. case m of (name, q_count, gs) \<Rightarrow> name \<noteq> [] \<and> CHR '' '' \<notin> set name \<and>
      (\<forall>g \<in> set gs. op_type g \<in> {''CNOT'', ''H'', ''T'', ''Tdag'', ''S'', ''Sdag''} \<and>
         (length (qid g) = 1 \<or> length (qid g) = 2) \<and> gate_seq g < 2 ^ 32 \<and>
         (\<forall>x \<in> set (qid g). x < 2 ^ 32) \<and> criticality g = -1)"
  shows "parse_tr (write_tr mods) opt =
    Some (opt ++ map_of (rev (map (\<lambda>(name, q_count, gs). (name, gs))
      (filter (\<lambda>(name, q_count, gs). gs \<noteq> []) mods))))"
proof -
  have "\<forall>m \<in> set mods. tr_module_ok m"
    using assms by (auto simp: tr_module_ok_def tr_gate_ok_def tr_ops_def split: prod.splits)
  from tr_modules_read [OF this, of "\<lparr>tr_name = [], tr_gates = [], all_gates_opt = opt\<rparr>"]
  show ?thesis by (auto simp: parse_tr_def tr_save_def tr_entries_def)
qed

definition example_modules :: "(string \<times> nat \<times> gate list) list" where
  "example_modules =
     [(''a'', 2, [\<lparr>gate_seq = 1, op_type = ''CNOT'', qid = [0, 1], criticality = -1\<rparr>,
        \<lparr>gate_seq = 2, op_type = ''T'', qid = [1], criticality = -1\<rparr>]), (''b'', 0, [])]"

theorem trace_roundtrip_witness:
  "parse_tr (write_tr example_modules) Map.empty =
     Some [''a'' \<mapsto> [\<lparr>gate_seq = 1, op_type = ''CNOT'', qid = [0, 1], criticality = -1\<rparr>,
        \<lparr>gate_seq = 2, op_type = ''T'', qid = [1], criticality = -1\<rparr>]]"
  by (subst trace_roundtrip) (simp_all add: example_modules_def)

end
