(* ===== verification/Module_Setup.thy ===== *)
theory Module_Setup
  imports Sim_Runs Lpfs_Props
begin

text \<open>
  What \<open>main\<close> of \<open>braidflash.cpp\<close> does with a parsed module before it is simulated: the size of
  the mesh, the tiles of the magic-state factories (on the periphery or in the middle of the mesh),
  the tiles of the data qubits, and the replacement of S and T gates by interactions with magic
  states. \<open>unsigned\<close> expressions are written modulo 2 to the 32 where they can wrap;
  \<open>ceil\<close> of \<open>sqrt\<close> of a double is the exact ceiling for the counts that occur (below 2 to the 50).
\<close>

subsection \<open>The size of the mesh\<close>

function ceil_sqrt_from :: "nat \<Rightarrow> nat \<Rightarrow> nat" where
  "ceil_sqrt_from k n = (if n \<le> k * k then k else ceil_sqrt_from (k + 1) n)"
  by auto
termination
proof (relation "measure (\<lambda>(k, n). n - k)")
  fix k n :: nat assume "\<not> n \<le> k * k"
  then have "k < n" by (metis le_square leI le_trans)
  then show "((k + 1, n), (k, n)) \<in> measure (\<lambda>(k, n). n - k)" by simp
qed simp

declare ceil_sqrt_from.simps [simp del]

definition ceil_sqrt :: "nat \<Rightarrow> nat" where
  "ceil_sqrt n = ceil_sqrt_from 0 n"

definition minus32 :: "nat \<Rightarrow> nat \<Rightarrow> nat" where
  "minus32 a b = nat ((int a - int b) mod 2 ^ 32)"

definition tile_rows :: "nat \<Rightarrow> nat" where
  "tile_rows q_count = ceil_sqrt q_count"

definition tile_cols :: "nat \<Rightarrow> nat" where
  "tile_cols q_count =
     (let r = tile_rows q_count
      in if (r * minus32 r 1) mod 2 ^ 32 < q_count then r else minus32 r 1)"

subsection \<open>Factories on the periphery\<close>

text \<open>A loop from \<open>i\<close> below \<open>bound\<close> in steps of \<open>stride\<close>; it does not end when the stride is 0.\<close>

partial_function (option) stride_range :: "nat \<Rightarrow> nat \<Rightarrow> nat \<Rightarrow> nat list option" where
  "stride_range i bound stride =
     (if i < bound then Option.bind (stride_range (i + stride) bound stride) (\<lambda>rest. Some (i # rest))
      else Some [])"

declare stride_range.simps [code]

definition periphery_Y_ids :: "nat \<Rightarrow> nat \<Rightarrow> nat \<Rightarrow> nat list option" where
  "periphery_Y_ids nr nc rows_to_Y_factory_ratio =
     map_option (\<lambda>is. concat (map (\<lambda>i. [i * nc, (i + 1) * nc - 1]) is))
       (stride_range 1 (nr - 1) rows_to_Y_factory_ratio)"

definition periphery_A_ids :: "nat \<Rightarrow> nat \<Rightarrow> nat \<Rightarrow> nat list option" where
  "periphery_A_ids nr nc cols_to_A_factory_ratio =
     map_option (\<lambda>js. concat (map (\<lambda>j. [j, (nr - 1) * nc + j]) js))
       (stride_range 0 nc cols_to_A_factory_ratio)"

text \<open>The tile of a data qubit on the mesh with the two added rows and columns.\<close>

definition periphery_arg :: "nat \<Rightarrow> nat \<Rightarrow> nat" where
  "periphery_arg nc arg = arg + nc + 2 * (arg div minus32 nc 2) + 1"

subsection \<open>Factories in the middle of the mesh\<close>

definition block_start :: "nat \<Rightarrow> nat \<Rightarrow> nat" where
  "block_start mesh_side factory_side = minus32 mesh_side factory_side div 2"

definition factory_tiles :: "nat \<Rightarrow> nat \<Rightarrow> nat \<Rightarrow> nat \<Rightarrow> nat \<Rightarrow> nat list" where
  "factory_tiles nc start_i start_j frows fcols =
     concat (map (\<lambda>i. map (\<lambda>j. (i * nc + j) mod 2 ^ 32) [start_j..<start_j + fcols]) [start_i..<start_i + frows])"

text \<open>The ports of a factory: top, right, bottom and left in turn, moved on by one in each turn.\<close>

definition port_turn :: "nat \<Rightarrow> int \<Rightarrow> int \<Rightarrow> int \<Rightarrow> int \<Rightarrow> int \<Rightarrow> nat list" where
  "port_turn nc start_i start_j frows fcols stride =
     map (\<lambda>x. nat (x mod 2 ^ 32))
       [start_i * int nc + start_j + stride,
        (start_i + stride) * int nc + start_j + fcols - 1,
        (start_i + frows - 1) * int nc + start_j + fcols - 1 - stride,
        (start_i + frows - 1 - stride) * int nc + start_j]"

fun port_ids :: "nat \<Rightarrow> int \<Rightarrow> int \<Rightarrow> int \<Rightarrow> int \<Rightarrow> nat \<Rightarrow> int \<Rightarrow> nat list" where
  "port_ids nc start_i start_j frows fcols ports stride =
     (if ports = 0 then []
      else take ports (port_turn nc start_i start_j frows fcols stride) @
           port_ids nc start_i start_j frows fcols (ports - 4) (stride + 1))"

declare port_ids.simps [simp del]

text \<open>The search for the tile of a data qubit among the tiles outside the factories.\<close>

partial_function (option) relocate_loop :: "nat set \<Rightarrow> nat \<Rightarrow> nat \<Rightarrow> nat \<Rightarrow> nat option" where
  "relocate_loop factory_block_set arg data_counter new_arg =
     (if data_counter \<noteq> arg
      then if new_arg \<in> factory_block_set
           then relocate_loop factory_block_set arg data_counter (new_arg + 1)
           else relocate_loop factory_block_set arg (data_counter + 1) (new_arg + 1)
      else Some new_arg)"

declare relocate_loop.simps [code]

definition interleaved_arg :: "nat set \<Rightarrow> nat \<Rightarrow> nat option" where
  "interleaved_arg factory_block_set arg = relocate_loop factory_block_set arg 0 0"

subsection \<open>The layout of a module\<close>

record arch =
  periphery :: bool
  rows_to_Y_factory_ratio :: nat
  cols_to_A_factory_ratio :: nat
  single_Y_area :: nat
  single_A_area :: nat
  num_Y_factories :: nat
  num_A_factories :: nat
  single_Y_ports :: nat
  single_A_ports :: nat

record layout =
  mesh_rows :: nat
  mesh_cols :: nat
  Y_state_ids :: "nat list"
  A_state_ids :: "nat list"
  factory_block :: "nat list"

text \<open>A module whose qubits need one tile is not simulated.\<close>

definition module_skipped :: "nat \<Rightarrow> bool" where
  "module_skipped q_count = (tile_rows q_count = 1 \<and> tile_cols q_count = 1)"

definition periphery_layout :: "arch \<Rightarrow> nat \<Rightarrow> layout option" where
  "periphery_layout a q_count =
     (let nr = (tile_rows q_count + 2) mod 2 ^ 32; nc = (tile_cols q_count + 2) mod 2 ^ 32
      in case (periphery_Y_ids nr nc (rows_to_Y_factory_ratio a),
               periphery_A_ids nr nc (cols_to_A_factory_ratio a)) of
           (Some ys, Some as) \<Rightarrow> Some \<lparr>mesh_rows = nr, mesh_cols = nc, Y_state_ids = ys,
              A_state_ids = as, factory_block = []\<rparr>
         | _ \<Rightarrow> None)"

definition interleaved_layout :: "arch \<Rightarrow> nat \<Rightarrow> layout" where
  "interleaved_layout a data_count =
     (let q_count = data_count + (single_Y_area a * num_Y_factories a) mod 2 ^ 32
            + (single_A_area a * num_A_factories a) mod 2 ^ 32;
          nr = tile_rows q_count; nc = tile_cols q_count;
          nry = tile_rows (single_Y_area a); ncy = tile_cols (single_Y_area a);
          nra = tile_rows (single_A_area a); nca = tile_cols (single_A_area a);
          si = block_start nr nra; sj = block_start nc nca
      in \<lparr>mesh_rows = nr, mesh_cols = nc,
          Y_state_ids = port_ids nc (int si) (int sj) (int nry) (int ncy) (single_Y_ports a) 0,
          A_state_ids = port_ids nc (int si) (int sj) (int nra) (int nca) (single_A_ports a) 0,
          factory_block = factory_tiles nc (block_start nr nry) (block_start nc ncy) nry ncy
            @ factory_tiles nc si sj nra nca\<rparr>)"

definition place_factories :: "arch \<Rightarrow> nat \<Rightarrow> layout option" where
  "place_factories a q_count =
     (if periphery a then periphery_layout a q_count else Some (interleaved_layout a q_count))"

definition relocate :: "arch \<Rightarrow> layout \<Rightarrow> nat \<Rightarrow> nat option" where
  "relocate a lay arg =
     (if periphery a then Some (periphery_arg (mesh_cols lay) arg)
      else interleaved_arg (set (factory_block lay)) arg)"

subsection \<open>Magic-state interactions\<close>

definition new_gates :: "nat \<Rightarrow> (string \<times> nat list) list \<Rightarrow> gate list" where
  "new_gates seq ops =
     map (\<lambda>(i, op, q). \<lparr>gate_seq = seq + i + 1, op_type = op, qid = q, criticality = -1\<rparr>) (enumerate 0 ops)"

definition magic_gates :: "layout \<Rightarrow> nat \<Rightarrow> gate \<Rightarrow> gate list" where
  "magic_gates lay seq g =
     (if op_type g = ''S'' \<or> op_type g = ''Sdag''
      then let q = qid g ! 0; y = find_closest_magic (mesh_cols lay) q (Y_state_ids lay)
           in new_gates seq [(''CNOT'', [q, y]), (''H'', [y]), (''CNOT'', [q, y]), (''H'', [y])]
      else if op_type g = ''T'' \<or> op_type g = ''Tdag''
      then let q = qid g ! 0; a = find_closest_magic (mesh_cols lay) q (A_state_ids lay)
           in new_gates seq [(''CNOT'', [a, q]), (''CNOT'', [q, a]), (''CNOT'', [a, q]), (''CNOT'', [q, a])]
      else [])"

fun update_gates :: "arch \<Rightarrow> layout \<Rightarrow> nat \<Rightarrow> gate list \<Rightarrow> (gate list \<times> gate list) option" where
  "update_gates a lay seq [] = Some ([], [])"
| "update_gates a lay seq (g # gs) =
     (case those (map (relocate a lay) (qid g)) of
        None \<Rightarrow> None
      | Some q \<Rightarrow>
          let g' = g\<lparr>qid := q\<rparr>; push = magic_gates lay seq g'
          in if q = [] \<and> op_type g \<in> {''S'', ''Sdag'', ''T'', ''Tdag''} then None
             else case update_gates a lay (seq + length push) gs of
                    None \<Rightarrow> None
                  | Some (kept, to_push_gates) \<Rightarrow> Some (g' # kept, push @ to_push_gates))"

definition prepare_gates :: "arch \<Rightarrow> layout \<Rightarrow> gate list \<Rightarrow> gate list option" where
  "prepare_gates a lay gs =
     map_option (\<lambda>(kept, to_push_gates).
         filter (\<lambda>g. op_type g \<notin> {''S'', ''Sdag'', ''T'', ''Tdag''}) (kept @ to_push_gates))
       (update_gates a lay (length gs) gs)"

subsection \<open>The totals of the program\<close>

text \<open>Sizes are counted over the modules, weighted by how often each module runs.\<close>

definition module_freq :: "(string \<rightharpoonup> nat) \<Rightarrow> string \<Rightarrow> nat" where
  "module_freq module_freqs name = (case module_freqs name of None \<Rightarrow> 1 | Some f \<Rightarrow> f)"

definition count_ops :: "string set \<Rightarrow> gate list \<Rightarrow> nat" where
  "count_ops ops gs = length (filter (\<lambda>g. op_type g \<in> ops) gs)"

fun program_totals :: "(string \<rightharpoonup> nat) \<Rightarrow> (string \<times> gate list) list \<Rightarrow> nat \<times> nat \<times> nat \<Rightarrow> nat \<times> nat \<times> nat" where
  "program_totals freqs [] totals = totals"
| "program_totals freqs ((name, gs) # rest) (total_logical_gates, total_S_gates, total_T_gates) =
     (let f = module_freq freqs name
      in program_totals freqs rest
           (total_logical_gates + length gs * f,
            total_S_gates + count_ops {''S'', ''Sdag''} gs * f,
            total_T_gates + count_ops {''T'', ''Tdag''} gs * f))"

text \<open>The clock totals after each simulated module, with the factor for the factories.\<close>

fun cycle_totals :: "(string \<rightharpoonup> nat) \<Rightarrow> u64 \<Rightarrow> (string \<times> u64 \<times> u64 \<times> u64) list \<Rightarrow>
    u64 \<times> u64 \<times> u64 \<Rightarrow> u64 \<times> u64 \<times> u64" where
  "cycle_totals freqs single_A_latency [] totals = totals"
| "cycle_totals freqs single_A_latency ((name, sc, pc, cc) # rest) (serial, parallel, critical) =
     (let f = of_nat (module_freq freqs name)
      in cycle_totals freqs single_A_latency rest
           ((serial + sc * f) * single_A_latency,
            (parallel + pc * f) * single_A_latency,
            (critical + cc * f) * single_A_latency))"

end
