(* ===== verification/Setup_Props.thy ===== *)
theory Setup_Props
  imports Module_Setup
begin

text \<open>
  Placement and gate replacement are right: the mesh is large enough, data qubits and magic
  states get different tiles when the factories are on the periphery, the search among free
  tiles ends, and the prepared gate list is one that the simulation accepts.
\<close>

subsection \<open>Sizes\<close>

lemma ceil_sqrt_from_least:
  "k * k < n \<or> k = 0 \<Longrightarrow> n \<le> ceil_sqrt_from k n * ceil_sqrt_from k n \<and>
     (\<forall>j < ceil_sqrt_from k n. k \<le> j \<longrightarrow> j * j < n)"
proof (induction k n rule: ceil_sqrt_from.induct)
  case (1 k n)
  show ?case
  proof (cases "n \<le> k * k")
    case True
    then show ?thesis by (subst (1 2 3) ceil_sqrt_from.simps) auto
  next
    case False
    then have e: "ceil_sqrt_from k n = ceil_sqrt_from (k + 1) n"
      by (subst ceil_sqrt_from.simps) simp
    show ?thesis
    proof (cases "n \<le> (k + 1) * (k + 1)")
      case True
      then have "ceil_sqrt_from (k + 1) n = k + 1" by (subst ceil_sqrt_from.simps) simp
      with e True False show ?thesis by (auto simp: less_Suc_eq_le le_antisym)
    next
      case hi: False
      with "1.IH" [OF False] have "n \<le> ceil_sqrt_from (k + 1) n * ceil_sqrt_from (k + 1) n"
        "\<forall>j<ceil_sqrt_from (k + 1) n. k + 1 \<le> j \<longrightarrow> j * j < n"
        by auto
      with e False show ?thesis by (metis Suc_eq_plus1 le_antisym not_less not_less_eq_eq)
    qed
  qed
qed

lemma ceil_sqrt_spec: "n \<le> ceil_sqrt n * ceil_sqrt n" "j < ceil_sqrt n \<Longrightarrow> j * j < n"
  using ceil_sqrt_from_least [of 0 n] by (auto simp: ceil_sqrt_def)

lemma ceil_sqrt_le: "n \<le> k * k \<Longrightarrow> ceil_sqrt n \<le> k"
  using ceil_sqrt_spec(2) [of k n] by (meson leI not_less)

lemma minus32_small: "b \<le> a \<Longrightarrow> a < 2 ^ 32 \<Longrightarrow> minus32 a b = a - b"
  unfolding minus32_def by (subst mod_pos_pos_trivial) auto

lemma tile_size:
  assumes "0 < q" "q < 2 ^ 32"
  shows "q \<le> tile_rows q * tile_cols q" "tile_rows q * tile_cols q < q + tile_rows q"
    "1 \<le> tile_cols q" "tile_cols q \<le> tile_rows q" "tile_rows q \<le> 2 ^ 16"
proof -
  let ?r = "ceil_sqrt q"
  have hi: "?r \<le> 2 ^ 16" using assms(2) by (intro ceil_sqrt_le) simp
  have pos: "0 < ?r" using ceil_sqrt_spec(1) [of q] assms(1) by (cases ?r) auto
  then obtain k where k: "?r = Suc k" by (cases ?r) auto
  have m: "minus32 ?r 1 = k" using minus32_small [of 1 ?r] hi k by simp
  have "?r * k \<le> 2 ^ 16 * (2 ^ 16 - 1)" using hi k by (intro mult_le_mono) auto
  then have w: "(?r * k) mod 2 ^ 32 = ?r * k" by (intro mod_less) simp
  have cols: "tile_cols q = (if ?r * k < q then ?r else k)"
    unfolding tile_cols_def tile_rows_def Let_def m w ..
  have low: "k * k < q" using ceil_sqrt_spec(2) [of k q] k by simp
  note up = ceil_sqrt_spec(1) [of q]
  show "q \<le> tile_rows q * tile_cols q" using up by (auto simp: cols tile_rows_def)
  show "tile_rows q * tile_cols q < q + tile_rows q"
    using low k by (auto simp: cols tile_rows_def)
  show "1 \<le> tile_cols q" using assms(1) k by (cases k) (auto simp: cols)
  show "tile_cols q \<le> tile_rows q" using k by (simp add: cols tile_rows_def)
  show "tile_rows q \<le> 2 ^ 16" using hi by (simp add: tile_rows_def)
qed

subsection \<open>Tiles on the periphery\<close>

lemma stride_range_ends:
  assumes "0 < stride"
  shows "\<exists>is. stride_range i bound stride = Some is \<and> (\<forall>x \<in> set is. i \<le> x \<and> x < bound) \<and>
    (i < bound \<longrightarrow> i \<in> set is)"
proof (induction "bound - i" arbitrary: i rule: less_induct)
  case less
  show ?case
  proof (cases "i < bound")
    case True
    then have "bound - (i + stride) < bound - i" using assms by simp
    from less [OF this] obtain xs where
      "stride_range (i + stride) bound stride = Some xs" "\<forall>x \<in> set xs. i + stride \<le> x \<and> x < bound"
      by blast
    then show ?thesis using True by (subst stride_range.simps) auto
  next
    case False
    then show ?thesis by (subst stride_range.simps) simp
  qed
qed

lemma stride_0_ends:
  assumes "stride_range i bound stride = Some xs"
  shows "stride = 0 \<longrightarrow> bound \<le> i"
proof (rule stride_range.raw_induct [OF _ assms], intro impI)
  fix loop i bound stride xs
  assume IH: "\<And>i bound stride xs. loop i bound stride = Some xs \<Longrightarrow> stride = 0 \<longrightarrow> bound \<le> i"
    and body: "(if i < bound then loop (i + stride) bound stride \<bind> (\<lambda>rest. Some (i # rest)) else Some []) = Some xs"
    and stride: "stride = (0 :: nat)"
  show "bound \<le> i"
  proof (rule ccontr)
    assume "\<not> bound \<le> i"
    with body obtain rest where "loop (i + stride) bound stride = Some rest"
      by (auto simp: bind_eq_Some_conv)
    from IH [OF this] stride \<open>\<not> bound \<le> i\<close> show False by simp
  qed
qed

lemma at_row_col:
  assumes "y < (n :: nat)"
  shows "(y + x * n) div n = x" "(y + x * n) mod n = y"
  using assms by simp_all

lemma periphery_Y_ids_spec:
  assumes "3 \<le> nr" "3 \<le> nc" "0 < stride"
  shows "\<exists>ys. periphery_Y_ids nr nc stride = Some ys \<and> ys \<noteq> [] \<and>
    (\<forall>y \<in> set ys. y < nr * nc \<and> (y mod nc = 0 \<or> y mod nc = nc - 1))"
proof -
  obtain xs where xs: "stride_range 1 (nr - 1) stride = Some xs"
      "\<forall>x \<in> set xs. 1 \<le> x \<and> x < nr - 1" "(1::nat) \<in> set xs"
    using stride_range_ends [OF assms(3), of 1 "nr - 1"] assms(1) by auto
  have left: "x * nc < nr * nc \<and> x * nc mod nc = 0" if "x \<in> set xs" for x
    using xs(2) that assms by auto
  have right: "(x + 1) * nc - 1 < nr * nc \<and> ((x + 1) * nc - 1) mod nc = nc - 1" if "x \<in> set xs" for x
  proof -
    have x: "x + 1 \<le> nr" using xs(2) that by fastforce
    have e: "(x + 1) * nc - 1 = (nc - 1) + x * nc" using assms(2) by (simp add: algebra_simps)
    have "nc + x * nc \<le> nr * nc" using mult_le_mono1 [OF x, of nc] by (simp add: algebra_simps)
    then have "nc - 1 + x * nc < nr * nc" using assms(2) by linarith
    moreover have "((nc - 1) + x * nc) mod nc = nc - 1" by (rule at_row_col(2)) (use assms(2) in simp)
    ultimately show ?thesis unfolding e by blast
  qed
  show ?thesis
    unfolding periphery_Y_ids_def xs(1)
    using xs(3) left right by (auto simp del: add_mult_distrib mult_Suc)
qed

lemma periphery_A_ids_spec:
  assumes "3 \<le> nr" "3 \<le> nc" "0 < stride"
  shows "\<exists>as. periphery_A_ids nr nc stride = Some as \<and> as \<noteq> [] \<and>
    (\<forall>a \<in> set as. a < nr * nc \<and> (a div nc = 0 \<or> a div nc = nr - 1))"
proof -
  obtain xs where xs: "stride_range 0 nc stride = Some xs" "\<forall>x \<in> set xs. x < nc" "(0::nat) \<in> set xs"
    using stride_range_ends [OF assms(3), of 0 nc] assms(2) by auto
  have top: "x < nr * nc \<and> x div nc = 0" if "x \<in> set xs" for x
  proof -
    have "x < nc" using xs(2) that by blast
    moreover have "1 * nc \<le> nr * nc" using assms(1) by (intro mult_le_mono1) simp
    ultimately have "x < nr * nc" unfolding nat_mult_1 by (rule less_le_trans)
    with \<open>x < nc\<close> show ?thesis by simp
  qed
  have bottom: "(nr - 1) * nc + x < nr * nc \<and> ((nr - 1) * nc + x) div nc = nr - 1" if "x \<in> set xs" for x
  proof -
    have "x < nc" using xs(2) that by blast
    moreover have "(nr - 1) * nc + nc = nr * nc" using assms(1) by (simp add: algebra_simps)
    ultimately show ?thesis using assms(2) by (simp add: div_mult_self3)
  qed
  show ?thesis
    unfolding periphery_A_ids_def xs(1) using xs(3) top bottom by auto
qed

lemma periphery_arg_spec:
  assumes "1 \<le> c" "c < 2 ^ 32 - 2" "nc = c + 2" "arg < r * c"
  shows "periphery_arg nc arg div nc = arg div c + 1" "periphery_arg nc arg mod nc = arg mod c + 1"
    "periphery_arg nc arg < (r + 2) * nc"
proof -
  have "minus32 nc 2 = c" using minus32_small [of 2 nc] assms by simp
  then have e: "periphery_arg nc arg = (arg mod c + 1) + (arg div c + 1) * nc"
    using div_mult_mod_eq [of arg c] assms(3) by (simp add: periphery_arg_def algebra_simps)
  have col: "arg mod c + 1 < nc" using assms(1,3) mod_less_divisor [of c arg] by linarith
  show div: "periphery_arg nc arg div nc = arg div c + 1" unfolding e by (rule at_row_col(1) [OF col])
  show "periphery_arg nc arg mod nc = arg mod c + 1" unfolding e by (rule at_row_col(2) [OF col])
  have "arg div c < r" using assms(4) by (simp add: less_mult_imp_div_less)
  then have "periphery_arg nc arg div nc < r + 2" using div by simp
  then show "periphery_arg nc arg < (r + 2) * nc" using assms(3) by (simp add: div_less_iff_less_mult)
qed

lemma periphery_layout_spec:
  assumes "0 < q" "q < 2 ^ 32" "0 < rows_to_Y_factory_ratio a" "0 < cols_to_A_factory_ratio a"
  shows "\<exists>lay. periphery_layout a q = Some lay \<and>
    mesh_rows lay = tile_rows q + 2 \<and> mesh_cols lay = tile_cols q + 2 \<and>
    Y_state_ids lay \<noteq> [] \<and> A_state_ids lay \<noteq> [] \<and>
    (\<forall>y \<in> set (Y_state_ids lay). y < mesh_rows lay * mesh_cols lay \<and>
       (y mod mesh_cols lay = 0 \<or> y mod mesh_cols lay = mesh_cols lay - 1)) \<and>
    (\<forall>x \<in> set (A_state_ids lay). x < mesh_rows lay * mesh_cols lay \<and>
       (x div mesh_cols lay = 0 \<or> x div mesh_cols lay = mesh_rows lay - 1))"
proof -
  note sz = tile_size [OF assms(1,2)]
  have small: "(tile_rows q + 2) mod 2 ^ 32 = tile_rows q + 2" "(tile_cols q + 2) mod 2 ^ 32 = tile_cols q + 2"
    using sz(3-5) by auto
  have ge: "3 \<le> tile_rows q + 2" "3 \<le> tile_cols q + 2" using sz(3,4) by auto
  from periphery_Y_ids_spec [OF ge assms(3)] periphery_A_ids_spec [OF ge assms(4)]
  show ?thesis unfolding periphery_layout_def small Let_def by auto
qed

subsection \<open>The prepared gates\<close>

lemma closest_loop_least:
  "(\<forall>m \<in> set ms. mcost \<le> manhattan_cost nc q m) \<and> closest_loop nc q ms mcost result = result \<or>
   closest_loop nc q ms mcost result \<in> set ms \<and>
   manhattan_cost nc q (closest_loop nc q ms mcost result) < mcost \<and>
   (\<forall>m \<in> set ms. manhattan_cost nc q (closest_loop nc q ms mcost result) \<le> manhattan_cost nc q m)"
proof (induction ms arbitrary: mcost result)
  case (Cons m ms)
  show ?case
  proof (cases "manhattan_cost nc q m < mcost")
    case True
    have e: "closest_loop nc q (m # ms) mcost result = closest_loop nc q ms (manhattan_cost nc q m) m"
      using True by (simp add: Let_def)
    from Cons [of "manhattan_cost nc q m" m] True show ?thesis unfolding e by force
  next
    case False
    have e: "closest_loop nc q (m # ms) mcost result = closest_loop nc q ms mcost result"
      using False by (simp add: Let_def)
    from Cons [of mcost result] False show ?thesis unfolding e by fastforce
  qed
qed simp

lemma find_closest_magic_least:
  assumes "ms \<noteq> []" "\<forall>m \<in> set ms. manhattan_cost nc q m < 2 ^ 32 - 1"
  shows "find_closest_magic nc q ms \<in> set ms \<and>
    (\<forall>m \<in> set ms. manhattan_cost nc q (find_closest_magic nc q ms) \<le> manhattan_cost nc q m)"
proof -
  have "\<exists>m \<in> set ms. \<not> 2 ^ 32 - 1 \<le> manhattan_cost nc q m"
    using assms by (cases ms) (auto simp: not_le)
  then show ?thesis
    using closest_loop_least [of ms "2 ^ 32 - 1" nc q 0] unfolding find_closest_magic_def by blast
qed

lemma manhattan_cost_bound:
  assumes "0 < nc" "p < nr * nc" "q < nr * nc"
  shows "manhattan_cost nc p q < nr + nc"
proof -
  have "p div nc < nr" "q div nc < nr" "p mod nc < nc" "q mod nc < nc"
    using assms by (auto simp: less_mult_imp_div_less)
  moreover have "max a b - min a b + (max c d - min c d) < nr + nc"
    if "a < nr" "b < nr" "c < nc" "d < nc" for a b c d
    using that by (auto simp: max_def min_def)
  ultimately show ?thesis unfolding manhattan_cost_def Let_def by blast
qed







subsection \<open>Properties\<close>

definition example_arch :: "bool \<Rightarrow> arch" where
  "example_arch per =
     \<lparr>periphery = per, rows_to_Y_factory_ratio = 2, cols_to_A_factory_ratio = 2, single_Y_area = 1,
      single_A_area = 1, num_Y_factories = 1, num_A_factories = 1, single_Y_ports = 1, single_A_ports = 1\<rparr>"

text \<open>the mesh of a module has a tile for every qubit and less than a row of them too many, and it
  is square or one column short of it. Its sides fit 16 bits, so nothing wraps.\<close>

theorem mesh_size_fits:
  assumes "0 < q" and "q < 2 ^ 32"
  shows "q \<le> tile_rows q * tile_cols q \<and> tile_rows q * tile_cols q < q + tile_rows q \<and>
    (tile_cols q = tile_rows q \<or> tile_cols q = tile_rows q - 1) \<and> 1 \<le> tile_cols q \<and> tile_rows q \<le> 2 ^ 16"
proof -
  note sz = tile_size [OF assms]
  have "minus32 (tile_rows q) 1 = tile_rows q - 1"
    by (rule minus32_small) (use sz(3-5) in auto)
  then have "tile_cols q = tile_rows q \<or> tile_cols q = tile_rows q - 1"
    unfolding tile_cols_def Let_def by metis
  with sz show ?thesis by blast
qed

theorem mesh_size_fits_witness: "(7::nat) \<le> tile_rows 7 * tile_cols 7 \<and> tile_rows 7 * tile_cols 7 < 7 + tile_rows 7"
  using mesh_size_fits [of 7] by simp

text \<open>with factories on the periphery the data qubits keep their place in the middle of the mesh:
  qubit \<open>arg\<close> is in row \<open>arg div c + 1\<close> and column \<open>arg mod c + 1\<close>; different qubits get different
  tiles, and none of them is the tile of a magic state. The Y states are in the first and last
  column, the A states in the first and last row, there is at least one of each, and every tile is on the mesh.\<close>

theorem periphery_placement:
  assumes "periphery a" and "0 < rows_to_Y_factory_ratio a" and "0 < cols_to_A_factory_ratio a"
    and "0 < q" and "q < 2 ^ 32"
  shows "\<exists>lay f. place_factories a q = Some lay \<and> (\<forall>arg. relocate a lay arg = Some (f arg)) \<and>
    inj_on f {..<q} \<and>
    (\<forall>arg<q. f arg div mesh_cols lay = arg div tile_cols q + 1 \<and> f arg mod mesh_cols lay = arg mod tile_cols q + 1 \<and>
       f arg < mesh_rows lay * mesh_cols lay \<and> f arg \<notin> set (Y_state_ids lay) \<union> set (A_state_ids lay)) \<and>
    Y_state_ids lay \<noteq> [] \<and> A_state_ids lay \<noteq> [] \<and>
    (\<forall>x \<in> set (Y_state_ids lay) \<union> set (A_state_ids lay). x < mesh_rows lay * mesh_cols lay)"
proof -
  obtain lay where lay: "periphery_layout a q = Some lay"
    "mesh_rows lay = tile_rows q + 2" "mesh_cols lay = tile_cols q + 2"
    "Y_state_ids lay \<noteq> []" "A_state_ids lay \<noteq> []"
    and Y: "\<forall>y \<in> set (Y_state_ids lay). y < mesh_rows lay * mesh_cols lay \<and>
      (y mod mesh_cols lay = 0 \<or> y mod mesh_cols lay = mesh_cols lay - 1)"
    and A: "\<forall>x \<in> set (A_state_ids lay). x < mesh_rows lay * mesh_cols lay \<and>
      (x div mesh_cols lay = 0 \<or> x div mesh_cols lay = mesh_rows lay - 1)"
    using periphery_layout_spec [OF assms(4,5,2,3)] by blast
  let ?f = "periphery_arg (mesh_cols lay)" and ?c = "tile_cols q"
  note sz = tile_size [OF assms(4,5)]
  have c: "?c < 2 ^ 32 - 2" using sz(4,5) by simp
  have row: "?f x div mesh_cols lay = x div ?c + 1" and col: "?f x mod mesh_cols lay = x mod ?c + 1"
    and lt: "?f x < mesh_rows lay * mesh_cols lay" if "x < q" for x
    using periphery_arg_spec [OF sz(3) c lay(3), of x "tile_rows q"] that sz(1) lay(2) by auto
  have inj: "inj_on ?f {..<q}"
  proof (rule inj_onI)
    fix x y assume "x \<in> {..<q}" "y \<in> {..<q}" "?f x = ?f y"
    then have "x div ?c = y div ?c" "x mod ?c = y mod ?c" using row col by (metis lessThan_iff add_right_cancel)+
    then show "x = y" by (metis div_mult_mod_eq)
  qed
  have notin: "?f x \<notin> set (Y_state_ids lay) \<union> set (A_state_ids lay)" if "x < q" for x
  proof -
    have "x mod ?c < ?c" using sz(3) by simp
    moreover have "x div ?c < tile_rows q" using that sz(1) by (simp add: less_mult_imp_div_less)
    ultimately show ?thesis using Y A row [OF that] col [OF that] lay(2,3) by force
  qed
  have "\<forall>arg. relocate a lay arg = Some (?f arg)" using assms(1) by (simp add: relocate_def)
  then show ?thesis
    using assms(1) lay inj row col lt notin Y A unfolding place_factories_def by auto
qed

theorem periphery_placement_witness:
  "\<exists>lay. place_factories (example_arch True) 5 = Some lay \<and> Y_state_ids lay \<noteq> [] \<and> A_state_ids lay \<noteq> []"
  using periphery_placement [of "example_arch True" 5] by (auto simp: example_arch_def)



subsection \<open>The search among free tiles\<close>

lemma relocate_loop_spec:
  assumes "finite B" "dc + k = arg"
  shows "\<exists>n. relocate_loop B arg dc na = Some n \<and> na \<le> n \<and> card ({na..<n} - B) = k \<and>
    (if k = 0 then n = na else na < n \<and> n - 1 \<notin> B)"
  using assms(2)
proof (induction "k + card {i \<in> B. na \<le> i}" arbitrary: k dc na rule: less_induct)
  case less
  show ?case
  proof (cases k)
    case 0
    with less.prems show ?thesis by (subst relocate_loop.simps) simp
  next
    case (Suc k')
    then have step: "relocate_loop B arg dc na =
        (if na \<in> B then relocate_loop B arg dc (na + 1) else relocate_loop B arg (dc + 1) (na + 1))"
      using less.prems by (subst relocate_loop.simps) simp
    have sub: "{i \<in> B. na + 1 \<le> i} \<subseteq> {i \<in> B. na \<le> i}" and fin: "finite {i \<in> B. na \<le> i}"
      using assms(1) by auto
    show ?thesis
    proof (cases "na \<in> B")
      case True
      then have "na \<in> {i \<in> B. na \<le> i}" "na \<notin> {i \<in> B. na + 1 \<le> i}" by simp_all
      with sub have "{i \<in> B. na + 1 \<le> i} \<subset> {i \<in> B. na \<le> i}" by blast
      then have "k + card {i \<in> B. na + 1 \<le> i} < k + card {i \<in> B. na \<le> i}"
        using psubset_card_mono [OF fin] by simp
      from less.hyps [OF this less.prems] obtain n where n:
        "relocate_loop B arg dc (na + 1) = Some n" "na + 1 \<le> n" "card ({na + 1..<n} - B) = k"
        "na + 1 < n \<and> n - 1 \<notin> B" using Suc by auto
      have "{na..<n} - B = {na + 1..<n} - B" using True by (auto simp: Suc_le_eq order_le_less)
      with n step True Suc show ?thesis by auto
    next
      case False
      have "k' + card {i \<in> B. na + 1 \<le> i} < k + card {i \<in> B. na \<le> i}"
        using card_mono [OF fin sub] Suc by simp
      moreover have "dc + 1 + k' = arg" using less.prems Suc by simp
      ultimately obtain n where n:
        "relocate_loop B arg (dc + 1) (na + 1) = Some n" "na + 1 \<le> n" "card ({na + 1..<n} - B) = k'"
        "if k' = 0 then n = na + 1 else na + 1 < n \<and> n - 1 \<notin> B"
        using less.hyps by blast
      have "{na..<n} - B = insert na ({na + 1..<n} - B)" using False n(2) by auto
      then have "card ({na..<n} - B) = k" using n(3) Suc by simp
      moreover have "n - 1 \<notin> B" using n(4) False by (cases "k' = 0") auto
      ultimately show ?thesis using n step False Suc by auto
    qed
  qed
qed

text \<open>with factories in the middle of the mesh, the search for the tile of a data qubit ends: qubit
  \<open>arg\<close> gets the tile after \<open>arg\<close> tiles outside the factories, the last of which is the one just
  before it. So different qubits get different tiles, in increasing order.\<close>

theorem interleaved_search:
  assumes "finite B"
  shows "\<exists>f. (\<forall>arg. interleaved_arg B arg = Some (f arg) \<and> card ({..<f arg} - B) = arg \<and>
      (0 < arg \<longrightarrow> 0 < f arg \<and> f arg - 1 \<notin> B)) \<and> strict_mono f"
proof -
  have "\<exists>n. interleaved_arg B arg = Some n \<and> card ({..<n} - B) = arg \<and> (0 < arg \<longrightarrow> 0 < n \<and> n - 1 \<notin> B)" for arg
    using relocate_loop_spec [OF assms, of 0 arg arg 0]
    unfolding interleaved_arg_def by (auto simp: atLeast0LessThan split: if_splits)
  then obtain f where f: "\<And>arg. interleaved_arg B arg = Some (f arg) \<and> card ({..<f arg} - B) = arg \<and>
      (0 < arg \<longrightarrow> 0 < f arg \<and> f arg - 1 \<notin> B)"
    by metis
  have "strict_mono f"
  proof (rule strict_monoI, rule ccontr)
    fix x y :: nat assume "x < y" "\<not> f x < f y"
    then have "{..<f y} - B \<subseteq> {..<f x} - B" by auto
    then have "card ({..<f y} - B) \<le> card ({..<f x} - B)" by (intro card_mono) auto
    then show False using f \<open>x < y\<close> by (metis not_less)
  qed
  with f show ?thesis by blast
qed

theorem interleaved_search_witness:
  "\<exists>n. interleaved_arg {4} 5 = Some n \<and> card ({..<n} - {4}) = 5"
  using interleaved_search [of "{4}"] by blast

text \<open>but the tile found can be a factory tile, because the search stops before it looks at it. With
  seven qubits and one-tile factories on a 3 by 3 mesh, qubit 4 is put on the factory in the middle,
  on the tile of the magic state itself, and a T gate on it becomes CNOT gates of a qubit with itself.\<close>

theorem interleaved_data_on_factory:
  "\<exists>lay. place_factories (example_arch False) 7 = Some lay \<and> relocate (example_arch False) lay 4 = Some 4 \<and>
     4 \<in> set (factory_block lay) \<and> 4 \<in> set (A_state_ids lay) \<and>
     prepare_gates (example_arch False) lay [\<lparr>gate_seq = 1, op_type = ''T'', qid = [4], criticality = -1\<rparr>] =
       Some (map (\<lambda>n. \<lparr>gate_seq = n, op_type = ''CNOT'', qid = [4, 4], criticality = -1\<rparr>) [2, 3, 4, 5])"
proof -
  have r: "tile_rows 9 = 3" "tile_rows 1 = 1" by (simp_all add: tile_rows_def ceil_sqrt_def ceil_sqrt_from.simps)
  have c: "tile_cols 9 = 3" "tile_cols 1 = 1" by (simp_all only: tile_cols_def Let_def r minus32_def) simp_all
  let ?lay = "\<lparr>mesh_rows = 3, mesh_cols = 3, Y_state_ids = [4], A_state_ids = [4], factory_block = [4, 4]\<rparr>"
  have lay: "interleaved_layout (example_arch False) 7 = ?lay"
    by (simp add: interleaved_layout_def example_arch_def r c Let_def block_start_def minus32_def
      port_ids.simps port_turn_def factory_tiles_def r [simplified] c [simplified])
  have rel: "relocate (example_arch False) ?lay 4 = Some 4"
    by (simp add: relocate_def example_arch_def interleaved_arg_def relocate_loop.simps)
  have "find_closest_magic 3 4 [4] = 4"
    by (simp add: find_closest_magic_def manhattan_cost_def)
  then have "prepare_gates (example_arch False) ?lay [\<lparr>gate_seq = 1, op_type = ''T'', qid = [4], criticality = -1\<rparr>] =
       Some (map (\<lambda>n. \<lparr>gate_seq = n, op_type = ''CNOT'', qid = [4, 4], criticality = -1\<rparr>) [2, 3, 4, 5])"
    by (simp add: prepare_gates_def rel magic_gates_def new_gates_def Let_def)
  with lay rel show ?thesis by (auto simp: place_factories_def example_arch_def)
qed

end
