(* ===== verification/Factory_Sizing.thy ===== *)
theory Factory_Sizing
  imports Setup_Props
begin

text \<open>
  The sizing of the magic-state factories and the reported numbers (\<open>braidflash.cpp\<close>:
  \<open>set_surface_code_cycle\<close>, \<open>set_distillation_level\<close>, \<open>get_footprint_at_level\<close>,
  \<open>get_footprint_latency\<close>, \<open>compare_manhattan_costs\<close>). Comparisons of doubles are boolean
  parameters, and areas computed with doubles are parameters.
\<close>

subsection \<open>The surface code cycle\<close>

datatype tech = Ion | Sup | Dot | Other_tech

definition op_delays :: "tech \<Rightarrow> string \<Rightarrow> nat" where
  "op_delays t op =
     (if op = ''CNOT'' then (case t of Dot \<Rightarrow> 600 | _ \<Rightarrow> 40)
      else if op = ''MeasZ'' then (case t of Ion \<Rightarrow> 10 | Sup \<Rightarrow> 140 | _ \<Rightarrow> 20)
      else 1)"

definition set_surface_code_cycle :: "tech \<Rightarrow> nat option" where
  "set_surface_code_cycle t =
     (if t = Other_tech then None
      else Some (op_delays t ''PrepZ'' + 2 * op_delays t ''H'' + 4 * op_delays t ''CNOT'' + op_delays t ''MeasZ''))"

subsection \<open>Distillation\<close>

datatype factory_design = Reed_Muller | Bravyi_Haah | Other_design

datatype magic = Y_magic | A_magic

text \<open>\<open>too_noisy n\<close>: the error after \<open>n\<close> levels is above the logical error rate.\<close>

partial_function (option) distillation_loop :: "(nat \<Rightarrow> bool) \<Rightarrow> nat \<Rightarrow> nat option" where
  "distillation_loop too_noisy distillation_level =
     (if too_noisy distillation_level then distillation_loop too_noisy (distillation_level + 1)
      else Some distillation_level)"

definition set_distillation_level :: "factory_design \<Rightarrow> (nat \<Rightarrow> bool) \<Rightarrow> nat option" where
  "set_distillation_level design too_noisy =
     (if design = Reed_Muller then distillation_loop too_noisy 0 else Some 0)"

definition get_footprint_at_level :: "factory_design \<Rightarrow> magic \<Rightarrow> nat \<Rightarrow> nat \<Rightarrow> nat" where
  "get_footprint_at_level design m l L =
     (if design = Reed_Muller
      then (\<Sum>i\<leftarrow>[0..<L - l + 2]. (case m of Y_magic \<Rightarrow> 7 | A_magic \<Rightarrow> 15) ^ i)
      else 0)"

text \<open>The bisection for the code distance: \<open>small_enough d\<close> is the comparison of doubles.\<close>

function distance_search :: "(nat \<Rightarrow> bool) \<Rightarrow> nat \<Rightarrow> nat \<Rightarrow> nat" where
  "distance_search small_enough low_limit high_limit =
     (let d = (high_limit + low_limit) div 2
      in if high_limit - low_limit > 1 \<and> d > low_limit \<and> d < high_limit
         then (if small_enough d then distance_search small_enough low_limit d
               else distance_search small_enough d high_limit)
         else d)"
  by pat_completeness auto
termination
  by (relation "measure (\<lambda>(P, low, high). high - low)") auto

declare distance_search.simps [simp del]

text \<open>\<open>area n d\<close> is the footprint of \<open>n\<close> logical tiles at distance \<open>d\<close>, \<open>plain_area\<close> the one of a
  single tile at the program's code distance.\<close>

definition get_footprint_latency ::
    "(nat \<Rightarrow> nat \<Rightarrow> bool) \<Rightarrow> (nat \<Rightarrow> nat \<Rightarrow> nat) \<Rightarrow> nat \<Rightarrow> factory_design \<Rightarrow> magic \<Rightarrow> nat \<Rightarrow> (nat \<times> nat) option" where
  "get_footprint_latency small_enough area plain_area design m distillation_level =
     (case design of
        Reed_Muller \<Rightarrow>
          (let levels = [1..<distillation_level + 1];
               code_distance_at_level = map (\<lambda>l. distance_search (small_enough l) 0 50) levels;
               footprint_at_level = map2 (\<lambda>l d. area (get_footprint_at_level design m l distillation_level) d)
                 levels code_distance_at_level;
               latency_at_level = map (\<lambda>d. 10 * d) code_distance_at_level
           in Some (if distillation_level > 0 then (foldl max 0 footprint_at_level, sum_list latency_at_level)
                    else (plain_area, 1)))
      | Bravyi_Haah \<Rightarrow> Some (0, 0)
      | Other_design \<Rightarrow> None)"

subsection \<open>Lengths and criticalities of the braids\<close>

record costs =
  mcost :: nat
  event_count :: nat
  criticality_hist :: "nat \<Rightarrow> nat"
  length_hist :: "nat \<Rightarrow> nat"

definition bin_width :: "nat \<Rightarrow> nat" where
  "bin_width m = (if m div 20 = 0 then 1 else m div 20)"

definition cost_gate :: "nat \<Rightarrow> nat \<Rightarrow> nat \<Rightarrow> costs \<Rightarrow> gate \<Rightarrow> costs" where
  "cost_gate crit_binwidth len_binwidth nc s g =
     (if op_type g = ''CNOT''
      then let c = manhattan_cost nc (qid g ! 0) (qid g ! 1);
               crit_binidx = nat (criticality g mod 2 ^ 32) div crit_binwidth; len_binidx = c div len_binwidth
           in s\<lparr>mcost := mcost s + c, event_count := event_count s + 7,
                criticality_hist := (criticality_hist s)(crit_binidx := criticality_hist s crit_binidx + 1),
                length_hist := (length_hist s)(len_binidx := length_hist s len_binidx + 1)\<rparr>
      else if op_type g = ''H'' then s\<lparr>event_count := event_count s + 2\<rparr>
      else s\<lparr>event_count := event_count s + 1\<rparr>)"

text \<open>The graphs of the modules, with the qubit counts the program had: first those of the plain, then
  those of the optimised layout. The results are the two sums of each kind.\<close>

definition cost_module :: "nat \<Rightarrow> nat \<Rightarrow> costs \<Rightarrow> nat \<times> gate list \<Rightarrow> costs" where
  "cost_module crit_binwidth len_binwidth s m =
     (case m of (q_count, gs) \<Rightarrow> foldl (cost_gate crit_binwidth len_binwidth (tile_cols q_count)) s gs)"

definition compare_manhattan_costs ::
    "nat \<Rightarrow> nat \<Rightarrow> (nat \<times> gate list) list \<Rightarrow> (nat \<times> gate list) list \<Rightarrow> costs \<Rightarrow>
       ((nat \<times> nat) \<times> (nat \<times> nat)) \<times> costs" where
  "compare_manhattan_costs max_crit max_len all_dags all_dags_opt hists =
     (let s0 = hists\<lparr>mcost := 0, event_count := 0\<rparr>;
          s1 = foldl (cost_module (bin_width max_crit) (bin_width max_len)) s0 all_dags;
          s2 = foldl (cost_module (bin_width max_crit) (bin_width max_len)) s1 all_dags_opt;
          mcost_opt = 0; event_count_opt = 0
      in (((mcost s2, mcost_opt), (event_count s2, event_count_opt)), s2))"

subsection \<open>The search for the code distance\<close>

lemma distance_search_step:
  "distance_search P low high =
     (if high - low > 1
      then (if P ((high + low) div 2) then distance_search P low ((high + low) div 2)
            else distance_search P ((high + low) div 2) high)
      else (high + low) div 2)"
  by (subst distance_search.simps) (auto simp: Let_def)

lemma distance_search_boundary:
  assumes "low < high"
  shows "low \<le> distance_search P low high \<and> distance_search P low high < high \<and>
    (distance_search P low high = low \<or> \<not> P (distance_search P low high)) \<and>
    (distance_search P low high + 1 = high \<or> P (distance_search P low high + 1))"
  using assms
proof (induction "high - low" arbitrary: low high rule: less_induct)
  case less
  let ?d = "(high + low) div 2"
  show ?case
  proof (cases "high - low > 1")
    case True
    then have d: "low < ?d" "?d < high" by auto
    show ?thesis
    proof (cases "P ?d")
      case p: True
      have e: "distance_search P low high = distance_search P low ?d"
        using True p by (subst distance_search_step) simp
      have "?d - low < high - low" using d by linarith
      from less.hyps [OF this d(1)] p d(2) show ?thesis unfolding e by auto
    next
      case p: False
      have e: "distance_search P low high = distance_search P ?d high"
        using True p by (subst distance_search_step) simp
      have "high - ?d < high - low" using d by linarith
      from less.hyps [OF this d(2)] p d(1) show ?thesis unfolding e by auto
    qed
  next
    case False
    then have h: "high = low + 1" using less.prems by simp
    have "distance_search P low high = low" unfolding h by (subst distance_search_step) simp
    then show ?thesis using h by simp
  qed
qed

text \<open>the bisection for the code distance of a distillation level, described as the search for the
  smallest distance that is good enough, ends one step before it: it returns a distance below 50 that
  is not good enough (or 0) and whose successor is (or is 50). If good distances are exactly those
  from some \<open>n\<close> between 1 and 49 on, the result is \<open>n - 1\<close>.\<close>

theorem distance_search_one_short:
  "let d = distance_search small_enough 0 50
   in d < 50 \<and> (d = 0 \<or> \<not> small_enough d) \<and> (d = 49 \<or> small_enough (d + 1)) \<and>
      (\<forall>n. 1 \<le> n \<longrightarrow> n < 50 \<longrightarrow> (\<forall>k. small_enough k \<longleftrightarrow> n \<le> k) \<longrightarrow> d = n - 1)"
proof -
  define d where "d = distance_search small_enough 0 50"
  have b: "d < 50" "d = 0 \<or> \<not> small_enough d" "d = 49 \<or> small_enough (d + 1)"
    using distance_search_boundary [of 0 50 small_enough] unfolding d_def by auto
  have "d = n - 1" if "1 \<le> n" "n < 50" "\<forall>k. small_enough k \<longleftrightarrow> n \<le> k" for n
    using b that by (cases "d = 0") auto
  with b show ?thesis unfolding d_def [symmetric] Let_def by blast
qed

theorem distance_search_one_short_witness:
  "distance_search (\<lambda>d. 7 \<le> d) 0 50 = 6"
  using distance_search_one_short [of "\<lambda>d. 7 \<le> d"] by (auto simp: Let_def)

subsection \<open>The reported totals\<close>

text \<open>The weighted sum that the totals amount to: the module \<open>i\<close> places before the end is multiplied by the
  factory latency \<open>i + 1\<close> times.\<close>

fun compounded :: "u64 \<Rightarrow> u64 list \<Rightarrow> u64" where
  "compounded L [] = 0"
| "compounded L (x # xs) = x * L ^ (length xs + 1) + compounded L xs"

lemma compounded_from:
  "cycle_totals freqs L mods (s, p, c) =
     (s * L ^ length mods + compounded L (map (\<lambda>(n, x, y, z). x * of_nat (module_freq freqs n)) mods),
      p * L ^ length mods + compounded L (map (\<lambda>(n, x, y, z). y * of_nat (module_freq freqs n)) mods),
      c * L ^ length mods + compounded L (map (\<lambda>(n, x, y, z). z * of_nat (module_freq freqs n)) mods))"
  by (induction mods arbitrary: s p c) (auto simp: algebra_simps Let_def)

text \<open>the totals of serial, parallel and critical cycles, modulo 2 to the 64: because the factor for the
  factory latency is applied to the running totals after every module, the cycles of a module are
  multiplied by it once for itself and once more for every module after it. With the Bravyi-Haah
  design, whose latency the code leaves at 0, all three totals are 0.\<close>

theorem cycle_totals_compound:
  "cycle_totals freqs L mods (0, 0, 0) =
     (compounded L (map (\<lambda>(n, x, y, z). x * of_nat (module_freq freqs n)) mods),
      compounded L (map (\<lambda>(n, x, y, z). y * of_nat (module_freq freqs n)) mods),
      compounded L (map (\<lambda>(n, x, y, z). z * of_nat (module_freq freqs n)) mods)) \<and>
   (\<exists>area. get_footprint_latency small area' plain Bravyi_Haah m lvl = Some (area, 0)) \<and>
   cycle_totals freqs 0 mods (0, 0, 0) = (0, 0, 0)"
proof -
  have z: "compounded 0 xs = 0" for xs by (induction xs) auto
  show ?thesis by (simp add: compounded_from z get_footprint_latency_def)
qed

lemma example_default_layout:
  "interleaved_layout ((example_arch False)\<lparr>single_Y_area := 0, single_A_area := 0\<rparr>) 9 =
     \<lparr>mesh_rows = 3, mesh_cols = 3, Y_state_ids = [5], A_state_ids = [5], factory_block = []\<rparr>"
proof -
  have r: "tile_rows 9 = 3" "tile_rows 0 = 0" by (simp_all add: tile_rows_def ceil_sqrt_def ceil_sqrt_from.simps)
  have c: "tile_cols 9 = 3" "tile_cols 0 = 2 ^ 32 - 1"
    by (simp_all only: tile_cols_def Let_def r minus32_def) simp_all
  show ?thesis
    by (simp add: interleaved_layout_def example_arch_def r c Let_def block_start_def minus32_def
      port_ids.simps port_turn_def factory_tiles_def)
qed

end
