(* ===== verification/Circuit_Opt.thy ===== *)
theory Circuit_Opt
  imports Lpfs_Parse Complex_Main
begin

text \<open>
  The circuit optimiser of the compiler (\<open>llvm/lib/Transforms/Scaffold/Optimize.cpp\<close>): from the
  calls of the flattened main module to a list of gates, and the peephole pass over it. A read
  outside the gate vector is the outcome \<open>Out_of_range\<close>; a pass that does not end is None.
\<close>

subsection \<open>Gates\<close>

record opgate =
  gateTy :: char
  target :: nat
  control1 :: nat
  control2 :: nat
  hasParam :: bool
  param :: real

abbreviation no_gate :: char where
  "no_gate \<equiv> CHR 0x00"

definition uint_max :: nat where
  "uint_max = 2 ^ 32 - 1"

text \<open>The letter of a gate function, by the names that the code searches for, in its order.\<close>

fun first_match :: "(string \<times> char) list \<Rightarrow> string \<Rightarrow> char" where
  "first_match [] fName = no_gate"
| "first_match ((needle, ty) # rest) fName =
     (if find_sub needle fName \<noteq> None then ty else first_match rest fName)"

definition gate_letters :: "(string \<times> char) list" where
  "gate_letters =
     [(''H.'', CHR ''h''), (''CNOT'', CHR ''c''), (''Tof'', CHR ''o''), (''MeasX'', CHR ''X''),
      (''MeasZ'', CHR ''Z''), (''PrepX'', CHR ''n''), (''PrepZ'', CHR ''m''), (''Sdag'', CHR ''S''),
      (''S.'', CHR ''s''), (''T.'', CHR ''t''), (''Tdag'', CHR ''T''), (''Rz'', CHR ''r''),
      (''X.'', CHR ''x''), (''Z.'', CHR ''z'')]"

definition gate_letter :: "string \<Rightarrow> char" where
  "gate_letter fName = first_match gate_letters fName"

subsection \<open>Qubit numbers\<close>

text \<open>A declared array of qubits: its name and the sizes of its dimensions. An operand: the array
  it belongs to and its indices, or a parameter value.\<close>

datatype operand = Qubit string "nat list" | Param real

text \<open>The number of names made for an array: \<open>dMul *= dMul * dimSize\<close> for each dimension.\<close>

definition name_count :: "nat list \<Rightarrow> nat" where
  "name_count dims = foldl (\<lambda>dMul d. dMul * (dMul * d)) 1 dims"

definition qubit_name :: "string \<Rightarrow> nat \<Rightarrow> string" where
  "qubit_name name k = name @ ''_'' @ show_nat k"

definition bit_names :: "(string \<times> nat list) list \<Rightarrow> string list" where
  "bit_names decls =
     '' '' # concat (map (\<lambda>(name, dims). map (qubit_name name) [0..<name_count dims]) decls)"

text \<open>The flat index: every index but the last times the size of the next dimension, and the last.\<close>

definition flat_index :: "nat list \<Rightarrow> nat list \<Rightarrow> nat" where
  "flat_index dims idx =
     sum_list (map (\<lambda>n. idx ! n * dims ! (n + 1)) [0..<length idx - 1]) + last idx"

definition operand_name :: "(string \<times> nat list) list \<Rightarrow> string \<Rightarrow> nat list \<Rightarrow> string" where
  "operand_name decls name idx =
     qubit_name name (case map_of decls name of None \<Rightarrow> 0 | Some dims \<Rightarrow> flat_index dims idx)"

text \<open>The place of a name in the list of names, searched from 1 on; None when it is not there.\<close>

fun find_bit :: "string \<Rightarrow> nat \<Rightarrow> string list \<Rightarrow> nat option" where
  "find_bit name i [] = None"
| "find_bit name i (b # bs) = (if name = b then Some i else find_bit name (i + 1) bs)"

definition set_operand :: "nat \<Rightarrow> nat \<Rightarrow> opgate \<Rightarrow> opgate" where
  "set_operand ToC i g =
     (if gateTy g = CHR ''c''
      then (if ToC = 0 then g\<lparr>control1 := i\<rparr> else if ToC = 1 then g\<lparr>target := i\<rparr> else g)
      else if gateTy g = CHR ''o''
      then (if ToC = 0 then g\<lparr>control1 := i\<rparr> else if ToC = 1 then g\<lparr>control2 := i\<rparr>
            else if ToC = 2 then g\<lparr>target := i\<rparr> else g)
      else (if ToC = 0 then g\<lparr>target := i\<rparr> else g))"

fun read_operands :: "(string \<times> nat list) list \<Rightarrow> string list \<Rightarrow> nat \<Rightarrow> operand list \<Rightarrow> opgate \<Rightarrow> opgate" where
  "read_operands decls B ToC [] g = g"
| "read_operands decls B ToC (Param v # ops) g =
     read_operands decls B ToC ops (g\<lparr>hasParam := True, param := v\<rparr>)"
| "read_operands decls B ToC (Qubit name idx # ops) g =
     read_operands decls B (ToC + 1) ops
       (case find_bit (operand_name decls name idx) 1 (tl B) of
          None \<Rightarrow> g | Some i \<Rightarrow> set_operand ToC i g)"

definition optimal_initial :: "(string \<times> nat list) list \<Rightarrow> (string \<times> operand list) list \<Rightarrow> opgate list" where
  "optimal_initial decls calls =
     map (\<lambda>(fName, ops). read_operands decls (bit_names decls) 0 ops
       \<lparr>gateTy = gate_letter fName, target = 0, control1 = 0, control2 = 0, hasParam = False, param = 0\<rparr>) calls"

subsection \<open>Commuting gates\<close>

definition is_controlled :: "opgate \<Rightarrow> bool" where
  "is_controlled g = (gateTy g = CHR ''c'' \<or> gateTy g = CHR ''o'')"

definition is_phase :: "opgate \<Rightarrow> bool" where
  "is_phase g = (gateTy g \<in> {CHR ''t'', CHR ''s'', CHR ''S'', CHR ''T''})"

definition ifCommute :: "opgate \<Rightarrow> opgate \<Rightarrow> bool" where
  "ifCommute G1 G2 =
     (if gateTy G1 = no_gate \<or> gateTy G2 = no_gate then True
      else if \<not> is_controlled G1 \<and> \<not> is_controlled G2
      then target G1 \<noteq> target G2 \<or> is_phase G1 \<and> is_phase G2
      else if \<not> is_controlled G1
      then (target G1 \<noteq> target G2 \<and> target G1 \<noteq> control1 G2 \<and> target G1 \<noteq> control2 G2) \<or>
           is_phase G1 \<and> target G1 \<noteq> target G2
      else if \<not> is_controlled G2
      then (target G2 \<noteq> target G1 \<and> target G2 \<noteq> control1 G1 \<and> target G2 \<noteq> control2 G1) \<or>
           is_phase G2 \<and> target G1 \<noteq> target G2
      else target G1 \<noteq> control1 G2 \<and> target G1 \<noteq> control2 G2 \<and>
           target G2 \<noteq> control1 G1 \<and> target G2 \<noteq> control2 G1)"

definition shareBit :: "opgate \<Rightarrow> opgate \<Rightarrow> bool" where
  "shareBit G1 G2 =
     (target G1 = target G2 \<and> target G1 \<noteq> 0 \<or> target G1 = control1 G2 \<and> target G1 \<noteq> 0 \<or>
      target G1 = control2 G2 \<and> target G1 \<noteq> 0 \<or> control1 G1 = control2 G2 \<and> control1 G1 \<noteq> 0 \<or>
      control1 G1 = control1 G2 \<and> control1 G1 \<noteq> 0 \<or> control1 G1 = target G2 \<and> control1 G1 \<noteq> 0 \<or>
      control2 G1 = target G2 \<and> control2 G1 \<noteq> 0 \<or> control2 G1 = control1 G2 \<and> control2 G1 \<noteq> 0 \<or>
      control2 G1 = control2 G2 \<and> control2 G1 \<noteq> 0)"

subsection \<open>Bringing two gates together\<close>

text \<open>The first loop: how far the gate at \<open>iInd\<close> commutes with its successors.\<close>

fun swap_up :: "opgate list \<Rightarrow> nat \<Rightarrow> nat list \<Rightarrow> nat \<Rightarrow> nat" where
  "swap_up G iInd [] iPos = iPos"
| "swap_up G iInd (i # is) iPos =
     (if ifCommute (G ! iInd) (G ! i) then swap_up G iInd is i else iPos)"

text \<open>The second loop counts down with an unsigned variable while it is at least \<open>iInd\<close>: below 0 it
  wraps around, and the next read is outside the vector (None).\<close>

fun swap_down :: "opgate list \<Rightarrow> nat \<Rightarrow> nat \<Rightarrow> nat \<Rightarrow> nat \<Rightarrow> nat option" where
  "swap_down G iInd fInd i fPos =
     (if i \<ge> iInd
      then if ifCommute (G ! fInd) (G ! i)
           then (case i of 0 \<Rightarrow> None | Suc i' \<Rightarrow> swap_down G iInd fInd i' i)
           else Some fPos
      else Some fPos)"

declare swap_down.simps [simp del]

definition canSwap :: "opgate list \<Rightarrow> nat \<Rightarrow> nat \<Rightarrow> nat option" where
  "canSwap G iInd fInd =
     (if iInd > fInd then Some (uint_max - 1)
      else let iPos = swap_up G iInd [iInd + 1..<fInd + 1] iInd
           in case swap_down G iInd fInd (fInd - 1) fInd of
                None \<Rightarrow> None
              | Some fPos \<Rightarrow> Some (if iPos \<ge> fPos - 1 then max (fPos - 1) iInd else uint_max))"

definition erase_OpGate :: "opgate \<Rightarrow> opgate" where
  "erase_OpGate g = \<lparr>gateTy = no_gate, target = 0, control1 = 0, control2 = 0, hasParam = False, param = 0\<rparr>"

definition countGate :: "opgate list \<Rightarrow> nat" where
  "countGate G = length (filter (\<lambda>g. gateTy g \<noteq> no_gate) G)"

subsection \<open>The peephole pass\<close>

datatype 'a outcome = Out_of_range | Value 'a

datatype scan = Scan_crash | Restart "opgate list" | Scanned "opgate list" "nat list"

definition same_cnot :: "opgate \<Rightarrow> opgate \<Rightarrow> bool" where
  "same_cnot g h = (gateTy h = CHR ''c'' \<and> target h = target g \<and> control1 h = control1 g)"

definition opposite_cnot :: "opgate \<Rightarrow> opgate \<Rightarrow> bool" where
  "opposite_cnot g h = (gateTy h = CHR ''c'' \<and> target h = control1 g \<and> control1 h = target g)"

text \<open>\<open>G[i] = G[i+1]\<close> for \<open>i\<close> from \<open>gInd\<close> to \<open>newPos - 1\<close>, then the old \<open>G[gInd]\<close> at \<open>newPos\<close>.\<close>

definition rotate_to :: "opgate list \<Rightarrow> nat \<Rightarrow> nat \<Rightarrow> opgate list" where
  "rotate_to G gInd newPos =
     map (\<lambda>i. if gInd \<le> i \<and> i < newPos then G ! (i + 1) else if i = newPos then G ! gInd else G ! i) [0..<length G]"

definition swap_entries :: "nat list \<Rightarrow> nat \<Rightarrow> nat \<Rightarrow> nat list" where
  "swap_entries M i j = M[i := M ! j, j := M ! i]"

text \<open>The pair is merged: the first gate is erased, the second is turned round, and two entries of the
  map are exchanged: those of the target and control of the gate that was just erased.\<close>

definition merge_opposite :: "opgate list \<Rightarrow> nat list \<Rightarrow> nat \<Rightarrow> nat \<Rightarrow> scan" where
  "merge_opposite G M gInd h =
     (let G1 = G[gInd := erase_OpGate (G ! gInd)];
          G2 = G1[h := (G1 ! h)\<lparr>target := control1 (G1 ! h), control1 := target (G1 ! h)\<rparr>]
      in Scanned G2 (swap_entries M (target (G2 ! gInd)) (control1 (G2 ! gInd))))"

function scan_pairs :: "opgate list \<Rightarrow> nat list \<Rightarrow> nat \<Rightarrow> nat \<Rightarrow> nat \<Rightarrow> scan" where
  "scan_pairs G M gInd gOff gCount =
     (if gOff + gInd < length G \<and> gCount < 10
      then let h = gInd + gOff;
               advance = scan_pairs G M gInd (gOff + 1)
                 (if h + 1 < length G \<and> shareBit (G ! gInd) (G ! (h + 1)) then gCount + 1 else gCount);
               second = (if opposite_cnot (G ! gInd) (G ! h)
                         then (case canSwap G gInd h of
                                 None \<Rightarrow> Scan_crash
                               | Some newPos \<Rightarrow>
                                   if newPos = uint_max then Scanned G M
                                   else if newPos \<noteq> gInd then Restart (rotate_to G gInd newPos)
                                   else merge_opposite G M gInd h)
                         else advance)
           in if same_cnot (G ! gInd) (G ! h)
              then (case canSwap G gInd h of
                      None \<Rightarrow> Scan_crash
                    | Some newPos \<Rightarrow>
                        if newPos \<noteq> uint_max
                        then Scanned (G[gInd := erase_OpGate (G ! gInd), h := erase_OpGate (G ! h)]) M
                        else second)
              else second
      else Scanned G M)"
  by pat_completeness auto
termination
  by (relation "measure (\<lambda>(G, M, gInd, gOff, gCount). length G - (gOff + gInd))") auto

declare scan_pairs.simps [simp del]

text \<open>The end of the body: the operands are renamed by the map.\<close>

definition rename_gate :: "opgate list \<Rightarrow> nat list \<Rightarrow> nat \<Rightarrow> opgate list" where
  "rename_gate G M gInd =
     (if gateTy (G ! gInd) \<noteq> no_gate
      then G[gInd := (G ! gInd)\<lparr>control1 := M ! control1 (G ! gInd), target := M ! target (G ! gInd)\<rparr>]
      else G)"

partial_function (option) temp_begin ::
    "opgate list \<Rightarrow> nat list \<Rightarrow> nat \<Rightarrow> (opgate list \<times> nat list) outcome option" where
  "temp_begin G M gInd =
     (if gateTy (G ! gInd) = no_gate then Some (Value (G, M))
      else if gateTy (G ! gInd) = CHR ''c''
      then (case scan_pairs G M gInd 1 0 of
              Scan_crash \<Rightarrow> Some Out_of_range
            | Restart G' \<Rightarrow> temp_begin G' M gInd
            | Scanned G' M' \<Rightarrow> Some (Value (rename_gate G' M' gInd, M')))
      else Some (Value (rename_gate G M gInd, M)))"

declare temp_begin.simps [code]

fun optimal_from :: "opgate list \<Rightarrow> nat list \<Rightarrow> nat list \<Rightarrow> (opgate list \<times> nat list) outcome option" where
  "optimal_from G M [] = Some (Value (G, M))"
| "optimal_from G M (gInd # rest) =
     (case temp_begin G M gInd of
        None \<Rightarrow> None
      | Some Out_of_range \<Rightarrow> Some Out_of_range
      | Some (Value (G', M')) \<Rightarrow> optimal_from G' M' rest)"

definition optimal :: "opgate list \<Rightarrow> nat list \<Rightarrow> (opgate list \<times> nat list) outcome option" where
  "optimal G M = optimal_from G M [0..<length G]"

text \<open>The pass is repeated until the number of gates does not change.\<close>

partial_function (option) optimize_loop ::
    "nat \<Rightarrow> nat \<Rightarrow> opgate list \<Rightarrow> nat list \<Rightarrow> opgate list outcome option" where
  "optimize_loop gNumBefore gNumAfter G M =
     (if gNumBefore \<noteq> gNumAfter
      then (case optimal G M of
              None \<Rightarrow> None
            | Some Out_of_range \<Rightarrow> Some Out_of_range
            | Some (Value (G', M')) \<Rightarrow> optimize_loop gNumAfter (countGate G') G' M')
      else Some (Value G))"

declare optimize_loop.simps [code]

definition optimize :: "opgate list \<Rightarrow> nat \<Rightarrow> opgate list outcome option" where
  "optimize G bits = optimize_loop 0 (length G) G [0..<bits + 1]"

text \<open>The gates printed at the end.\<close>

definition printed_gates :: "opgate list \<Rightarrow> opgate list" where
  "printed_gates G = filter (\<lambda>g. gateTy g \<noteq> no_gate) G"

text \<open>The words printed for the letters, and the printed circuit: the qubits, then the gates with their
  operands by name. The text of a double is a parameter.\<close>

definition gate_words :: "(char \<times> string) list" where
  "gate_words =
     [(CHR ''h'', ''H ''), (CHR ''c'', ''CNOT ''), (CHR ''o'', ''Tof ''), (CHR ''X'', ''MeasX ''),
      (CHR ''Z'', ''MeasZ ''), (CHR ''n'', ''PrepX ''), (CHR ''m'', ''PrepZ ''), (CHR ''S'', ''Sdag ''),
      (CHR ''s'', ''S ''), (CHR ''t'', ''T ''), (CHR ''T'', ''Tdag ''), (CHR ''r'', ''Rz ''),
      (CHR ''x'', ''X ''), (CHR ''z'', ''Z '')]"

definition gate_line :: "(real \<Rightarrow> string) \<Rightarrow> string list \<Rightarrow> opgate \<Rightarrow> string" where
  "gate_line show_double B g =
     (case map_of gate_words (gateTy g) of None \<Rightarrow> [] | Some w \<Rightarrow> w) @
     (if control2 g > 0 then B ! control2 g @ '','' else []) @
     (if control1 g > 0 then B ! control1 g @ '','' else []) @
     (if target g > 0 then B ! target g else []) @
     (if hasParam g then '','' @ show_double (param g) else [])"

definition print_circuit :: "(real \<Rightarrow> string) \<Rightarrow> string list \<Rightarrow> opgate list \<Rightarrow> string list" where
  "print_circuit show_double B G =
     map (\<lambda>b. ''qubit '' @ b) (tl B) @ map (gate_line show_double B) (printed_gates G)"

end
