(* ===== verification/Circuit_Sem.thy ===== *)
theory Circuit_Sem
  imports Circuit_Opt
begin

text \<open>
  What a list of gates does to a state vector: a state gives every assignment of bits to qubits an
  amplitude. Gates with a fixed meaning for the optimiser are the CNOT, the Toffoli and the phase
  gates S, T and their inverses; every other gate on one qubit is an arbitrary operator
  on that qubit (a 2 by 2 matrix, as for H, X, Z, a rotation, an outcome of a measurement or
  preparation), so that what is proved holds whatever it is.
\<close>

type_synonym qstate = "(nat \<Rightarrow> bool) \<Rightarrow> complex"
type_synonym matrices = "opgate \<Rightarrow> bool \<Rightarrow> bool \<Rightarrow> complex"

definition on_qubit :: "nat \<Rightarrow> (bool \<Rightarrow> bool \<Rightarrow> complex) \<Rightarrow> qstate \<Rightarrow> qstate" where
  "on_qubit t m psi = (\<lambda>b. m (b t) False * psi (b(t := False)) + m (b t) True * psi (b(t := True)))"

definition on_basis :: "((nat \<Rightarrow> bool) \<Rightarrow> (nat \<Rightarrow> bool)) \<Rightarrow> qstate \<Rightarrow> qstate" where
  "on_basis f psi = (\<lambda>b. psi (f b))"

definition flip_if :: "nat \<Rightarrow> (nat \<Rightarrow> bool) \<Rightarrow> bool \<Rightarrow> (nat \<Rightarrow> bool)" where
  "flip_if t b c = b(t := (b t \<noteq> c))"

definition phase_of :: "opgate \<Rightarrow> complex" where
  "phase_of g =
     (if gateTy g = CHR ''t'' then cis (pi / 4) else if gateTy g = CHR ''T'' then cis (- pi / 4)
      else if gateTy g = CHR ''s'' then \<i> else - \<i>)"

definition gate_op :: "matrices \<Rightarrow> opgate \<Rightarrow> qstate \<Rightarrow> qstate" where
  "gate_op K g =
     (if gateTy g = no_gate then id
      else if gateTy g = CHR ''c'' then on_basis (\<lambda>b. flip_if (target g) b (b (control1 g)))
      else if gateTy g = CHR ''o'' then on_basis (\<lambda>b. flip_if (target g) b (b (control1 g) \<and> b (control2 g)))
      else if is_phase g then (\<lambda>psi b. (if b (target g) then phase_of g else 1) * psi b)
      else on_qubit (target g) (K g))"

fun run_gates :: "matrices \<Rightarrow> opgate list \<Rightarrow> qstate \<Rightarrow> qstate" where
  "run_gates K [] psi = psi"
| "run_gates K (g # gs) psi = run_gates K gs (gate_op K g psi)"

lemma run_gates_append [simp]: "run_gates K (gs @ hs) psi = run_gates K hs (run_gates K gs psi)"
  by (induction gs arbitrary: psi) auto

subsection \<open>Operators that commute\<close>

lemma on_qubit_commute:
  "t \<noteq> u \<Longrightarrow> on_qubit t m (on_qubit u n psi) = on_qubit u n (on_qubit t m psi)"
  by (rule ext) (simp add: on_qubit_def fun_upd_twist [of t u] algebra_simps)

lemma on_qubit_basis_commute:
  assumes "\<And>b x. f (b(t := x)) = (f b)(t := x)" "\<And>b. f b t = b t"
  shows "on_qubit t m (on_basis f psi) = on_basis f (on_qubit t m psi)"
  by (rule ext) (simp add: on_qubit_def on_basis_def assms)

lemma phase_basis_commute:
  assumes "\<And>b. f b t = b t"
  shows "(\<lambda>b. (if b t then p else 1) * on_basis f psi b) = on_basis f (\<lambda>b. (if b t then p else (1 :: complex)) * psi b)"
  by (rule ext) (simp add: on_basis_def assms)

lemma phase_qubit_commute:
  "t \<noteq> u \<Longrightarrow> (\<lambda>b. (if b t then p else 1) * on_qubit u m psi b) =
     on_qubit u m (\<lambda>b. (if b t then p else (1 :: complex)) * psi b)"
  by (rule ext) (simp add: on_qubit_def algebra_simps)

lemma basis_commute:
  "(\<And>b. f (g b) = g (f b)) \<Longrightarrow> on_basis f (on_basis g psi) = on_basis g (on_basis f psi)"
  by (simp add: on_basis_def)

subsection \<open>The three kinds of gates\<close>

definition perm_of :: "opgate \<Rightarrow> (nat \<Rightarrow> bool) \<Rightarrow> (nat \<Rightarrow> bool)" where
  "perm_of g b =
     flip_if (target g) b (if gateTy g = CHR ''c'' then b (control1 g) else b (control1 g) \<and> b (control2 g))"

lemma op_controlled: "is_controlled g \<Longrightarrow> gate_op K g = on_basis (perm_of g)"
  by (auto simp: gate_op_def is_controlled_def perm_of_def fun_eq_iff on_basis_def)

lemma op_phase: "is_phase g \<Longrightarrow> gate_op K g = (\<lambda>psi b. (if b (target g) then phase_of g else 1) * psi b)"
  by (auto simp: gate_op_def is_phase_def)

lemma op_other:
  "gateTy g \<noteq> no_gate \<Longrightarrow> \<not> is_controlled g \<Longrightarrow> \<not> is_phase g \<Longrightarrow> gate_op K g = on_qubit (target g) (K g)"
  by (simp add: gate_op_def is_controlled_def)

lemma op_none: "gateTy g = no_gate \<Longrightarrow> gate_op K g psi = psi"
  by (simp add: gate_op_def)

lemma perm_of_other: "t \<noteq> target g \<Longrightarrow> perm_of g b t = b t"
  by (simp add: perm_of_def flip_if_def)

lemma perm_of_upd:
  "t \<noteq> target g \<Longrightarrow> t \<noteq> control1 g \<Longrightarrow> t \<noteq> control2 g \<Longrightarrow> perm_of g (b(t := x)) = (perm_of g b)(t := x)"
  by (rule ext) (simp add: perm_of_def flip_if_def)

lemma perm_of_commute:
  assumes "target g \<noteq> control1 h" "target g \<noteq> control2 h" "target h \<noteq> control1 g" "target h \<noteq> control2 g"
  shows "perm_of g (perm_of h b) = perm_of h (perm_of g b)"
proof (rule ext)
  fix x
  show "perm_of g (perm_of h b) x = perm_of h (perm_of g b) x"
    using assms [symmetric] assms by (cases "x = target g"; cases "x = target h") (simp_all add: perm_of_def flip_if_def, blast+)
qed

lemma phase_not_controlled: "is_phase g \<Longrightarrow> \<not> is_controlled g \<and> gateTy g \<noteq> no_gate"
  by (auto simp: is_phase_def is_controlled_def)

text \<open>A gate on one qubit and a controlled gate.\<close>

lemma single_controlled_commute:
  assumes "gateTy g \<noteq> no_gate" "\<not> is_controlled g" "is_controlled h"
    and "target g \<noteq> target h \<and> target g \<noteq> control1 h \<and> target g \<noteq> control2 h \<or> is_phase g \<and> target g \<noteq> target h"
  shows "gate_op K g (gate_op K h psi) = gate_op K h (gate_op K g psi)"
proof (cases "is_phase g")
  case True
  have "\<And>b. perm_of h b (target g) = b (target g)" using assms(4) perm_of_other by blast
  from phase_basis_commute [of "perm_of h" "target g" "phase_of g" psi, OF this]
  show ?thesis by (simp add: op_phase [OF True] op_controlled [OF assms(3)])
next
  case False
  then have "target g \<noteq> target h" "target g \<noteq> control1 h" "target g \<noteq> control2 h" using assms(4) by auto
  from on_qubit_basis_commute [of "perm_of h" "target g" "K g" psi, OF perm_of_upd [OF this] perm_of_other [OF this(1)]]
  show ?thesis by (simp add: op_other [OF assms(1,2) False] op_controlled [OF assms(3)])
qed

lemma single_single_commute:
  assumes "gateTy g \<noteq> no_gate" "\<not> is_controlled g" "gateTy h \<noteq> no_gate" "\<not> is_controlled h"
    and "target g \<noteq> target h \<or> is_phase g \<and> is_phase h"
  shows "gate_op K g (gate_op K h psi) = gate_op K h (gate_op K g psi)"
proof -
  consider (pp) "is_phase g" "is_phase h" | (pm) "is_phase g" "\<not> is_phase h" "target g \<noteq> target h"
    | (mp) "\<not> is_phase g" "is_phase h" "target h \<noteq> target g" | (mm) "\<not> is_phase g" "\<not> is_phase h" "target g \<noteq> target h"
    using assms(5) by argo
  then show ?thesis
  proof cases
    case pp
    then show ?thesis by (simp add: op_phase fun_eq_iff)
  next
    case pm
    then show ?thesis using phase_qubit_commute [OF pm(3), of "phase_of g" "K h" psi] assms
      by (simp add: op_phase op_other)
  next
    case mp
    then show ?thesis using phase_qubit_commute [OF mp(3), of "phase_of h" "K g" psi] assms
      by (simp add: op_phase op_other)
  next
    case mm
    then show ?thesis using on_qubit_commute [OF mm(3)] assms by (simp add: op_other)
  qed
qed

lemma ifCommute_op:
  assumes "ifCommute g h"
  shows "gate_op K g (gate_op K h psi) = gate_op K h (gate_op K g psi)"
proof (cases "gateTy g = no_gate \<or> gateTy h = no_gate")
  case True
  then show ?thesis by (auto simp: op_none)
next
  case some: False
  show ?thesis
  proof (cases "is_controlled g"; cases "is_controlled h")
    assume c: "is_controlled g" "is_controlled h"
    then have "target g \<noteq> control1 h" "target g \<noteq> control2 h" "target h \<noteq> control1 g" "target h \<noteq> control2 g"
      using assms some by (auto simp: ifCommute_def)
    from basis_commute [of "perm_of h" "perm_of g", OF perm_of_commute [OF this, symmetric]]
    show ?thesis using c by (simp add: op_controlled)
  next
    assume c: "is_controlled g" "\<not> is_controlled h"
    then show ?thesis
      using single_controlled_commute [of h g K psi] assms some by (auto simp: ifCommute_def)
  next
    assume c: "\<not> is_controlled g" "is_controlled h"
    then show ?thesis
      using single_controlled_commute [of g h K psi] assms some by (auto simp: ifCommute_def)
  next
    assume c: "\<not> is_controlled g" "\<not> is_controlled h"
    then show ?thesis
      using single_single_commute [of g h K psi] assms some by (auto simp: ifCommute_def)
  qed
qed

text \<open>\<open>ifCommute\<close> is sound: when it says that two gates commute, then doing them in either order has the
  same effect on every state, whatever the operators of the gates other than CNOT, Toffoli, S and T are.\<close>

theorem ifCommute_sound:
  assumes "ifCommute g h"
  shows "gate_op K g (gate_op K h psi) = gate_op K h (gate_op K g psi)"
  by (rule ifCommute_op [OF assms])

definition cnot_gate :: "nat \<Rightarrow> nat \<Rightarrow> opgate" where
  "cnot_gate c t = \<lparr>gateTy = CHR ''c'', target = t, control1 = c, control2 = 0, hasParam = False, param = 0\<rparr>"

theorem ifCommute_sound_witness:
  "\<forall>K psi. gate_op K (cnot_gate 1 2) (gate_op K (cnot_gate 1 3) psi) =
     gate_op K (cnot_gate 1 3) (gate_op K (cnot_gate 1 2) psi)"
  by (intro allI ifCommute_sound) (simp add: ifCommute_def is_controlled_def cnot_gate_def)

end
