(* ===== verification/Lpfs_Schedule.thy ===== *)
theory Lpfs_Schedule
  imports Lpfs_Parse
begin

text \<open>
  The longest-path-first scheduler of the compiler
  (\<open>llvm/lib/Transforms/Scaffold/GenLPFSSchedule.cpp\<close>): the priorities of the calls of a leaf
  function, the dependency graph, the longest paths, the placement into SIMD regions and time
  steps, and the printed schedule that the braid simulator reads. A call is its place in
  \<open>callList\<close>; \<open>-1\<close> in \<open>ts\<close> and \<open>simd\<close> is a slot None. Failed assertions are None.
\<close>

subsection \<open>Calls\<close>

text \<open>An argument is a name and an index, -1 for a whole array.\<close>

type_synonym qarg = "string \<times> int"

record call =
  qFunc :: string
  args :: "qarg list"

subsection \<open>Priorities\<close>

text \<open>For every array the last time step of each index; -1 is the entry of operations on the whole
  array, -2 the maximum.\<close>

type_synonym qbit_table = "string \<rightharpoonup> (int \<rightharpoonup> nat)"

definition arg_ts :: "qbit_table \<Rightarrow> qarg \<Rightarrow> (nat \<times> qbit_table) option" where
  "arg_ts tab a =
     (case a of (name, argIndex) \<Rightarrow>
        case tab name of
          None \<Rightarrow> None
        | Some m \<Rightarrow>
            if argIndex = -1 then (case m (-2) of None \<Rightarrow> None | Some t \<Rightarrow> Some (t, tab))
            else (case m argIndex of
                    Some t \<Rightarrow> Some (t, tab)
                  | None \<Rightarrow> (case m (-1) of None \<Rightarrow> None
                      | Some t \<Rightarrow> Some (t, tab(name \<mapsto> m(argIndex \<mapsto> t))))))"

fun max_ts_of_all_args :: "qbit_table \<Rightarrow> qarg list \<Rightarrow> nat \<Rightarrow> (nat \<times> qbit_table) option" where
  "max_ts_of_all_args tab [] acc = Some (acc, tab)"
| "max_ts_of_all_args tab (a # as) acc =
     (case arg_ts tab a of None \<Rightarrow> None
      | Some (t, tab') \<Rightarrow> max_ts_of_all_args tab' as (if t > acc then t else acc))"

definition set_ts :: "nat \<Rightarrow> qbit_table \<Rightarrow> qarg \<Rightarrow> qbit_table" where
  "set_ts new tab a =
     (case a of (name, argIndex) \<Rightarrow>
        case tab name of
          None \<Rightarrow> tab
        | Some m \<Rightarrow>
            if argIndex = -1 then tab(name \<mapsto> (\<lambda>i. map_option (\<lambda>_. new) (m i)))
            else tab(name \<mapsto> (m(argIndex \<mapsto> new))(-2 :=
              (case (m(argIndex \<mapsto> new)) (-2) of None \<Rightarrow> None | Some t \<Rightarrow> Some (if t < new then new else t)))))"

definition calc_critical_time_unbounded :: "qbit_table \<Rightarrow> call \<Rightarrow> (nat \<times> qbit_table) option" where
  "calc_critical_time_unbounded tab c =
     (case max_ts_of_all_args tab (args c) 0 of None \<Rightarrow> None
      | Some (m, tab') \<Rightarrow> Some (m + 1, foldl (set_ts (m + 1)) tab' (args c)))"

text \<open>The calls are visited from the last to the first; calls without qubits get no priority.\<close>

fun priorities :: "qbit_table \<Rightarrow> (nat \<times> call) list \<Rightarrow> (nat \<times> nat) list option" where
  "priorities tab [] = Some []"
| "priorities tab ((i, c) # rest) =
     (if args c = [] then priorities tab rest
      else case calc_critical_time_unbounded tab c of None \<Rightarrow> None
        | Some (t, tab') \<Rightarrow> map_option ((#) (i, t)) (priorities tab' rest))"

text \<open>\<open>std::sort\<close> by value is the parameter \<open>sort_prio\<close>.\<close>

definition priorityVector ::
    "((nat \<times> nat) list \<Rightarrow> (nat \<times> nat) list) \<Rightarrow> qbit_table \<Rightarrow> call list \<Rightarrow> (nat \<times> nat) list option" where
  "priorityVector sort_prio tab calls = map_option sort_prio (priorities tab (rev (enumerate 0 calls)))"

subsection \<open>The dependency graph\<close>

text \<open>For one argument of a call: the next call with an equal argument, once for every equal argument.\<close>

fun next_equal :: "qarg \<Rightarrow> (nat \<times> call) list \<Rightarrow> nat list" where
  "next_equal a [] = []"
| "next_equal a ((j, c) # rest) =
     (if a \<in> set (args c) then replicate (count_list (args c) a) j else next_equal a rest)"

definition out_edges :: "call list \<Rightarrow> nat \<Rightarrow> nat list" where
  "out_edges calls i =
     concat (map (\<lambda>a. next_equal a (drop (i + 1) (enumerate 0 calls))) (args (calls ! i)))"

definition in_edges :: "call list \<Rightarrow> nat \<Rightarrow> nat list" where
  "in_edges calls j = concat (map (\<lambda>i. map (\<lambda>_. i) (filter (\<lambda>k. k = j) (out_edges calls i))) [0..<length calls])"

subsection \<open>Longest paths\<close>

text \<open>\<open>skip\<close> is the call with the greatest address, the one whose distance is not initialised: the
  loop runs over the map up to its last entry.\<close>

record paths =
  dist :: "nat \<Rightarrow> int"
  followed :: "nat \<Rightarrow> bool"

definition init_dist :: "nat \<Rightarrow> nat \<Rightarrow> paths \<Rightarrow> paths" where
  "init_dist n skip ps =
     ps\<lparr>dist := (\<lambda>i. if i < n \<and> i \<noteq> skip \<and> \<not> followed ps i then 1 else dist ps i)\<rparr>"

text \<open>One call: the distances of its children, and the head of the path if it is as far.\<close>

definition dist_step :: "call list \<Rightarrow> nat \<Rightarrow> paths \<times> nat \<Rightarrow> paths \<times> nat" where
  "dist_step calls i s =
     (case s of (ps, head) \<Rightarrow>
        if followed ps i then (ps\<lparr>dist := (dist ps)(i := 0)\<rparr>, head)
        else let this_dist = dist ps i;
                 d = foldl (\<lambda>d child. d(child := max (d child) (this_dist + 1))) (dist ps) (out_edges calls i)
             in (ps\<lparr>dist := d\<rparr>, if this_dist \<ge> d head then i else head))"

definition take_path :: "nat \<Rightarrow> paths \<Rightarrow> paths" where
  "take_path i ps = ps\<lparr>dist := (dist ps)(i := 0), followed := (followed ps)(i := True)\<rparr>"

text \<open>From the head backwards, to a parent that is one nearer, while the distance is above 1.\<close>

function climb :: "call list \<Rightarrow> paths \<Rightarrow> nat \<Rightarrow> nat list \<times> paths" where
  "climb calls ps i =
     (if dist ps i > 1
      then let currDist = dist ps i - 1; ps' = take_path i ps
           in case find (\<lambda>parent. dist ps' parent = currDist \<and> \<not> followed ps' parent) (in_edges calls i) of
                None \<Rightarrow> ([], ps')
              | Some parent \<Rightarrow> (case climb calls ps' parent of (rest, ps'') \<Rightarrow> (parent # rest, ps''))
      else ([], ps))"
  by pat_completeness auto
termination
proof (relation "measure (\<lambda>(calls, ps, i). nat (dist ps i))", goal_cases)
  case (2 calls ps i currDist ps' parent)
  then show ?case by (auto simp: find_Some_iff)
qed simp

declare climb.simps [simp del]

definition find_lp :: "call list \<Rightarrow> nat \<Rightarrow> paths \<Rightarrow> nat list \<times> paths" where
  "find_lp calls skip ps =
     (let (ps1, head) = foldl (\<lambda>s i. dist_step calls i s) (init_dist (length calls) skip ps, 0) [0..<length calls - 1];
          (rest, ps2) = climb calls ps1 head
      in (head # rest, ps2))"

fun longest_paths :: "call list \<Rightarrow> nat \<Rightarrow> nat \<Rightarrow> paths \<Rightarrow> nat list list" where
  "longest_paths calls skip 0 ps = []"
| "longest_paths calls skip (Suc k) ps =
     (case find_lp calls skip ps of (path, ps') \<Rightarrow> path # longest_paths calls skip k ps')"

subsection \<open>Placement\<close>

text \<open>The slot of a call (time step and region), the operations of each region in the order of
  insertion, and the number of T gates.\<close>

record sched =
  slot :: "nat \<Rightarrow> (nat \<times> nat) option"
  schedule :: "nat \<Rightarrow> (nat \<times> nat) list"
  tgates_cnt :: nat

definition sched_start :: sched where
  "sched_start = \<lparr>slot = (\<lambda>_. None), schedule = (\<lambda>_. []), tgates_cnt = 0\<rparr>"

definition depsMet :: "call list \<Rightarrow> sched \<Rightarrow> nat \<Rightarrow> nat \<Rightarrow> bool" where
  "depsMet calls st i currentTime =
     list_all (\<lambda>parent. case slot st parent of None \<Rightarrow> False | Some (t, _) \<Rightarrow> t < currentTime) (in_edges calls i)"

definition sched_op :: "call list \<Rightarrow> nat \<Rightarrow> nat \<Rightarrow> nat \<Rightarrow> sched \<Rightarrow> sched" where
  "sched_op calls i timeStep simd st =
     (if slot st i = None
      then st\<lparr>slot := (slot st)(i \<mapsto> (timeStep, simd)),
              schedule := (schedule st)(simd := schedule st simd @ [(timeStep, i)]),
              tgates_cnt := (if find_sub ''llvm.T'' (qFunc (calls ! i)) \<noteq> None \<or>
                   find_sub ''llvm.Tdag'' (qFunc (calls ! i)) \<noteq> None then tgates_cnt st + 1 else tgates_cnt st)\<rparr>
      else st)"

text \<open>\<open>schedule[simd].find(ts)\<close>: the first operation inserted at that time step.\<close>

definition find_ts :: "sched \<Rightarrow> nat \<Rightarrow> nat \<Rightarrow> nat option" where
  "find_ts st simd ts = map_of (schedule st simd) ts"

text \<open>A region whose first operation at this time step is of the same function.\<close>

definition same_type_region :: "call list \<Rightarrow> nat \<Rightarrow> sched \<Rightarrow> nat \<Rightarrow> nat \<Rightarrow> nat option" where
  "same_type_region calls RES_CONSTRAINT st i ts =
     find (\<lambda>simd. case find_ts st simd ts of None \<Rightarrow> False
         | Some k \<Rightarrow> qFunc (calls ! i) = qFunc (calls ! k)) [1..<RES_CONSTRAINT + 1]"

function next_free :: "nat list \<Rightarrow> nat \<Rightarrow> nat" where
  "next_free used t = (if t \<in> set used then next_free used (t + 1) else t)"
  by pat_completeness auto
termination
proof (relation "measure (\<lambda>(used, t). card {u \<in> set used. t \<le> u})", goal_cases)
  case (2 used t)
  then have "t \<in> {u \<in> set used. t \<le> u}" "t \<notin> {u \<in> set used. t + 1 \<le> u}" by simp_all
  moreover have "{u \<in> set used. t + 1 \<le> u} \<subseteq> {u \<in> set used. t \<le> u}" by auto
  ultimately have "{u \<in> set used. t + 1 \<le> u} \<subset> {u \<in> set used. t \<le> u}" by blast
  then show ?case by (simp add: psubset_card_mono)
qed simp

declare next_free.simps [simp del]

text \<open>The regions from the last to the first: the earliest free time step, the lowest region on a tie.
  The running minimum starts above every time step (\<open>numeric_limits<int>::max()\<close>, here None).\<close>

fun lowest_free :: "sched \<Rightarrow> nat \<Rightarrow> nat list \<Rightarrow> (nat \<times> nat) option \<Rightarrow> (nat \<times> nat) option" where
  "lowest_free st ts [] low = low"
| "lowest_free st ts (simd # rest) low =
     (let tempTS = next_free (map fst (schedule st simd)) ts
      in lowest_free st ts rest
           (case low of None \<Rightarrow> Some (tempTS, simd)
            | Some (lowTS, lowSD) \<Rightarrow> if tempTS \<le> lowTS then Some (tempTS, simd) else low))"

definition place_op :: "call list \<Rightarrow> nat \<Rightarrow> nat \<Rightarrow> nat \<Rightarrow> nat \<Rightarrow> sched \<Rightarrow> sched" where
  "place_op calls RES_CONSTRAINT opp_simd i ts st =
     (if opp_simd = 1
      then case same_type_region calls RES_CONSTRAINT st i ts of
             Some simd \<Rightarrow> sched_op calls i ts simd st
           | None \<Rightarrow> (case lowest_free st ts (rev [1..<RES_CONSTRAINT + 1]) None of
                        None \<Rightarrow> sched_op calls i (2 ^ 31 - 1) 0 st
                      | Some (lowTS, lowSD) \<Rightarrow> sched_op calls i lowTS lowSD st)
      else sched_op calls i ts 1 st)"

text \<open>An operation is tried at one time step after the other.\<close>

partial_function (option) try_op :: "call list \<Rightarrow> nat \<Rightarrow> nat \<Rightarrow> nat \<Rightarrow> nat \<Rightarrow> sched \<Rightarrow> sched option" where
  "try_op calls RES_CONSTRAINT opp_simd i ts st =
     (if slot st i \<noteq> None then Some st
      else try_op calls RES_CONSTRAINT opp_simd i (ts + 1)
             (if depsMet calls st i ts then place_op calls RES_CONSTRAINT opp_simd i ts st else st))"

declare try_op.simps [code]

text \<open>One pass over the priority vector, from its end; the pass counts what it schedules.\<close>

fun sched_pass :: "call list \<Rightarrow> nat \<Rightarrow> nat \<Rightarrow> nat list \<Rightarrow> sched \<times> nat \<Rightarrow> (sched \<times> nat) option" where
  "sched_pass calls RES_CONSTRAINT opp_simd [] s = Some s"
| "sched_pass calls RES_CONSTRAINT opp_simd (i # rest) (st, sched_ops) =
     (case try_op calls RES_CONSTRAINT opp_simd i 0 st of
        None \<Rightarrow> None
      | Some st' \<Rightarrow> sched_pass calls RES_CONSTRAINT opp_simd rest
           (st', if slot st i = None then sched_ops + 1 else sched_ops))"

partial_function (option) sched_loop :: "call list \<Rightarrow> nat \<Rightarrow> nat \<Rightarrow> nat list \<Rightarrow> nat \<Rightarrow> sched \<times> nat \<Rightarrow> sched option" where
  "sched_loop calls RES_CONSTRAINT opp_simd prio op_count s =
     (if snd s < op_count
      then Option.bind (sched_pass calls RES_CONSTRAINT opp_simd prio s)
             (sched_loop calls RES_CONSTRAINT opp_simd prio op_count)
      else Some (fst s))"

declare sched_loop.simps [code]

text \<open>The paths are placed first: each in its own region, one operation per time step, from the
  earliest operation on; the time step runs on from path to path.\<close>

fun place_path :: "call list \<Rightarrow> nat \<Rightarrow> nat list \<Rightarrow> sched \<times> nat \<Rightarrow> sched \<times> nat" where
  "place_path calls simd [] s = s"
| "place_path calls simd (i # rest) (st, ts) =
     place_path calls simd rest
       (if slot st i = None then (sched_op calls i ts simd st, ts + 1) else (st, ts))"

fun place_paths :: "call list \<Rightarrow> nat \<Rightarrow> nat list list \<Rightarrow> sched \<times> nat \<Rightarrow> sched \<times> nat" where
  "place_paths calls simd [] s = s"
| "place_paths calls simd (path # rest) s =
     place_paths calls (simd + 1) rest (place_path calls simd (rev path) s)"

definition lpfs :: "call list \<Rightarrow> nat \<Rightarrow> nat list \<Rightarrow> nat \<Rightarrow> nat \<Rightarrow> nat \<Rightarrow> nat \<Rightarrow> sched option" where
  "lpfs calls skip prio RES_CONSTRAINT simd_l opp_simd start_ts =
     (if calls = [] then None
      else let paths = longest_paths calls skip simd_l \<lparr>dist = (\<lambda>_. -1), followed = (\<lambda>_. False)\<rparr>;
               (st, _) = place_paths calls 1 paths (sched_start, start_ts)
           in sched_loop calls RES_CONSTRAINT opp_simd (rev prio) (length prio)
                (st, sum_list (map length paths)))"

subsection \<open>The printed schedule\<close>

text \<open>The name of a gate function between its first two dots.\<close>

definition gate_print_name :: "string \<Rightarrow> string" where
  "gate_print_name fn =
     (if find_sub ''llvm.'' fn \<noteq> None
      then takeWhile (\<lambda>c. c \<noteq> CHR ''.'') (tl (dropWhile (\<lambda>c. c \<noteq> CHR ''.'') fn))
      else fn)"

definition show_int :: "int \<Rightarrow> string" where
  "show_int k = (if k < 0 then CHR ''-'' # show_nat (nat (- k)) else show_nat (nat k))"

definition arg_text :: "qarg \<Rightarrow> string" where
  "arg_text a = fst a @ (if snd a \<noteq> -1 then show_int (snd a) else [])"

definition op_line :: "call list \<Rightarrow> nat \<Rightarrow> nat \<Rightarrow> nat \<Rightarrow> string" where
  "op_line calls ts simd i =
     show_nat ts @ '','' @ show_nat simd @ '' '' @ gate_print_name (qFunc (calls ! i)) @
     concat (map (\<lambda>a. '' '' @ arg_text a) (args (calls ! i)))"

definition print_schedule :: "call list \<Rightarrow> nat list \<Rightarrow> sched \<Rightarrow> nat \<Rightarrow> string list" where
  "print_schedule calls regions st op_count =
     concat (map (\<lambda>ts. concat (map (\<lambda>simd.
         map (\<lambda>(t, i). op_line calls t simd i) (filter (\<lambda>(t, i). t = ts) (schedule st simd))) regions)) [0..<op_count])"

end
