(* ===== verification/Lpfs_Moves.thy ===== *)
theory Lpfs_Moves
  imports Lpfs_Schedule "HOL-Library.List_Lexorder" "HOL-Library.Char_ord"
begin

text \<open>
  The moves of qubits between memory, SIMD regions and the local memories of the regions that go
  with a schedule (\<open>GenLPFSSchedule.cpp\<close>: \<open>update_moves\<close> and the printing of moves and
  metrics). Location 0 is the memory, \<open>k\<close> the region \<open>k\<close>, \<open>10 * k\<close> its local memory. The use of a map
  entry that is not there is None.
\<close>

subsection \<open>Qubits and moves\<close>

record qArgInfo =
  qname :: string
  qindex :: int
  qsimd :: nat
  loc :: nat
  nextTS :: int
  last_inst :: "nat option"

record move =
  src :: nat
  dest :: nat
  arg :: qArgInfo

record moves =
  qubitMap :: "string \<rightharpoonup> qArgInfo"
  active_qubits :: "qArgInfo list"
  move_schedule :: "(nat \<times> move) list"
  local_move_schedule :: "(nat \<times> move) list"
  localMemSizeMap :: "nat \<Rightarrow> int"
  simds :: nat

record config =
  RES_CONSTRAINT :: nat
  LOCAL_MEM :: bool
  LOCAL_Q :: int
  LOCAL_WINDOW :: int

text \<open>The key of a qubit: its name and its index, without anything between them.\<close>

definition qubit_key :: "qarg \<Rightarrow> string" where
  "qubit_key a = fst a @ show_int (snd a)"

definition info_key :: "qArgInfo \<Rightarrow> string" where
  "info_key q = qubit_key (qname q, qindex q)"

text \<open>An insert does not change an entry.\<close>

definition insert_qubit :: "(string \<rightharpoonup> qArgInfo) \<Rightarrow> qarg \<Rightarrow> (string \<rightharpoonup> qArgInfo)" where
  "insert_qubit qm a =
     (if qm (qubit_key a) = None
      then qm(qubit_key a \<mapsto> \<lparr>qname = fst a, qindex = snd a, qsimd = 0, loc = 0, nextTS = -1, last_inst = None\<rparr>)
      else qm)"

definition all_args :: "call list \<Rightarrow> qarg list" where
  "all_args calls = concat (map args calls)"

definition moves_start :: "call list \<Rightarrow> moves" where
  "moves_start calls = \<lparr>qubitMap = foldl insert_qubit Map.empty (all_args calls), active_qubits = [],
     move_schedule = [], local_move_schedule = [], localMemSizeMap = (\<lambda>_. 0), simds = 0\<rparr>"

subsection \<open>The qubits of a time step\<close>

text \<open>An operand: it is added to the current qubits when no equal one is there.\<close>

definition add_current :: "nat \<Rightarrow> nat \<Rightarrow> (qArgInfo list \<times> (string \<rightharpoonup> qArgInfo)) option \<Rightarrow> qarg \<Rightarrow>
    (qArgInfo list \<times> (string \<rightharpoonup> qArgInfo)) option" where
  "add_current i simd s a =
     (case s of None \<Rightarrow> None
      | Some (current, qm) \<Rightarrow>
          (case qm (qubit_key a) of None \<Rightarrow> None
           | Some q \<Rightarrow>
               (let q' = q\<lparr>qsimd := simd, last_inst := Some i\<rparr>
                in if list_ex (\<lambda>c. qname c = qname q' \<and> qindex c = qindex q') current then Some (current, qm)
                   else Some (current @ [q'], qm(qubit_key a \<mapsto> q')))))"

definition ops_at :: "sched \<Rightarrow> nat \<Rightarrow> nat \<Rightarrow> nat list" where
  "ops_at st ts simd = map snd (filter (\<lambda>(t, i). t = ts) (schedule st simd))"

definition simd_active :: "config \<Rightarrow> sched \<Rightarrow> nat \<Rightarrow> nat \<Rightarrow> bool" where
  "simd_active cfg st ts simd = (1 \<le> simd \<and> simd \<le> RES_CONSTRAINT cfg \<and> ops_at st ts simd \<noteq> [])"

definition operands_at :: "config \<Rightarrow> call list \<Rightarrow> sched \<Rightarrow> nat \<Rightarrow> (nat \<times> nat \<times> qarg) list" where
  "operands_at cfg calls st ts =
     concat (map (\<lambda>simd. concat (map (\<lambda>i. map (\<lambda>a. (i, simd, a)) (args (calls ! i))) (ops_at st ts simd)))
       [1..<RES_CONSTRAINT cfg + 1])"

definition current_qubits :: "config \<Rightarrow> call list \<Rightarrow> sched \<Rightarrow> nat \<Rightarrow> (string \<rightharpoonup> qArgInfo) \<Rightarrow>
    (qArgInfo list \<times> (string \<rightharpoonup> qArgInfo)) option" where
  "current_qubits cfg calls st ts qm =
     foldl (\<lambda>s (i, simd, a). add_current i simd s a) (Some ([], qm)) (operands_at cfg calls st ts)"

subsection \<open>The active qubits\<close>

definition set_loc :: "string \<Rightarrow> nat \<Rightarrow> moves \<Rightarrow> moves" where
  "set_loc key l ms = ms\<lparr>qubitMap := (qubitMap ms)(key := map_option (\<lambda>q. q\<lparr>loc := l\<rparr>) (qubitMap ms key))\<rparr>"

definition add_move :: "nat \<Rightarrow> nat \<Rightarrow> nat \<Rightarrow> qArgInfo \<Rightarrow> moves \<Rightarrow> moves" where
  "add_move ts s d q ms = ms\<lparr>move_schedule := move_schedule ms @ [(ts, \<lparr>src = s, dest = d, arg = q\<rparr>)]\<rparr>"

definition add_local_move :: "nat \<Rightarrow> nat \<Rightarrow> nat \<Rightarrow> qArgInfo \<Rightarrow> moves \<Rightarrow> moves" where
  "add_local_move ts s d q ms =
     ms\<lparr>local_move_schedule := local_move_schedule ms @ [(ts, \<lparr>src = s, dest = d, arg = q\<rparr>)]\<rparr>"

text \<open>The next use of a qubit after its last operation: the last matching argument of the calls that
  depend on it; -1 for a call without slot.\<close>

definition slot_ts :: "sched \<Rightarrow> nat \<Rightarrow> int" where
  "slot_ts st i = (case slot st i of None \<Rightarrow> -1 | Some (t, r) \<Rightarrow> int t)"

definition slot_simd :: "sched \<Rightarrow> nat \<Rightarrow> int" where
  "slot_simd st i = (case slot st i of None \<Rightarrow> -1 | Some (t, r) \<Rightarrow> int r)"

definition next_use :: "call list \<Rightarrow> sched \<Rightarrow> nat \<Rightarrow> qArgInfo \<Rightarrow> int \<times> int" where
  "next_use calls st i q =
     foldl (\<lambda>u k. foldl (\<lambda>u a. if a = (qname q, qindex q) then (slot_ts st k, slot_simd st k) else u) u (args (calls ! k)))
       (2 ^ 31 - 1, -1) (out_edges calls i)"

text \<open>The victim of a full local memory: in the order of the keys, the last one with the latest next use.\<close>

definition find_victim :: "call list \<Rightarrow> (string \<rightharpoonup> qArgInfo) \<Rightarrow> nat \<Rightarrow> qArgInfo option" where
  "find_victim calls qm l =
     snd (foldl (\<lambda>(maxTS, v) k. case qm k of None \<Rightarrow> (maxTS, v)
          | Some q \<Rightarrow> if loc q = l \<and> maxTS \<le> nextTS q then (nextTS q, Some q) else (maxTS, v)) (0, None) (sort (remdups (map qubit_key (all_args calls)))))"

definition evict :: "call list \<Rightarrow> nat \<Rightarrow> nat \<Rightarrow> moves \<Rightarrow> moves option" where
  "evict calls ts l ms =
     (case find_victim calls (qubitMap ms) l of None \<Rightarrow> None
      | Some victim \<Rightarrow>
          (let ms1 = set_loc (info_key victim) 0 ms
           in Some (add_move ts l 0 victim
                (ms1\<lparr>localMemSizeMap := (localMemSizeMap ms1)(l := localMemSizeMap ms1 l - 1)\<rparr>))))"

text \<open>A qubit of an active region that is not used at this time step, with local memories.\<close>

definition stash :: "config \<Rightarrow> call list \<Rightarrow> sched \<Rightarrow> nat \<Rightarrow> string \<Rightarrow> qArgInfo \<Rightarrow> moves \<Rightarrow> qArgInfo list \<Rightarrow>
    (moves \<times> qArgInfo list) option" where
  "stash cfg calls st ts name thisQbit ms nxt =
     (case last_inst thisQbit of None \<Rightarrow> None
      | Some i \<Rightarrow>
          (case next_use calls st i thisQbit of (lowNextTS, nextOpLoc) \<Rightarrow>
             let s = loc thisQbit;
                 ms1 = ms\<lparr>qubitMap := (qubitMap ms)(name := map_option (\<lambda>q. q\<lparr>nextTS := lowNextTS\<rparr>) (qubitMap ms name))\<rparr>
             in if lowNextTS \<le> int ts + LOCAL_WINDOW cfg \<and> slot_ts st i \<noteq> int ts \<and> nextOpLoc = slot_simd st i \<and>
                   s mod 10 \<noteq> 0
                then case (if localMemSizeMap ms1 (s * 10) \<ge> LOCAL_Q cfg then evict calls ts (s * 10) ms1 else Some ms1) of
                       None \<Rightarrow> None
                     | Some ms2 \<Rightarrow>
                         (case qubitMap ms2 name of None \<Rightarrow> None
                          | Some q \<Rightarrow>
                              let ms3 = add_local_move ts s (s * 10) q (set_loc name (s * 10) ms2)
                              in Some (ms3\<lparr>localMemSizeMap := (localMemSizeMap ms3)(s * 10 := localMemSizeMap ms3 (s * 10) + 1)\<rparr>,
                                   nxt @ [q\<lparr>loc := s * 10\<rparr>]))
                else if slot_ts st i \<noteq> int ts
                then case qubitMap ms1 name of None \<Rightarrow> None
                     | Some q \<Rightarrow> Some (add_move ts s 0 q (set_loc name 0 ms1), nxt)
                else Some (ms1, nxt)))"

text \<open>An active qubit: it goes on if it is used now or if its region is idle, else it is moved away.\<close>

definition active_step :: "config \<Rightarrow> call list \<Rightarrow> sched \<Rightarrow> nat \<Rightarrow>
    (moves \<times> qArgInfo list \<times> qArgInfo list) option \<Rightarrow> qArgInfo \<Rightarrow> (moves \<times> qArgInfo list \<times> qArgInfo list) option" where
  "active_step cfg calls st ts s aq =
     (case s of None \<Rightarrow> None
      | Some (ms, current, nxt) \<Rightarrow>
          let name = info_key aq
          in case qubitMap ms name of None \<Rightarrow> None
           | Some thisQbit \<Rightarrow>
              (let s = loc thisQbit in
               case (if s mod 10 \<noteq> 0 then find (\<lambda>c. info_key c = name) current else None) of
                 Some c \<Rightarrow>
                   (let d = qsimd c;
                        q = thisQbit\<lparr>qsimd := d\<rparr>;
                        ms1 = ms\<lparr>qubitMap := (qubitMap ms)(name \<mapsto> q)\<rparr>
                    in Some (if d \<noteq> s then add_move ts s d q (set_loc name d ms1) else ms1, remove1 c current, nxt @ [q]))
               | None \<Rightarrow>
                   if \<not> simd_active cfg st ts s then Some (ms, current, nxt @ [thisQbit])
                   else if \<not> LOCAL_MEM cfg then Some (add_move ts s 0 thisQbit (set_loc name 0 ms), current, nxt)
                   else map_option (\<lambda>(ms', nxt'). (ms', current, nxt')) (stash cfg calls st ts name thisQbit ms nxt)))"

subsection \<open>The qubits that come in\<close>

definition fetch_step :: "config \<Rightarrow> nat \<Rightarrow> (moves \<times> qArgInfo list) option \<Rightarrow> qArgInfo \<Rightarrow> (moves \<times> qArgInfo list) option" where
  "fetch_step cfg ts s cq =
     (case s of None \<Rightarrow> None
      | Some (ms, nxt) \<Rightarrow>
          let name = info_key cq
          in case qubitMap ms name of None \<Rightarrow> None
           | Some curQbit \<Rightarrow>
              (let d = qsimd curQbit; nxt' = nxt @ [curQbit]
               in if loc curQbit = 0 \<or> \<not> LOCAL_MEM cfg
                  then Some (add_move ts 0 d curQbit (set_loc name d ms), nxt')
                  else let ms1 = add_local_move ts (loc curQbit) d curQbit (set_loc name d ms)
                       in Some (ms1\<lparr>localMemSizeMap := (localMemSizeMap ms1)(loc curQbit := localMemSizeMap ms1 (loc curQbit) - 1)\<rparr>,
                            nxt')))"

definition update_moves :: "config \<Rightarrow> call list \<Rightarrow> sched \<Rightarrow> nat \<Rightarrow> moves \<Rightarrow> moves option" where
  "update_moves cfg calls st ts ms =
     (case current_qubits cfg calls st ts (qubitMap ms) of None \<Rightarrow> None
      | Some (current, qm) \<Rightarrow>
          let ms0 = ms\<lparr>qubitMap := qm,
                simds := foldl (\<lambda>m simd. if ops_at st ts simd \<noteq> [] then max m simd else m) (simds ms) [1..<RES_CONSTRAINT cfg + 1]\<rparr>
          in case foldl (active_step cfg calls st ts) (Some (ms0, current, [])) (active_qubits ms) of
               None \<Rightarrow> None
             | Some (ms1, current1, nxt) \<Rightarrow>
                 (case foldl (fetch_step cfg ts) (Some (ms1, nxt)) current1 of None \<Rightarrow> None
                  | Some (ms2, nxt') \<Rightarrow> Some (ms2\<lparr>active_qubits := nxt'\<rparr>)))"

text \<open>The time steps are followed until the first one that region 1 does not use; the number of time
  steps is the second result.\<close>

function all_moves :: "config \<Rightarrow> call list \<Rightarrow> sched \<Rightarrow> nat \<Rightarrow> moves \<Rightarrow> (moves \<times> nat) option" where
  "all_moves cfg calls st ts ms =
     (if ts \<in> set (map fst (schedule st 1))
      then (case update_moves cfg calls st ts ms of None \<Rightarrow> None
            | Some ms' \<Rightarrow> all_moves cfg calls st (ts + 1) ms')
      else Some (ms, ts))"
  by pat_completeness auto
termination
proof (relation "measure (\<lambda>(cfg, calls, st, ts, ms). card {u \<in> set (map fst (schedule st 1)). ts \<le> u})", goal_cases)
  case (2 cfg calls st ts ms ms')
  then have "ts \<in> {u \<in> set (map fst (schedule st 1)). ts \<le> u}" "ts \<notin> {u \<in> set (map fst (schedule st 1)). ts + 1 \<le> u}"
    by simp_all
  moreover have "{u \<in> set (map fst (schedule st 1)). ts + 1 \<le> u} \<subseteq> {u \<in> set (map fst (schedule st 1)). ts \<le> u}" by auto
  ultimately have "{u \<in> set (map fst (schedule st 1)). ts + 1 \<le> u} \<subset> {u \<in> set (map fst (schedule st 1)). ts \<le> u}" by blast
  then show ?case by (simp add: psubset_card_mono)
qed simp

declare all_moves.simps [simp del]

subsection \<open>Printing\<close>

definition move_line :: "string \<Rightarrow> nat \<Rightarrow> move \<Rightarrow> string" where
  "move_line kind ts m =
     show_nat ts @ '',0 '' @ kind @ '' '' @ show_nat (dest m) @ '' '' @ show_nat (src m) @ '' '' @
     qname (arg m) @ show_int (qindex (arg m))"

text \<open>The full schedule: at every time step the moves, the local moves and the operations.\<close>

definition print_full_schedule :: "call list \<Rightarrow> nat list \<Rightarrow> sched \<Rightarrow> moves \<Rightarrow> nat \<Rightarrow> string list" where
  "print_full_schedule calls regions st ms op_count =
     concat (map (\<lambda>ts.
       map (\<lambda>(t, m). move_line ''TMOV'' t m) (filter (\<lambda>(t, m). t = ts) (move_schedule ms)) @
       map (\<lambda>(t, m). move_line ''BMOV'' t m) (filter (\<lambda>(t, m). t = ts) (local_move_schedule ms)) @
       concat (map (\<lambda>simd. map (\<lambda>(t, i). op_line calls t simd i)
         (filter (\<lambda>(t, i). t = ts) (schedule st simd))) regions)) [0..<op_count])"

text \<open>The metrics: a time step with moves counts as five.\<close>

definition print_schedule_metrics :: "sched \<Rightarrow> moves \<Rightarrow> nat \<Rightarrow> nat \<Rightarrow> string list" where
  "print_schedule_metrics st ms ots op_count =
     (let mts = length (remdups (map fst (move_schedule ms)))
      in [''ops = '' @ show_nat op_count, ''tmoves = '' @ show_nat (length (move_schedule ms)),
          ''bmoves = '' @ show_nat (length (local_move_schedule ms)), ''ots = '' @ show_nat ots,
          ''mts = '' @ show_nat mts, ''ts = '' @ show_int (int ots - int mts + int mts * 5),
          ''SIMDs = '' @ show_nat (simds ms), ''tgates = '' @ show_nat (tgates_cnt st)])"

subsection \<open>Leaf functions\<close>

text \<open>The calls of a function from the last to the first: whether the callee is a gate intrinsic, and its
  name. The answer is that of the first call.\<close>

fun leaf_loop :: "(bool \<times> string) list \<Rightarrow> bool \<Rightarrow> bool" where
  "leaf_loop [] isALeaf = isALeaf"
| "leaf_loop ((intrinsic, name) # rest) isALeaf =
     (if \<not> intrinsic \<and> name \<noteq> ''store_cbit'' then False else leaf_loop rest intrinsic)"

definition DetermineLeafFunction :: "(bool \<times> string) list \<Rightarrow> bool" where
  "DetermineLeafFunction callees = leaf_loop (rev callees) False"

text \<open>The table of time steps before the calls are analysed, for the names of qubit arguments and arrays.\<close>

definition funcQbits_start :: "string list \<Rightarrow> qbit_table" where
  "funcQbits_start names = map_of (map (\<lambda>n. (n, [-1 \<mapsto> 0, -2 \<mapsto> 0])) names)"

end
