(* ===== verification/Lpfs_Sched_Props.thy ===== *)
theory Lpfs_Sched_Props
  imports Lpfs_Schedule "HOL-Library.Multiset"
begin

text \<open>
  The invariant of the longest-path-first scheduler: the priority of a call is above those of the
  calls that depend on it, a longest path is a falling sequence of calls, and every placement
  keeps the schedule free of gaps, in the order of the dependencies and, with the operation
  constraint, of one type per region and time step.
\<close>

subsection \<open>The graph and the priorities\<close>

lemma next_equal_member:
  "j \<in> set (next_equal a xs) \<Longrightarrow> \<exists>c. (j, c) \<in> set xs \<and> a \<in> set (args c)"
  by (induction a xs rule: next_equal.induct) (auto split: if_splits)

lemma enumerate_drop:
  "(j, c) \<in> set (drop k (enumerate 0 xs)) \<Longrightarrow> k \<le> j \<and> j < length xs \<and> c = xs ! j"
  by (auto simp: in_set_conv_nth nth_enumerate_eq)

text \<open>An edge goes to a later call with a common argument.\<close>

lemma out_edge:
  assumes "j \<in> set (out_edges calls i)"
  shows "i < j \<and> j < length calls \<and> (\<exists>a. a \<in> set (args (calls ! i)) \<and> a \<in> set (args (calls ! j)))"
proof -
  obtain a where a: "a \<in> set (args (calls ! i))" "j \<in> set (next_equal a (drop (i + 1) (enumerate 0 calls)))"
    using assms by (auto simp: out_edges_def)
  from next_equal_member [OF a(2)] obtain c where
    "(j, c) \<in> set (drop (i + 1) (enumerate 0 calls))" "a \<in> set (args c)" by blast
  with enumerate_drop [OF this(1)] a(1) show ?thesis by (metis Suc_eq_plus1 Suc_le_lessD)
qed

lemma in_edges_iff: "i \<in> set (in_edges calls j) \<longleftrightarrow> i < length calls \<and> j \<in> set (out_edges calls i)"
  by (auto simp: in_edges_def)

subsection \<open>The table of time steps\<close>

text \<open>The time step recorded for an argument, and the tables in which the entry -2 is a maximum.\<close>

definition recorded :: "qbit_table \<Rightarrow> qarg \<Rightarrow> nat option" where
  "recorded tab a = (case tab (fst a) of None \<Rightarrow> None | Some m \<Rightarrow> m (if snd a = -1 then -2 else snd a))"

definition table_ok :: "qbit_table \<Rightarrow> bool" where
  "table_ok tab \<longleftrightarrow> (\<forall>name m. tab name = Some m \<longrightarrow>
     (\<exists>top t1. m (-2) = Some top \<and> m (-1) = Some t1 \<and> (\<forall>i t. m i = Some t \<longrightarrow> t \<le> top)))"

definition known :: "qbit_table \<Rightarrow> qarg list \<Rightarrow> bool" where
  "known tab as \<longleftrightarrow> (\<forall>a \<in> set as. fst a \<in> dom tab \<and> -1 \<le> snd a)"

text \<open>Tables that only grow: the reads add entries, the writes raise them.\<close>

definition table_le :: "qbit_table \<Rightarrow> qbit_table \<Rightarrow> bool" where
  "table_le tab tab' \<longleftrightarrow> dom tab' = dom tab \<and>
     (\<forall>a t. recorded tab a = Some t \<longrightarrow> (\<exists>t'. recorded tab' a = Some t' \<and> t \<le> t'))"

definition table_ext :: "qbit_table \<Rightarrow> qbit_table \<Rightarrow> bool" where
  "table_ext tab tab' \<longleftrightarrow> dom tab' = dom tab \<and> (\<forall>a t. recorded tab a = Some t \<longrightarrow> recorded tab' a = Some t)"

lemma table_le_refl: "table_le tab tab"
  by (auto simp: table_le_def)

lemma table_le_trans: "table_le t1 t2 \<Longrightarrow> table_le t2 t3 \<Longrightarrow> table_le t1 t3"
  unfolding table_le_def by (metis le_trans)

lemma table_ext_refl: "table_ext tab tab"
  by (auto simp: table_ext_def)

lemma table_ext_le: "table_ext tab tab' \<Longrightarrow> table_le tab tab'"
  unfolding table_ext_def table_le_def by auto

lemma known_dom: "dom tab' = dom tab \<Longrightarrow> known tab' as = known tab as"
  by (simp add: known_def)

lemma arg_ts_ok:
  assumes "table_ok tab" "fst a \<in> dom tab" "-1 \<le> snd a"
  shows "\<exists>t tab'. arg_ts tab a = Some (t, tab') \<and> table_ok tab' \<and> table_ext tab tab' \<and> recorded tab' a = Some t"
proof -
  obtain name i where a: "a = (name, i)" by (cases a)
  obtain m where m: "tab name = Some m" using assms(2) a by auto
  obtain top t1 where top: "m (-2) = Some top" "m (-1) = Some t1" "\<forall>i t. m i = Some t \<longrightarrow> t \<le> top"
    using assms(1) m unfolding table_ok_def by blast
  show ?thesis
  proof (cases "i = -1 \<or> m i \<noteq> None")
    case True
    then have "\<exists>t. arg_ts tab a = Some (t, tab) \<and> recorded tab a = Some t"
      using m top by (auto simp: arg_ts_def recorded_def a)
    with assms(1) table_ext_refl show ?thesis by blast
  next
    case False
    then have e: "arg_ts tab a = Some (t1, tab(name \<mapsto> m(i \<mapsto> t1)))" "i \<noteq> -2"
      using m top assms(3) by (auto simp: arg_ts_def a)
    have "table_ok (tab(name \<mapsto> m(i \<mapsto> t1)))"
      using assms(1) top e(2) False unfolding table_ok_def by (auto split: if_splits)
    moreover have "table_ext tab (tab(name \<mapsto> m(i \<mapsto> t1)))"
      using m False unfolding table_ext_def recorded_def by (auto split: option.splits if_splits)
    ultimately show ?thesis using e False by (auto simp: recorded_def a)
  qed
qed

lemma max_ts_ok:
  assumes "table_ok tab" "known tab as"
  shows "\<exists>t tab'. max_ts_of_all_args tab as acc = Some (t, tab') \<and> acc \<le> t \<and> table_ok tab' \<and> table_ext tab tab' \<and>
    (\<forall>a \<in> set as. \<exists>t'. recorded tab' a = Some t' \<and> t' \<le> t)"
  using assms
proof (induction as arbitrary: tab acc)
  case Nil
  then show ?case by (simp add: table_ext_refl)
next
  case (Cons a as)
  obtain t1 tab1 where 1: "arg_ts tab a = Some (t1, tab1)" "table_ok tab1" "table_ext tab tab1" "recorded tab1 a = Some t1"
    using arg_ts_ok [of tab a] Cons.prems by (auto simp: known_def)
  have k: "known tab1 as" using Cons.prems 1(3) by (simp add: known_def table_ext_def)
  obtain t tab' where 2: "max_ts_of_all_args tab1 as (if t1 > acc then t1 else acc) = Some (t, tab')"
    "(if t1 > acc then t1 else acc) \<le> t" "table_ok tab'" "table_ext tab1 tab'"
    "\<forall>a \<in> set as. \<exists>t'. recorded tab' a = Some t' \<and> t' \<le> t"
    using Cons.IH [OF 1(2) k] by blast
  have "recorded tab' a = Some t1" using 1(4) 2(4) unfolding table_ext_def by blast
  moreover have "table_ext tab tab'" using 1(3) 2(4) by (simp add: table_ext_def)
  moreover have "t1 \<le> t" "acc \<le> t" using 2(2) by (auto split: if_splits)
  ultimately show ?case using 1(1) 2 by simp
qed

lemma set_ts_ok:
  assumes ok: "table_ok tab" and a: "fst a \<in> dom tab" "-1 \<le> snd a" and r: "recorded tab a = Some t" "t \<le> new"
  shows "table_ok (set_ts new tab a)" and "table_le tab (set_ts new tab a)"
    and "recorded (set_ts new tab a) a = Some new"
    and "\<And>b u. recorded tab b = Some u \<Longrightarrow> u \<le> new \<Longrightarrow> \<exists>u'. recorded (set_ts new tab a) b = Some u' \<and> u' \<le> new"
proof -
  obtain name i where ai: "a = (name, i)" by (cases a)
  obtain m where m: "tab name = Some m" using a(1) ai by auto
  obtain top t1 where top: "m (-2) = Some top" "m (-1) = Some t1" "\<forall>i t. m i = Some t \<longrightarrow> t \<le> top"
    using ok m unfolding table_ok_def by blast
  define m' where "m' = (if i = -1 then (\<lambda>k. map_option (\<lambda>_. new) (m k))
     else (m(i \<mapsto> new))(-2 := Some (max top new)))"
  have s: "set_ts new tab a = tab(name \<mapsto> m')"
    using m top a(2) by (auto simp: set_ts_def ai m'_def max_def)
  have t: "m (if i = -1 then -2 else i) = Some t" using r(1) m by (simp add: recorded_def ai split: if_splits)
  have grow: "\<exists>u'. m' k = Some u' \<and> u \<le> u' \<and> (u \<le> new \<longrightarrow> u' \<le> new)" if "m k = Some u" for k u
  proof (cases "i = -1")
    case True
    then have "top \<le> new" using t top r(2) by simp
    then have "u \<le> new" using top(3) that le_trans by blast
    then show ?thesis using that True by (simp add: m'_def)
  next
    case False
    show ?thesis using that False t r(2) top by (auto simp: m'_def max_def)
  qed
  show "table_ok (set_ts new tab a)"
    unfolding s table_ok_def
  proof (intro allI impI)
    fix n k assume n: "(tab(name \<mapsto> m')) n = Some k"
    show "\<exists>top t1. k (- 2) = Some top \<and> k (- 1) = Some t1 \<and> (\<forall>i t. k i = Some t \<longrightarrow> t \<le> top)"
    proof (cases "n = name")
      case True
      then have k: "k = m'" using n by simp
      have e: "m' (-1) \<noteq> None" using top by (auto simp: m'_def)
      have tp: "m' (-2) = Some (if i = -1 then new else max top new)" using top by (simp add: m'_def)
      have "\<forall>j u. m' j = Some u \<longrightarrow> u \<le> (if i = -1 then new else max top new)"
        using top(3) by (auto simp: m'_def le_max_iff_disj split: if_splits)
      then show ?thesis using e tp k by auto
    next
      case False
      then show ?thesis using n ok unfolding table_ok_def by simp
    qed
  qed
  show "table_le tab (set_ts new tab a)"
    unfolding s table_le_def
  proof (intro conjI allI impI)
    show "dom (tab(name \<mapsto> m')) = dom tab" using m by auto
    fix b u assume b: "recorded tab b = Some u"
    show "\<exists>t'. recorded (tab(name \<mapsto> m')) b = Some t' \<and> u \<le> t'"
      using b m grow [of "if snd b = -1 then -2 else snd b" u]
      by (cases "fst b = name") (auto simp: recorded_def split: option.splits if_splits)
  qed
  show "recorded (set_ts new tab a) a = Some new"
    unfolding s using a(2) top by (auto simp: recorded_def ai m'_def)
  show "\<exists>u'. recorded (set_ts new tab a) b = Some u' \<and> u' \<le> new" if b: "recorded tab b = Some u" "u \<le> new" for b u
    using b m grow [of "if snd b = -1 then -2 else snd b" u]
    by (cases "fst b = name") (auto simp: s recorded_def split: option.splits if_splits)
qed

lemma set_all_ok:
  assumes "table_ok tab" "known tab as" "\<forall>a \<in> set as. \<exists>t. recorded tab a = Some t \<and> t \<le> new"
  shows "table_ok (foldl (set_ts new) tab as) \<and> table_le tab (foldl (set_ts new) tab as) \<and>
    (\<forall>a \<in> set as. \<exists>t. recorded (foldl (set_ts new) tab as) a = Some t \<and> new \<le> t)"
  using assms
proof (induction as arbitrary: tab)
  case Nil
  then show ?case by (simp add: table_le_refl)
next
  case (Cons a as)
  obtain t where t: "recorded tab a = Some t" "t \<le> new" using Cons.prems(3) by auto
  have a: "fst a \<in> dom tab" "-1 \<le> snd a" using Cons.prems(2) by (simp_all add: known_def)
  note s = set_ts_ok [OF Cons.prems(1) a t]
  have "known (set_ts new tab a) as"
    using Cons.prems(2) s(2) by (simp add: known_def table_le_def)
  moreover have "\<forall>b \<in> set as. \<exists>u. recorded (set_ts new tab a) b = Some u \<and> u \<le> new"
    using Cons.prems(3) s(4) by (meson list.set_intros(2))
  ultimately have ih: "table_ok (foldl (set_ts new) (set_ts new tab a) as)"
    "table_le (set_ts new tab a) (foldl (set_ts new) (set_ts new tab a) as)"
    "\<forall>b \<in> set as. \<exists>u. recorded (foldl (set_ts new) (set_ts new tab a) as) b = Some u \<and> new \<le> u"
    using Cons.IH [OF s(1)] by blast+
  moreover have "\<exists>u. recorded (foldl (set_ts new) (set_ts new tab a) as) a = Some u \<and> new \<le> u"
    using ih(2) s(3) unfolding table_le_def by blast
  ultimately show ?case using table_le_trans [OF s(2) ih(2)] by simp
qed

text \<open>The priority of a call exceeds what was recorded for its arguments, and is recorded for them.\<close>

lemma calc_ok:
  assumes "table_ok tab" "known tab (args c)"
  shows "\<exists>t tab'. calc_critical_time_unbounded tab c = Some (t, tab') \<and> table_ok tab' \<and> table_le tab tab' \<and>
    (\<forall>a \<in> set (args c). \<exists>u. recorded tab' a = Some u \<and> t \<le> u) \<and>
    (\<forall>a \<in> set (args c). \<forall>u. recorded tab a = Some u \<longrightarrow> u < t)"
proof -
  obtain m tab1 where 1: "max_ts_of_all_args tab (args c) 0 = Some (m, tab1)" "table_ok tab1" "table_ext tab tab1"
    "\<forall>a \<in> set (args c). \<exists>u. recorded tab1 a = Some u \<and> u \<le> m"
    using max_ts_ok [OF assms, of 0] by blast
  have k: "known tab1 (args c)" using assms(2) 1(3) by (simp add: known_def table_ext_def)
  have "\<forall>a \<in> set (args c). \<exists>u. recorded tab1 a = Some u \<and> u \<le> m + 1" using 1(4) by fastforce
  note s = set_all_ok [OF 1(2) k this]
  have "u < m + 1" if "a \<in> set (args c)" "recorded tab a = Some u" for a u
    using 1(3,4) that unfolding table_ext_def by (metis Suc_eq_plus1 le_imp_less_Suc option.inject)
  moreover have "table_le tab (foldl (set_ts (m + 1)) tab1 (args c))"
    using table_le_trans [OF table_ext_le [OF 1(3)]] s by blast
  ultimately show ?thesis using 1(1) s by (auto simp: calc_critical_time_unbounded_def)
qed

lemma priorities_ok:
  assumes "table_ok tab" "\<forall>(i, c) \<in> set xs. known tab (args c) \<and> c = calls ! i"
  shows "\<exists>ps. priorities tab xs = Some ps \<and>
    map fst ps = map fst (filter (\<lambda>(i, c). args c \<noteq> []) xs) \<and>
    (\<forall>(i, p) \<in> set ps. \<forall>a \<in> set (args (calls ! i)). \<forall>t. recorded tab a = Some t \<longrightarrow> t < p) \<and>
    sorted_wrt (\<lambda>(j, p) (i, q). (\<exists>a. a \<in> set (args (calls ! j)) \<and> a \<in> set (args (calls ! i))) \<longrightarrow> p < q) ps"
  using assms
proof (induction xs arbitrary: tab)
  case Nil
  then show ?case by simp
next
  case (Cons x xs)
  obtain i c where x: "x = (i, c)" by (cases x)
  have c: "c = calls ! i" "known tab (args c)" using Cons.prems(2) by (auto simp: x)
  show ?case
  proof (cases "args c = []")
    case True
    then show ?thesis using Cons by (simp add: x)
  next
    case False
    obtain t tab' where 1: "calc_critical_time_unbounded tab c = Some (t, tab')" "table_ok tab'" "table_le tab tab'"
      "\<forall>a \<in> set (args c). \<exists>u. recorded tab' a = Some u \<and> t \<le> u"
      "\<forall>a \<in> set (args c). \<forall>u. recorded tab a = Some u \<longrightarrow> u < t"
      using calc_ok [OF Cons.prems(1) c(2)] by blast
    have "\<forall>(i, c) \<in> set xs. known tab' (args c) \<and> c = calls ! i"
      using Cons.prems(2) 1(3) by (auto simp: known_def table_le_def)
    from Cons.IH [OF 1(2) this] obtain ps where ps: "priorities tab' xs = Some ps"
      "map fst ps = map fst (filter (\<lambda>(i, c). args c \<noteq> []) xs)"
      "\<forall>(i, p) \<in> set ps. \<forall>a \<in> set (args (calls ! i)). \<forall>t. recorded tab' a = Some t \<longrightarrow> t < p"
      "sorted_wrt (\<lambda>(j, p) (i, q). (\<exists>a. a \<in> set (args (calls ! j)) \<and> a \<in> set (args (calls ! i))) \<longrightarrow> p < q) ps"
      by blast
    have up: "u < p" if "(k, p) \<in> set ps" "a \<in> set (args (calls ! k))" "recorded tab a = Some u" for k p a u
    proof -
      note h = that
      obtain u' where "recorded tab' a = Some u'" "u \<le> u'" using 1(3) h(3) unfolding table_le_def by blast
      then show ?thesis using ps(3) h(1,2) by fastforce
    qed
    have new: "t < p" if "(k, p) \<in> set ps" "a \<in> set (args (calls ! k))" "a \<in> set (args c)" for k p a
    proof -
      note h = that
      obtain u where "recorded tab' a = Some u" "t \<le> u" using 1(4) h(3) by blast
      then show ?thesis using ps(3) h(1,2) by fastforce
    qed
    have "priorities tab (x # xs) = Some ((i, t) # ps)" using False 1(1) ps(1) by (simp add: x)
    moreover have "map fst ((i, t) # ps) = map fst (filter (\<lambda>(i, c). args c \<noteq> []) (x # xs))"
      using ps(2) False by (simp add: x)
    moreover have "\<forall>(k, p) \<in> set ((i, t) # ps). \<forall>a \<in> set (args (calls ! k)). \<forall>u. recorded tab a = Some u \<longrightarrow> u < p"
      using up 1(5) c(1) by auto
    moreover have "sorted_wrt (\<lambda>(j, p) (i, q). (\<exists>a. a \<in> set (args (calls ! j)) \<and> a \<in> set (args (calls ! i))) \<longrightarrow> p < q) ((i, t) # ps)"
      using ps(4) new c(1) by auto
    ultimately show ?thesis by blast
  qed
qed

subsection \<open>Longest paths\<close>

text \<open>A path goes from a call to its parents, so it is a strictly falling sequence of calls.\<close>

lemma climb_path:
  "climb calls ps i = (rest, ps') \<Longrightarrow> i < length calls \<Longrightarrow>
   sorted_wrt (>) (i # rest) \<and> (\<forall>k \<in> set rest. k < length calls)"
proof (induction calls ps i arbitrary: rest ps' rule: climb.induct)
  case (1 calls ps i)
  show ?case
  proof (cases "dist ps i > 1")
    case False
    then show ?thesis using "1.prems"(1) by (subst (asm) climb.simps) simp
  next
    case True
    define q where "q = take_path i ps"
    show ?thesis
    proof (cases "find (\<lambda>parent. dist q parent = dist ps i - 1 \<and> \<not> followed q parent) (in_edges calls i)")
      case None
      then show ?thesis using "1.prems"(1) True by (subst (asm) climb.simps) (simp add: q_def Let_def)
    next
      case (Some parent)
      obtain r p where rp: "climb calls q parent = (r, p)" by fastforce
      have rest: "rest = parent # r"
        using "1.prems"(1) True Some rp by (subst (asm) climb.simps) (simp add: q_def Let_def)
      have "parent \<in> set (in_edges calls i)" using Some by (auto simp: find_Some_iff)
      then have pi: "parent < i" "parent < length calls"
        by (auto simp: in_edges_iff dest: out_edge)
      have "sorted_wrt (>) (parent # r) \<and> (\<forall>k \<in> set r. k < length calls)"
        using "1.IH" [OF True refl q_def Some rp pi(2)] .
      then show ?thesis using pi rest by auto
    qed
  qed
qed

lemma head_bound:
  "snd s < n \<Longrightarrow> \<forall>i \<in> set is. i < n \<Longrightarrow> snd (foldl (\<lambda>s i. dist_step calls i s) s is) < n"
  by (induction "is" arbitrary: s) (auto simp: dist_step_def Let_def split: prod.splits)

lemma find_lp_path:
  assumes "find_lp calls skip ps = (path, ps')" "calls \<noteq> []"
  shows "sorted_wrt (>) path \<and> set path \<subseteq> {..<length calls} \<and> path \<noteq> []"
proof -
  obtain ps1 head where h: "foldl (\<lambda>s i. dist_step calls i s) (init_dist (length calls) skip ps, 0) [0..<length calls - 1] = (ps1, head)"
    by fastforce
  obtain rest ps2 where r: "climb calls ps1 head = (rest, ps2)" by fastforce
  have "snd (foldl (\<lambda>s i. dist_step calls i s) (init_dist (length calls) skip ps, 0) [0..<length calls - 1]) < length calls"
    by (rule head_bound) (use assms(2) in auto)
  then have hb: "head < length calls" by (simp only: h snd_conv)
  have "path = head # rest" using assms(1) h r by (simp add: find_lp_def Let_def)
  then show ?thesis using climb_path [OF r hb] hb by auto
qed

subsection \<open>The invariant of the schedule\<close>

text \<open>The lists of the regions and the slots of the calls agree; a call outside the set
  \<open>free\<close> comes after all its parents; below an occupied time step none is empty; with the
  operation constraint a region does one type of operation per time step.\<close>

definition agree :: "sched \<Rightarrow> bool" where
  "agree st \<longleftrightarrow> (\<forall>r t i. (t, i) \<in> set (schedule st r) \<longleftrightarrow> slot st i = Some (t, r)) \<and> (\<forall>r. distinct (schedule st r))"

definition in_calls :: "call list \<Rightarrow> sched \<Rightarrow> bool" where
  "in_calls calls st \<longleftrightarrow> (\<forall>i t r. slot st i = Some (t, r) \<longrightarrow> i < length calls)"

definition after_parents :: "call list \<Rightarrow> nat set \<Rightarrow> sched \<Rightarrow> bool" where
  "after_parents calls free st \<longleftrightarrow> (\<forall>i t r p. slot st i = Some (t, r) \<longrightarrow> i \<notin> free \<longrightarrow>
     p \<in> set (in_edges calls i) \<longrightarrow> (\<exists>t' r'. slot st p = Some (t', r') \<and> t' < t))"

definition no_gap :: "sched \<Rightarrow> bool" where
  "no_gap st \<longleftrightarrow> (\<forall>i t r t'. slot st i = Some (t, r) \<longrightarrow> t' < t \<longrightarrow> (\<exists>k r'. slot st k = Some (t', r')))"

definition one_type :: "call list \<Rightarrow> sched \<Rightarrow> bool" where
  "one_type calls st \<longleftrightarrow> (\<forall>i k t r. slot st i = Some (t, r) \<longrightarrow> slot st k = Some (t, r) \<longrightarrow> qFunc (calls ! i) = qFunc (calls ! k))"

text \<open>A time step that is used at all is used by region 1.\<close>

definition first_used :: "sched \<Rightarrow> bool" where
  "first_used st \<longleftrightarrow> (\<forall>i t r. slot st i = Some (t, r) \<longrightarrow> (\<exists>k. slot st k = Some (t, 1)))"

definition good :: "call list \<Rightarrow> nat set \<Rightarrow> nat \<Rightarrow> sched \<Rightarrow> bool" where
  "good calls free opp st \<longleftrightarrow> agree st \<and> in_calls calls st \<and> after_parents calls free st \<and> no_gap st \<and> first_used st \<and>
     (opp = 1 \<longrightarrow> one_type calls st)"

lemma goodD:
  assumes "good calls free opp st"
  shows "agree st" "in_calls calls st" "after_parents calls free st" "no_gap st" "opp = 1 \<Longrightarrow> one_type calls st" "first_used st"
  using assms by (simp_all add: good_def)

lemma good_start: "good calls free opp sched_start"
  by (simp add: good_def agree_def in_calls_def after_parents_def no_gap_def one_type_def first_used_def sched_start_def)

lemma sched_op_slot: "slot st i = None \<Longrightarrow> slot (sched_op calls i t r st) = (slot st)(i \<mapsto> (t, r))"
  by (simp add: sched_op_def)

lemma sched_op_schedule:
  "slot st i = None \<Longrightarrow> schedule (sched_op calls i t r st) = (schedule st)(r := schedule st r @ [(t, i)])"
  by (simp add: sched_op_def)

lemma good_step:
  assumes g: "good calls free opp st" and i: "slot st i = None" "i < length calls"
    and deps: "i \<notin> free \<Longrightarrow> \<forall>p \<in> set (in_edges calls i). \<exists>t' r'. slot st p = Some (t', r') \<and> t' < t"
    and dense: "\<forall>t' < t. \<exists>k r'. slot st k = Some (t', r')"
    and typed: "opp = 1 \<Longrightarrow> \<forall>k. slot st k = Some (t, r) \<longrightarrow> qFunc (calls ! k) = qFunc (calls ! i)"
    and first: "r = 1 \<or> (\<exists>k. slot st k = Some (t, 1))"
  shows "good calls free opp (sched_op calls i t r st)"
proof -
  define s where "s = sched_op calls i t r st"
  have sl: "slot s = (slot st)(i \<mapsto> (t, r))" and sc: "schedule s = (schedule st)(r := schedule st r @ [(t, i)])"
    by (simp_all add: s_def sched_op_slot sched_op_schedule i)
  have keep: "slot s k = Some x" if "slot st k = Some x" for k x using that i(1) by (auto simp: sl)
  have old: "k = i \<and> t' = t \<and> r' = r \<or> k \<noteq> i \<and> slot st k = Some (t', r')" if "slot s k = Some (t', r')" for k t' r'
    using that by (auto simp: sl split: if_splits)
  have a: "(t', k) \<in> set (schedule st r') \<longleftrightarrow> slot st k = Some (t', r')" "distinct (schedule st r')" for r' t' k
    using goodD(1) [OF g] by (simp_all add: agree_def)
  have "agree s" using a i(1) by (auto simp: agree_def sl sc)
  moreover have "in_calls calls s"
    using goodD(2) [OF g] i(2) by (auto simp: in_calls_def sl)
  moreover have "after_parents calls free s"
    unfolding after_parents_def
  proof (intro allI impI)
    fix k t' r' p assume h: "slot s k = Some (t', r')" "k \<notin> free" "p \<in> set (in_edges calls k)"
    from old [OF h(1)] have "\<exists>t'' r''. slot st p = Some (t'', r'') \<and> t'' < t'"
    proof
      assume "k = i \<and> t' = t \<and> r' = r"
      then show ?thesis using h deps by simp
    next
      assume "k \<noteq> i \<and> slot st k = Some (t', r')"
      then show ?thesis using goodD(3) [OF g] h(2,3) unfolding after_parents_def by blast
    qed
    then show "\<exists>t'' r''. slot s p = Some (t'', r'') \<and> t'' < t'" using keep by blast
  qed
  moreover have "no_gap s"
    unfolding no_gap_def
  proof (intro allI impI)
    fix k t' r' t'' assume h: "slot s k = Some (t', r')" "t'' < t'"
    from old [OF h(1)] have "\<exists>j r''. slot st j = Some (t'', r'')"
    proof
      assume "k = i \<and> t' = t \<and> r' = r"
      then show ?thesis using h dense by simp
    next
      assume "k \<noteq> i \<and> slot st k = Some (t', r')"
      then show ?thesis using goodD(4) [OF g] h(2) unfolding no_gap_def by blast
    qed
    then show "\<exists>j r''. slot s j = Some (t'', r'')" using keep by blast
  qed
  moreover have "first_used s"
    unfolding first_used_def
  proof (intro allI impI)
    fix k t' r' assume h: "slot s k = Some (t', r')"
    from old [OF h] show "\<exists>j. slot s j = Some (t', 1)"
    proof
      assume k: "k = i \<and> t' = t \<and> r' = r"
      show ?thesis
      proof (cases "r = 1")
        case True
        then show ?thesis using h k by blast
      next
        case False
        then show ?thesis using first keep k by blast
      qed
    next
      assume "k \<noteq> i \<and> slot st k = Some (t', r')"
      then show ?thesis using goodD(6) [OF g] keep unfolding first_used_def by blast
    qed
  qed
  moreover have "one_type calls s" if o: "opp = 1"
    unfolding one_type_def
  proof (intro allI impI)
    fix j k t' r' assume h: "slot s j = Some (t', r')" "slot s k = Some (t', r')"
    show "qFunc (calls ! j) = qFunc (calls ! k)"
      using old [OF h(1)] old [OF h(2)] typed [OF o] goodD(5) [OF g o]
      unfolding one_type_def by metis
  qed
  ultimately show ?thesis by (simp add: good_def s_def)
qed

subsection \<open>Where an operation is placed\<close>

lemma next_free_ok:
  "t \<le> next_free used t \<and> next_free used t \<notin> set used \<and> (\<forall>t'. t \<le> t' \<and> t' < next_free used t \<longrightarrow> t' \<in> set used)"
proof (induction used t rule: next_free.induct)
  case (1 used t)
  show ?case
  proof (cases "t \<in> set used")
    case False
    then have "next_free used t = t" by (subst next_free.simps) (simp only: if_False)
    then show ?thesis using False by auto
  next
    case True
    have "next_free used t = next_free used (t + 1)" using True by (subst next_free.simps) simp
    moreover have "t' = t \<or> t + 1 \<le> t'" if "t \<le> t'" for t' :: nat using that by linarith
    ultimately show ?thesis using "1.IH" [OF True] True by (metis add_leD1)
  qed
qed

lemma lowest_free_some:
  "lowest_free st ts rs low = Some (t, r) \<Longrightarrow>
   low = Some (t, r) \<or> r \<in> set rs \<and> t = next_free (map fst (schedule st r)) ts"
  by (induction st ts rs low rule: lowest_free.induct) (auto simp: Let_def split: option.splits prod.splits if_splits)

lemma lowest_free_region_1:
  "lowest_free st ts (rs @ [1]) low = Some (t, r) \<Longrightarrow> r = 1 \<or> t < next_free (map fst (schedule st 1)) ts"
  by (induction st ts rs low rule: lowest_free.induct) (auto simp: Let_def split: option.splits prod.splits if_splits)

lemma lowest_free_none: "lowest_free st ts rs low = None \<Longrightarrow> low = None \<and> rs = []"
  by (induction st ts rs low rule: lowest_free.induct) (auto simp: Let_def split: option.splits prod.splits if_splits)

text \<open>At a time step at which the dependencies are met, an operation keeps the invariant.\<close>

lemma agree_free:
  assumes "agree st" "t \<notin> set (map fst (schedule st r))"
  shows "slot st k \<noteq> Some (t, r)"
  using assms by (force simp: agree_def)

lemma same_type_region_ok:
  assumes g: "good calls free opp st" and o: "opp = 1"
    and f: "same_type_region calls RES st i ts = Some r"
  shows "\<forall>k. slot st k = Some (ts, r) \<longrightarrow> qFunc (calls ! k) = qFunc (calls ! i)"
proof (intro allI impI)
  fix k assume k: "slot st k = Some (ts, r)"
  obtain j where j: "find_ts st r ts = Some j" "qFunc (calls ! i) = qFunc (calls ! j)"
    using f by (auto simp: same_type_region_def find_Some_iff split: option.splits)
  have "(ts, j) \<in> set (schedule st r)" using j(1) by (simp add: find_ts_def map_of_SomeD)
  then have "slot st j = Some (ts, r)" using goodD(1) [OF g] by (simp add: agree_def)
  then show "qFunc (calls ! k) = qFunc (calls ! i)" using goodD(5) [OF g o] k j(2) unfolding one_type_def by metis
qed

lemma depsMet_iff:
  "depsMet calls st i t \<longleftrightarrow> (\<forall>p \<in> set (in_edges calls i). \<exists>t' r'. slot st p = Some (t', r') \<and> t' < t)"
  by (auto simp: depsMet_def list_all_iff split: option.splits prod.splits)

lemma place_op_good:
  assumes g: "good calls free opp st" and i: "slot st i = None" "i < length calls" and res: "1 \<le> RES"
    and deps: "depsMet calls st i ts" and dense: "\<forall>t' < ts. \<exists>k r'. slot st k = Some (t', r')"
  shows "good calls free opp (place_op calls RES opp i ts st) \<and>
    (\<exists>t r. slot (place_op calls RES opp i ts st) = (slot st)(i \<mapsto> (t, r)))"
proof -
  have step: "good calls free opp (sched_op calls i t r st)"
    if t: "ts \<le> t" "\<forall>t'. ts \<le> t' \<and> t' < t \<longrightarrow> (\<exists>k r'. slot st k = Some (t', r'))"
      "opp = 1 \<Longrightarrow> \<forall>k. slot st k = Some (t, r) \<longrightarrow> qFunc (calls ! k) = qFunc (calls ! i)"
      "r = 1 \<or> (\<exists>k. slot st k = Some (t, 1))" for t r
  proof (rule good_step [OF g i])
    show "\<forall>p \<in> set (in_edges calls i). \<exists>t' r'. slot st p = Some (t', r') \<and> t' < t"
      using deps t(1) unfolding depsMet_iff by (meson order_less_le_trans)
    show "\<forall>t' < t. \<exists>k r'. slot st k = Some (t', r')" using dense t(2) by (meson not_less)
  qed (use t(3,4) in simp_all)
  have "\<exists>t r. place_op calls RES opp i ts st = sched_op calls i t r st \<and> good calls free opp (sched_op calls i t r st)"
  proof (cases "opp = 1")
    case False
    then have "place_op calls RES opp i ts st = sched_op calls i ts 1 st" by (simp add: place_op_def)
    moreover have "good calls free opp (sched_op calls i ts 1 st)" by (rule step) (use False in auto)
    ultimately show ?thesis by blast
  next
    case o: True
    show ?thesis
    proof (cases "same_type_region calls RES st i ts")
      case (Some r)
      have "place_op calls RES opp i ts st = sched_op calls i ts r st" using o Some by (simp add: place_op_def)
      moreover have "good calls free opp (sched_op calls i ts r st)"
      proof (rule step)
        obtain j where "find_ts st r ts = Some j"
          using Some by (auto simp: same_type_region_def find_Some_iff split: option.splits)
        then have "slot st j = Some (ts, r)"
          using goodD(1) [OF g] by (auto simp: agree_def find_ts_def dest: map_of_SomeD)
        then show "r = 1 \<or> (\<exists>k. slot st k = Some (ts, 1))"
          using goodD(6) [OF g] unfolding first_used_def by blast
      qed (use same_type_region_ok [OF g o Some] in auto)
      ultimately show ?thesis by blast
    next
      case None
      obtain t r where l: "lowest_free st ts (rev [1..<RES + 1]) None = Some (t, r)"
        using lowest_free_none [of st ts "rev [1..<RES + 1]" None] res by (cases "lowest_free st ts (rev [1..<RES + 1]) None") auto
      have t: "t = next_free (map fst (schedule st r)) ts" using lowest_free_some [OF l] by simp
      note nf = next_free_ok [of ts "map fst (schedule st r)", folded t]
      have "place_op calls RES opp i ts st = sched_op calls i t r st"
        using o None l by (simp add: place_op_def)
      moreover have "good calls free opp (sched_op calls i t r st)"
      proof (rule step)
        show "ts \<le> t" using nf by simp
        show "\<forall>t'. ts \<le> t' \<and> t' < t \<longrightarrow> (\<exists>k r'. slot st k = Some (t', r'))"
          using nf agree_free [OF goodD(1) [OF g]] goodD(1) [OF g] by (fastforce simp: agree_def)
        have "rev [1..<RES + 1] = rev [2..<RES + 1] @ [1]" using res by (simp add: upt_rec numeral_2_eq_2)
        then have "r = 1 \<or> t < next_free (map fst (schedule st 1)) ts" using lowest_free_region_1 l by metis
        then show "r = 1 \<or> (\<exists>k. slot st k = Some (t, 1))"
        proof
          assume "t < next_free (map fst (schedule st 1)) ts"
          then have "t \<in> set (map fst (schedule st 1))"
            using next_free_ok [of ts "map fst (schedule st 1)"] nf by blast
          then show ?thesis using goodD(1) [OF g] by (auto simp: agree_def)
        qed simp
        show "\<forall>k. slot st k = Some (t, r) \<longrightarrow> qFunc (calls ! k) = qFunc (calls ! i)"
          using agree_free [OF goodD(1) [OF g]] nf by simp
      qed
      ultimately show ?thesis by blast
    qed
  qed
  then obtain t r where tr: "place_op calls RES opp i ts st = sched_op calls i t r st"
    "good calls free opp (sched_op calls i t r st)" by blast
  show ?thesis using tr sched_op_slot [OF i(1), of calls t r] by (intro conjI exI [of _ t] exI [of _ r]) simp_all
qed

text \<open>When all parents are placed the search stops at the first time step after them.\<close>

lemma try_op_until:
  assumes "slot st i = None" "depsMet calls st i d" "ts \<le> d" "\<forall>t. ts \<le> t \<and> t < d \<longrightarrow> \<not> depsMet calls st i t"
    "slot (place_op calls RES opp i d st) i \<noteq> None"
  shows "try_op calls RES opp i ts st = Some (place_op calls RES opp i d st)"
  using assms
proof (induction "d - ts" arbitrary: ts)
  case 0
  then have d: "ts = d" by simp
  have "try_op calls RES opp i (ts + 1) (place_op calls RES opp i d st) = Some (place_op calls RES opp i d st)"
    using "0.prems"(5) by (subst try_op.simps) simp
  then show ?case using "0.prems"(1,2) d by (subst try_op.simps) simp
next
  case (Suc n)
  then have "\<not> depsMet calls st i ts" "n = d - (ts + 1)" "ts + 1 \<le> d" by auto
  with Suc show ?case by (subst try_op.simps) simp
qed

lemma try_op_placed: "slot st i \<noteq> None \<Longrightarrow> try_op calls RES opp i ts st = Some st"
  by (subst try_op.simps) simp

lemma first_step:
  assumes g: "good calls free opp st" and par: "\<forall>p \<in> set (in_edges calls i). slot st p \<noteq> None"
  shows "\<exists>d. depsMet calls st i d \<and> (\<forall>t < d. \<not> depsMet calls st i t) \<and> (\<forall>t' < d. \<exists>k r'. slot st k = Some (t', r'))"
proof -
  define D where "D = Suc (Max (insert 0 ((\<lambda>p. fst (the (slot st p))) ` set (in_edges calls i))))"
  have "depsMet calls st i D"
    unfolding depsMet_iff
  proof
    fix p assume p: "p \<in> set (in_edges calls i)"
    then obtain t r where t: "slot st p = Some (t, r)" using par by (metis not_None_eq surj_pair)
    then have "t \<in> insert 0 ((\<lambda>p. fst (the (slot st p))) ` set (in_edges calls i))" using p by force
    then have "t < D" unfolding D_def by (simp add: less_Suc_eq_le)
    with t show "\<exists>t' r'. slot st p = Some (t', r') \<and> t' < D" by blast
  qed
  then obtain d where d: "depsMet calls st i d" "\<forall>t < d. \<not> depsMet calls st i t"
    using exists_least_iff [of "depsMet calls st i"] by blast
  have "\<exists>k r'. slot st k = Some (t', r')" if t': "t' < d" for t'
  proof -
    obtain e where e: "d = Suc e" using t' by (cases d) auto
    then have "\<not> depsMet calls st i e" using d(2) by simp
    then obtain p where p: "p \<in> set (in_edges calls i)" "\<not> (\<exists>t' r'. slot st p = Some (t', r') \<and> t' < e)"
      unfolding depsMet_iff by blast
    moreover obtain t r where t: "slot st p = Some (t, r)" "t < Suc e"
      using d(1) p(1) e unfolding depsMet_iff by blast
    ultimately have "t = e" by (metis less_SucE)
    show ?thesis
    proof (cases "t' = e")
      case True
      then show ?thesis using t(1) \<open>t = e\<close> by blast
    next
      case False
      then have "t' < t" using t' e \<open>t = e\<close> by simp
      then show ?thesis using goodD(4) [OF g] t(1) unfolding no_gap_def by blast
    qed
  qed
  with d show ?thesis by blast
qed

lemma try_op_good:
  assumes g: "good calls free opp st" and i: "slot st i = None" "i < length calls" and res: "1 \<le> RES"
    and par: "\<forall>p \<in> set (in_edges calls i). slot st p \<noteq> None"
  shows "\<exists>st' t r. try_op calls RES opp i 0 st = Some st' \<and> good calls free opp st' \<and> slot st' = (slot st)(i \<mapsto> (t, r))"
proof -
  obtain d where d: "depsMet calls st i d" "\<forall>t < d. \<not> depsMet calls st i t" "\<forall>t' < d. \<exists>k r'. slot st k = Some (t', r')"
    using first_step [OF g par] by blast
  have p: "good calls free opp (place_op calls RES opp i d st)"
    "\<exists>t r. slot (place_op calls RES opp i d st) = (slot st)(i \<mapsto> (t, r))"
    using place_op_good [OF g i res d(1,3)] by blast+
  then have "slot (place_op calls RES opp i d st) i \<noteq> None" by auto
  then have "try_op calls RES opp i 0 st = Some (place_op calls RES opp i d st)"
    using try_op_until [OF i(1) d(1)] d(2) by simp
  with p show ?thesis by blast
qed

subsection \<open>The passes\<close>

text \<open>A pass over a list in which every call comes after its parents places what is left and counts it.\<close>

lemma sched_pass_good:
  assumes "good calls free opp st" "1 \<le> RES" "distinct todo" "set todo \<subseteq> {..<length calls}"
    "\<forall>i < length calls. slot st i \<noteq> None \<or> i \<in> set todo"
    "sorted_wrt (\<lambda>x y. x \<notin> set (out_edges calls y)) todo"
  shows "\<exists>st'. sched_pass calls RES opp todo (st, k) = Some (st', k + length (filter (\<lambda>i. slot st i = None) todo)) \<and>
    good calls free opp st' \<and> (\<forall>i < length calls. slot st' i \<noteq> None) \<and> (\<forall>i x. slot st i = Some x \<longrightarrow> slot st' i = Some x)"
  using assms
proof (induction todo arbitrary: st k)
  case Nil
  then show ?case by simp
next
  case (Cons i todo)
  have il: "i < length calls" using Cons.prems(4) by simp
  have par: "\<forall>p \<in> set (in_edges calls i). slot st p \<noteq> None"
  proof
    fix p assume "p \<in> set (in_edges calls i)"
    then have p: "p < length calls" "i \<in> set (out_edges calls p)" by (simp_all add: in_edges_iff)
    then have "p \<noteq> i" "p \<notin> set todo" using out_edge [of i calls p] Cons.prems(6) by auto
    then show "slot st p \<noteq> None" using Cons.prems(5) p(1) by auto
  qed
  obtain st1 where st1: "try_op calls RES opp i 0 st = Some st1" "good calls free opp st1"
    "\<forall>j. j \<noteq> i \<longrightarrow> slot st1 j = slot st j" "slot st1 i \<noteq> None" "\<forall>x. slot st i = Some x \<longrightarrow> slot st1 i = Some x"
  proof (cases "slot st i")
    case None
    from try_op_good [OF Cons.prems(1) None il Cons.prems(2) par] obtain st' t r where
      "try_op calls RES opp i 0 st = Some st'" "good calls free opp st'" "slot st' = (slot st)(i \<mapsto> (t, r))" by blast
    then show ?thesis using that [of st'] None by simp
  next
    case (Some x)
    then show ?thesis using that [of st] try_op_placed [of st i] Cons.prems(1) by simp
  qed
  have f: "filter (\<lambda>j. slot st1 j = None) todo = filter (\<lambda>j. slot st j = None) todo"
    using st1(3) Cons.prems(3) by (intro filter_cong) auto
  have all: "\<forall>j < length calls. slot st1 j \<noteq> None \<or> j \<in> set todo"
    using Cons.prems(5) st1(3,4) by (metis set_ConsD)
  define k' where "k' = (if slot st i = None then k + 1 else k)"
  obtain st' where st': "sched_pass calls RES opp todo (st1, k') = Some (st', k' + length (filter (\<lambda>j. slot st j = None) todo))"
    "good calls free opp st'" "\<forall>j < length calls. slot st' j \<noteq> None" "\<forall>j x. slot st1 j = Some x \<longrightarrow> slot st' j = Some x"
    using Cons.IH [OF st1(2) Cons.prems(2) _ _ all, of k'] Cons.prems(3,4,6) f by auto
  have "sched_pass calls RES opp (i # todo) (st, k) = sched_pass calls RES opp todo (st1, k')"
    using st1(1) by (simp add: k'_def)
  moreover have "k' + length (filter (\<lambda>j. slot st j = None) todo) = k + length (filter (\<lambda>j. slot st j = None) (i # todo))"
    by (simp add: k'_def)
  moreover have "\<forall>j x. slot st j = Some x \<longrightarrow> slot st' j = Some x"
    using st'(4) st1(3,5) by metis
  ultimately show ?case using st'(1-3) by auto
qed

text \<open>A path is placed in consecutive time steps of its region.\<close>

lemma place_path_good:
  assumes "good calls (set path \<union> S) opp st" "distinct path" "set path \<subseteq> {..<length calls}"
    "\<forall>i \<in> set path. slot st i = None" "\<forall>k t r. slot st k = Some (t, r) \<longrightarrow> t < ts"
    "\<forall>t < ts. \<exists>k r. slot st k = Some (t, r)"
  shows "good calls (set path \<union> S) opp (fst (place_path calls 1 path (st, ts))) \<and>
    (\<forall>i. slot (fst (place_path calls 1 path (st, ts))) i \<noteq> None \<longleftrightarrow> slot st i \<noteq> None \<or> i \<in> set path)"
  using assms
proof (induction path arbitrary: st ts S)
  case Nil
  then show ?case by simp
next
  case (Cons i path)
  have i: "slot st i = None" "i < length calls" using Cons.prems(3,4) by simp_all
  define s where "s = sched_op calls i ts 1 st"
  have sl: "slot s = (slot st)(i \<mapsto> (ts, 1))" by (simp add: s_def sched_op_slot i)
  have "good calls (set (i # path) \<union> S) opp s"
    unfolding s_def
  proof (rule good_step [OF Cons.prems(1) i])
    show "\<forall>t' < ts. \<exists>k r'. slot st k = Some (t', r')" by (rule Cons.prems(6))
    show "\<forall>k. slot st k = Some (ts, 1) \<longrightarrow> qFunc (calls ! k) = qFunc (calls ! i)"
      using Cons.prems(5) by blast
  qed simp_all
  moreover have u: "set path \<union> insert i S = set (i # path) \<union> S" by auto
  ultimately have g: "good calls (set path \<union> insert i S) opp s" by simp
  have "\<forall>j \<in> set path. slot s j = None" using Cons.prems(2,4) by (auto simp: sl)
  moreover have "\<forall>k t r. slot s k = Some (t, r) \<longrightarrow> t < ts + 1"
    using Cons.prems(5) by (auto simp: sl less_SucI)
  moreover have "\<forall>t < ts + 1. \<exists>k r. slot s k = Some (t, r)"
  proof (intro allI impI)
    fix t assume "t < ts + 1"
    then have "t = ts \<or> t < ts" by auto
    then show "\<exists>k r. slot s k = Some (t, r)"
    proof
      assume "t = ts"
      then show ?thesis by (auto simp: sl)
    next
      assume "t < ts"
      then obtain k r where "slot st k = Some (t, r)" using Cons.prems(6) by blast
      then have "slot s k = Some (t, r)" using i(1) by (auto simp: sl)
      then show ?thesis by blast
    qed
  qed
  ultimately have ih: "good calls (set path \<union> insert i S) opp (fst (place_path calls 1 path (s, ts + 1)))"
    "\<forall>j. slot (fst (place_path calls 1 path (s, ts + 1))) j \<noteq> None \<longleftrightarrow> slot s j \<noteq> None \<or> j \<in> set path"
    using Cons.IH [OF g] Cons.prems(2,3) by auto
  have e: "place_path calls 1 (i # path) (st, ts) = place_path calls 1 path (s, ts + 1)"
    using i(1) by (simp add: s_def)
  show ?case
  proof
    show "good calls (set (i # path) \<union> S) opp (fst (place_path calls 1 (i # path) (st, ts)))"
      using ih(1) unfolding e u .
    show "\<forall>j. slot (fst (place_path calls 1 (i # path) (st, ts))) j \<noteq> None \<longleftrightarrow> slot st j \<noteq> None \<or> j \<in> set (i # path)"
      using ih(2) unfolding e by (auto simp: sl split: if_splits)
  qed
qed

subsection \<open>The priority vector\<close>

definition sorts_by_value :: "((nat \<times> nat) list \<Rightarrow> (nat \<times> nat) list) \<Rightarrow> bool" where
  "sorts_by_value srt \<longleftrightarrow> (\<forall>xs. mset (srt xs) = mset xs \<and> sorted (map snd (srt xs)))"

text \<open>Every call has arguments, of arrays that the function allocates or gets.\<close>

definition calls_known :: "qbit_table \<Rightarrow> call list \<Rightarrow> bool" where
  "calls_known tab calls \<longleftrightarrow> table_ok tab \<and> (\<forall>c \<in> set calls. args c \<noteq> [] \<and> known tab (args c))"

lemma priorityVector_ok:
  assumes srt: "sorts_by_value srt" and kn: "calls_known tab calls"
  shows "\<exists>ps. priorityVector srt tab calls = Some ps \<and> distinct (map fst ps) \<and> set (map fst ps) = {..<length calls} \<and>
    length ps = length calls \<and> sorted_wrt (\<lambda>x y. x \<notin> set (out_edges calls y)) (rev (map fst ps))"
proof -
  define xs where "xs = rev (enumerate 0 calls)"
  have c: "c = calls ! i \<and> i < length calls" if "(i, c) \<in> set xs" for i c
    using that by (auto simp: xs_def in_set_conv_nth nth_enumerate_eq)
  have "\<forall>(i, c) \<in> set xs. known tab (args c) \<and> c = calls ! i"
    using c kn by (metis (mono_tags, lifting) calls_known_def case_prodI2 nth_mem)
  moreover have "table_ok tab" using kn by (simp add: calls_known_def)
  ultimately obtain qs where qs: "priorities tab xs = Some qs"
    "map fst qs = map fst (filter (\<lambda>(i, c). args c \<noteq> []) xs)"
    "sorted_wrt (\<lambda>(j, p) (i, q). (\<exists>a. a \<in> set (args (calls ! j)) \<and> a \<in> set (args (calls ! i))) \<longrightarrow> p < q) qs"
    using priorities_ok [of tab xs calls] by blast
  have "args b \<noteq> []" if "(a, b) \<in> set xs" for a b
    using c [OF that] kn by (metis calls_known_def nth_mem)
  then have "filter (\<lambda>(i, c). args c \<noteq> []) xs = xs"
    by (auto simp: filter_id_conv)
  then have fst: "map fst qs = rev [0..<length calls]" using qs(2) by (simp add: xs_def rev_map [symmetric])
  have edge: "q > p" if h: "(j, p) \<in> set qs" "(i, q) \<in> set qs" "j \<in> set (out_edges calls i)" for i j p q
  proof -
    obtain a b where a: "a < length qs" "qs ! a = (j, p)" and b: "b < length qs" "qs ! b = (i, q)"
      using h(1,2) by (auto simp: in_set_conv_nth)
    have l: "length qs = length calls" using arg_cong [OF fst, of length] by simp
    have "map fst qs ! a = j" "map fst qs ! b = i" using a b by simp_all
    then have "j = length calls - 1 - a" "i = length calls - 1 - b"
      using a b l by (simp_all add: fst rev_nth)
    moreover have "i < j" using out_edge [OF h(3)] by simp
    ultimately have "a < b" using a b l by linarith
    from qs(3) [unfolded sorted_wrt_iff_nth_less, rule_format, OF this b(1)]
    have "(\<exists>a. a \<in> set (args (calls ! j)) \<and> a \<in> set (args (calls ! i))) \<longrightarrow> p < q"
      by (simp add: a(2) b(2))
    then show "p < q" using out_edge [OF h(3)] by blast
  qed
  define ps where "ps = srt qs"
  have m: "mset ps = mset qs" "sorted (map snd ps)" using srt by (simp_all add: ps_def sorts_by_value_def)
  have "mset (map fst ps) = mset (rev [0..<length calls])" using m(1) by (simp flip: fst)
  then have d: "distinct (map fst ps)" "set (map fst ps) = {..<length calls}" "length ps = length calls"
    by (metis distinct_rev distinct_upt mset_eq_imp_distinct_iff,
        metis set_mset_mset set_rev atLeast_upt,
        metis length_map length_rev length_upt minus_nat.diff_0 size_mset)
  have "sorted_wrt (\<lambda>x y. x \<notin> set (out_edges calls y)) (rev (map fst ps))"
    unfolding sorted_wrt_rev sorted_wrt_map
  proof (rule sorted_wrt_mono_rel [rotated])
    show "sorted_wrt (\<lambda>x y. snd x \<le> snd y) ps" using m(2) by (simp add: sorted_wrt_map)
    fix x y assume "x \<in> set ps" "y \<in> set ps" "snd x \<le> snd y"
    then show "fst y \<notin> set (out_edges calls (fst x))"
      using edge [of "fst y" "snd y" "fst x" "snd x"] mset_eq_setD [OF m(1)] by (auto simp: not_less)
  qed
  moreover have "priorityVector srt tab calls = Some ps" by (simp add: priorityVector_def qs(1) ps_def flip: xs_def)
  ultimately show ?thesis using d by blast
qed

subsection \<open>The whole schedule\<close>

definition start_paths :: paths where
  "start_paths = \<lparr>dist = (\<lambda>_. -1), followed = (\<lambda>_. False)\<rparr>"

lemma lpfs_good:
  assumes prio: "distinct prio" "set prio = {..<length calls}" "sorted_wrt (\<lambda>x y. x \<notin> set (out_edges calls y)) (rev prio)"
    and ne: "calls \<noteq> []" and l: "simd_l \<le> 1" and res: "1 \<le> RES"
  shows "\<exists>st. lpfs calls skip prio RES simd_l opp 0 = Some st \<and>
    good calls (set (concat (longest_paths calls skip simd_l start_paths))) opp st \<and> (\<forall>i < length calls. slot st i \<noteq> None)"
proof -
  define path where "path = concat (longest_paths calls skip simd_l start_paths)"
  have pd: "distinct path \<and> set path \<subseteq> {..<length calls} \<and>
    place_paths calls 1 (longest_paths calls skip simd_l start_paths) (sched_start, 0) =
      place_path calls 1 (rev path) (sched_start, 0) \<and>
    sum_list (map length (longest_paths calls skip simd_l start_paths)) = length path"
  proof (cases simd_l)
    case 0
    then show ?thesis by (simp add: path_def)
  next
    case (Suc k)
    with l have k: "simd_l = Suc 0" by simp
    obtain p ps' where f: "find_lp calls skip start_paths = (p, ps')" by fastforce
    have "longest_paths calls skip simd_l start_paths = [p]" by (simp add: k f)
    moreover have "sorted_wrt (>) p \<and> set p \<subseteq> {..<length calls}" using find_lp_path [OF f ne] by simp
    moreover have "distinct p" if "sorted_wrt (>) p" using that by (induction p) auto
    ultimately show ?thesis by (simp add: path_def)
  qed
  define st0 where "st0 = fst (place_path calls 1 (rev path) (sched_start, 0))"
  have "good calls (set (rev path) \<union> {}) opp st0 \<and> (\<forall>i. slot st0 i \<noteq> None \<longleftrightarrow> slot sched_start i \<noteq> None \<or> i \<in> set (rev path))"
    unfolding st0_def
    by (rule place_path_good) (use pd good_start in \<open>auto simp: sched_start_def\<close>)
  then have st0: "good calls (set path) opp st0" "\<And>i. slot st0 i \<noteq> None \<longleftrightarrow> i \<in> set path"
    by (simp_all add: sched_start_def)
  have e: "lpfs calls skip prio RES simd_l opp 0 = sched_loop calls RES opp (rev prio) (length prio) (st0, length path)"
    using ne pd by (simp add: lpfs_def Let_def st0_def start_paths_def [symmetric] split: prod.splits)
  have n: "length prio = length calls" using prio(1,2) by (metis distinct_card card_lessThan)
  have cp: "card (set path) = length path" using pd distinct_card by blast
  show ?thesis
  proof (cases "length path < length prio")
    case False
    have "card (set path) \<le> card {..<length calls}" using pd by (intro card_mono) auto
    then have "card (set path) = card {..<length calls}" using False n cp by simp
    then have "set path = {..<length calls}" using pd by (intro card_subset_eq) auto
    then have "\<forall>i < length calls. slot st0 i \<noteq> None" using st0(2) by auto
    moreover have "lpfs calls skip prio RES simd_l opp 0 = Some st0"
      unfolding e by (subst sched_loop.simps) (simp add: False)
    ultimately show ?thesis using st0(1) unfolding path_def by blast
  next
    case True
    obtain st' where st': "sched_pass calls RES opp (rev prio) (st0, length path) =
        Some (st', length path + length (filter (\<lambda>i. slot st0 i = None) (rev prio)))"
      "good calls (set path) opp st'" "\<forall>i < length calls. slot st' i \<noteq> None"
      using sched_pass_good [OF st0(1) res, of "rev prio" "length path"] prio by auto
    have "length (filter (\<lambda>i. slot st0 i = None) (rev prio)) = card (set (filter (\<lambda>i. slot st0 i = None) (rev prio)))"
      using prio(1) by (metis distinct_card distinct_filter distinct_rev)
    also have "set (filter (\<lambda>i. slot st0 i = None) (rev prio)) = {..<length calls} - set path"
      unfolding set_filter set_rev prio(2) using st0(2) by blast
    also have "card ({..<length calls} - set path) = length calls - length path"
      using pd cp by (simp add: card_Diff_subset)
    finally have "length path + length (filter (\<lambda>i. slot st0 i = None) (rev prio)) = length prio"
      using True n by simp
    then have "sched_loop calls RES opp (rev prio) (length prio) (st0, length path) = Some st'"
      using True st'(1) by (subst sched_loop.simps) (simp add: sched_loop.simps [of _ _ _ _ _ "(st', length prio)"])
    then show ?thesis using st'(2,3) e unfolding path_def by auto
  qed
qed

lemma lpfs_schedule_good:
  assumes "sorts_by_value srt" "calls_known tab calls" "calls \<noteq> []" "simd_l \<le> 1" "1 \<le> RES"
    "priorityVector srt tab calls = Some ps"
  shows "\<exists>st. lpfs calls skip (map fst ps) RES simd_l opp 0 = Some st \<and>
    good calls (set (concat (longest_paths calls skip simd_l start_paths))) opp st \<and> (\<forall>i < length calls. slot st i \<noteq> None)"
proof -
  have "distinct (map fst ps)" "set (map fst ps) = {..<length calls}"
    "sorted_wrt (\<lambda>x y. x \<notin> set (out_edges calls y)) (rev (map fst ps))"
    using priorityVector_ok [OF assms(1,2)] assms(6) by auto
  from lpfs_good [OF this assms(3-5)] show ?thesis .
qed

end
