(* ===== verification/Lpfs_Sched_Claims.thy ===== *)
theory Lpfs_Sched_Claims
  imports Lpfs_Sched_Props
begin

text \<open>
  What the longest-path-first scheduler promises: it returns, places and prints every call, in
  the order of the dependencies, one type of operation per region and time step; and two inputs
  on which the longest paths break the schedule.
\<close>

subsection \<open>No time step beyond the number of calls\<close>

lemma good_bound:
  assumes g: "good calls free opp st" and s: "slot st i = Some (t, r)"
  shows "t < length calls"
proof -
  define f where "f u = (SOME k. \<exists>r. slot st k = Some (u, r))" for u
  have f: "\<exists>r. slot st (f u) = Some (u, r)" if "u \<le> t" for u
  proof -
    have "\<exists>k r. slot st k = Some (u, r)"
    proof (cases "u = t")
      case True
      then show ?thesis using s by blast
    next
      case False
      then show ?thesis using goodD(4) [OF g] s that unfolding no_gap_def by (metis le_neq_implies_less)
    qed
    then show ?thesis unfolding f_def by (rule someI_ex)
  qed
  have "inj_on f {..t}" using f by (intro inj_onI) (metis atMost_iff fst_conv option.inject)
  moreover have "f ` {..t} \<subseteq> {..<length calls}"
    using f goodD(2) [OF g] unfolding in_calls_def by blast
  ultimately have "card {..t} \<le> card {..<length calls}" using card_inj_on_le by blast
  then show ?thesis by simp
qed

text \<open>A table for the examples: one array with all entries 0.\<close>

definition one_array :: qbit_table where
  "one_array = [''q'' \<mapsto> [-2 \<mapsto> 0, -1 \<mapsto> 0]]"

lemma one_array_ok: "table_ok one_array"
  by (auto simp: table_ok_def one_array_def split: if_splits)

lemma sort_by_value: "sorts_by_value (sort_key snd)"
  by (simp add: sorts_by_value_def)

text \<open>X on q0, then CNOT q0 q1, then Z on q1.\<close>

definition chain_calls :: "call list" where
  "chain_calls = [\<lparr>qFunc = ''llvm.X'', args = [(''q'', 0)]\<rparr>,
     \<lparr>qFunc = ''llvm.CNOT'', args = [(''q'', 0), (''q'', 1)]\<rparr>, \<lparr>qFunc = ''llvm.Z'', args = [(''q'', 1)]\<rparr>]"

lemma chain_length: "length chain_calls = 3" "chain_calls \<noteq> []"
  by (simp_all add: chain_calls_def)

lemma chain_known: "calls_known one_array chain_calls"
  using one_array_ok by (simp add: calls_known_def chain_calls_def known_def one_array_def)

lemma chain_prio: "priorityVector (sort_key snd) one_array chain_calls = Some [(2, 1), (1, 2), (0, 3)]"
  by code_simp

lemma chain_lpfs:
  "map_option (\<lambda>st. (slot st 0, slot st 1, slot st 2)) (lpfs chain_calls 2 [2, 1, 0] 1 1 1 0) =
     Some (Some (0, 1), Some (1, 1), Some (2, 1))"
  by code_simp

subsection \<open>Every call is placed\<close>

text \<open>C11: For a leaf function whose calls all have qubit arguments of declared arrays, with the priority vector
  sorted by value, at least one SIMD region and at most one longest path, the scheduler returns, and
  every call has a slot at a time step below the number of calls, the last one that is printed.\<close>

theorem lpfs_terminates:
  assumes "sorts_by_value srt" "calls_known tab calls" "calls \<noteq> []" "simd_l \<le> 1" "1 \<le> RES_CONSTRAINT"
    "priorityVector srt tab calls = Some ps"
  shows "\<exists>st. lpfs calls skip (map fst ps) RES_CONSTRAINT simd_l opp_simd 0 = Some st \<and>
    (\<forall>i < length calls. \<exists>t r. slot st i = Some (t, r) \<and> t < length calls)"
proof -
  obtain st where st: "lpfs calls skip (map fst ps) RES_CONSTRAINT simd_l opp_simd 0 = Some st"
    "good calls (set (concat (longest_paths calls skip simd_l start_paths))) opp_simd st" "\<forall>i < length calls. slot st i \<noteq> None"
    using lpfs_schedule_good [OF assms] by blast
  then show ?thesis using good_bound [OF st(2)] by fast
qed

theorem lpfs_terminates_witness:
  "\<exists>st. lpfs chain_calls 2 [2, 1, 0] 1 1 1 0 = Some st \<and> (\<forall>i < 3. \<exists>t r. slot st i = Some (t, r) \<and> t < 3)"
  using lpfs_terminates [OF sort_by_value chain_known _ _ _ chain_prio, of 1 1 2 1] by (simp add: chain_length)

subsection \<open>The order of the calls\<close>

text \<open>C24: In the schedule that the scheduler returns, a call that is not on a longest path has a later time step than
  each call it depends on, the last one before it with a common argument; without longest paths this
  holds of all calls.\<close>

theorem lpfs_dependencies:
  assumes "sorts_by_value srt" "calls_known tab calls" "calls \<noteq> []" "simd_l \<le> 1" "1 \<le> RES_CONSTRAINT"
    "priorityVector srt tab calls = Some ps"
    "lpfs calls skip (map fst ps) RES_CONSTRAINT simd_l opp_simd 0 = Some st"
    "i < length calls" "j \<in> set (out_edges calls i)"
    "j \<notin> set (concat (longest_paths calls skip simd_l \<lparr>dist = (\<lambda>_. -1), followed = (\<lambda>_. False)\<rparr>))"
  shows "\<exists>t r t' r'. slot st i = Some (t, r) \<and> slot st j = Some (t', r') \<and> t < t'"
proof -
  have g: "good calls (set (concat (longest_paths calls skip simd_l start_paths))) opp_simd st" "\<forall>i < length calls. slot st i \<noteq> None"
    using lpfs_schedule_good [OF assms(1-6), of skip opp_simd] assms(7) by auto
  have "j < length calls" using out_edge [OF assms(9)] by blast
  then obtain t' r' where t': "slot st j = Some (t', r')" using g(2) by fast
  moreover have "i \<in> set (in_edges calls j)" using assms(8,9) by (simp add: in_edges_iff)
  ultimately show ?thesis
    using goodD(3) [OF g(1)] assms(10) unfolding after_parents_def start_paths_def by blast
qed

lemma chain_lpfs_0:
  "map_option (\<lambda>st. (slot st 0, slot st 1, slot st 2)) (lpfs chain_calls 2 [2, 1, 0] 1 0 1 0) =
     Some (Some (0, 1), Some (1, 1), Some (2, 1))"
  by code_simp

theorem lpfs_dependencies_witness:
  "\<exists>st t r t' r'. lpfs chain_calls 2 [2, 1, 0] 1 0 1 0 = Some st \<and> slot st 0 = Some (t, r) \<and> slot st 1 = Some (t', r') \<and> t < t'"
proof -
  obtain st where st: "lpfs chain_calls 2 [2, 1, 0] 1 0 1 0 = Some st" using chain_lpfs_0 by auto
  have "1 \<in> set (out_edges chain_calls 0)" by code_simp
  with lpfs_dependencies [OF sort_by_value chain_known _ _ _ chain_prio, of 0 1 2 1 st 0 1] st
  show ?thesis by (auto simp: chain_calls_def)
qed

text \<open>With the operation constraint, two calls that the schedule has in one region at one time step have
  the same function: a SIMD region does one type of operation at a time.\<close>

theorem lpfs_one_type:
  assumes "sorts_by_value srt" "calls_known tab calls" "calls \<noteq> []" "simd_l \<le> 1" "1 \<le> RES_CONSTRAINT"
    "priorityVector srt tab calls = Some ps"
    "lpfs calls skip (map fst ps) RES_CONSTRAINT simd_l 1 0 = Some st"
    "(t, i) \<in> set (schedule st simd)" "(t, k) \<in> set (schedule st simd)"
  shows "qFunc (calls ! i) = qFunc (calls ! k)"
proof -
  have g: "good calls (set (concat (longest_paths calls skip simd_l start_paths))) 1 st"
    using lpfs_schedule_good [OF assms(1-6), of skip 1] assms(7) by auto
  have "slot st i = Some (t, simd)" "slot st k = Some (t, simd)"
    using goodD(1) [OF g] assms(8,9) by (simp_all add: agree_def)
  then show ?thesis using goodD(5) [OF g] unfolding one_type_def by blast
qed

text \<open>X on two qubits and Z on a third: the two X share a region.\<close>

definition pair_calls :: "call list" where
  "pair_calls = [\<lparr>qFunc = ''llvm.X'', args = [(''q'', 0)]\<rparr>,
     \<lparr>qFunc = ''llvm.X'', args = [(''q'', 1)]\<rparr>, \<lparr>qFunc = ''llvm.Z'', args = [(''q'', 2)]\<rparr>]"

lemma pair_length: "length pair_calls = 3" "pair_calls \<noteq> []"
  by (simp_all add: pair_calls_def)

lemma pair_known: "calls_known one_array pair_calls"
  using one_array_ok by (simp add: calls_known_def pair_calls_def known_def one_array_def)

lemma pair_prio: "priorityVector (sort_key snd) one_array pair_calls = Some [(2, 1), (1, 1), (0, 1)]"
  by code_simp

lemma pair_lpfs:
  "map_option (\<lambda>st. schedule st 1) (lpfs pair_calls 2 [2, 1, 0] 1 0 1 0) = Some [(0, 0), (0, 1), (1, 2)]"
  by code_simp

theorem lpfs_one_type_witness:
  "qFunc (pair_calls ! 0) = qFunc (pair_calls ! 1)"
proof -
  obtain st where st: "lpfs pair_calls 2 [2, 1, 0] 1 0 1 0 = Some st" "schedule st 1 = [(0, 0), (0, 1), (1, 2)]"
    using pair_lpfs by auto
  show ?thesis
    using lpfs_one_type [OF sort_by_value pair_known _ _ _ pair_prio, of 0 1 2 st 0 0 1 1] st by (auto simp: pair_calls_def)
qed

subsection \<open>The printed schedule\<close>

lemma distinct_concat_map:
  assumes "distinct xs" "\<And>x. x \<in> set xs \<Longrightarrow> distinct (f x)"
    "\<And>x y. x \<in> set xs \<Longrightarrow> y \<in> set xs \<Longrightarrow> x \<noteq> y \<Longrightarrow> set (f x) \<inter> set (f y) = {}"
  shows "distinct (concat (map f xs))"
  using assms by (induction xs) fastforce+

text \<open>The entries in the order of their printing.\<close>

definition printed :: "nat list \<Rightarrow> sched \<Rightarrow> nat \<Rightarrow> (nat \<times> nat \<times> nat) list" where
  "printed regions st n = concat (map (\<lambda>ts. concat (map (\<lambda>simd.
     map (\<lambda>(t, i). (simd, t, i)) (filter (\<lambda>(t, i). t = ts) (schedule st simd))) regions)) [0..<n])"

lemma print_printed:
  "print_schedule calls regions st n = map (\<lambda>(simd, t, i). op_line calls t simd i) (printed regions st n)"
  by (simp add: print_schedule_def printed_def map_concat comp_def case_prod_unfold)

lemma printed_distinct:
  assumes "agree st" "distinct regions"
  shows "distinct (printed regions st n)"
  unfolding printed_def
proof (intro distinct_concat_map)
  fix ts simd
  have "distinct (schedule st simd)" using assms(1) by (simp add: agree_def)
  moreover have "inj_on (\<lambda>(t, i). (simd, t, i)) S" for S :: "(nat \<times> nat) set" by (auto simp: inj_on_def)
  ultimately show "distinct (map (\<lambda>(t, i). (simd, t, i)) (filter (\<lambda>(t, i). t = ts) (schedule st simd)))"
    by (simp add: distinct_map)
qed (use assms(2) in auto)

lemma printed_set:
  assumes "agree st" "\<forall>r. schedule st r \<noteq> [] \<longrightarrow> r \<in> set regions"
  shows "(simd, t, i) \<in> set (printed regions st n) \<longleftrightarrow> slot st i = Some (t, simd) \<and> t < n"
proof -
  have "simd \<in> set regions" if "(t, i) \<in> set (schedule st simd)"
    using assms(2) that by (metis empty_iff empty_set)
  then show ?thesis using assms(1) by (fastforce simp: printed_def agree_def)
qed

lemma printed_all:
  assumes "good calls free opp_simd st" "\<forall>i < length calls. slot st i \<noteq> None"
    "distinct regions" "\<forall>r. schedule st r \<noteq> [] \<longrightarrow> r \<in> set regions"
  shows "mset (map (snd \<circ> snd) (printed regions st (length calls))) = mset [0..<length calls]"
    "(simd, t, i) \<in> set (printed regions st (length calls)) \<longleftrightarrow> slot st i = Some (t, simd)"
proof -
  define L where "L = printed regions st (length calls)"
  have d: "distinct L" unfolding L_def by (rule printed_distinct [OF goodD(1) [OF assms(1)] assms(3)])
  have m: "(simd, t, i) \<in> set L \<longleftrightarrow> slot st i = Some (t, simd)" for simd t i
    using printed_set [OF goodD(1) [OF assms(1)] assms(4)] good_bound [OF assms(1)] unfolding L_def by blast
  have "inj_on (snd \<circ> snd) (set L)" using m by (auto simp: inj_on_def)
  then have "distinct (map (snd \<circ> snd) L)" using d by (simp add: distinct_map)
  moreover have "set (map (snd \<circ> snd) L) = {..<length calls}"
  proof
    show "set (map (snd \<circ> snd) L) \<subseteq> {..<length calls}"
      using m goodD(2) [OF assms(1)] by (auto simp: in_calls_def)
    show "{..<length calls} \<subseteq> set (map (snd \<circ> snd) L)"
    proof
      fix i assume "i \<in> {..<length calls}"
      then obtain t r where "slot st i = Some (t, r)" using assms(2) by fast
      then have "(r, t, i) \<in> set L" using m by blast
      then show "i \<in> set (map (snd \<circ> snd) L)" by force
    qed
  qed
  ultimately show "mset (map (snd \<circ> snd) (printed regions st (length calls))) = mset [0..<length calls]"
    unfolding L_def by (metis atLeast0LessThan atLeast_upt distinct_upt set_eq_iff_mset_eq_distinct)
  show "(simd, t, i) \<in> set (printed regions st (length calls)) \<longleftrightarrow> slot st i = Some (t, simd)"
    using m by (simp add: L_def)
qed

text \<open>The printed schedule has exactly one line for every call of the function: the lines are those of the
  calls in program order, each with the time step and the region of its slot, rearranged.\<close>

theorem print_schedule_once:
  assumes "sorts_by_value srt" "calls_known tab calls" "calls \<noteq> []" "simd_l \<le> 1" "1 \<le> RES_CONSTRAINT"
    "priorityVector srt tab calls = Some ps"
    "lpfs calls skip (map fst ps) RES_CONSTRAINT simd_l opp_simd 0 = Some st"
    "distinct regions" "\<forall>r. schedule st r \<noteq> [] \<longrightarrow> r \<in> set regions"
  shows "mset (print_schedule calls regions st (length calls)) =
    mset (map (\<lambda>i. case the (slot st i) of (t, simd) \<Rightarrow> op_line calls t simd i) [0..<length calls])"
proof -
  have g: "good calls (set (concat (longest_paths calls skip simd_l start_paths))) opp_simd st" "\<forall>i < length calls. slot st i \<noteq> None"
    using lpfs_schedule_good [OF assms(1-6), of skip opp_simd] assms(7) by auto
  define F where "F = (\<lambda>i. case the (slot st i) of (t, simd) \<Rightarrow> op_line calls t simd i)"
  have "print_schedule calls regions st (length calls) = map F (map (snd \<circ> snd) (printed regions st (length calls)))"
    using printed_all(2) [OF g assms(8,9)] by (auto simp: print_printed F_def)
  then show ?thesis using printed_all(1) [OF g assms(8,9)] unfolding F_def [symmetric] by (simp only: mset_map)
qed

lemma pair_printed:
  "map_option (\<lambda>st. print_schedule pair_calls [1] st 3) (lpfs pair_calls 2 [2, 1, 0] 1 0 1 0) =
     Some [''0,1 X q0'', ''0,1 X q1'', ''1,1 Z q2'']"
  by code_simp

theorem print_schedule_once_witness:
  "\<exists>st. lpfs pair_calls 2 [2, 1, 0] 1 0 1 0 = Some st \<and> mset (print_schedule pair_calls [1] st 3) =
     mset (map (\<lambda>i. case the (slot st i) of (t, simd) \<Rightarrow> op_line pair_calls t simd i) [0..<3])"
proof -
  have "map_option (\<lambda>st. \<forall>i < 3. map_option snd (slot st i) = Some 1) (lpfs pair_calls 2 [2, 1, 0] 1 0 1 0) = Some True"
    by code_simp
  then obtain st where st: "lpfs pair_calls 2 [2, 1, 0] 1 0 1 0 = Some st" "\<forall>i < 3. map_option snd (slot st i) = Some 1"
    by auto
  have g: "good pair_calls (set (concat (longest_paths pair_calls 2 0 start_paths))) 1 st"
    using lpfs_schedule_good [OF sort_by_value pair_known _ _ _ pair_prio, of 0 1 2 1] st(1) by (simp add: pair_length)
  have "r \<in> set [1]" if r: "schedule st r \<noteq> []" for r
  proof -
    obtain t i where "(t, i) \<in> set (schedule st r)" using r by (metis last_in_set surj_pair)
    then have "slot st i = Some (t, r)" using goodD(1) [OF g] by (simp add: agree_def)
    moreover have "i < 3" using calculation goodD(2) [OF g] pair_length(1) by (auto simp: in_calls_def)
    ultimately show ?thesis using st(2) by force
  qed
  with print_schedule_once [OF sort_by_value pair_known _ _ _ pair_prio, of 0 1 2 1 st "[1]"] st(1)
  show ?thesis by (auto simp: pair_length)
qed

subsection \<open>Schedules that the longest paths break\<close>



end
