(* ===== verification/Lpfs_Moves_Props.thy ===== *)
theory Lpfs_Moves_Props
  imports Lpfs_Moves Lpfs_Sched_Claims
begin

text \<open>
  The moves bring the qubits to their operations: replaying the printed moves from all qubits in
  memory, every move starts where its qubit is, and before every time step the operands of an
  operation are in its region. For at most nine regions and without local memories.
\<close>

subsection \<open>Locations\<close>

definition locs :: "moves \<Rightarrow> string \<Rightarrow> nat" where
  "locs ms k = (case qubitMap ms k of None \<Rightarrow> 0 | Some q \<Rightarrow> loc q)"

text \<open>A move must start where its qubit is.\<close>

fun replay :: "move list \<Rightarrow> (string \<Rightarrow> nat) \<Rightarrow> (string \<Rightarrow> nat) option" where
  "replay [] f = Some f"
| "replay (m # ms) f =
     (if f (info_key (arg m)) = src m then replay ms (f(info_key (arg m) := dest m)) else None)"

lemma replay_append: "replay (xs @ ys) f = Option.bind (replay xs f) (replay ys)"
  by (induction xs arbitrary: f) simp_all

definition keyed :: "(string \<rightharpoonup> qArgInfo) \<Rightarrow> bool" where
  "keyed qm \<longleftrightarrow> (\<forall>k q. qm k = Some q \<longrightarrow> info_key q = k)"

lemma keyedD: "keyed qm \<Longrightarrow> qm k = Some q \<Longrightarrow> info_key q = k"
  by (simp add: keyed_def)

lemma keyed_upd: "keyed qm \<Longrightarrow> info_key q = k \<Longrightarrow> keyed (qm(k \<mapsto> q))"
  by (simp add: keyed_def)

lemma info_key_upd [simp]:
  "info_key (q\<lparr>qsimd := s\<rparr>) = info_key q" "info_key (q\<lparr>loc := l\<rparr>) = info_key q"
  "info_key (q\<lparr>last_inst := i\<rparr>) = info_key q" "info_key (q\<lparr>nextTS := t\<rparr>) = info_key q"
  by (simp_all add: info_key_def)

lemma locs_set_loc: "qubitMap ms k = Some q \<Longrightarrow> locs (set_loc k l ms) = (locs ms)(k := l)"
  by (auto simp: locs_def set_loc_def)

lemma locs_add_move [simp]: "locs (add_move ts s d q ms) = locs ms" "qubitMap (add_move ts s d q ms) = qubitMap ms"
  by (auto simp: locs_def add_move_def)

lemma moves_set_loc [simp]: "move_schedule (set_loc k l ms) = move_schedule ms"
  by (simp add: set_loc_def)

lemma moves_add_move [simp]:
  "move_schedule (add_move ts s d q ms) = move_schedule ms @ [(ts, \<lparr>src = s, dest = d, arg = q\<rparr>)]"
  by (simp add: add_move_def)

subsection \<open>The qubits of a time step\<close>

text \<open>The current qubits are those of the operands, with the region of the operand; the map has them as
  they are, and no location changes.\<close>

definition current_ok :: "(nat \<times> nat \<times> qarg) list \<Rightarrow> (string \<rightharpoonup> qArgInfo) \<Rightarrow> qArgInfo list \<Rightarrow> (string \<rightharpoonup> qArgInfo) \<Rightarrow> bool" where
  "current_ok ops qm0 cur qm \<longleftrightarrow> keyed qm \<and> distinct (map info_key cur) \<and>
     (\<forall>k. map_option loc (qm k) = map_option loc (qm0 k)) \<and>
     (\<forall>c \<in> set cur. qm (info_key c) = Some c \<and> (\<exists>i a. (i, qsimd c, a) \<in> set ops \<and> qubit_key a = info_key c)) \<and>
     (\<forall>(i, s, a) \<in> set ops. qubit_key a \<in> info_key ` set cur)"

lemma same_info_key: "qname c = qname q \<Longrightarrow> qindex c = qindex q \<Longrightarrow> info_key c = info_key q"
  by (simp add: info_key_def)

lemma current_step:
  assumes ok: "current_ok ops qm0 cur qm" and a: "qubit_key a \<in> dom qm0"
  shows "\<exists>cur' qm'. add_current i s (Some (cur, qm)) a = Some (cur', qm') \<and> current_ok (ops @ [(i, s, a)]) qm0 cur' qm'"
proof -
  define k where "k = qubit_key a"
  have kq: "keyed qm" "\<forall>c \<in> set cur. qm (info_key c) = Some c" using ok by (simp_all add: current_ok_def)
  have "map_option loc (qm k) = map_option loc (qm0 k)" using ok by (simp add: current_ok_def)
  then obtain q where q: "qm k = Some q" using a by (auto simp: k_def)
  have qk: "info_key q = k" using keyedD [OF kq(1) q] .
  have ex: "list_ex (\<lambda>c. qname c = qname q \<and> qindex c = qindex q) cur \<longleftrightarrow> k \<in> info_key ` set cur"
  proof
    assume "list_ex (\<lambda>c. qname c = qname q \<and> qindex c = qindex q) cur"
    then obtain c where c: "c \<in> set cur" "qname c = qname q" "qindex c = qindex q" unfolding list_ex_iff by blast
    then have "info_key c = k" using same_info_key qk by blast
    with c(1) show "k \<in> info_key ` set cur" by blast
  next
    assume "k \<in> info_key ` set cur"
    then obtain c where c: "c \<in> set cur" "info_key c = k" by blast
    have "qm k = Some c" using kq(2) c by blast
    then have "q \<in> set cur" using q c(1) by simp
    then show "list_ex (\<lambda>c. qname c = qname q \<and> qindex c = qindex q) cur"
      unfolding list_ex_iff by blast
  qed
  show ?thesis
  proof (cases "k \<in> info_key ` set cur")
    case True
    then have "add_current i s (Some (cur, qm)) a = Some (cur, qm)"
      using q ex by (simp add: add_current_def Let_def flip: k_def)
    moreover have "current_ok (ops @ [(i, s, a)]) qm0 cur qm"
    proof -
      have "\<forall>c \<in> set cur. qm (info_key c) = Some c \<and>
          (\<exists>i' a'. (i', qsimd c, a') \<in> set (ops @ [(i, s, a)]) \<and> qubit_key a' = info_key c)"
        using ok unfolding current_ok_def set_append by blast
      then show ?thesis using ok True by (simp add: current_ok_def k_def)
    qed
    ultimately show ?thesis by blast
  next
    case False
    define q' where "q' = q\<lparr>qsimd := s, last_inst := Some i\<rparr>"
    have q'k: "info_key q' = k" "loc q' = loc q" "qsimd q' = s" by (simp_all add: q'_def qk)
    have "add_current i s (Some (cur, qm)) a = Some (cur @ [q'], qm(k \<mapsto> q'))"
      using q ex False by (simp add: add_current_def Let_def q'_def flip: k_def)
    moreover have "current_ok (ops @ [(i, s, a)]) qm0 (cur @ [q']) (qm(k \<mapsto> q'))"
      unfolding current_ok_def
    proof (intro conjI)
      show "keyed (qm(k \<mapsto> q'))" using keyed_upd [OF kq(1) q'k(1)] .
      show "distinct (map info_key (cur @ [q']))" using ok False q'k(1) by (simp add: current_ok_def)
      show "\<forall>k'. map_option loc ((qm(k \<mapsto> q')) k') = map_option loc (qm0 k')"
        using ok q q'k(2) unfolding current_ok_def by (metis fun_upd_apply option.simps(9))
      show "\<forall>c \<in> set (cur @ [q']). (qm(k \<mapsto> q')) (info_key c) = Some c \<and>
          (\<exists>i' a'. (i', qsimd c, a') \<in> set (ops @ [(i, s, a)]) \<and> qubit_key a' = info_key c)"
      proof
        fix c assume "c \<in> set (cur @ [q'])"
        then consider "c \<in> set cur" | "c = q'" by auto
        then show "(qm(k \<mapsto> q')) (info_key c) = Some c \<and>
          (\<exists>i' a'. (i', qsimd c, a') \<in> set (ops @ [(i, s, a)]) \<and> qubit_key a' = info_key c)"
        proof cases
          case 1
          then have "info_key c \<noteq> k" using False by auto
          moreover have "qm (info_key c) = Some c \<and>
              (\<exists>i' a'. (i', qsimd c, a') \<in> set (ops @ [(i, s, a)]) \<and> qubit_key a' = info_key c)"
            using ok 1 unfolding current_ok_def set_append by blast
          ultimately show ?thesis by simp
        next
          case 2
          then have "(i, qsimd c, a) \<in> set (ops @ [(i, s, a)])" "qubit_key a = info_key c" "(qm(k \<mapsto> q')) (info_key c) = Some c"
            using q'k k_def by simp_all
          then show ?thesis by blast
        qed
      qed
      show "\<forall>(i, s, a) \<in> set (ops @ [(i, s, a)]). qubit_key a \<in> info_key ` set (cur @ [q'])"
        using ok q'k(1) k_def unfolding current_ok_def by auto
    qed
    ultimately show ?thesis by blast
  qed
qed

lemma current_fold:
  assumes "current_ok ops0 qm0 cur qm" "\<forall>(i, s, a) \<in> set ops. qubit_key a \<in> dom qm0"
  shows "\<exists>cur' qm'. foldl (\<lambda>s (i, simd, a). add_current i simd s a) (Some (cur, qm)) ops = Some (cur', qm') \<and>
    current_ok (ops0 @ ops) qm0 cur' qm'"
  using assms
proof (induction ops arbitrary: ops0 cur qm)
  case Nil
  then show ?case by simp
next
  case (Cons x ops)
  obtain i s a where x: "x = (i, s, a)" by (cases x)
  obtain cur1 qm1 where 1: "add_current i s (Some (cur, qm)) a = Some (cur1, qm1)" "current_ok (ops0 @ [x]) qm0 cur1 qm1"
    using current_step [OF Cons.prems(1), of a i s] Cons.prems(2) by (auto simp: x)
  from Cons.IH [OF 1(2)] Cons.prems(2) 1(1) show ?case by (auto simp: x)
qed

lemma current_qubits_ok:
  assumes "keyed qm" "\<forall>(i, s, a) \<in> set (operands_at cfg calls st ts). qubit_key a \<in> dom qm"
  shows "\<exists>cur qm'. current_qubits cfg calls st ts qm = Some (cur, qm') \<and>
    current_ok (operands_at cfg calls st ts) qm cur qm'"
proof -
  have "current_ok [] qm [] qm" using assms(1) by (simp add: current_ok_def)
  from current_fold [OF this assms(2)] show ?thesis by (simp add: current_qubits_def)
qed

subsection \<open>The active qubits\<close>

lemma find_key:
  assumes "distinct (map info_key cur)" "c \<in> set cur"
  shows "find (\<lambda>x. info_key x = info_key c) cur = Some c" "remove1 c cur = filter (\<lambda>x. info_key x \<noteq> info_key c) cur"
proof -
  show "find (\<lambda>x. info_key x = info_key c) cur = Some c"
    using assms by (induction cur) (auto simp: rev_image_eqI)
  show "remove1 c cur = filter (\<lambda>x. info_key x \<noteq> info_key c) cur"
    using assms
  proof (induction cur)
    case (Cons x cur)
    have "filter (\<lambda>y. info_key y \<noteq> info_key x) cur = cur"
      using Cons.prems(1) by (auto simp: filter_id_conv) (metis imageI)
    then show ?case using Cons by auto
  qed simp
qed

text \<open>What a step does with one qubit: it is brought to the region that needs it, stays, or goes to
  memory; the new moves are replayed, the rest of the map is as before.\<close>

definition step_ok :: "nat \<Rightarrow> string \<Rightarrow> (qArgInfo option) \<Rightarrow> moves \<Rightarrow> moves \<Rightarrow> bool \<Rightarrow> bool" where
  "step_ok ts k c ms ms' kept \<longleftrightarrow>
     keyed (qubitMap ms') \<and> dom (qubitMap ms') = dom (qubitMap ms) \<and>
     (\<forall>k'. k' \<noteq> k \<longrightarrow> qubitMap ms' k' = qubitMap ms k') \<and>
     (\<exists>new. move_schedule ms' = move_schedule ms @ map (Pair ts) new \<and> replay new (locs ms) = Some (locs ms')) \<and>
     (case c of Some c \<Rightarrow> locs ms' k = qsimd c \<and> kept
      | None \<Rightarrow> if kept then locs ms' k = locs ms k else locs ms' k = 0)"

lemma active_step_ok:
  assumes cfg: "\<not> LOCAL_MEM cfg" and ms: "keyed (qubitMap ms)" "qubitMap ms (info_key aq) = Some q"
    and l: "1 \<le> loc q" "loc q \<le> 9" and cur: "distinct (map info_key cur)"
  shows "\<exists>ms' new_next. active_step cfg calls st ts (Some (ms, cur, nxt)) aq =
      Some (ms', filter (\<lambda>c. info_key c \<noteq> info_key aq) cur, nxt @ new_next) \<and>
    (new_next = [] \<or> (\<exists>x. new_next = [x] \<and> info_key x = info_key aq)) \<and>
    step_ok ts (info_key aq) (find (\<lambda>c. info_key c = info_key aq) cur) ms ms' (new_next \<noteq> [])"
proof -
  define k where "k = info_key aq"
  have qk: "info_key q = k" using keyedD [OF ms] by (simp add: k_def)
  have lk: "locs ms k = loc q" using ms(2) by (simp add: locs_def k_def)
  have m10: "loc q mod 10 \<noteq> 0" using l by simp
  show ?thesis
  proof (cases "find (\<lambda>c. info_key c = k) cur")
    case (Some c)
    have c: "c \<in> set cur" "info_key c = k" using Some by (auto simp: find_Some_iff)
    define q' where "q' = q\<lparr>qsimd := qsimd c\<rparr>"
    define ms1 where "ms1 = ms\<lparr>qubitMap := (qubitMap ms)(k \<mapsto> q')\<rparr>"
    define ms' where "ms' = (if qsimd c \<noteq> loc q then add_move ts (loc q) (qsimd c) q' (set_loc k (qsimd c) ms1) else ms1)"
    have q'k: "info_key q' = k" "loc q' = loc q" by (simp_all add: q'_def qk)
    have r: "remove1 c cur = filter (\<lambda>x. info_key x \<noteq> k) cur" using find_key(2) [OF cur c(1)] c(2) by simp
    have e: "active_step cfg calls st ts (Some (ms, cur, nxt)) aq = Some (ms', remove1 c cur, nxt @ [q'])"
      using ms(2) m10 Some by (simp add: active_step_def Let_def ms'_def ms1_def q'_def flip: k_def)
    have l1: "locs ms1 = locs ms" using ms(2) q'k(2) by (auto simp: locs_def ms1_def k_def)
    have m1: "qubitMap ms1 k = Some q'" by (simp add: ms1_def)
    have l': "locs ms' = (locs ms)(k := qsimd c)"
      using l1 lk locs_set_loc [OF m1] by (auto simp: ms'_def)
    have "keyed (qubitMap ms1)" using keyed_upd [OF ms(1) q'k(1)] by (simp add: ms1_def)
    then have "keyed (qubitMap ms')" using m1 q'k(1) by (auto simp: ms'_def set_loc_def keyed_def)
    moreover have "dom (qubitMap ms') = dom (qubitMap ms)" "\<forall>k'. k' \<noteq> k \<longrightarrow> qubitMap ms' k' = qubitMap ms k'"
      using ms(2) m1 by (auto simp: ms'_def ms1_def set_loc_def k_def)
    moreover have "\<exists>new. move_schedule ms' = move_schedule ms @ map (Pair ts) new \<and> replay new (locs ms) = Some (locs ms')"
    proof (cases "qsimd c = loc q")
      case True
      then have "move_schedule ms' = move_schedule ms @ map (Pair ts) []" "locs ms' = locs ms"
        using l' lk by (auto simp: ms'_def ms1_def)
      then show ?thesis by (metis replay.simps(1))
    next
      case False
      then have "move_schedule ms' = move_schedule ms @ map (Pair ts) [\<lparr>src = loc q, dest = qsimd c, arg = q'\<rparr>]"
        by (simp add: ms'_def ms1_def)
      moreover have "replay [\<lparr>src = loc q, dest = qsimd c, arg = q'\<rparr>] (locs ms) = Some (locs ms')"
        using lk q'k(1) l' by simp
      ultimately show ?thesis by blast
    qed
    ultimately have "step_ok ts k (Some c) ms ms' True" using l' by (simp add: step_ok_def)
    then show ?thesis using e r q'k(1) Some by (fold k_def) auto
  next
    case None
    have r: "filter (\<lambda>x. info_key x \<noteq> k) cur = cur" using None by (auto simp: find_None_iff filter_id_conv)
    show ?thesis
    proof (cases "simd_active cfg st ts (loc q)")
      case False
      have "active_step cfg calls st ts (Some (ms, cur, nxt)) aq = Some (ms, cur, nxt @ [q])"
        using ms(2) m10 None False by (simp add: active_step_def Let_def flip: k_def)
      moreover have "step_ok ts k None ms ms True"
        using ms(1) unfolding step_ok_def by (auto intro: exI [of _ "[]"])
      ultimately show ?thesis using r qk None by (fold k_def) auto
    next
      case True
      define ms' where "ms' = add_move ts (loc q) 0 q (set_loc k 0 ms)"
      have mk: "qubitMap ms k = Some q" using ms(2) by (simp add: k_def)
      have "active_step cfg calls st ts (Some (ms, cur, nxt)) aq = Some (ms', cur, nxt @ [])"
        using ms(2) m10 None True cfg by (simp add: active_step_def Let_def ms'_def flip: k_def)
      moreover have "step_ok ts k None ms ms' False"
      proof -
        have l': "locs ms' = (locs ms)(k := 0)" using locs_set_loc [OF mk] by (simp add: ms'_def)
        have "keyed (qubitMap ms')" using ms(1) mk qk by (auto simp: ms'_def set_loc_def keyed_def)
        moreover have "dom (qubitMap ms') = dom (qubitMap ms)" "\<forall>k'. k' \<noteq> k \<longrightarrow> qubitMap ms' k' = qubitMap ms k'"
          using mk by (auto simp: ms'_def set_loc_def)
        moreover have "move_schedule ms' = move_schedule ms @ map (Pair ts) [\<lparr>src = loc q, dest = 0, arg = q\<rparr>]"
          by (simp add: ms'_def)
        moreover have "replay [\<lparr>src = loc q, dest = 0, arg = q\<rparr>] (locs ms) = Some (locs ms')"
          using lk qk l' by simp
        ultimately have "\<exists>new. move_schedule ms' = move_schedule ms @ map (Pair ts) new \<and> replay new (locs ms) = Some (locs ms')"
          by blast
        then show ?thesis using l' \<open>keyed (qubitMap ms')\<close> \<open>dom (qubitMap ms') = dom (qubitMap ms)\<close>
          \<open>\<forall>k'. k' \<noteq> k \<longrightarrow> qubitMap ms' k' = qubitMap ms k'\<close> by (simp add: step_ok_def)
      qed
      ultimately show ?thesis using r None by (fold k_def) auto
    qed
  qed
qed

definition replays :: "nat \<Rightarrow> moves \<Rightarrow> moves \<Rightarrow> bool" where
  "replays ts ms ms' \<longleftrightarrow>
     (\<exists>new. move_schedule ms' = move_schedule ms @ map (Pair ts) new \<and> replay new (locs ms) = Some (locs ms'))"

lemma replays_refl: "replays ts ms ms"
  unfolding replays_def by (rule exI [of _ "[]"]) simp

lemma replays_trans:
  assumes "replays ts m1 m2" "replays ts m2 m3"
  shows "replays ts m1 m3"
proof -
  obtain n1 n2 where "move_schedule m2 = move_schedule m1 @ map (Pair ts) n1" "replay n1 (locs m1) = Some (locs m2)"
    "move_schedule m3 = move_schedule m2 @ map (Pair ts) n2" "replay n2 (locs m2) = Some (locs m3)"
    using assms unfolding replays_def by blast
  then have "move_schedule m3 = move_schedule m1 @ map (Pair ts) (n1 @ n2) \<and> replay (n1 @ n2) (locs m1) = Some (locs m3)"
    by (simp add: replay_append)
  then show ?thesis unfolding replays_def by blast
qed

abbreviation keys :: "qArgInfo list \<Rightarrow> string set" where
  "keys qs \<equiv> info_key ` set qs"

lemma active_fold:
  assumes cfg: "\<not> LOCAL_MEM cfg" and "keyed (qubitMap ms)" "distinct (map info_key as)"
    "\<forall>k \<in> keys as. k \<in> dom (qubitMap ms) \<and> 1 \<le> locs ms k \<and> locs ms k \<le> 9" "distinct (map info_key cur)"
  shows "\<exists>ms' new_next. foldl (active_step cfg calls st ts) (Some (ms, cur, nxt)) as =
      Some (ms', filter (\<lambda>c. info_key c \<notin> keys as) cur, nxt @ new_next) \<and>
    distinct (map info_key new_next) \<and> keys new_next \<subseteq> keys as \<and>
    keyed (qubitMap ms') \<and> dom (qubitMap ms') = dom (qubitMap ms) \<and> (\<forall>k. k \<notin> keys as \<longrightarrow> qubitMap ms' k = qubitMap ms k) \<and>
    replays ts ms ms' \<and>
    (\<forall>c \<in> set cur. info_key c \<in> keys as \<longrightarrow> locs ms' (info_key c) = qsimd c \<and> info_key c \<in> keys new_next) \<and>
    (\<forall>k \<in> keys as. k \<notin> keys cur \<longrightarrow> (if k \<in> keys new_next then locs ms' k = locs ms k else locs ms' k = 0))"
  using assms(2-)
proof (induction as arbitrary: ms cur nxt)
  case Nil
  then show ?case by (auto simp: replays_refl)
next
  case (Cons a as)
  define k where "k = info_key a"
  obtain q where q: "qubitMap ms k = Some q" using Cons.prems(3) by (auto simp: k_def)
  have l: "1 \<le> loc q" "loc q \<le> 9" using Cons.prems(3) q by (auto simp: k_def locs_def)
  define cur1 where "cur1 = filter (\<lambda>c. info_key c \<noteq> k) cur"
  obtain ms1 nn where s: "active_step cfg calls st ts (Some (ms, cur, nxt)) a = Some (ms1, cur1, nxt @ nn)"
    "nn = [] \<or> (\<exists>x. nn = [x] \<and> info_key x = k)" "step_ok ts k (find (\<lambda>c. info_key c = k) cur) ms ms1 (nn \<noteq> [])"
    using active_step_ok [OF cfg Cons.prems(1) q [unfolded k_def] l Cons.prems(4)] unfolding k_def cur1_def by blast
  have s3: "keyed (qubitMap ms1)" "dom (qubitMap ms1) = dom (qubitMap ms)" "\<forall>k'. k' \<noteq> k \<longrightarrow> qubitMap ms1 k' = qubitMap ms k'"
    "replays ts ms ms1"
    using s(3) by (simp_all add: step_ok_def replays_def)
  have l1: "locs ms1 k' = locs ms k'" if "k' \<noteq> k" for k' using s3(3) that by (simp add: locs_def)
  have nk: "k \<notin> keys as" "distinct (map info_key as)" using Cons.prems(2) by (auto simp: k_def)
  have h1: "\<forall>k' \<in> keys as. k' \<in> dom (qubitMap ms1) \<and> 1 \<le> locs ms1 k' \<and> locs ms1 k' \<le> 9"
  proof
    fix k' assume k': "k' \<in> keys as"
    then have "k' \<noteq> k" using nk(1) by blast
    moreover have "k' \<in> dom (qubitMap ms)" "1 \<le> locs ms k'" "locs ms k' \<le> 9" using Cons.prems(3) k' by (metis image_insert insertCI list.simps(15))+
    ultimately show "k' \<in> dom (qubitMap ms1) \<and> 1 \<le> locs ms1 k' \<and> locs ms1 k' \<le> 9" using l1 s3(2) by simp
  qed
  have h2: "distinct (map info_key cur1)" using Cons.prems(4) by (simp add: cur1_def distinct_map_filter)
  obtain ms' nn2 where ih: "foldl (active_step cfg calls st ts) (Some (ms1, cur1, nxt @ nn)) as =
      Some (ms', filter (\<lambda>c. info_key c \<notin> keys as) cur1, (nxt @ nn) @ nn2)"
    "distinct (map info_key nn2)" "keys nn2 \<subseteq> keys as"
    "keyed (qubitMap ms')" "dom (qubitMap ms') = dom (qubitMap ms1)" "\<forall>k. k \<notin> keys as \<longrightarrow> qubitMap ms' k = qubitMap ms1 k"
    "replays ts ms1 ms'"
    "\<forall>c \<in> set cur1. info_key c \<in> keys as \<longrightarrow> locs ms' (info_key c) = qsimd c \<and> info_key c \<in> keys nn2"
    "\<forall>k \<in> keys as. k \<notin> keys cur1 \<longrightarrow> (if k \<in> keys nn2 then locs ms' k = locs ms1 k else locs ms' k = 0)"
    using Cons.IH [OF s3(1) nk(2) h1 h2, of "nxt @ nn"] by (elim exE conjE) (rule that)
  have lk: "locs ms' k = locs ms1 k" using ih(6) nk(1) by (simp add: locs_def)
  have f: "filter (\<lambda>c. info_key c \<notin> keys as) cur1 = filter (\<lambda>c. info_key c \<notin> keys (a # as)) cur"
    unfolding cur1_def filter_filter by (intro filter_cong) (auto simp: k_def)
  have knn: "k \<in> keys (nn @ nn2) \<longleftrightarrow> nn \<noteq> []" "\<And>k'. k' \<noteq> k \<Longrightarrow> k' \<in> keys (nn @ nn2) \<longleftrightarrow> k' \<in> keys nn2"
    using s(2) ih(3) nk(1) by auto
  have A: "distinct (map info_key (nn @ nn2))" using s(2) ih(2,3) nk(1) by auto
  have B: "keys (nn @ nn2) \<subseteq> keys (a # as)" using s(2) ih(3) by (auto simp: k_def)
  have C: "\<forall>k'. k' \<notin> keys (a # as) \<longrightarrow> qubitMap ms' k' = qubitMap ms k'" using ih(6) s3(3) by (simp add: k_def)
  have D: "locs ms' (info_key c) = qsimd c \<and> info_key c \<in> keys (nn @ nn2)"
    if c: "c \<in> set cur" "info_key c \<in> keys (a # as)" for c
  proof (cases "info_key c = k")
    case True
    then have "find (\<lambda>x. info_key x = k) cur = Some c" using find_key(1) [OF Cons.prems(4) c(1)] by simp
    then have "locs ms1 k = qsimd c" "nn \<noteq> []" using s(3) by (simp_all add: step_ok_def)
    then show ?thesis using True lk knn(1) by simp
  next
    case False
    then have "c \<in> set cur1" "info_key c \<in> keys as" using c by (auto simp: cur1_def k_def)
    then show ?thesis using ih(8) knn(2) [OF False] by blast
  qed
  have E: "if k' \<in> keys (nn @ nn2) then locs ms' k' = locs ms k' else locs ms' k' = 0"
    if h: "k' \<in> keys (a # as)" "k' \<notin> keys cur" for k'
  proof (cases "k' = k")
    case True
    then have "find (\<lambda>x. info_key x = k) cur = None" using h(2) by (auto simp: find_None_iff)
    then show ?thesis using s(3) True lk knn(1) by (auto simp: step_ok_def)
  next
    case False
    then have k': "k' \<in> keys as" "k' \<notin> keys cur1" using h by (auto simp: cur1_def k_def)
    show ?thesis using ih(9) [rule_format, OF k'] knn(2) [OF False] l1 [OF False] by simp
  qed
  have "foldl (active_step cfg calls st ts) (Some (ms, cur, nxt)) (a # as) =
      Some (ms', filter (\<lambda>c. info_key c \<notin> keys (a # as)) cur, nxt @ (nn @ nn2))"
    using s(1) ih(1) f by simp
  moreover have "dom (qubitMap ms') = dom (qubitMap ms)" using ih(5) s3(2) by simp
  ultimately show ?case using A B C D E ih(4) replays_trans [OF s3(4) ih(7)] by (intro exI [of _ ms'] exI [of _ "nn @ nn2"] conjI) blast+
qed

subsection \<open>The qubits that come in\<close>

lemma fetch_fold:
  assumes "\<not> LOCAL_MEM cfg" "keyed (qubitMap ms)" "distinct (map info_key cur)"
    "\<forall>c \<in> set cur. qubitMap ms (info_key c) = Some c \<and> loc c = 0"
  shows "\<exists>ms'. foldl (fetch_step cfg ts) (Some (ms, nxt)) cur = Some (ms', nxt @ cur) \<and>
    keyed (qubitMap ms') \<and> dom (qubitMap ms') = dom (qubitMap ms) \<and> (\<forall>k. k \<notin> keys cur \<longrightarrow> qubitMap ms' k = qubitMap ms k) \<and>
    replays ts ms ms' \<and> (\<forall>c \<in> set cur. locs ms' (info_key c) = qsimd c)"
  using assms(2-)
proof (induction cur arbitrary: ms nxt)
  case Nil
  then show ?case by (auto simp: replays_refl)
next
  case (Cons c cur)
  define k where "k = info_key c"
  have c: "qubitMap ms k = Some c" "loc c = 0" using Cons.prems(3) by (simp_all add: k_def)
  define ms1 where "ms1 = add_move ts 0 (qsimd c) c (set_loc k (qsimd c) ms)"
  have s: "fetch_step cfg ts (Some (ms, nxt)) c = Some (ms1, nxt @ [c])"
    using c by (simp add: fetch_step_def Let_def ms1_def flip: k_def)
  have l1: "locs ms1 = (locs ms)(k := qsimd c)" using locs_set_loc [OF c(1)] by (simp add: ms1_def)
  have m1: "qubitMap ms1 = (qubitMap ms)(k \<mapsto> c\<lparr>loc := qsimd c\<rparr>)" using c(1) by (simp add: ms1_def set_loc_def)
  have k1: "keyed (qubitMap ms1)" using Cons.prems(1) by (simp add: m1 keyed_upd k_def)
  have d1: "dom (qubitMap ms1) = dom (qubitMap ms)" using c(1) by (auto simp: m1)
  have r1: "replays ts ms ms1"
  proof -
    have "move_schedule ms1 = move_schedule ms @ map (Pair ts) [\<lparr>src = 0, dest = qsimd c, arg = c\<rparr>]"
      by (simp add: ms1_def)
    moreover have "replay [\<lparr>src = 0, dest = qsimd c, arg = c\<rparr>] (locs ms) = Some (locs ms1)"
      using c l1 by (simp add: locs_def flip: k_def)
    ultimately show ?thesis unfolding replays_def by blast
  qed
  have nk: "k \<notin> keys cur" "distinct (map info_key cur)" using Cons.prems(2) by (auto simp: k_def)
  have "\<forall>x \<in> set cur. qubitMap ms1 (info_key x) = Some x \<and> loc x = 0"
  proof
    fix x assume x: "x \<in> set cur"
    then have "info_key x \<noteq> k" using nk(1) by blast
    then show "qubitMap ms1 (info_key x) = Some x \<and> loc x = 0" using Cons.prems(3) x by (simp add: m1)
  qed
  from Cons.IH [OF k1 nk(2) this, of "nxt @ [c]"] obtain ms' where ih:
    "foldl (fetch_step cfg ts) (Some (ms1, nxt @ [c])) cur = Some (ms', (nxt @ [c]) @ cur)"
    "keyed (qubitMap ms')" "dom (qubitMap ms') = dom (qubitMap ms1)" "\<forall>k. k \<notin> keys cur \<longrightarrow> qubitMap ms' k = qubitMap ms1 k"
    "replays ts ms1 ms'" "\<forall>c \<in> set cur. locs ms' (info_key c) = qsimd c" by (elim exE conjE) (rule that)
  have "locs ms' k = locs ms1 k" using ih(4) nk(1) by (simp add: locs_def)
  then have "locs ms' k = qsimd c" using l1 by simp
  then have "\<forall>x \<in> set (c # cur). locs ms' (info_key x) = qsimd x" using ih(6) by (simp add: k_def)
  moreover have "\<forall>k'. k' \<notin> keys (c # cur) \<longrightarrow> qubitMap ms' k' = qubitMap ms k'"
    using ih(4) by (simp add: m1 k_def)
  moreover have "foldl (fetch_step cfg ts) (Some (ms, nxt)) (c # cur) = Some (ms', nxt @ (c # cur))" using s ih(1) by simp
  moreover have "dom (qubitMap ms') = dom (qubitMap ms)" using ih(3) d1 by simp
  ultimately show ?case using ih(2) replays_trans [OF r1 ih(5)] by blast
qed

subsection \<open>A time step\<close>

text \<open>Exactly the active qubits are in a region.\<close>

definition moves_inv :: "moves \<Rightarrow> bool" where
  "moves_inv ms \<longleftrightarrow> keyed (qubitMap ms) \<and> distinct (map info_key (active_qubits ms)) \<and>
     keys (active_qubits ms) \<subseteq> dom (qubitMap ms) \<and>
     (\<forall>k \<in> keys (active_qubits ms). 1 \<le> locs ms k \<and> locs ms k \<le> 9) \<and>
     (\<forall>k. k \<notin> keys (active_qubits ms) \<longrightarrow> locs ms k = 0)"

lemma operand_region: "(i, s, a) \<in> set (operands_at cfg calls st ts) \<Longrightarrow> 1 \<le> s \<and> s \<le> RES_CONSTRAINT cfg"
  by (auto simp: operands_at_def)

lemma update_moves_ok:
  assumes inv: "moves_inv ms" and cfg: "\<not> LOCAL_MEM cfg" "RES_CONSTRAINT cfg \<le> 9"
    and known: "\<forall>(i, s, a) \<in> set (operands_at cfg calls st ts). qubit_key a \<in> dom (qubitMap ms)"
    and one: "\<forall>(i, s, a) \<in> set (operands_at cfg calls st ts). \<forall>(i', s', a') \<in> set (operands_at cfg calls st ts).
      qubit_key a = qubit_key a' \<longrightarrow> s = s'"
  shows "\<exists>ms'. update_moves cfg calls st ts ms = Some ms' \<and> moves_inv ms' \<and> dom (qubitMap ms') = dom (qubitMap ms) \<and>
    replays ts ms ms' \<and> (\<forall>(i, s, a) \<in> set (operands_at cfg calls st ts). locs ms' (qubit_key a) = s)"
proof -
  define ops where "ops = operands_at cfg calls st ts"
  define act where "act = active_qubits ms"
  have iv: "keyed (qubitMap ms)" "distinct (map info_key act)" "keys act \<subseteq> dom (qubitMap ms)"
    "\<forall>k \<in> keys act. 1 \<le> locs ms k \<and> locs ms k \<le> 9" "\<forall>k. k \<notin> keys act \<longrightarrow> locs ms k = 0"
    using inv by (simp_all add: moves_inv_def act_def)
  obtain cur qm where cur: "current_qubits cfg calls st ts (qubitMap ms) = Some (cur, qm)" "current_ok ops (qubitMap ms) cur qm"
    using current_qubits_ok [OF iv(1) known] unfolding ops_def by blast
  have cq: "keyed qm" "distinct (map info_key cur)" "\<And>k. map_option loc (qm k) = map_option loc (qubitMap ms k)"
    "\<And>c. c \<in> set cur \<Longrightarrow> qm (info_key c) = Some c"
    "\<And>c. c \<in> set cur \<Longrightarrow> \<exists>i a. (i, qsimd c, a) \<in> set ops \<and> qubit_key a = info_key c"
    "\<And>i s a. (i, s, a) \<in> set ops \<Longrightarrow> qubit_key a \<in> keys cur"
    using cur(2) unfolding current_ok_def by (simp, simp, simp, simp, simp, fast)
  define ms0 where "ms0 = ms\<lparr>qubitMap := qm,
    simds := foldl (\<lambda>m simd. if ops_at st ts simd \<noteq> [] then max m simd else m) (simds ms) [1..<RES_CONSTRAINT cfg + 1]\<rparr>"
  have m0: "qubitMap ms0 = qm" "move_schedule ms0 = move_schedule ms" by (simp_all add: ms0_def)
  have l0: "locs ms0 = locs ms"
  proof
    fix k show "locs ms0 k = locs ms k" using cq(3) [of k] by (cases "qm k"; cases "qubitMap ms k") (simp_all add: locs_def m0)
  qed
  have d0: "dom qm = dom (qubitMap ms)"
  proof (intro set_eqI)
    fix k show "k \<in> dom qm \<longleftrightarrow> k \<in> dom (qubitMap ms)" using cq(3) [of k] by (cases "qm k"; cases "qubitMap ms k") auto
  qed
  have "\<forall>k \<in> keys act. k \<in> dom (qubitMap ms0) \<and> 1 \<le> locs ms0 k \<and> locs ms0 k \<le> 9"
    unfolding l0 m0 d0 using iv(3,4) by blast
  from active_fold [OF cfg(1) cq(1) [folded m0(1)] iv(2) this cq(2), of calls st ts "[]"]
  obtain ms1 nn where a: "foldl (active_step cfg calls st ts) (Some (ms0, cur, [])) act =
      Some (ms1, filter (\<lambda>c. info_key c \<notin> keys act) cur, [] @ nn)"
    "distinct (map info_key nn)" "keys nn \<subseteq> keys act" "keyed (qubitMap ms1)" "dom (qubitMap ms1) = dom (qubitMap ms0)"
    "\<forall>k. k \<notin> keys act \<longrightarrow> qubitMap ms1 k = qubitMap ms0 k" "replays ts ms0 ms1"
    "\<forall>c \<in> set cur. info_key c \<in> keys act \<longrightarrow> locs ms1 (info_key c) = qsimd c \<and> info_key c \<in> keys nn"
    "\<forall>k \<in> keys act. k \<notin> keys cur \<longrightarrow> (if k \<in> keys nn then locs ms1 k = locs ms0 k else locs ms1 k = 0)"
    by (elim exE conjE) (rule that)
  define cur1 where "cur1 = filter (\<lambda>c. info_key c \<notin> keys act) cur"
  have c1: "\<forall>c \<in> set cur1. qubitMap ms1 (info_key c) = Some c \<and> loc c = 0"
  proof
    fix c assume "c \<in> set cur1"
    then have c: "c \<in> set cur" "info_key c \<notin> keys act" by (simp_all add: cur1_def)
    then have "qubitMap ms1 (info_key c) = Some c" using a(6) cq(4) m0(1) by simp
    moreover have "loc c = 0" using iv(5) c(2) l0 cq(4) [OF c(1)] by (metis locs_def m0(1) option.simps(5))
    ultimately show "qubitMap ms1 (info_key c) = Some c \<and> loc c = 0" by simp
  qed
  have "distinct (map info_key cur1)" using cq(2) by (simp add: cur1_def distinct_map_filter)
  from fetch_fold [OF cfg(1) a(4) this c1, of ts nn] obtain ms2 where f:
    "foldl (fetch_step cfg ts) (Some (ms1, nn)) cur1 = Some (ms2, nn @ cur1)"
    "keyed (qubitMap ms2)" "dom (qubitMap ms2) = dom (qubitMap ms1)" "\<forall>k. k \<notin> keys cur1 \<longrightarrow> qubitMap ms2 k = qubitMap ms1 k"
    "replays ts ms1 ms2" "\<forall>c \<in> set cur1. locs ms2 (info_key c) = qsimd c"
    by (elim exE conjE) (rule that)
  define ms' where "ms' = ms2\<lparr>active_qubits := nn @ cur1\<rparr>"
  have e: "update_moves cfg calls st ts ms = Some ms'"
    by (simp only: update_moves_def cur(1) option.case prod.case Let_def ms0_def [symmetric] act_def [symmetric]
        a(1) cur1_def [symmetric] append_Nil f(1) ms'_def)
  have p: "qubitMap ms' = qubitMap ms2" "active_qubits ms' = nn @ cur1" "locs ms' = locs ms2" "move_schedule ms' = move_schedule ms2"
    by (simp_all add: ms'_def locs_def fun_eq_iff)
  have l2: "locs ms2 k = locs ms1 k" if "k \<notin> keys cur1" for k using f(4) that by (simp add: locs_def)
  have disj: "keys cur1 \<inter> keys act = {}" by (auto simp: cur1_def)
  have at: "locs ms2 (info_key c) = qsimd c \<and> info_key c \<in> keys (nn @ cur1)" if c: "c \<in> set cur" for c
  proof (cases "info_key c \<in> keys act")
    case True
    then have "info_key c \<notin> keys cur1" using disj by blast
    then show ?thesis using a(8) c True l2 by (simp add: image_Un)
  next
    case False
    then have "c \<in> set cur1" using c by (simp add: cur1_def)
    then show ?thesis using f(6) by (simp add: image_Un)
  qed
  have reg: "1 \<le> qsimd c \<and> qsimd c \<le> 9" if "c \<in> set cur" for c
    using cq(5) [OF that] operand_region cfg(2) unfolding ops_def by fastforce
  have "moves_inv ms'"
    unfolding moves_inv_def p
  proof (intro conjI ballI allI impI)
    show "keyed (qubitMap ms2)" by (rule f(2))
    have "set (map info_key nn) \<inter> set (map info_key cur1) = {}" using a(3) disj by auto
    then show "distinct (map info_key (nn @ cur1))"
      using a(2) cq(2) by (simp add: cur1_def distinct_map_filter)
    show "keys (nn @ cur1) \<subseteq> dom (qubitMap ms2)"
    proof -
      have "keys cur1 \<subseteq> dom (qubitMap ms1)" using c1 by blast
      moreover have "keys nn \<subseteq> dom (qubitMap ms1)" using a(3,5) iv(3) d0 m0(1) by auto
      ultimately show ?thesis using f(3) by auto
    qed
    fix k
    show "1 \<le> locs ms2 k" "locs ms2 k \<le> 9" if k: "k \<in> keys (nn @ cur1)"
    proof -
      have "1 \<le> locs ms2 k \<and> locs ms2 k \<le> 9"
      proof (cases "k \<in> keys cur")
        case True
        then show ?thesis using at reg by fastforce
      next
        case False
        then have nc: "k \<notin> keys cur1" by (auto simp: cur1_def)
        then have kn: "k \<in> keys nn" using k by auto
        then have ka: "k \<in> keys act" using a(3) by blast
        have "locs ms1 k = locs ms k" using a(9) [rule_format, OF ka False] kn l0 by simp
        then show ?thesis using l2 [OF nc] iv(4) [rule_format, OF ka] by simp
      qed
      then show "1 \<le> locs ms2 k" "locs ms2 k \<le> 9" by simp_all
    qed
    assume k: "k \<notin> keys (nn @ cur1)"
    then have nc: "k \<notin> keys cur" using at by blast
    have n1: "k \<notin> keys cur1" "k \<notin> keys nn" using k by auto
    show "locs ms2 k = 0"
    proof (cases "k \<in> keys act")
      case True
      then show ?thesis using a(9) [rule_format, OF True nc] n1(2) l2 [OF n1(1)] by simp
    next
      case False
      then have "locs ms1 k = locs ms k" using a(6) l0 by (simp add: locs_def) (metis l0 locs_def)
      then show ?thesis using l2 [OF n1(1)] iv(5) False by simp
    qed
  qed
  moreover have "replays ts ms ms'"
    using replays_trans [OF a(7) f(5)] unfolding replays_def p l0 m0(2) .
  moreover have "\<forall>(i, s, a) \<in> set ops. locs ms' (qubit_key a) = s"
  proof clarify
    fix i s n j assume o: "(i, s, n, j) \<in> set ops"
    obtain c where c: "c \<in> set cur" "info_key c = qubit_key (n, j)" using cq(6) [OF o] by auto
    obtain i' a' where "(i', qsimd c, a') \<in> set ops" "qubit_key a' = info_key c" using cq(5) [OF c(1)] by blast
    then have "qsimd c = s" using one o c(2) unfolding ops_def by fastforce
    then show "locs ms' (qubit_key (n, j)) = s" using at [OF c(1)] c(2) p(3) by simp
  qed
  moreover have "dom (qubitMap ms') = dom (qubitMap ms)" using p(1) f(3) a(5) m0(1) d0 by simp
  ultimately show ?thesis using e unfolding ops_def by blast
qed

end
