(* ===== verification/Lpfs_Moves_Claims.thy ===== *)
theory Lpfs_Moves_Claims
  imports Lpfs_Moves_Props
begin

text \<open>
  Over the whole schedule of a leaf function, the moves bring every qubit to the region of the
  operation that needs it, at every time step that the schedule uses.
\<close>

subsection \<open>All time steps\<close>


subsection \<open>The start\<close>




subsection \<open>Calls with a common argument\<close>




subsection \<open>The operands are in the region of their operation\<close>



text \<open>The chain of X, CNOT and Z with two regions.\<close>

definition two_regions :: config where
  "two_regions = \<lparr>RES_CONSTRAINT = 2, LOCAL_MEM = False, LOCAL_Q = 2 ^ 31 - 1, LOCAL_WINDOW = 10\<rparr>"




text \<open>The printed schedule of that example, with its moves.\<close>

lemma chain_full_schedule:
  "Option.bind (lpfs chain_calls 2 [2, 1, 0] 2 0 1 0) (\<lambda>st.
     map_option (\<lambda>(ms, ots). print_full_schedule chain_calls [1, 2] st ms 3)
       (all_moves two_regions chain_calls st 0 (moves_start chain_calls))) =
   Some [''0,0 TMOV 1 0 q0'', ''0,1 X q0'', ''1,0 TMOV 1 0 q1'', ''1,1 CNOT q0 q1'', ''2,0 TMOV 0 1 q0'', ''2,1 Z q1'']"
  by code_simp

end
