(* ===== verification/Qir.thy ===== *)
theory Qir
  imports Circuit_Sem "HOL-Library.AList"
begin

text \<open>
  The code that the Scaffold passes rewrite and count, as far as they look at it: functions whose
  instructions are allocations of qubits and calls; gates are calls of intrinsics, whose names
  carry the types of their operands (\<open>llvm.CNOT.i16.i16\<close>). A qubit has type i16, an ancilla type i8.
  What a call does is the list of gates it comes down to, and their effect on a state vector.
\<close>

subsection \<open>Modules\<close>

datatype val = Qbit nat | Abit nat | Int_const int | Double_const real

text \<open>An allocation of an integer type of the given width, or of an array of some number of them; a call;
  or any other instruction. The terminators of blocks are left out.\<close>

datatype inst = Alloca nat "nat option" | Call string "val list" | Other_inst

text \<open>A declaration has no blocks.\<close>

record func =
  params :: "val list"
  blocks :: "inst list list"

text \<open>The functions of a module in their order; \<open>getFunction\<close> is \<open>map_of\<close>.\<close>

type_synonym qmodule = "(string \<times> func) list"

fun val_type :: "val \<Rightarrow> string" where
  "val_type (Qbit n) = ''i16''"
| "val_type (Abit n) = ''i8''"
| "val_type (Int_const k) = ''i32''"
| "val_type (Double_const x) = ''f64''"

definition intrinsic_name :: "string \<Rightarrow> string list \<Rightarrow> string" where
  "intrinsic_name g ts = ''llvm.'' @ g @ concat (map (\<lambda>t. ''.'' @ t) ts)"

definition isIntrinsic :: "string \<Rightarrow> bool" where
  "isIntrinsic name = (take 5 name = ''llvm.'')"

text \<open>The gate of an intrinsic: the part of its name up to the next dot.\<close>

definition base_name :: "string \<Rightarrow> string" where
  "base_name name = takeWhile (\<lambda>c. c \<noteq> CHR ''.'') (drop 5 name)"

definition gate_call :: "string \<Rightarrow> val list \<Rightarrow> inst" where
  "gate_call g vs = Call (intrinsic_name g (map val_type vs)) vs"

lemma isIntrinsic_name [simp]: "isIntrinsic (intrinsic_name g ts)"
  by (simp add: isIntrinsic_def intrinsic_name_def)

lemma base_intrinsic_name:
  assumes "CHR ''.'' \<notin> set g" "ts \<noteq> []"
  shows "base_name (intrinsic_name g ts) = g"
proof -
  obtain t ts' where "ts = t # ts'" using assms(2) by (cases ts) auto
  then have "drop 5 (intrinsic_name g ts) = g @ CHR ''.'' # (t @ concat (map (\<lambda>t. ''.'' @ t) ts'))"
    by (simp add: intrinsic_name_def)
  moreover have "takeWhile (\<lambda>c. c \<noteq> CHR ''.'') (g @ CHR ''.'' # r) = g" for r
    using assms(1) by (induction g) auto
  ultimately show ?thesis by (simp add: base_name_def)
qed

subsection \<open>What a call comes down to\<close>

text \<open>The formal parameters of a function are replaced by the actual ones.\<close>

definition bind_params :: "val list \<Rightarrow> val list \<Rightarrow> val \<Rightarrow> val" where
  "bind_params ps vs v = (case map_of (zip ps vs) v of None \<Rightarrow> v | Some w \<Rightarrow> w)"

fun bind_inst :: "val list \<Rightarrow> val list \<Rightarrow> inst \<Rightarrow> inst" where
  "bind_inst ps vs (Call f args) = Call f (map (bind_params ps vs) args)"
| "bind_inst ps vs i = i"

text \<open>A call of an intrinsic is a gate, a call of a function of one block is the gates of its body; the
  types of the operands are those of the parameters.\<close>

inductive flat :: "qmodule \<Rightarrow> inst list \<Rightarrow> (string \<times> val list) list \<Rightarrow> bool" for M where
  flat_nil: "flat M [] []"
| flat_alloca: "flat M is gs \<Longrightarrow> flat M (Alloca w n # is) gs"
| flat_other: "flat M is gs \<Longrightarrow> flat M (Other_inst # is) gs"
| flat_gate: "isIntrinsic f \<Longrightarrow> flat M is gs \<Longrightarrow> flat M (Call f vs # is) ((f, vs) # gs)"
| flat_call: "\<not> isIntrinsic f \<Longrightarrow> map_of M f = Some fn \<Longrightarrow> blocks fn = [b] \<Longrightarrow>
    map val_type vs = map val_type (params fn) \<Longrightarrow> flat M (map (bind_inst (params fn) vs) b) gs1 \<Longrightarrow> flat M is gs2 \<Longrightarrow> flat M (Call f vs # is) (gs1 @ gs2)"

inductive_cases flat_nilE: "flat M [] gs"
inductive_cases flat_callE: "flat M (Call f vs # is) gs"
inductive_cases flat_allocaE: "flat M (Alloca w n # is) gs"
inductive_cases flat_otherE: "flat M (Other_inst # is) gs"

lemma flat_append:
  assumes "flat M is gs" "flat M js hs"
  shows "flat M (is @ js) (gs @ hs)"
  using assms(1)
proof (induction rule: flat.induct)
  case flat_nil
  show ?case using assms(2) by (simp only: append_Nil)
next
  case (flat_alloca "is" gs w n)
  from flat.flat_alloca [OF flat_alloca.IH] show ?case by (simp only: append_Cons)
next
  case (flat_other "is" gs)
  from flat.flat_other [OF flat_other.IH] show ?case by (simp only: append_Cons)
next
  case (flat_gate f "is" gs vs)
  from flat.flat_gate [OF flat_gate.hyps(1) flat_gate.IH] show ?case by (simp only: append_Cons)
next
  case (flat_call f fn b vs gs1 "is" gs2)
  from flat.flat_call [OF flat_call.hyps(1-5) flat_call.IH(2)] show ?case by (simp only: append_Cons append_assoc)
qed

lemma flat_appendD: "flat M (is @ js) gs \<Longrightarrow> \<exists>gs1 gs2. gs = gs1 @ gs2 \<and> flat M is gs1 \<and> flat M js gs2"
proof (induction "is" arbitrary: gs)
  case Nil
  then have "gs = [] @ gs \<and> flat M [] [] \<and> flat M js gs" by (simp add: flat_nil)
  then show ?case by blast
next
  case (Cons i "is")
  show ?case
  proof (cases i)
    case (Alloca w n)
    with Cons.prems have "flat M (is @ js) gs" by (auto elim: flat_allocaE)
    from Cons.IH [OF this] show ?thesis unfolding Alloca using flat_alloca by blast
  next
    case Other_inst
    with Cons.prems have "flat M (is @ js) gs" by (auto elim: flat_otherE)
    from Cons.IH [OF this] show ?thesis unfolding Other_inst using flat_other by blast
  next
    case (Call f vs)
    from Cons.prems [unfolded Call append_Cons] show ?thesis
    proof (rule flat_callE)
      fix gs' assume g: "gs = (f, vs) # gs'" "isIntrinsic f" "flat M (is @ js) gs'"
      from Cons.IH [OF g(3)] obtain g1 g2 where "gs' = g1 @ g2" "flat M is g1" "flat M js g2" by blast
      then have "gs = ((f, vs) # g1) @ g2 \<and> flat M (i # is) ((f, vs) # g1) \<and> flat M js g2"
        using g Call flat_gate by simp
      then show ?thesis by blast
    next
      fix fn b gs1 gs2
      assume g: "gs = gs1 @ gs2" "\<not> isIntrinsic f" "map_of M f = Some fn" "blocks fn = [b]" "map val_type vs = map val_type (params fn)"
        "flat M (map (bind_inst (params fn) vs) b) gs1" "flat M (is @ js) gs2"
      from Cons.IH [OF g(7)] obtain g1 g2 where g': "gs2 = g1 @ g2" "flat M is g1" "flat M js g2" by blast
      have "flat M (i # is) (gs1 @ g1)" using flat.flat_call [OF g(2-6) g'(2)] Call by simp
      then have "gs = (gs1 @ g1) @ g2 \<and> flat M (i # is) (gs1 @ g1) \<and> flat M js g2" using g(1) g' by simp
      then show ?thesis by blast
    qed
  qed
qed

subsection \<open>Gates on state vectors\<close>

fun qubit_of :: "val \<Rightarrow> nat" where
  "qubit_of (Qbit n) = 2 * n"
| "qubit_of (Abit n) = 2 * n + 1"
| "qubit_of v = 0"

fun is_qubit :: "val \<Rightarrow> bool" where
  "is_qubit (Qbit n) = True"
| "is_qubit (Abit n) = True"
| "is_qubit v = False"

definition h_matrix :: "bool \<Rightarrow> bool \<Rightarrow> complex" where
  "h_matrix i j = (if i \<and> j then - 1 else 1) / sqrt 2"

definition y_matrix :: "bool \<Rightarrow> bool \<Rightarrow> complex" where
  "y_matrix i j = (if i = j then 0 else if i then \<i> else - \<i>)"

definition phase_gate :: "nat \<Rightarrow> complex \<Rightarrow> qstate \<Rightarrow> qstate" where
  "phase_gate q p psi = (\<lambda>b. (if b q then p else 1) * psi b)"

definition swap_if :: "nat \<Rightarrow> nat \<Rightarrow> (nat \<Rightarrow> bool) \<Rightarrow> bool \<Rightarrow> (nat \<Rightarrow> bool)" where
  "swap_if x y b c = (if c then b(x := b y, y := b x) else b)"

text \<open>The unitary gates; rotations, preparations and measurements have no entry.\<close>

definition unitary :: "string \<Rightarrow> nat list \<Rightarrow> (qstate \<Rightarrow> qstate) option" where
  "unitary g qs =
     (case qs of
        [q] \<Rightarrow>
          if g = ''H'' then Some (on_qubit q h_matrix)
          else if g = ''X'' then Some (on_basis (\<lambda>b. flip_if q b True))
          else if g = ''Y'' then Some (on_qubit q y_matrix)
          else if g = ''Z'' then Some (phase_gate q (- 1))
          else if g = ''S'' then Some (phase_gate q \<i>)
          else if g = ''Sdag'' then Some (phase_gate q (- \<i>))
          else if g = ''T'' then Some (phase_gate q (cis (pi / 4)))
          else if g = ''Tdag'' then Some (phase_gate q (cis (- pi / 4)))
          else None
      | [c, t] \<Rightarrow> if g = ''CNOT'' \<and> c \<noteq> t then Some (on_basis (\<lambda>b. flip_if t b (b c))) else None
      | [c, d, t] \<Rightarrow>
          if distinct [c, d, t]
          then (if g = ''Toffoli'' then Some (on_basis (\<lambda>b. flip_if t b (b c \<and> b d)))
                else if g = ''Fredkin'' then Some (on_basis (\<lambda>b. swap_if d t b (b c))) else None)
          else None
      | _ \<Rightarrow> None)"

text \<open>Every other gate is an arbitrary operator \<open>K\<close>.\<close>

definition gate_effect :: "(string \<times> val list \<Rightarrow> qstate \<Rightarrow> qstate) \<Rightarrow> string \<times> val list \<Rightarrow> qstate \<Rightarrow> qstate" where
  "gate_effect K g =
     (case (if isIntrinsic (fst g) \<and> list_all is_qubit (snd g) then unitary (base_name (fst g)) (map qubit_of (snd g)) else None) of
        Some op \<Rightarrow> op | None \<Rightarrow> K g)"

fun effect :: "(string \<times> val list \<Rightarrow> qstate \<Rightarrow> qstate) \<Rightarrow> (string \<times> val list) list \<Rightarrow> qstate \<Rightarrow> qstate" where
  "effect K [] psi = psi"
| "effect K (g # gs) psi = effect K gs (gate_effect K g psi)"

lemma effect_append [simp]: "effect K (gs @ hs) psi = effect K hs (effect K gs psi)"
  by (induction gs arbitrary: psi) auto

lemma gate_effect_unitary:
  assumes "CHR ''.'' \<notin> set g" "vs \<noteq> []" "list_all is_qubit vs" "unitary g (map qubit_of vs) = Some op"
  shows "gate_effect K (intrinsic_name g (map val_type vs), vs) = op"
  using assms base_intrinsic_name [of g "map val_type vs"] by (simp add: gate_effect_def)

subsection \<open>Types and binding\<close>

lemma bind_params_type:
  assumes "map val_type vs = map val_type ps"
  shows "val_type (bind_params ps vs v) = val_type v"
proof (cases "map_of (zip ps vs) v")
  case None
  then show ?thesis by (simp add: bind_params_def)
next
  case (Some w)
  then have "(v, w) \<in> set (zip ps vs)" by (rule map_of_SomeD)
  then obtain n where "n < length ps" "n < length vs" "ps ! n = v" "vs ! n = w" by (auto simp: in_set_zip)
  then have "val_type w = val_type v" using assms by (metis nth_map)
  then show ?thesis using Some by (simp add: bind_params_def)
qed

lemma bind_gate_call:
  assumes "map val_type vs = map val_type ps"
  shows "bind_inst ps vs (gate_call g xs) = gate_call g (map (bind_params ps vs) xs)"
  using bind_params_type [OF assms] by (simp add: gate_call_def comp_def)

lemma flat_gate_calls:
  "flat M (map (\<lambda>(g, vs). gate_call g vs) xs) (map (\<lambda>(g, vs). (intrinsic_name g (map val_type vs), vs)) xs)"
  by (induction xs) (auto simp: gate_call_def intro: flat_nil flat_gate)

end
