(* ===== verification/Toffoli_Pass.thy ===== *)
theory Toffoli_Pass
  imports Qir
begin

text \<open>
  The pass that replaces Toffoli gates (\<open>llvm/lib/Transforms/Scaffold/Toffoli.cpp\<close>): each Toffoli
  intrinsic becomes a call of a function of sixteen gates, which is created for the types of the
  operands when it is not there. The sixteen gates are a Toffoli gate.
\<close>

subsection \<open>The pass\<close>

text \<open>The operands of the intrinsic are qubits (i16) and ancillas (i8).\<close>

definition impl_name :: "val list \<Rightarrow> string" where
  "impl_name vs = ''ToffoliImpl'' @ concat (map (\<lambda>v. if val_type v = ''i16'' then ''_Q'' else ''_A'') vs)"

definition formal :: "nat \<Rightarrow> val \<Rightarrow> val" where
  "formal k v = (if val_type v = ''i16'' then Qbit k else Abit k)"

definition toffoli_body :: "val \<Rightarrow> val \<Rightarrow> val \<Rightarrow> inst list" where
  "toffoli_body Control1 Control2 Target =
     [gate_call ''H'' [Target], gate_call ''T'' [Control1], gate_call ''T'' [Control2], gate_call ''T'' [Target],
      gate_call ''CNOT'' [Control2, Control1], gate_call ''CNOT'' [Target, Control2], gate_call ''CNOT'' [Control1, Target],
      gate_call ''Tdag'' [Control2], gate_call ''T'' [Target], gate_call ''CNOT'' [Control1, Control2],
      gate_call ''Tdag'' [Control1], gate_call ''Tdag'' [Control2], gate_call ''CNOT'' [Target, Control2],
      gate_call ''CNOT'' [Control1, Target], gate_call ''CNOT'' [Control2, Control1], gate_call ''H'' [Target]]"

definition toffoli_impl :: "val list \<Rightarrow> func" where
  "toffoli_impl vs =
     (let c1 = formal 0 (vs ! 0); c2 = formal 1 (vs ! 1); t = formal 2 (vs ! 2)
      in \<lparr>params = [c1, c2, t], blocks = [toffoli_body c1 c2 t]\<rparr>)"

definition is_toffoli :: "string \<Rightarrow> bool" where
  "is_toffoli f = (isIntrinsic f \<and> base_name f = ''Toffoli'')"

fun visit_toffoli :: "qmodule \<Rightarrow> inst \<Rightarrow> qmodule \<times> inst" where
  "visit_toffoli M (Call f vs) =
     (if is_toffoli f
      then let implName = impl_name (take 3 vs);
               M' = (if map_of M implName = None then M @ [(implName, toffoli_impl vs)] else M)
           in (M', Call implName (take 3 vs))
      else (M, Call f vs))"
| "visit_toffoli M i = (M, i)"

fun visit_insts :: "qmodule \<Rightarrow> inst list \<Rightarrow> qmodule \<times> inst list" where
  "visit_insts M [] = (M, [])"
| "visit_insts M (i # is) =
     (case visit_toffoli M i of (M1, i') \<Rightarrow> (case visit_insts M1 is of (M2, is') \<Rightarrow> (M2, i' # is')))"

fun visit_blocks :: "qmodule \<Rightarrow> inst list list \<Rightarrow> qmodule \<times> inst list list" where
  "visit_blocks M [] = (M, [])"
| "visit_blocks M (b # bs) =
     (case visit_insts M b of (M1, b') \<Rightarrow> (case visit_blocks M1 bs of (M2, bs') \<Rightarrow> (M2, b' # bs')))"

definition visit_function :: "qmodule \<Rightarrow> string \<Rightarrow> qmodule" where
  "visit_function M name =
     (case map_of M name of None \<Rightarrow> M
      | Some fn \<Rightarrow> (case visit_blocks M (blocks fn) of (M', bs) \<Rightarrow> AList.update name (fn\<lparr>blocks := bs\<rparr>) M'))"

text \<open>All functions of the module; the functions that are created have no Toffoli gate to visit.\<close>

definition toffoli_pass :: "qmodule \<Rightarrow> qmodule" where
  "toffoli_pass M = foldl visit_function M (map fst M)"

subsection \<open>The sixteen gates\<close>

definition ccz :: "nat \<Rightarrow> nat \<Rightarrow> nat \<Rightarrow> qstate \<Rightarrow> qstate" where
  "ccz q r t psi = (\<lambda>b. (if b q \<and> b r \<and> b t then - 1 else 1) * psi b)"

definition cnot_op :: "nat \<Rightarrow> nat \<Rightarrow> qstate \<Rightarrow> qstate" where
  "cnot_op c t = on_basis (\<lambda>b. flip_if t b (b c))"

abbreviation t_op :: "nat \<Rightarrow> qstate \<Rightarrow> qstate" where "t_op q \<equiv> phase_gate q (cis (pi / 4))"
abbreviation tdag_op :: "nat \<Rightarrow> qstate \<Rightarrow> qstate" where "tdag_op q \<equiv> phase_gate q (cis (- pi / 4))"

lemma t_eighth: "cis (pi / 4) * cis (- pi / 4) = 1" "cis (- pi / 4) * cis (pi / 4) = 1"
  "cis (pi / 4) * (cis (pi / 4) * (cis (pi / 4) * cis (pi / 4))) = - 1"
proof -
  show "cis (pi / 4) * cis (- pi / 4) = 1" "cis (- pi / 4) * cis (pi / 4) = 1"
    unfolding cis_mult by simp_all
  have "cis (pi / 4) * (cis (pi / 4) * (cis (pi / 4) * cis (pi / 4))) = cis (pi / 4 + (pi / 4 + (pi / 4 + pi / 4)))"
    by (simp only: cis_mult)
  also have "pi / 4 + (pi / 4 + (pi / 4 + pi / 4)) = pi" by simp
  finally show "cis (pi / 4) * (cis (pi / 4) * (cis (pi / 4) * cis (pi / 4))) = - 1" by (simp only: cis_pi)
qed

text \<open>The fourteen gates between the two H gates flip the sign where all three qubits are 1.\<close>

lemma inner_gates:
  fixes w v :: complex and psi :: qstate
  assumes ne: "q \<noteq> r" "q \<noteq> t" "r \<noteq> t" and wv: "w * v = 1" "w * (w * (w * w)) = - 1"
  shows "cnot_op r q (cnot_op q t (cnot_op t r (phase_gate r v (phase_gate q v (cnot_op q r (phase_gate t w (phase_gate r v
     (cnot_op q t (cnot_op t r (cnot_op r q (phase_gate t w (phase_gate r w (phase_gate q w psi))))))))))))) = ccz q r t psi"
proof (rule ext)
  fix b :: "nat \<Rightarrow> bool"
  have c: "w * (v * x) = x" "v * (w * x) = x" "w * (w * (w * (w * x))) = - x" for x
  proof -
    show "w * (v * x) = x" using wv(1) by (simp add: mult.assoc [symmetric])
    then show "v * (w * x) = x" by (simp add: mult.left_commute)
    have "w * (w * (w * (w * x))) = (w * (w * (w * w))) * x" by (simp only: mult.assoc)
    then show "w * (w * (w * (w * x))) = - x" by (simp only: wv(2)) simp
  qed
  show "cnot_op r q (cnot_op q t (cnot_op t r (phase_gate r v (phase_gate q v (cnot_op q r (phase_gate t w (phase_gate r v
     (cnot_op q t (cnot_op t r (cnot_op r q (phase_gate t w (phase_gate r w (phase_gate q w psi))))))))))))) b = ccz q r t psi b"
    using ne ne [symmetric]
    by (cases "b q"; cases "b r"; cases "b t")
      (simp_all add: cnot_op_def on_basis_def phase_gate_def flip_if_def ccz_def c,
        (rule arg_cong [of _ _ psi], force simp: fun_eq_iff)+)
qed

text \<open>Between two H gates on the target that is a Toffoli gate.\<close>

lemma h_ccz_h:
  assumes "q \<noteq> t" "r \<noteq> t"
  shows "on_qubit t h_matrix (ccz q r t (on_qubit t h_matrix psi)) = on_basis (\<lambda>b. flip_if t b (b q \<and> b r)) psi"
proof (rule ext)
  fix b :: "nat \<Rightarrow> bool"
  have s: "complex_of_real (sqrt 2) * complex_of_real (sqrt 2) = 2"
    by (simp flip: of_real_mult)
  have f: "b(t := b t) = b" by simp
  show "on_qubit t h_matrix (ccz q r t (on_qubit t h_matrix psi)) b = on_basis (\<lambda>b. flip_if t b (b q \<and> b r)) psi b"
    using assms s f
    by (cases "b t"; cases "b q"; cases "b r")
      (simp_all add: on_qubit_def h_matrix_def ccz_def on_basis_def flip_if_def field_simps)
qed

definition toffoli_gates :: "val \<Rightarrow> val \<Rightarrow> val \<Rightarrow> (string \<times> val list) list" where
  "toffoli_gates c1 c2 t =
     [(''H'', [t]), (''T'', [c1]), (''T'', [c2]), (''T'', [t]), (''CNOT'', [c2, c1]), (''CNOT'', [t, c2]), (''CNOT'', [c1, t]),
      (''Tdag'', [c2]), (''T'', [t]), (''CNOT'', [c1, c2]), (''Tdag'', [c1]), (''Tdag'', [c2]), (''CNOT'', [t, c2]),
      (''CNOT'', [c1, t]), (''CNOT'', [c2, c1]), (''H'', [t])]"

definition named :: "(string \<times> val list) list \<Rightarrow> (string \<times> val list) list" where
  "named xs = map (\<lambda>(g, vs). (intrinsic_name g (map val_type vs), vs)) xs"

lemma toffoli_body_gates: "toffoli_body c1 c2 t = map (\<lambda>(g, vs). gate_call g vs) (toffoli_gates c1 c2 t)"
  by (simp add: toffoli_body_def toffoli_gates_def)

lemma unitary_gates:
  "unitary ''H'' [q] = Some (on_qubit q h_matrix)" "unitary ''T'' [q] = Some (phase_gate q (cis (pi / 4)))"
  "unitary ''Tdag'' [q] = Some (phase_gate q (cis (- pi / 4)))" "c \<noteq> d \<Longrightarrow> unitary ''CNOT'' [c, d] = Some (cnot_op c d)"
  by (simp_all add: unitary_def cnot_op_def)

lemma toffoli_effect:
  assumes "list_all is_qubit [c1, c2, t]" "distinct (map qubit_of [c1, c2, t])"
  shows "effect K (named (toffoli_gates c1 c2 t)) psi =
    on_basis (\<lambda>b. flip_if (qubit_of t) b (b (qubit_of c1) \<and> b (qubit_of c2))) psi"
proof -
  have e1: "gate_effect K (intrinsic_name ''H'' (map val_type [v]), [v]) = on_qubit (qubit_of v) h_matrix"
    "gate_effect K (intrinsic_name ''T'' (map val_type [v]), [v]) = phase_gate (qubit_of v) (cis (pi / 4))"
    "gate_effect K (intrinsic_name ''Tdag'' (map val_type [v]), [v]) = phase_gate (qubit_of v) (cis (- pi / 4))"
    if "is_qubit v" for v
    using that by (intro gate_effect_unitary; simp add: unitary_gates)+
  have e2: "gate_effect K (intrinsic_name ''CNOT'' (map val_type [v, w]), [v, w]) = cnot_op (qubit_of v) (qubit_of w)"
    if "is_qubit v" "is_qubit w" "qubit_of v \<noteq> qubit_of w" for v w
    using that by (intro gate_effect_unitary; simp add: unitary_gates)
  have q: "is_qubit c1" "is_qubit c2" "is_qubit t" and n: "qubit_of c1 \<noteq> qubit_of c2" "qubit_of c1 \<noteq> qubit_of t" "qubit_of c2 \<noteq> qubit_of t"
    using assms by simp_all
  show ?thesis
    unfolding toffoli_gates_def named_def list.map prod.case effect.simps
      e1 [unfolded list.map, OF q(1)] e1 [unfolded list.map, OF q(2)] e1 [unfolded list.map, OF q(3)]
      e2 [unfolded list.map, OF q(2,1) n(1) [symmetric]] e2 [unfolded list.map, OF q(3,2) n(3) [symmetric]]
      e2 [unfolded list.map, OF q(1,3) n(2)] e2 [unfolded list.map, OF q(1,2) n(1)]
      inner_gates [OF n t_eighth(1,3)] h_ccz_h [OF n(2,3)] ..
qed

subsection \<open>The pass keeps every function's effect\<close>

definition repl :: "inst \<Rightarrow> inst" where
  "repl i = (case i of Call f vs \<Rightarrow> if is_toffoli f then Call (impl_name (take 3 vs)) (take 3 vs) else i | _ \<Rightarrow> i)"

text \<open>The Toffoli calls of a list of instructions have three operands.\<close>

definition three_operands :: "inst list \<Rightarrow> bool" where
  "three_operands is \<longleftrightarrow> (\<forall>f vs. Call f vs \<in> set is \<longrightarrow> is_toffoli f \<longrightarrow> length vs = 3)"

text \<open>A module in which a name for the sixteen gates is only taken by them, and its extensions.\<close>

definition impls_ok :: "qmodule \<Rightarrow> bool" where
  "impls_ok M \<longleftrightarrow> (\<forall>vs. length vs = 3 \<longrightarrow> map_of M (impl_name vs) = None \<or> map_of M (impl_name vs) = Some (toffoli_impl vs))"

definition extends :: "qmodule \<Rightarrow> qmodule \<Rightarrow> bool" where
  "extends M M' \<longleftrightarrow> (\<forall>n fn. map_of M n = Some fn \<longrightarrow> map_of M' n = Some fn)"

definition has_impls :: "qmodule \<Rightarrow> inst list \<Rightarrow> bool" where
  "has_impls M is \<longleftrightarrow> (\<forall>f vs. Call f vs \<in> set is \<longrightarrow> is_toffoli f \<longrightarrow> map_of M (impl_name vs) = Some (toffoli_impl vs))"

lemma three_list: "length vs = 3 \<Longrightarrow> \<exists>a b c. vs = [a, b, c]"
  by (auto simp: numeral_3_eq_3 length_Suc_conv)

lemma impl_name_types:
  assumes "length vs = 3" "length ws = 3" "impl_name vs = impl_name ws"
  shows "toffoli_impl vs = toffoli_impl ws"
proof -
  obtain a b c where v: "vs = [a, b, c]" using three_list [OF assms(1)] by blast
  obtain a' b' c' where w: "ws = [a', b', c']" using three_list [OF assms(2)] by blast
  have "(val_type a = ''i16'') = (val_type a' = ''i16'') \<and> (val_type b = ''i16'') = (val_type b' = ''i16'') \<and>
      (val_type c = ''i16'') = (val_type c' = ''i16'')"
    using assms(3) by (simp add: v w impl_name_def split: if_splits)
  then have "formal k a = formal k a'" "formal k b = formal k b'" "formal k c = formal k c'" for k
    by (simp_all add: formal_def)
  then show ?thesis by (simp add: v w toffoli_impl_def)
qed

lemma visit_toffoli_ok:
  assumes "impls_ok M" "three_operands [i]"
  shows "\<exists>M'. visit_toffoli M i = (M', repl i) \<and> impls_ok M' \<and> extends M M' \<and> has_impls M' [i]"
proof (cases i)
  case (Call f vs)
  show ?thesis
  proof (cases "is_toffoli f")
    case False
    then show ?thesis using assms(1) by (simp add: Call repl_def extends_def has_impls_def)
  next
    case True
    then have l: "length vs = 3" using assms(2) by (simp add: Call three_operands_def)
    show ?thesis
    proof (cases "map_of M (impl_name vs)")
      case None
      define M' where "M' = M @ [(impl_name vs, toffoli_impl vs)]"
      have "impls_ok M'"
        unfolding impls_ok_def
      proof (intro allI impI)
        fix ws :: "val list" assume w: "length ws = 3"
        show "map_of M' (impl_name ws) = None \<or> map_of M' (impl_name ws) = Some (toffoli_impl ws)"
          using assms(1) w impl_name_types [OF l w] unfolding impls_ok_def M'_def
          by (auto simp: map_add_def split: option.splits)
      qed
      moreover have "extends M M'" by (auto simp: extends_def M'_def map_add_def)
      moreover have "has_impls M' [i]" using None by (simp add: Call has_impls_def M'_def map_add_def)
      ultimately show ?thesis using True None l by (simp add: Call repl_def M'_def Let_def)
    next
      case (Some fn)
      then have "fn = toffoli_impl vs" using assms(1) l unfolding impls_ok_def by fastforce
      then show ?thesis using True Some l assms(1) by (simp add: Call repl_def extends_def has_impls_def Let_def)
    qed
  qed
qed (use assms in \<open>simp_all add: repl_def extends_def has_impls_def\<close>)

lemma has_impls_extends: "has_impls M is \<Longrightarrow> extends M M' \<Longrightarrow> has_impls M' is"
  by (simp add: has_impls_def extends_def)

lemma extends_refl: "extends M M"
  by (simp add: extends_def)

lemma extends_trans: "extends M1 M2 \<Longrightarrow> extends M2 M3 \<Longrightarrow> extends M1 M3"
  by (simp add: extends_def)

lemma visit_insts_ok:
  "impls_ok M \<Longrightarrow> three_operands is \<Longrightarrow>
   \<exists>M'. visit_insts M is = (M', map repl is) \<and> impls_ok M' \<and> extends M M' \<and> has_impls M' is"
proof (induction "is" arbitrary: M)
  case Nil
  then show ?case by (simp add: extends_refl has_impls_def)
next
  case (Cons i "is")
  have t: "three_operands [i]" "three_operands is" using Cons.prems(2) by (simp_all add: three_operands_def)
  obtain M1 where 1: "visit_toffoli M i = (M1, repl i)" "impls_ok M1" "extends M M1" "has_impls M1 [i]"
    using visit_toffoli_ok [OF Cons.prems(1) t(1)] by blast
  obtain M2 where 2: "visit_insts M1 is = (M2, map repl is)" "impls_ok M2" "extends M1 M2" "has_impls M2 is"
    using Cons.IH [OF 1(2) t(2)] by blast
  have "has_impls M2 [i]" using has_impls_extends [OF 1(4) 2(3)] .
  then have "has_impls M2 (i # is)" using 2(4) by (simp add: has_impls_def)
  then show ?case using 1 2 extends_trans [OF 1(3) 2(3)] by simp
qed

lemma visit_blocks_ok:
  "impls_ok M \<Longrightarrow> three_operands (concat bs) \<Longrightarrow>
   \<exists>M'. visit_blocks M bs = (M', map (map repl) bs) \<and> impls_ok M' \<and> extends M M' \<and> has_impls M' (concat bs)"
proof (induction bs arbitrary: M)
  case Nil
  then show ?case by (simp add: extends_refl has_impls_def)
next
  case (Cons b bs)
  have t: "three_operands b" "three_operands (concat bs)" using Cons.prems(2) by (auto simp: three_operands_def)
  obtain M1 where 1: "visit_insts M b = (M1, map repl b)" "impls_ok M1" "extends M M1" "has_impls M1 b"
    using visit_insts_ok [OF Cons.prems(1) t(1)] by blast
  obtain M2 where 2: "visit_blocks M1 bs = (M2, map (map repl) bs)" "impls_ok M2" "extends M1 M2" "has_impls M2 (concat bs)"
    using Cons.IH [OF 1(2) t(2)] by blast
  have "has_impls M2 b" using has_impls_extends [OF 1(4) 2(3)] .
  then have "has_impls M2 (concat (b # bs))" using 2(4) by (auto simp: has_impls_def)
  then show ?case using 1 2 extends_trans [OF 1(3) 2(3)] by simp
qed

text \<open>The module in the middle of the pass: the functions in \<open>done\<close> are rewritten, the others as before.\<close>

definition rewritten :: "func \<Rightarrow> func" where
  "rewritten fn = fn\<lparr>blocks := map (map repl) (blocks fn)\<rparr>"

definition halfway :: "qmodule \<Rightarrow> string set \<Rightarrow> qmodule \<Rightarrow> bool" where
  "halfway M dn Mc \<longleftrightarrow> impls_ok Mc \<and>
     (\<forall>n fn. map_of M n = Some fn \<longrightarrow> map_of Mc n = Some (if n \<in> dn then rewritten fn else fn)) \<and>
     (\<forall>n fn. map_of M n = Some fn \<longrightarrow> n \<in> dn \<longrightarrow> has_impls Mc (concat (blocks fn)))"

definition toffoli_input :: "qmodule \<Rightarrow> bool" where
  "toffoli_input M \<longleftrightarrow> distinct (map fst M) \<and> (\<forall>vs. length vs = 3 \<longrightarrow> map_of M (impl_name vs) = None) \<and>
     (\<forall>n fn. map_of M n = Some fn \<longrightarrow> three_operands (concat (blocks fn)))"

lemma visit_function_ok:
  assumes M: "toffoli_input M" and h: "halfway M dn Mc" and n: "map_of M n = Some fn" "n \<notin> dn"
  shows "halfway M (insert n dn) (visit_function Mc n)"
proof -
  have c: "map_of Mc n = Some fn" using h n by (simp add: halfway_def)
  have ok: "impls_ok Mc" using h by (simp add: halfway_def)
  have t: "three_operands (concat (blocks fn))" using M n(1) by (simp add: toffoli_input_def)
  obtain M1 where 1: "visit_blocks Mc (blocks fn) = (M1, map (map repl) (blocks fn))" "impls_ok M1" "extends Mc M1"
    "has_impls M1 (concat (blocks fn))"
    using visit_blocks_ok [OF ok t] by blast
  define M2 where "M2 = AList.update n (rewritten fn) M1"
  have v: "visit_function Mc n = M2" using c 1(1) by (simp add: visit_function_def M2_def rewritten_def)
  have m2: "map_of M2 = (map_of M1)(n \<mapsto> rewritten fn)" by (simp add: M2_def AList.update_conv')
  have ni: "impl_name vs \<noteq> n" if "length vs = 3" for vs using M n(1) that by (auto simp: toffoli_input_def)
  have keep: "has_impls M2 is" if "has_impls M1 is" "three_operands is" for "is"
    using that ni unfolding has_impls_def three_operands_def m2 by fastforce
  have "impls_ok M2" using 1(2) ni by (simp add: impls_ok_def m2)
  moreover have "map_of M2 k = Some (if k \<in> insert n dn then rewritten f else f)" if "map_of M k = Some f" for k f
    using h 1(3) that n(1) by (auto simp: m2 halfway_def extends_def)
  moreover have "has_impls M2 (concat (blocks f))" if k: "map_of M k = Some f" "k \<in> insert n dn" for k f
  proof -
    have tk: "three_operands (concat (blocks f))" using M k(1) by (simp add: toffoli_input_def)
    show ?thesis
    proof (cases "k = n")
      case True
      then show ?thesis using keep [OF 1(4) t] k(1) n(1) by simp
    next
      case False
      then have "has_impls Mc (concat (blocks f))" using h k by (simp add: halfway_def)
      then show ?thesis using keep tk has_impls_extends 1(3) by blast
    qed
  qed
  ultimately show ?thesis unfolding v halfway_def by blast
qed

lemma toffoli_pass_ok:
  assumes "toffoli_input M"
  shows "halfway M (fst ` set M) (toffoli_pass M)"
proof -
  have "halfway M (dn \<union> set ns) (foldl visit_function Mc ns)"
    if "halfway M dn Mc" "set ns \<subseteq> fst ` set M" "distinct ns" "dn \<inter> set ns = {}" for dn Mc ns
    using that
  proof (induction ns arbitrary: dn Mc)
    case (Cons n ns)
    obtain fn where "map_of M n = Some fn" using Cons.prems(2) by (metis list.set_intros(1) map_of_eq_None_iff not_None_eq subsetD)
    moreover have "n \<notin> dn" using Cons.prems(4) by auto
    ultimately have "halfway M (insert n dn) (visit_function Mc n)" using visit_function_ok [OF assms Cons.prems(1)] by blast
    from Cons.IH [OF this] Cons.prems show ?case by simp
  qed simp
  moreover have "halfway M {} M" using assms by (simp add: halfway_def impls_ok_def toffoli_input_def)
  ultimately have "halfway M ({} \<union> set (map fst M)) (foldl visit_function M (map fst M))"
    using assms unfolding toffoli_input_def by (metis inf_bot_left list.set_map subset_refl)
  then show ?thesis by (simp add: toffoli_pass_def)
qed

subsection \<open>Flattening after the pass\<close>

lemma impl_name_cong: "map val_type vs = map val_type ws \<Longrightarrow> impl_name vs = impl_name ws"
proof -
  have "impl_name vs = ''ToffoliImpl'' @ concat (map (\<lambda>t. if t = ''i16'' then ''_Q'' else ''_A'') (map val_type vs))" for vs
    by (simp add: impl_name_def comp_def)
  then show "map val_type vs = map val_type ws \<Longrightarrow> impl_name vs = impl_name ws" by metis
qed

lemma repl_bind:
  assumes "map val_type vs = map val_type ps"
  shows "repl (bind_inst ps vs i) = bind_inst ps vs (repl i)"
proof (cases i)
  case (Call f ws)
  have "impl_name (take 3 (map (bind_params ps vs) ws)) = impl_name (take 3 ws)"
    by (rule impl_name_cong) (simp add: take_map [symmetric] comp_def bind_params_type [OF assms])
  then show ?thesis by (simp add: Call repl_def take_map)
qed (simp_all add: repl_def)

lemma has_impls_bind:
  assumes "map val_type vs = map val_type ps" "has_impls M is" "three_operands is"
  shows "has_impls M (map (bind_inst ps vs) is)" "three_operands (map (bind_inst ps vs) is)"
proof -
  have c: "\<exists>ws'. Call f ws' \<in> set is \<and> ws = map (bind_params ps vs) ws'" if "Call f ws \<in> set (map (bind_inst ps vs) is)" for f ws
  proof -
    have "Call f ws \<in> bind_inst ps vs ` set is" using that by (simp only: set_map)
    then obtain i where i: "Call f ws = bind_inst ps vs i" "i \<in> set is" by (rule imageE)
    show ?thesis
    proof (cases i)
      case (Call g ws')
      then show ?thesis using i by (intro exI [of _ ws']) simp
    qed (use i in simp_all)
  qed
  show "three_operands (map (bind_inst ps vs) is)"
    unfolding three_operands_def using c assms(3) by (metis length_map three_operands_def)
  show "has_impls M (map (bind_inst ps vs) is)"
    unfolding has_impls_def
  proof (intro allI impI)
    fix f ws assume w: "Call f ws \<in> set (map (bind_inst ps vs) is)" "is_toffoli f"
    obtain ws' where ws': "Call f ws' \<in> set is" "ws = map (bind_params ps vs) ws'" using c [OF w(1)] by blast
    have l: "length ws' = 3" using assms(3) ws'(1) w(2) by (simp add: three_operands_def)
    have "impl_name ws = impl_name ws'"
      by (rule impl_name_cong) (simp add: ws'(2) comp_def bind_params_type [OF assms(1)])
    moreover have "map_of M (impl_name ws') = Some (toffoli_impl ws')" using assms(2) ws'(1) w(2) by (simp add: has_impls_def)
    moreover have "toffoli_impl ws = toffoli_impl ws'"
      using impl_name_types [of ws ws'] calculation(1) l ws'(2) by simp
    ultimately show "map_of M (impl_name ws) = Some (toffoli_impl ws)" by simp
  qed
qed

text \<open>A call of the sixteen gates.\<close>

lemma flat_impl:
  assumes m: "map_of M (impl_name vs) = Some (toffoli_impl vs)" and v: "vs = [c1, c2, t]" "list_all is_qubit vs"
  shows "flat M [Call (impl_name vs) vs] (named (toffoli_gates c1 c2 t))"
proof -
  define ps where "ps = [formal 0 c1, formal 1 c2, formal 2 t]"
  have q: "val_type (formal k x) = val_type x" if "is_qubit x" for k x using that by (cases x) (simp_all add: formal_def)
  have ty: "map val_type vs = map val_type ps" using v q by (simp add: ps_def)
  have b: "bind_params ps vs (formal 0 c1) = c1" "bind_params ps vs (formal 1 c2) = c2" "bind_params ps vs (formal 2 t) = t"
    by (simp_all add: bind_params_def ps_def v(1) formal_def)
  have body: "map (bind_inst ps vs) (toffoli_body (formal 0 c1) (formal 1 c2) (formal 2 t)) = toffoli_body c1 c2 t"
    by (simp add: toffoli_body_def bind_gate_call [OF ty] b b(2) [unfolded One_nat_def])
  have f: "flat M (toffoli_body c1 c2 t) (named (toffoli_gates c1 c2 t))"
    unfolding toffoli_body_gates named_def by (rule flat_gate_calls)
  have fn: "params (toffoli_impl vs) = ps" "blocks (toffoli_impl vs) = [toffoli_body (formal 0 c1) (formal 1 c2) (formal 2 t)]"
    by (simp_all add: toffoli_impl_def v(1) ps_def numeral_2_eq_2 Let_def)
  have ni: "\<not> isIntrinsic (impl_name vs)" by (simp add: isIntrinsic_def impl_name_def)
  from flat_call [OF ni m fn(2) _ _ flat_nil, of vs] fn(1) ty body f show ?thesis by simp
qed

lemma named_not_toffoli: "(g, ws) \<in> set (named (toffoli_gates c1 c2 t)) \<Longrightarrow> \<not> is_toffoli g"
  by (auto simp: named_def toffoli_gates_def is_toffoli_def base_intrinsic_name)

lemma gate_effect_toffoli:
  assumes "is_toffoli f" "list_all is_qubit [c1, c2, t]" "distinct (map qubit_of [c1, c2, t])"
  shows "gate_effect K (f, [c1, c2, t]) = on_basis (\<lambda>b. flip_if (qubit_of t) b (b (qubit_of c1) \<and> b (qubit_of c2)))"
  using assms by (simp add: gate_effect_def is_toffoli_def unitary_def)

definition plain :: "(string \<times> val list) list \<Rightarrow> bool" where
  "plain gs \<longleftrightarrow> (\<forall>(f, vs) \<in> set gs. is_toffoli f \<longrightarrow> length vs = 3 \<and> list_all is_qubit vs \<and> distinct (map qubit_of vs))"

lemma toffoli_flat:
  assumes "flat M is gs" "toffoli_input M" "three_operands is" "has_impls (toffoli_pass M) is" "plain gs"
  shows "\<exists>gs'. flat (toffoli_pass M) (map repl is) gs' \<and> (\<forall>K psi. effect K gs' psi = effect K gs psi) \<and>
    (\<forall>(f, vs) \<in> set gs'. \<not> is_toffoli f)"
  using assms
proof (induction rule: flat.induct)
  case flat_nil
  then show ?case by (intro exI [of _ "[]"]) (simp add: flat.flat_nil)
next
  case (flat_alloca "is" gs w n)
  have "three_operands is" "has_impls (toffoli_pass M) is"
    using flat_alloca.prems by (simp_all add: three_operands_def has_impls_def)
  with flat_alloca.IH flat_alloca.prems show ?case by (auto simp: repl_def intro!: flat.flat_alloca)
next
  case (flat_other "is" gs)
  have "three_operands is" "has_impls (toffoli_pass M) is"
    using flat_other.prems by (simp_all add: three_operands_def has_impls_def)
  with flat_other.IH flat_other.prems show ?case by (auto simp: repl_def intro!: flat.flat_other)
next
  case (flat_gate f "is" gs vs)
  have t: "three_operands is" "has_impls (toffoli_pass M) is" "plain gs"
    using flat_gate.prems by (simp_all add: three_operands_def has_impls_def plain_def)
  obtain gs' where ih: "flat (toffoli_pass M) (map repl is) gs'" "\<forall>K psi. effect K gs' psi = effect K gs psi"
    "\<forall>(f, vs) \<in> set gs'. \<not> is_toffoli f"
    using flat_gate.IH [OF flat_gate.prems(1) t] by blast
  show ?case
  proof (cases "is_toffoli f")
    case False
    then have "flat (toffoli_pass M) (map repl (Call f vs # is)) ((f, vs) # gs')"
      using flat.flat_gate [OF flat_gate.hyps(1) ih(1)] by (simp add: repl_def)
    moreover have "\<forall>K psi. effect K ((f, vs) # gs') psi = effect K ((f, vs) # gs) psi" using ih(2) by simp
    ultimately show ?thesis using ih(3) False by (intro exI [of _ "(f, vs) # gs'"]) simp
  next
    case True
    then have p: "length vs = 3" "list_all is_qubit vs" "distinct (map qubit_of vs)"
      using flat_gate.prems(4) by (simp_all add: plain_def)
    obtain c1 c2 u where v: "vs = [c1, c2, u]" using three_list [OF p(1)] by blast
    have m: "map_of (toffoli_pass M) (impl_name vs) = Some (toffoli_impl vs)"
      using flat_gate.prems(3) True by (simp add: has_impls_def)
    define gs1 where "gs1 = named (toffoli_gates c1 c2 u)"
    have "flat (toffoli_pass M) ([Call (impl_name vs) vs] @ map repl is) (gs1 @ gs')"
      unfolding gs1_def by (rule flat_append [OF flat_impl [OF m v p(2)] ih(1)])
    then have f: "flat (toffoli_pass M) (map repl (Call f vs # is)) (gs1 @ gs')" using True p(1) by (simp add: repl_def)
    have "effect K (gs1 @ gs') psi = effect K ((f, vs) # gs) psi" for K psi
      using toffoli_effect [of c1 c2 u K psi] gate_effect_toffoli [OF True, of c1 c2 u K] p(2,3) ih(2)
      by (simp add: gs1_def v)
    moreover have "\<forall>(f, vs) \<in> set (gs1 @ gs'). \<not> is_toffoli f" using ih(3) named_not_toffoli by (auto simp: gs1_def)
    ultimately show ?thesis using f by blast
  qed
next
  case (flat_call f fn b vs gs1 "is" gs2)
  let ?M = "toffoli_pass M"
  have t: "three_operands is" "has_impls ?M is" "plain gs1" "plain gs2"
    using flat_call.prems by (auto simp: three_operands_def has_impls_def plain_def)
  have h: "halfway M (fst ` set M) ?M" by (rule toffoli_pass_ok [OF flat_call.prems(1)])
  have fm: "f \<in> fst ` set M" using flat_call.hyps(2) by (metis map_of_eq_None_iff option.distinct(1))
  have bi: "three_operands b" using flat_call.prems(1) flat_call.hyps(2,3) by (fastforce simp: toffoli_input_def)
  have "has_impls ?M (concat (blocks fn))" using h flat_call.hyps(2) fm by (simp add: halfway_def)
  then have "has_impls ?M b" by (simp add: flat_call.hyps(3))
  note hb = has_impls_bind [OF flat_call.hyps(4) this bi]
  obtain g1 where ih1: "flat ?M (map repl (map (bind_inst (params fn) vs) b)) g1" "\<forall>K psi. effect K g1 psi = effect K gs1 psi"
    "\<forall>(f, vs) \<in> set g1. \<not> is_toffoli f"
    using flat_call.IH(1) [OF flat_call.prems(1) hb(2,1) t(3)] by blast
  obtain g2 where ih2: "flat ?M (map repl is) g2" "\<forall>K psi. effect K g2 psi = effect K gs2 psi"
    "\<forall>(f, vs) \<in> set g2. \<not> is_toffoli f"
    using flat_call.IH(2) [OF flat_call.prems(1) t(1,2,4)] by blast
  have m: "map_of ?M f = Some (rewritten fn)" using h flat_call.hyps(2) fm by (simp add: halfway_def)
  have bl: "blocks (rewritten fn) = [map repl b]" "params (rewritten fn) = params fn"
    by (simp_all add: rewritten_def flat_call.hyps(3))
  have e: "map repl (map (bind_inst (params fn) vs) b) = map (bind_inst (params (rewritten fn)) vs) (map repl b)"
    by (simp add: bl(2) repl_bind [OF flat_call.hyps(4)])
  have r: "repl (Call f vs) = Call f vs" using flat_call.hyps(1) by (simp add: repl_def is_toffoli_def)
  have "flat ?M (Call f vs # map repl is) (g1 @ g2)"
    using flat.flat_call [OF flat_call.hyps(1) m bl(1) _ ih1(1) [unfolded e] ih2(1)] flat_call.hyps(4) bl(2) by simp
  then have "flat ?M (map repl (Call f vs # is)) (g1 @ g2)" by (simp add: r)
  moreover have "\<forall>K psi. effect K (g1 @ g2) psi = effect K (gs1 @ gs2) psi" using ih1(2) ih2(2) by simp
  moreover have "\<forall>(f, vs) \<in> set (g1 @ g2). \<not> is_toffoli f" using ih1(3) ih2(3) by auto
  ultimately show ?case by blast
qed

subsection \<open>The property\<close>

text \<open>C9: The pass keeps what a function does: the gates that a call comes down to after the pass have the
  same effect on every state as the gates before it, whatever the gates other than the listed unitary ones do,
  and none of them is a Toffoli gate. The Toffoli gates must act on three different qubits, and the names of
  the created functions must be free.\<close>

theorem toffoli_pass_equiv:
  assumes "toffoli_input M" "flat M [Call f vs] gs" "\<not> isIntrinsic f" "plain gs"
  shows "\<exists>gs'. flat (toffoli_pass M) [Call f vs] gs' \<and> (\<forall>K psi. effect K gs' psi = effect K gs psi) \<and>
    (\<forall>(g, ws) \<in> set gs'. \<not> is_toffoli g)"
proof -
  have n: "\<not> is_toffoli f" using assms(3) by (simp add: is_toffoli_def)
  then have "three_operands [Call f vs]" "has_impls (toffoli_pass M) [Call f vs]" "map repl [Call f vs] = [Call f vs]"
    by (simp_all add: three_operands_def has_impls_def repl_def)
  with toffoli_flat [OF assms(2,1) _ _ assms(4)] show ?thesis by metis
qed

definition toffoli_insts :: "inst list" where
  "toffoli_insts = [Alloca 16 (Some 3), gate_call ''Toffoli'' [Qbit 0, Qbit 1, Qbit 2]]"

definition toffoli_main :: qmodule where
  "toffoli_main = [(''main'', \<lparr>params = [], blocks = [toffoli_insts]\<rparr>)]"

lemma toffoli_main_flat:
  "flat toffoli_main [Call ''main'' []] [(''llvm.Toffoli.i16.i16.i16'', [Qbit 0, Qbit 1, Qbit 2])]"
proof -
  let ?g = "[(''llvm.Toffoli.i16.i16.i16'', [Qbit 0, Qbit 1, Qbit 2])]"
  have "flat toffoli_main toffoli_insts ?g"
    using flat_gate_calls [of toffoli_main "[(''Toffoli'', [Qbit 0, Qbit 1, Qbit 2])]"]
    unfolding toffoli_insts_def by (intro flat_alloca) (simp add: intrinsic_name_def)
  moreover have "map (bind_inst [] []) toffoli_insts = toffoli_insts"
    by (simp add: toffoli_insts_def gate_call_def bind_params_def)
  moreover have "map_of toffoli_main ''main'' = Some \<lparr>params = [], blocks = [toffoli_insts]\<rparr>" "\<not> isIntrinsic ''main''"
    by (simp_all add: toffoli_main_def isIntrinsic_def)
  ultimately have "flat toffoli_main [Call ''main'' []] (?g @ [])"
    by (intro flat_call [where b = toffoli_insts and fn = "\<lparr>params = [], blocks = [toffoli_insts]\<rparr>"] flat_nil) simp_all
  then show ?thesis by simp
qed

theorem toffoli_pass_equiv_witness:
  "\<exists>gs'. flat (toffoli_pass toffoli_main) [Call ''main'' []] gs' \<and>
     (\<forall>K psi. effect K gs' psi = effect K [(''llvm.Toffoli.i16.i16.i16'', [Qbit 0, Qbit 1, Qbit 2])] psi)"
proof -
  have 1: "toffoli_input toffoli_main"
    by (simp add: toffoli_input_def toffoli_main_def toffoli_insts_def impl_name_def three_operands_def gate_call_def)
  have 3: "\<not> isIntrinsic ''main''" by (simp add: isIntrinsic_def)
  have 4: "plain [(''llvm.Toffoli.i16.i16.i16'', [Qbit 0, Qbit 1, Qbit 2])]" by (simp add: plain_def)
  from toffoli_pass_equiv [OF 1 toffoli_main_flat 3 4] show ?thesis by blast
qed

end
