(* ===== verification/Reverse_Pass.thy ===== *)
theory Reverse_Pass
  imports Qir
begin

text \<open>
  The pass that reverses functions (\<open>llvm/lib/Transforms/Scaffold/Reverse.cpp\<close>): a call of
  \<open>_reverse_f\<close> becomes a call of \<open>f_Reverse\<close>, a copy of \<open>f\<close> with the calls in reverse order and every
  callee inverted. The use of a function that is not there is None; the depth of functions that are
  being reversed inside each other is bounded by a first argument.
\<close>

subsection \<open>Inverses of the intrinsics\<close>

text \<open>For the types of ancillas (i8) and qubits (i16), in the order of the code.\<close>

definition onePerm :: "string list list" where
  "onePerm = [[''i8''], [''i16'']]"

definition twoPerms :: "string list list" where
  "twoPerms = [[''i8'', ''i8''], [''i8'', ''i16''], [''i16'', ''i8''], [''i16'', ''i16'']]"

definition threePerms :: "string list list" where
  "threePerms = [[''i16'', ''i16'', ''i16''], [''i16'', ''i16'', ''i8''], [''i16'', ''i8'', ''i8''], [''i16'', ''i8'', ''i16''],
     [''i8'', ''i16'', ''i16''], [''i8'', ''i16'', ''i8''], [''i8'', ''i8'', ''i8''], [''i8'', ''i8'', ''i16'']]"

definition one_inverses :: "(string \<times> string) list" where
  "one_inverses = [(''H'', ''H''), (''MeasX'', ''MeasX''), (''MeasZ'', ''MeasZ''), (''PrepX'', ''PrepX''), (''PrepZ'', ''PrepZ''),
     (''Rx'', ''Rx''), (''Ry'', ''Ry''), (''Rz'', ''Rz''), (''S'', ''Sdag''), (''Sdag'', ''S''), (''T'', ''Tdag''), (''Tdag'', ''T''),
     (''X'', ''X''), (''Y'', ''Y''), (''Z'', ''Z'')]"

definition declare_all :: "(string \<times> string) list \<Rightarrow> string list list \<Rightarrow> (string \<times> string) list" where
  "declare_all pairs perms =
     concat (map (\<lambda>ts. map (\<lambda>(g, h). (intrinsic_name g ts, intrinsic_name h ts)) pairs) perms)"

definition IntrinsicInverses :: "(string \<times> string) list" where
  "IntrinsicInverses = declare_all one_inverses onePerm @ declare_all [(''CNOT'', ''CNOT'')] twoPerms @
     declare_all [(''Toffoli'', ''Toffoli''), (''Fredkin'', ''Fredkin'')] threePerms @ [(''store_cbit'', ''store_cbit'')]"

text \<open>The number of parameters of an intrinsic: rotations have an angle, preparations a value.\<close>

definition intrinsic_params :: "string \<Rightarrow> val list" where
  "intrinsic_params name =
     (let g = base_name name
      in if g \<in> {''Rx'', ''Ry'', ''Rz''} then [Qbit 0, Double_const 0]
         else if g \<in> {''PrepX'', ''PrepZ''} then [Qbit 0, Int_const 0]
         else if g = ''CNOT'' then [Qbit 0, Qbit 1]
         else if g \<in> {''Toffoli'', ''Fredkin''} then [Qbit 0, Qbit 1, Qbit 2] else [Qbit 0])"

text \<open>The intrinsics of the table have been declared.\<close>

definition getFunction :: "qmodule \<Rightarrow> string \<Rightarrow> func option" where
  "getFunction M name =
     (case map_of M name of Some fn \<Rightarrow> Some fn
      | None \<Rightarrow> if isIntrinsic name \<and> map_of IntrinsicInverses name \<noteq> None
          then Some \<lparr>params = intrinsic_params name, blocks = []\<rparr> else None)"

subsection \<open>The inverse of a function\<close>

text \<open>The calls of the first block of the copy, from the last to the first: each is inverted and
  moved to the end. \<open>todo\<close> is what comes before, in reverse, \<open>kept\<close> the other instructions after it,
  \<open>moved\<close> the calls at the end.\<close>

fun get_inverse :: "nat \<Rightarrow> qmodule \<Rightarrow> string \<Rightarrow> (string \<times> qmodule) option"
and reverse_calls :: "nat \<Rightarrow> string \<Rightarrow> func \<Rightarrow> qmodule \<Rightarrow> inst list \<Rightarrow> inst list \<Rightarrow> inst list \<Rightarrow> qmodule option" where
  "get_inverse 0 M f = None"
| "get_inverse (Suc n) M f =
     (case map_of IntrinsicInverses f of Some g \<Rightarrow> Some (g, M)
      | None \<Rightarrow>
          let r = f @ ''_Reverse''
          in if map_of M r \<noteq> None then Some (r, M)
             else case map_of M f of None \<Rightarrow> None
              | Some fn \<Rightarrow> (case blocks fn of [] \<Rightarrow> None
                  | b # bs \<Rightarrow> map_option (Pair r) (reverse_calls n r fn (M @ [(r, fn)]) (rev b) [] [])))"
| "reverse_calls n r fn M [] kept moved = Some M"
| "reverse_calls n r fn M (Call g vs # todo) kept moved =
     (case get_inverse n M g of None \<Rightarrow> None
      | Some (g', M1) \<Rightarrow>
          let moved' = moved @ [Call g' vs];
              M2 = AList.update r (fn\<lparr>blocks := (rev todo @ kept @ moved') # tl (blocks fn)\<rparr>) M1
          in reverse_calls n r fn M2 todo kept moved')"
| "reverse_calls n r fn M (i # todo) kept moved = reverse_calls n r fn M todo (i # kept) moved"

subsection \<open>The calls of reversed functions\<close>

function strip_reverse :: "string \<Rightarrow> nat \<Rightarrow> string \<times> nat" where
  "strip_reverse name k =
     (if take 9 name = ''_reverse_'' then strip_reverse (drop 9 name) (k + 1) else (name, k))"
  by pat_completeness auto
termination
proof (relation "measure (\<lambda>(name, k). length name)", goal_cases)
  case (2 name k)
  then show ?case by (cases name) auto
qed simp

declare strip_reverse.simps [simp del]

text \<open>The forward function: by name, Toffoli by the name of its implementation, else the intrinsic for
  qubits.\<close>

definition forward_function :: "qmodule \<Rightarrow> string \<Rightarrow> string \<Rightarrow> string option" where
  "forward_function M f name =
     (let n1 = (if name = ''Toffoli'' then ''ToffoliImpl'' else name)
      in if getFunction M n1 \<noteq> None then Some n1
         else let args = (case getFunction M f of None \<Rightarrow> 0 | Some fn \<Rightarrow> length (params fn));
                  n2 = ''llvm.'' @ name @ concat (replicate args ''.i16'')
              in if getFunction M n2 \<noteq> None then Some n2 else None)"

definition visit_call :: "nat \<Rightarrow> qmodule \<Rightarrow> string \<Rightarrow> val list \<Rightarrow> (inst \<times> qmodule) option" where
  "visit_call n M f vs =
     (if take 9 f \<noteq> ''_reverse_'' then Some (Call f vs, M)
      else case strip_reverse f 0 of (name, numReverses) \<Rightarrow>
        (case forward_function M f name of None \<Rightarrow> None
         | Some forward \<Rightarrow>
             (case (if odd numReverses then get_inverse n M forward else Some (forward, M)) of None \<Rightarrow> None
              | Some (replacement, M') \<Rightarrow>
                  (case getFunction M' replacement of None \<Rightarrow> None
                   | Some fn \<Rightarrow> if length (params fn) \<le> length vs
                       then Some (Call replacement (take (length (params fn)) vs), M') else None))))"

text \<open>The instructions of a block, one after the other; the function is updated after each. \<open>bs1\<close> and \<open>bs2\<close> are
  the blocks before and after.\<close>

fun visit_reverse_insts :: "nat \<Rightarrow> qmodule \<Rightarrow> string \<Rightarrow> inst list list \<Rightarrow> inst list \<Rightarrow> inst list \<Rightarrow> inst list list \<Rightarrow> (qmodule \<times> inst list) option" where
  "visit_reverse_insts n M name bs1 dn [] bs2 = Some (M, dn)"
| "visit_reverse_insts n M name bs1 dn (Call f vs # is) bs2 =
     (case visit_call n M f vs of None \<Rightarrow> None
      | Some (i, M1) \<Rightarrow>
          (case map_of M1 name of None \<Rightarrow> None
           | Some fn \<Rightarrow> visit_reverse_insts n (AList.update name (fn\<lparr>blocks := bs1 @ [dn @ i # is] @ bs2\<rparr>) M1) name bs1 (dn @ [i]) is bs2))"
| "visit_reverse_insts n M name bs1 dn (i # is) bs2 = visit_reverse_insts n M name bs1 (dn @ [i]) is bs2"

fun visit_reverse_blocks :: "nat \<Rightarrow> qmodule \<Rightarrow> string \<Rightarrow> inst list list \<Rightarrow> inst list list \<Rightarrow> qmodule option" where
  "visit_reverse_blocks n M name bs1 [] = Some M"
| "visit_reverse_blocks n M name bs1 (b # bs) =
     (case visit_reverse_insts n M name bs1 [] b bs of None \<Rightarrow> None
      | Some (M', b') \<Rightarrow> visit_reverse_blocks n M' name (bs1 @ [b']) bs)"

text \<open>The functions of the module, the new ones at its end as well.\<close>

partial_function (option) reverse_pass :: "nat \<Rightarrow> nat \<Rightarrow> qmodule \<Rightarrow> qmodule option" where
  "reverse_pass n k M =
     (if k < length M
      then Option.bind (visit_reverse_blocks n M (fst (M ! k)) [] (blocks (snd (M ! k)))) (reverse_pass n (k + 1))
      else Some M)"

declare reverse_pass.simps [code]

subsection \<open>Inverse gates\<close>

definition inv_base :: "string \<Rightarrow> string" where
  "inv_base g = (case map_of [(''S'', ''Sdag''), (''Sdag'', ''S''), (''T'', ''Tdag''), (''Tdag'', ''T'')] g of
     Some h \<Rightarrow> h | None \<Rightarrow> g)"

lemma inverses_intrinsic:
  assumes "map_of IntrinsicInverses f = Some f'" "isIntrinsic f"
  shows "isIntrinsic f'" "base_name f' = inv_base (base_name f)"
proof -
  have "list_all (\<lambda>(f, f'). isIntrinsic f \<longrightarrow> isIntrinsic f' \<and> base_name f' = inv_base (base_name f)) IntrinsicInverses"
    by code_simp
  moreover have "(f, f') \<in> set IntrinsicInverses" using assms(1) by (rule map_of_SomeD)
  ultimately show "isIntrinsic f'" "base_name f' = inv_base (base_name f)"
    using assms(2) unfolding list_all_iff by blast+
qed

lemma phase_gate_inverse: "p * p' = 1 \<Longrightarrow> phase_gate q p (phase_gate q p' psi) = psi"
  by (auto simp: phase_gate_def fun_eq_iff mult.assoc [symmetric])

lemma on_qubit_inverse:
  assumes "\<And>i j. m i False * m' False j + m i True * m' True j = (if i = j then 1 else 0)"
  shows "on_qubit q m (on_qubit q m' psi) = psi"
proof (rule ext)
  fix b :: "nat \<Rightarrow> bool"
  have "on_qubit q m (on_qubit q m' psi) b =
      (m (b q) False * m' False False + m (b q) True * m' True False) * psi (b(q := False)) +
      (m (b q) False * m' False True + m (b q) True * m' True True) * psi (b(q := True))"
    by (simp add: on_qubit_def algebra_simps)
  also have "\<dots> = psi b" unfolding assms by (cases "b q") (simp_all add: fun_upd_idem)
  finally show "on_qubit q m (on_qubit q m' psi) b = psi b" .
qed

lemma h_inverse: "on_qubit q h_matrix (on_qubit q h_matrix psi) = psi"
proof (rule on_qubit_inverse)
  have s: "complex_of_real (sqrt 2) * complex_of_real (sqrt 2) = 2" by (simp flip: of_real_mult)
  show "h_matrix i False * h_matrix False j + h_matrix i True * h_matrix True j = (if i = j then 1 else 0)" for i j
    using s by (cases i; cases j) (simp_all add: h_matrix_def field_simps)
qed

lemma y_inverse: "on_qubit q y_matrix (on_qubit q y_matrix psi) = psi"
  by (rule on_qubit_inverse) (simp add: y_matrix_def)

lemma basis_inverse: "(\<And>b. f (f b) = b) \<Longrightarrow> on_basis f (on_basis f psi) = psi"
  by (simp add: on_basis_def)

lemma unitary_inverse:
  assumes "unitary g qs = Some op"
  shows "\<exists>op'. unitary (inv_base g) qs = Some op' \<and> (\<forall>psi. op' (op psi) = psi)"
proof -
  consider (one) q where "qs = [q]" | (two) c t where "qs = [c, t]" | (three) c d t where "qs = [c, d, t]"
    using assms by (auto simp: unitary_def split: list.splits)
  then show ?thesis
  proof cases
    case one
    have c: "cis (pi / 4) * cis (- (pi / 4)) = 1" "cis (- (pi / 4)) * cis (pi / 4) = 1" unfolding cis_mult by simp_all
    show ?thesis
      using assms unfolding one
      by (auto simp: unitary_def inv_base_def h_inverse y_inverse phase_gate_inverse c basis_inverse flip_if_def split: if_splits)
  next
    case two
    have t: "flip_if t (flip_if t b (b c)) (flip_if t b (b c) c) = b" if "c \<noteq> t" for b using that by (auto simp: flip_if_def fun_eq_iff)
    show ?thesis using assms unfolding two
      by (auto simp: unitary_def inv_base_def basis_inverse t split: if_splits)
  next
    case three
    have t: "flip_if t (flip_if t b (b c \<and> b d)) (flip_if t b (b c \<and> b d) c \<and> flip_if t b (b c \<and> b d) d) = b"
      if "c \<noteq> t" "d \<noteq> t" for b using that by (auto simp: flip_if_def fun_eq_iff)
    have f: "swap_if d t (swap_if d t b (b c)) (swap_if d t b (b c) c) = b" if "c \<noteq> t" "c \<noteq> d" for b
      using that by (auto simp: swap_if_def fun_eq_iff)
    show ?thesis using assms unfolding three
      by (auto simp: unitary_def inv_base_def basis_inverse t f split: if_splits)
  qed
qed

end
