(* ===== verification/Reverse_Props.thy ===== *)
theory Reverse_Props
  imports Reverse_Pass
begin

text \<open>
  Running a function and then its reverse does nothing, for functions of unitary gates without
  parameters; a rotation is its own reverse in this pass, so for rotations it does something.
\<close>

subsection \<open>What the reverse of a function is\<close>

definition inv_name :: "string \<Rightarrow> string" where
  "inv_name g = (case map_of IntrinsicInverses g of Some h \<Rightarrow> h | None \<Rightarrow> g @ ''_Reverse'')"

fun is_call :: "inst \<Rightarrow> bool" where
  "is_call (Call g vs) = True"
| "is_call i = False"

fun inv_call :: "inst \<Rightarrow> inst" where
  "inv_call (Call g vs) = Call (inv_name g) vs"
| "inv_call i = i"

definition rev_calls :: "inst list \<Rightarrow> inst list" where
  "rev_calls is = map inv_call (rev (filter is_call is))"

definition others :: "inst list \<Rightarrow> inst list" where
  "others is = filter (\<lambda>i. \<not> is_call i) is"

text \<open>The reverse of \<open>h\<close> and of every function under it is in the module. Functions are those of a set \<open>U\<close>,
  without those that are still being reversed.\<close>

definition gate_ok :: "string \<Rightarrow> bool" where
  "gate_ok g \<longleftrightarrow> isIntrinsic g \<and> map_of IntrinsicInverses g \<noteq> None"

inductive rdone :: "string set \<Rightarrow> string set \<Rightarrow> qmodule \<Rightarrow> string \<Rightarrow> bool" for U S M where
  rdoneI: "h \<in> U \<Longrightarrow> h \<notin> S \<Longrightarrow> map_of M h = Some fn \<Longrightarrow> blocks fn = [b] \<Longrightarrow>
    map_of M (h @ ''_Reverse'') = Some (fn\<lparr>blocks := [others b @ rev_calls b]\<rparr>) \<Longrightarrow>
    (\<And>g vs. Call g vs \<in> set b \<Longrightarrow> \<not> gate_ok g \<Longrightarrow> rdone U S M g) \<Longrightarrow> rdone U S M h"

lemma rdone_in: "rdone U S M h \<Longrightarrow> h \<in> U"
  by (erule rdone.cases) simp

lemma rdone_agree:
  assumes "rdone U S M h" "\<And>x. x \<in> U \<Longrightarrow> x @ ''_Reverse'' \<notin> U"
    and "\<And>x. map_of M x \<noteq> None \<Longrightarrow> x \<notin> (\<lambda>s. s @ ''_Reverse'') ` S \<Longrightarrow> map_of M' x = map_of M x" "S \<subseteq> U"
  shows "rdone U S M' h"
  using assms(1)
proof (induction rule: rdone.induct)
  case (rdoneI h fn b)
  have "h \<notin> (\<lambda>s. s @ ''_Reverse'') ` S" using assms(2,4) rdoneI.hyps(1) by blast
  then have 1: "map_of M' h = Some fn" using assms(3) rdoneI.hyps(3) by simp
  have "h @ ''_Reverse'' \<notin> (\<lambda>s. s @ ''_Reverse'') ` S" using rdoneI.hyps(2) by auto
  then have 2: "map_of M' (h @ ''_Reverse'') = Some (fn\<lparr>blocks := [others b @ rev_calls b]\<rparr>)"
    using assms(3) rdoneI.hyps(5) by simp
  show ?case using rdone.rdoneI [OF rdoneI.hyps(1,2) 1 rdoneI.hyps(4) 2] rdoneI.IH by blast
qed

lemma rdone_weaken: "rdone U S M h \<Longrightarrow> S' \<subseteq> S \<Longrightarrow> rdone U S' M h"
proof (induction rule: rdone.induct)
  case (rdoneI h fn b)
  then show ?case using rdone.rdoneI [of h U S' M fn b] by blast
qed

lemma rdone_fresh: "rdone U S M h \<Longrightarrow> map_of M (s @ ''_Reverse'') = None \<Longrightarrow> rdone U (insert s S) M h"
proof (induction rule: rdone.induct)
  case (rdoneI h fn b)
  have "h \<notin> insert s S" using rdoneI.hyps(2,5) rdoneI.prems by auto
  from rdone.rdoneI [OF rdoneI.hyps(1) this rdoneI.hyps(3,4,5)] rdoneI.IH rdoneI.prems show ?case by blast
qed

subsection \<open>The pass makes it\<close>

text \<open>A module whose functions \<open>U\<close> have one block each, of gates of the table and calls of functions of lower
  rank, with free names for the reverses.\<close>

definition reversible :: "string set \<Rightarrow> (string \<Rightarrow> nat) \<Rightarrow> qmodule \<Rightarrow> bool" where
  "reversible U rank M \<longleftrightarrow>
     (\<forall>f \<in> U. map_of IntrinsicInverses f = None \<and> \<not> isIntrinsic f \<and> f @ ''_Reverse'' \<notin> U \<and>
        (\<exists>fn b. map_of M f = Some fn \<and> blocks fn = [b] \<and>
           (\<forall>g vs. Call g vs \<in> set b \<longrightarrow> gate_ok g \<or> g \<in> U \<and> rank g < rank f)))"

definition inv_state :: "string set \<Rightarrow> qmodule \<Rightarrow> string set \<Rightarrow> qmodule \<Rightarrow> bool" where
  "inv_state U M0 S M \<longleftrightarrow> S \<subseteq> U \<and> (\<forall>f \<in> U. map_of M f = map_of M0 f) \<and>
     (\<forall>f \<in> U. f \<notin> S \<longrightarrow> map_of M (f @ ''_Reverse'') = None \<or> rdone U S M f)"

definition keeps_entries :: "qmodule \<Rightarrow> qmodule \<Rightarrow> bool" where
  "keeps_entries M M' \<longleftrightarrow> (\<forall>x. map_of M x \<noteq> None \<longrightarrow> map_of M' x = map_of M x)"

lemma keeps_entries_refl: "keeps_entries M M"
  by (simp add: keeps_entries_def)

lemma rdone_keeps:
  assumes "rdone U S M h" "keeps_entries M M'" "S \<subseteq> U" "reversible U rank M0"
  shows "rdone U S M' h"
  by (rule rdone_agree [OF assms(1)]) (use assms(2-4) in \<open>auto simp: keeps_entries_def reversible_def\<close>)

lemma gate_inverse:
  assumes "gate_ok g"
  shows "get_inverse (Suc n) M g = Some (inv_name g, M)"
  using assms by (auto simp: gate_ok_def inv_name_def)

text \<open>The loop over the calls, when the callees can be inverted.\<close>

lemma reverse_calls_ok:
  assumes rv: "reversible U rank M0" and h: "h \<in> U" "h \<notin> S" and bl: "blocks fn = [b]"
    and callee: "\<And>g M. g \<in> U \<Longrightarrow> rank g < rank h \<Longrightarrow> inv_state U M0 (insert h S) M \<Longrightarrow>
      \<exists>M'. get_inverse n M g = Some (g @ ''_Reverse'', M') \<and> inv_state U M0 (insert h S) M' \<and>
        rdone U (insert h S) M' g \<and> keeps_entries M M'"
    and n: "0 < n"
  shows "inv_state U M0 (insert h S) M \<Longrightarrow>
    \<forall>g vs. Call g vs \<in> set todo \<longrightarrow> gate_ok g \<or> g \<in> U \<and> rank g < rank h \<Longrightarrow>
    map_of M (h @ ''_Reverse'') = Some (fn\<lparr>blocks := [rev todo @ kept @ moved]\<rparr>) \<Longrightarrow>
    \<exists>M'. reverse_calls n (h @ ''_Reverse'') fn M todo kept moved = Some M' \<and> inv_state U M0 (insert h S) M' \<and>
      (\<forall>x. x \<noteq> h @ ''_Reverse'' \<longrightarrow> map_of M x \<noteq> None \<longrightarrow> map_of M' x = map_of M x) \<and>
      map_of M' (h @ ''_Reverse'') = Some (fn\<lparr>blocks := [others (rev todo) @ kept @ moved @ map inv_call (filter is_call todo)]\<rparr>) \<and>
      (\<forall>g vs. Call g vs \<in> set todo \<longrightarrow> \<not> gate_ok g \<longrightarrow> rdone U (insert h S) M' g)"
proof (induction todo arbitrary: M kept moved)
  case Nil
  then show ?case by (simp add: others_def)
next
  case (Cons i todo)
  show ?case
  proof (cases i)
    case (Alloca w k)
    then show ?thesis using Cons.IH [OF Cons.prems(1), of "i # kept" moved] Cons.prems(2,3) by (simp add: others_def)
  next
    case Other_inst
    then show ?thesis using Cons.IH [OF Cons.prems(1), of "i # kept" moved] Cons.prems(2,3) by (simp add: others_def)
  next
    case (Call g vs)
    define r where "r = h @ ''_Reverse''"
    have rU: "r \<notin> U" using rv h(1) by (simp add: reversible_def r_def)
    obtain M1 where m1: "get_inverse n M g = Some (inv_name g, M1)" "inv_state U M0 (insert h S) M1" "keeps_entries M M1"
      "\<not> gate_ok g \<Longrightarrow> rdone U (insert h S) M1 g"
    proof (cases "gate_ok g")
      case True
      obtain n' where "n = Suc n'" using n by (cases n) auto
      then show ?thesis using that [of M] gate_inverse [OF True] Cons.prems(1) keeps_entries_refl True by simp
    next
      case False
      then have g: "g \<in> U" "rank g < rank h" using Cons.prems(2) by (auto simp: Call)
      then have "inv_name g = g @ ''_Reverse''" using rv by (simp add: inv_name_def reversible_def)
      with callee [OF g Cons.prems(1)] that show ?thesis by metis
    qed
    define moved' where "moved' = moved @ [Call (inv_name g) vs]"
    define M2 where "M2 = AList.update r (fn\<lparr>blocks := [rev todo @ kept @ moved']\<rparr>) M1"
    have m2: "map_of M2 = (map_of M1)(r \<mapsto> fn\<lparr>blocks := [rev todo @ kept @ moved']\<rparr>)"
      by (simp add: M2_def AList.update_conv')
    have SU: "insert h S \<subseteq> U" using m1(2) by (simp add: inv_state_def)
    have rd: "rdone U (insert h S) M2 x" if "rdone U (insert h S) M1 x" for x
    proof (rule rdone_agree [OF that _ _ SU])
      show "x @ ''_Reverse'' \<notin> U" if "x \<in> U" for x using rv that by (simp add: reversible_def)
      show "map_of M2 x = map_of M1 x" if "x \<notin> (\<lambda>s. s @ ''_Reverse'') ` insert h S" for x
        using that by (auto simp: m2 r_def)
    qed
    have i2: "inv_state U M0 (insert h S) M2"
      unfolding inv_state_def
    proof (intro conjI ballI impI)
      show "insert h S \<subseteq> U" by (rule SU)
      show "map_of M2 f = map_of M0 f" if "f \<in> U" for f
        using m1(2) that rU by (auto simp: m2 inv_state_def)
      show "map_of M2 (f @ ''_Reverse'') = None \<or> rdone U (insert h S) M2 f" if f: "f \<in> U" "f \<notin> insert h S" for f
        using m1(2) f rd by (auto simp: m2 inv_state_def r_def)
    qed
    have t: "\<forall>g vs. Call g vs \<in> set todo \<longrightarrow> gate_ok g \<or> g \<in> U \<and> rank g < rank h" using Cons.prems(2) by simp
    have mr: "map_of M2 r = Some (fn\<lparr>blocks := [rev todo @ kept @ moved']\<rparr>)" by (simp add: m2)
    from Cons.IH [OF i2 t mr [unfolded r_def]] obtain M' where ih:
      "reverse_calls n r fn M2 todo kept moved' = Some M'" "inv_state U M0 (insert h S) M'"
      "\<forall>x. x \<noteq> r \<longrightarrow> map_of M2 x \<noteq> None \<longrightarrow> map_of M' x = map_of M2 x"
      "map_of M' r = Some (fn\<lparr>blocks := [others (rev todo) @ kept @ moved' @ map inv_call (filter is_call todo)]\<rparr>)"
      "\<forall>g vs. Call g vs \<in> set todo \<longrightarrow> \<not> gate_ok g \<longrightarrow> rdone U (insert h S) M' g"
      unfolding r_def [symmetric] by blast
    have "reverse_calls n r fn M (i # todo) kept moved = Some M'"
      using m1(1) ih(1) by (simp add: Call Let_def bl M2_def moved'_def)
    moreover have "map_of M' x = map_of M x" if "x \<noteq> r" "map_of M x \<noteq> None" for x
      using that ih(3) m1(3) by (simp add: m2 keeps_entries_def)
    moreover have "rdone U (insert h S) M' g" if "\<not> gate_ok g"
    proof (rule rdone_agree [OF rd [OF m1(4) [OF that]] _ _ SU])
      show "x @ ''_Reverse'' \<notin> U" if "x \<in> U" for x using rv that by (simp add: reversible_def)
      show "map_of M' x = map_of M2 x" if "map_of M2 x \<noteq> None" "x \<notin> (\<lambda>s. s @ ''_Reverse'') ` insert h S" for x
        using that ih(3) by (auto simp: r_def)
    qed
    ultimately show ?thesis using ih(2,4,5) by (auto simp: Call others_def moved'_def r_def)
  qed
qed

lemma get_inverse_ok:
  assumes rv: "reversible U rank M0"
  shows "h \<in> U \<Longrightarrow> rank h < n \<Longrightarrow> inv_state U M0 S M \<Longrightarrow> \<forall>s \<in> S. rank h < rank s \<Longrightarrow>
    \<exists>M'. get_inverse (Suc n) M h = Some (h @ ''_Reverse'', M') \<and> inv_state U M0 S M' \<and> rdone U S M' h \<and> keeps_entries M M'"
proof (induction n arbitrary: h S M)
  case 0
  then show ?case by simp
next
  case (Suc n)
  define r where "r = h @ ''_Reverse''"
  have tb: "map_of IntrinsicInverses h = None" using rv Suc.prems(1) by (simp add: reversible_def)
  have hS: "h \<notin> S" using Suc.prems(4) by auto
  have rU: "r \<notin> U" using rv Suc.prems(1) by (simp add: reversible_def r_def)
  show ?case
  proof (cases "map_of M r")
    case (Some f)
    then have "rdone U S M h" using Suc.prems(1,3) hS by (auto simp: inv_state_def r_def)
    moreover have "get_inverse (Suc (Suc n)) M h = Some (r, M)" using tb Some by (simp add: r_def)
    ultimately show ?thesis using Suc.prems(3) keeps_entries_refl by (auto simp: r_def)
  next
    case None
    obtain fn b where fn: "map_of M0 h = Some fn" "blocks fn = [b]"
      "\<forall>g vs. Call g vs \<in> set b \<longrightarrow> gate_ok g \<or> g \<in> U \<and> rank g < rank h"
      using rv Suc.prems(1) unfolding reversible_def by blast
    have mh: "map_of M h = Some fn" using Suc.prems(1,3) fn(1) by (simp add: inv_state_def)
    define M1 where "M1 = M @ [(r, fn)]"
    have m1: "map_of M1 = (map_of M)(r \<mapsto> fn)" using None by (auto simp: M1_def map_add_def fun_eq_iff split: option.splits)
    have k1: "keeps_entries M M1" using None by (auto simp: keeps_entries_def m1)
    have SU: "S \<subseteq> U" using Suc.prems(3) by (simp add: inv_state_def)
    have i1: "inv_state U M0 (insert h S) M1"
      unfolding inv_state_def
    proof (intro conjI ballI impI)
      show "insert h S \<subseteq> U" using SU Suc.prems(1) by simp
      show "map_of M1 f = map_of M0 f" if "f \<in> U" for f
        using Suc.prems(3) that rU by (auto simp: m1 inv_state_def)
      show "map_of M1 (f @ ''_Reverse'') = None \<or> rdone U (insert h S) M1 f" if f: "f \<in> U" "f \<notin> insert h S" for f
      proof (cases "map_of M (f @ ''_Reverse'')")
        case None
        then show ?thesis using f by (simp add: m1 r_def)
      next
        case (Some x)
        then have "rdone U S M f" using Suc.prems(3) f by (auto simp: inv_state_def)
        then have "rdone U (insert h S) M f" using rdone_fresh None r_def by simp
        then show ?thesis using rdone_keeps [OF _ k1 _ rv] SU Suc.prems(1) by simp
      qed
    qed
    have callee: "\<exists>M'. get_inverse (Suc n) M g = Some (g @ ''_Reverse'', M') \<and> inv_state U M0 (insert h S) M' \<and>
        rdone U (insert h S) M' g \<and> keeps_entries M M'"
      if g: "g \<in> U" "rank g < rank h" "inv_state U M0 (insert h S) M" for g M
    proof (rule Suc.IH [OF g(1) _ g(3)])
      show "rank g < n" using g(2) Suc.prems(2) by simp
      show "\<forall>s \<in> insert h S. rank g < rank s" using g(2) Suc.prems(4) by auto
    qed
    have t: "\<forall>g vs. Call g vs \<in> set (rev b) \<longrightarrow> gate_ok g \<or> g \<in> U \<and> rank g < rank h" using fn(3) by simp
    have mr: "map_of M1 (h @ ''_Reverse'') = Some (fn\<lparr>blocks := [rev (rev b) @ [] @ []]\<rparr>)"
      using fn(2) by (simp add: m1 r_def)
    from reverse_calls_ok [OF rv Suc.prems(1) hS fn(2) callee zero_less_Suc i1 t mr] obtain M' where M':
      "reverse_calls (Suc n) r fn M1 (rev b) [] [] = Some M'" "inv_state U M0 (insert h S) M'"
      "\<forall>x. x \<noteq> r \<longrightarrow> map_of M1 x \<noteq> None \<longrightarrow> map_of M' x = map_of M1 x"
      "map_of M' r = Some (fn\<lparr>blocks := [others (rev (rev b)) @ [] @ [] @ map inv_call (filter is_call (rev b))]\<rparr>)"
      "\<forall>g vs. Call g vs \<in> set (rev b) \<longrightarrow> \<not> gate_ok g \<longrightarrow> rdone U (insert h S) M' g"
      unfolding r_def by blast
    have e: "get_inverse (Suc (Suc n)) M h = Some (r, M')"
      using tb None mh fn(2) M'(1) by (simp add: r_def M1_def)
    have h': "map_of M' h = Some fn" using M'(2) Suc.prems(1) fn(1) by (simp add: inv_state_def)
    have rb: "map_of M' (h @ ''_Reverse'') = Some (fn\<lparr>blocks := [others b @ rev_calls b]\<rparr>)"
      using M'(4) by (simp add: r_def rev_calls_def rev_filter)
    have dn: "rdone U S M' h"
    proof (rule rdoneI [OF Suc.prems(1) hS h' fn(2) rb])
      fix g vs assume "Call g vs \<in> set b" "\<not> gate_ok g"
      then have "rdone U (insert h S) M' g" using M'(5) unfolding set_rev by blast
      then show "rdone U S M' g" by (rule rdone_weaken) blast
    qed
    have "inv_state U M0 S M'"
      unfolding inv_state_def
    proof (intro conjI ballI impI)
      show "S \<subseteq> U" by (rule SU)
      show "map_of M' f = map_of M0 f" if "f \<in> U" for f using M'(2) that by (simp add: inv_state_def)
      show "map_of M' (f @ ''_Reverse'') = None \<or> rdone U S M' f" if f: "f \<in> U" "f \<notin> S" for f
      proof (cases "f = h")
        case True
        then show ?thesis using dn by simp
      next
        case False
        then have "map_of M' (f @ ''_Reverse'') = None \<or> rdone U (insert h S) M' f"
          using M'(2) f by (simp add: inv_state_def)
        then show ?thesis using rdone_weaken by blast
      qed
    qed
    moreover have "keeps_entries M M'"
      unfolding keeps_entries_def
    proof (intro allI impI)
      fix x assume x: "map_of M x \<noteq> None"
      then have "x \<noteq> r" using None by auto
      then show "map_of M' x = map_of M x" using M'(3) x by (simp add: m1)
    qed
    ultimately show ?thesis using e dn by (simp add: r_def)
  qed
qed

subsection \<open>The reverse comes down to the inverse gates, in reverse order\<close>

definition inv_gate :: "string \<times> val list \<Rightarrow> string \<times> val list" where
  "inv_gate g = (inv_name (fst g), snd g)"

lemma rev_calls_simps [simp]:
  "rev_calls [] = []" "rev_calls (Call g vs # is) = rev_calls is @ [Call (inv_name g) vs]"
  "rev_calls (Alloca w n # is) = rev_calls is" "rev_calls (Other_inst # is) = rev_calls is"
  by (simp_all add: rev_calls_def)

lemma rev_calls_bind: "map (bind_inst ps vs) (rev_calls is) = rev_calls (map (bind_inst ps vs) is)"
proof (induction "is")
  case (Cons i "is")
  then show ?case by (cases i) simp_all
qed simp

lemma flat_others: "flat M (map (bind_inst ps vs) (others is)) []"
proof (induction "is")
  case Nil
  show ?case by (simp add: others_def flat_nil)
next
  case (Cons i "is")
  then show ?case by (cases i) (simp_all add: others_def flat_alloca flat_other)
qed

lemma reverse_not_intrinsic: "\<not> isIntrinsic h \<Longrightarrow> \<not> isIntrinsic (h @ ''_Reverse'')"
proof
  assume h: "\<not> isIntrinsic h" "isIntrinsic (h @ ''_Reverse'')"
  show False
  proof (cases "5 \<le> length h")
    case True
    then show False using h by (simp add: isIntrinsic_def)
  next
    case False
    then obtain k where "5 - length h = Suc k" by (cases "5 - length h") auto
    then have "CHR ''_'' \<in> set (take 5 (h @ ''_Reverse''))" by simp
    moreover have "take 5 (h @ ''_Reverse'') = ''llvm.''" using h(2) by (simp only: isIntrinsic_def)
    ultimately have "CHR ''_'' \<in> set ''llvm.''" by (simp only:)
    then show False by simp
  qed
qed

lemma call_bind_inst: "Call g vs \<in> set (map (bind_inst ps as) b) \<Longrightarrow> \<exists>vs'. Call g vs' \<in> set b"
proof -
  assume "Call g vs \<in> set (map (bind_inst ps as) b)"
  then obtain i where i: "i \<in> set b" "Call g vs = bind_inst ps as i" unfolding set_map by blast
  show ?thesis
  proof (cases i)
    case (Call h ws)
    then show ?thesis using i by auto
  qed (use i(2) in simp_all)
qed

definition plain_names :: "string set \<Rightarrow> qmodule \<Rightarrow> qmodule \<Rightarrow> bool" where
  "plain_names U M M' \<longleftrightarrow> (\<forall>f \<in> U. map_of M f = map_of M' f \<and> \<not> isIntrinsic f \<and> map_of IntrinsicInverses f = None)"

lemma flat_reverse:
  assumes "flat M is gs" "plain_names U M M'"
    and "\<And>g vs. Call g vs \<in> set is \<Longrightarrow> gate_ok g \<or> rdone U {} M' g"
  shows "flat M' (rev_calls is) (rev (map inv_gate gs)) \<and> (\<forall>g \<in> set gs. gate_ok (fst g))"
  using assms(1,3)
proof (induction rule: flat.induct)
  case flat_nil
  then show ?case by (simp add: flat.flat_nil)
next
  case (flat_alloca "is" gs w n)
  then show ?case by simp
next
  case (flat_other "is" gs)
  then show ?case by simp
next
  case (flat_gate f "is" gs vs)
  have f: "gate_ok f" using flat_gate.prems [of f vs] flat_gate.hyps(1) assms(2) rdone_in
    by (fastforce simp: plain_names_def)
  then obtain f' where f': "map_of IntrinsicInverses f = Some f'" by (auto simp: gate_ok_def)
  from inverses_intrinsic [OF f' flat_gate.hyps(1)] f' have "isIntrinsic (inv_name f)" by (simp add: inv_name_def)
  then have 1: "flat M' [Call (inv_name f) vs] [(inv_name f, vs)]" by (intro flat.flat_gate flat.flat_nil)
  have "flat M' (rev_calls is) (rev (map inv_gate gs)) \<and> (\<forall>g \<in> set gs. gate_ok (fst g))"
    by (rule flat_gate.IH) (erule flat_gate.prems [OF list.set_intros(2)])
  from flat_append [OF conjunct1 [OF this] 1] this f show ?case
    by (simp add: inv_gate_def [abs_def])
next
  case (flat_call f fn b vs gs1 "is" gs2)
  have rd: "rdone U {} M' f" using flat_call.prems [of f vs] flat_call.hyps(1) by (auto simp: gate_ok_def)
  then have fU: "f \<in> U" by (rule rdone_in)
  then have mf: "map_of M' f = Some fn" "map_of IntrinsicInverses f = None"
    using flat_call.hyps(2) assms(2) by (auto simp: plain_names_def)
  from rd obtain r: "map_of M' (f @ ''_Reverse'') = Some (fn\<lparr>blocks := [others b @ rev_calls b]\<rparr>)"
    "\<And>g vs. Call g vs \<in> set b \<Longrightarrow> \<not> gate_ok g \<Longrightarrow> rdone U {} M' g"
  proof (rule rdone.cases)
    fix h fn' b' assume h: "f = h" "map_of M' h = Some fn'" "blocks fn' = [b']"
      "map_of M' (h @ ''_Reverse'') = Some (fn'\<lparr>blocks := [others b' @ rev_calls b']\<rparr>)"
      "\<And>g vs. Call g vs \<in> set b' \<Longrightarrow> \<not> gate_ok g \<Longrightarrow> rdone U {} M' g"
    have e: "fn' = fn" "b' = b" using h(1,2,3) mf(1) flat_call.hyps(3) by auto
    show thesis by (rule that) (use h e in auto)
  qed
  have "gate_ok g \<or> rdone U {} M' g" if "Call g ws \<in> set (map (bind_inst (params fn) vs) b)" for g ws
    using call_bind_inst [OF that] r(2) by blast
  then have i1: "flat M' (rev_calls (map (bind_inst (params fn) vs) b)) (rev (map inv_gate gs1)) \<and> (\<forall>g \<in> set gs1. gate_ok (fst g))"
    by (rule flat_call.IH(1))
  have i2: "flat M' (rev_calls is) (rev (map inv_gate gs2)) \<and> (\<forall>g \<in> set gs2. gate_ok (fst g))"
    by (rule flat_call.IH(2)) (erule flat_call.prems [OF list.set_intros(2)])
  have b: "flat M' (map (bind_inst (params fn) vs) (others b @ rev_calls b)) (rev (map inv_gate gs1))"
    using flat_append [OF flat_others conjunct1 [OF i1]] by (simp only: map_append rev_calls_bind append_Nil)
  have c: "flat M' [Call (f @ ''_Reverse'') vs] (rev (map inv_gate gs1) @ [])"
    by (rule flat.flat_call [where b = "others b @ rev_calls b",
        OF reverse_not_intrinsic [OF flat_call.hyps(1)] r(1) _ _ _ flat.flat_nil])
      (use b flat_call.hyps(4) in simp_all)
  have "inv_name f = f @ ''_Reverse''" using mf(2) by (simp add: inv_name_def)
  then show ?case using flat_append [OF conjunct1 [OF i2] c] i1 i2 by auto
qed

text \<open>A gate that is a unitary operator on distinct qubits.\<close>

definition unitary_gate :: "string \<times> val list \<Rightarrow> bool" where
  "unitary_gate g \<longleftrightarrow> list_all is_qubit (snd g) \<and> unitary (base_name (fst g)) (map qubit_of (snd g)) \<noteq> None"

lemma inv_gate_effect:
  assumes "gate_ok (fst g)" "unitary_gate g"
  shows "gate_effect K (inv_gate g) (gate_effect K g psi) = psi"
proof -
  obtain op where op: "unitary (base_name (fst g)) (map qubit_of (snd g)) = Some op" and q: "list_all is_qubit (snd g)"
    using assms(2) by (auto simp: unitary_gate_def)
  obtain f' where f': "map_of IntrinsicInverses (fst g) = Some f'" and f: "isIntrinsic (fst g)"
    using assms(1) by (auto simp: gate_ok_def)
  from unitary_inverse [OF op] obtain op' where
    "unitary (inv_base (base_name (fst g))) (map qubit_of (snd g)) = Some op'" "\<forall>psi. op' (op psi) = psi" by blast
  then show ?thesis using inverses_intrinsic [OF f' f] op q f f'
    by (simp add: gate_effect_def inv_gate_def inv_name_def)
qed

lemma effect_inverse:
  assumes "\<forall>g \<in> set gs. gate_ok (fst g)" "list_all unitary_gate gs"
  shows "effect K (rev (map inv_gate gs)) (effect K gs psi) = psi"
  using assms by (induction gs arbitrary: psi) (auto simp: inv_gate_effect)

subsection \<open>Claims\<close>

lemma strip_one: "take 9 f \<noteq> ''_reverse_'' \<Longrightarrow> strip_reverse (''_reverse_'' @ f) 0 = (f, 1)"
  by (simp add: strip_reverse.simps)

lemma visit_reversed:
  assumes "take 9 f \<noteq> ''_reverse_''" "f \<noteq> ''Toffoli''" "map_of M f \<noteq> None" "get_inverse n M f = Some (r, M')"
    and "map_of M' r = Some fn" "length vs = length (params fn)"
  shows "visit_call n M (''_reverse_'' @ f) vs = Some (Call r vs, M')"
  using assms strip_one [OF assms(1)] by (auto simp: visit_call_def forward_function_def getFunction_def)

text \<open>C10: A call of \<open>_reverse_f\<close> after a call of \<open>f\<close> with the same arguments leaves the qubits as they were.
  The pass replaces it by a call of \<open>f_Reverse\<close>, which it makes with the reverses of everything below \<open>f\<close>,
  and whose gates undo those of \<open>f\<close>, for functions of one block and unitary gates, without recursion.\<close>

theorem reverse_undoes:
  assumes "reversible U rank M" "\<forall>g \<in> U. map_of M (g @ ''_Reverse'') = None"
    and "f \<in> U" "rank f < n" "take 9 f \<noteq> ''_reverse_''" "f \<noteq> ''Toffoli''"
    and "flat M [Call f vs] gs" "list_all unitary_gate gs"
  shows "\<exists>M' gs'. visit_call (Suc n) M (''_reverse_'' @ f) vs = Some (Call (f @ ''_Reverse'') vs, M') \<and>
    flat M' [Call (f @ ''_Reverse'') vs] gs' \<and> (\<forall>K psi. effect K gs' (effect K gs psi) = psi)"
proof -
  have "inv_state U M {} M" using assms(2) by (simp add: inv_state_def)
  from get_inverse_ok [OF assms(1,3,4) this] obtain M' where M':
    "get_inverse (Suc n) M f = Some (f @ ''_Reverse'', M')" "inv_state U M {} M'" "rdone U {} M' f" by auto
  have p: "plain_names U M M'" using M'(2) assms(1) by (auto simp: plain_names_def inv_state_def reversible_def)
  have "flat M' (rev_calls [Call f vs]) (rev (map inv_gate gs)) \<and> (\<forall>g \<in> set gs. gate_ok (fst g))"
    by (rule flat_reverse [OF assms(7) p]) (use M'(3) in simp)
  moreover have "inv_name f = f @ ''_Reverse''" using p assms(3) by (simp add: plain_names_def inv_name_def)
  ultimately have g: "flat M' [Call (f @ ''_Reverse'') vs] (rev (map inv_gate gs))" "\<forall>g \<in> set gs. gate_ok (fst g)" by simp_all
  from g(1) obtain fn where fn: "map_of M' (f @ ''_Reverse'') = Some fn" "map val_type vs = map val_type (params fn)"
    by (rule flat_callE) (use p assms(3) reverse_not_intrinsic in \<open>auto simp: plain_names_def\<close>)
  have "length vs = length (params fn)" using arg_cong [OF fn(2), of length] by simp
  moreover have "map_of M f \<noteq> None" using assms(1,3) by (auto simp: reversible_def)
  ultimately have "visit_call (Suc n) M (''_reverse_'' @ f) vs = Some (Call (f @ ''_Reverse'') vs, M')"
    using visit_reversed [OF assms(5,6) _ M'(1) fn(1)] by simp
  then show ?thesis using g(1) effect_inverse [OF g(2) assms(8)] by blast
qed

definition demo_module :: qmodule where
  "demo_module =
     [(''g'', \<lparr>params = [Qbit 0], blocks = [[Call ''llvm.H.i16'' [Qbit 0], Call ''llvm.T.i16'' [Qbit 0]]]\<rparr>),
      (''f'', \<lparr>params = [Qbit 0], blocks = [[Call ''g'' [Qbit 0], Call ''llvm.X.i16'' [Qbit 0]]]\<rparr>)]"

definition demo_rank :: "string \<Rightarrow> nat" where
  "demo_rank f = (if f = ''f'' then 1 else 0)"

lemma demo_gates: "list_all gate_ok [''llvm.H.i16'', ''llvm.T.i16'', ''llvm.X.i16'']"
  "map_of IntrinsicInverses ''f'' = None" "map_of IntrinsicInverses ''g'' = None"
  by code_simp+

lemma demo_map:
  "map_of demo_module ''g'' = Some \<lparr>params = [Qbit 0], blocks = [[Call ''llvm.H.i16'' [Qbit 0], Call ''llvm.T.i16'' [Qbit 0]]]\<rparr>"
  "map_of demo_module ''f'' = Some \<lparr>params = [Qbit 0], blocks = [[Call ''g'' [Qbit 0], Call ''llvm.X.i16'' [Qbit 0]]]\<rparr>"
  by (simp_all add: demo_module_def)

lemma demo_reversible: "reversible {''f'', ''g''} demo_rank demo_module"
  using demo_gates by (auto simp: reversible_def demo_map isIntrinsic_def demo_rank_def gate_ok_def)

lemma demo_flat: "flat demo_module [Call ''f'' [Qbit 4]] [(''llvm.H.i16'', [Qbit 4]), (''llvm.T.i16'', [Qbit 4]), (''llvm.X.i16'', [Qbit 4])]"
proof -
  have i: "isIntrinsic ''llvm.H.i16''" "isIntrinsic ''llvm.T.i16''" "isIntrinsic ''llvm.X.i16''" "\<not> isIntrinsic ''f''" "\<not> isIntrinsic ''g''"
    by (simp_all add: isIntrinsic_def)
  have "flat demo_module [Call ''llvm.H.i16'' [Qbit 4], Call ''llvm.T.i16'' [Qbit 4]] [(''llvm.H.i16'', [Qbit 4]), (''llvm.T.i16'', [Qbit 4])]"
    by (intro flat_gate flat_nil i)
  then have g: "flat demo_module [Call ''g'' [Qbit 4], Call ''llvm.X.i16'' [Qbit 4]]
      ([(''llvm.H.i16'', [Qbit 4]), (''llvm.T.i16'', [Qbit 4])] @ [(''llvm.X.i16'', [Qbit 4])])"
    by (intro flat_call [OF i(5) demo_map(1), of "[Call ''llvm.H.i16'' [Qbit 0], Call ''llvm.T.i16'' [Qbit 0]]"] flat_gate flat_nil i)
      (simp_all add: bind_params_def)
  have "flat demo_module [Call ''f'' [Qbit 4]]
      (([(''llvm.H.i16'', [Qbit 4]), (''llvm.T.i16'', [Qbit 4])] @ [(''llvm.X.i16'', [Qbit 4])]) @ [])"
    by (rule flat_call [OF i(4) demo_map(2) _ _ _ flat_nil, of "[Call ''g'' [Qbit 0], Call ''llvm.X.i16'' [Qbit 0]]"])
      (use g in \<open>simp_all add: bind_params_def\<close>)
  then show ?thesis by simp
qed

theorem reverse_undoes_witness:
  "\<exists>M' gs'. visit_call 3 demo_module ''_reverse_f'' [Qbit 4] = Some (Call ''f_Reverse'' [Qbit 4], M') \<and>
    flat M' [Call ''f_Reverse'' [Qbit 4]] gs' \<and> (\<forall>K psi. effect K gs' (effect K
      [(''llvm.H.i16'', [Qbit 4]), (''llvm.T.i16'', [Qbit 4]), (''llvm.X.i16'', [Qbit 4])] psi) = psi)"
proof -
  have "list_all unitary_gate [(''llvm.H.i16'', [Qbit 4]), (''llvm.T.i16'', [Qbit 4]), (''llvm.X.i16'', [Qbit 4])]"
    by (simp add: unitary_gate_def base_name_def unitary_def)
  from reverse_undoes [OF demo_reversible _ _ _ _ _ demo_flat this, of 2] show ?thesis
    by (simp add: demo_map demo_module_def demo_rank_def numeral_3_eq_3 numeral_2_eq_2)
qed

text \<open>A function that rotates a qubit is its own reverse: the table gives Rx, Ry and Rz as their own
  inverses and nothing negates the angle, so that \<open>f\<close> followed by \<open>_reverse_f\<close> rotates twice.\<close>

theorem reverse_keeps_rotations:
  assumes "g \<in> {''Rx'', ''Ry'', ''Rz''}" "map_of IntrinsicInverses f = None" "take 9 f \<noteq> ''_reverse_''" "f \<noteq> ''Toffoli''"
    and "map_of M f = Some \<lparr>params = [Qbit 0], blocks = [[Call (intrinsic_name g [''i16'']) [Qbit 0, Double_const x]]]\<rparr>"
    and "map_of M (f @ ''_Reverse'') = None"
  shows "\<exists>M'. visit_call (Suc (Suc n)) M (''_reverse_'' @ f) [q] = Some (Call (f @ ''_Reverse'') [q], M') \<and>
    map_of M' (f @ ''_Reverse'') = map_of M f"
proof -
  have "list_all (\<lambda>g. map_of IntrinsicInverses (intrinsic_name g [''i16'']) = Some (intrinsic_name g [''i16''])) [''Rx'', ''Ry'', ''Rz'']"
    by code_simp
  then have g: "map_of IntrinsicInverses (intrinsic_name g [''i16'']) = Some (intrinsic_name g [''i16''])"
    using assms(1) by auto
  define fn where "fn = \<lparr>params = [Qbit 0], blocks = [[Call (intrinsic_name g [''i16'']) [Qbit 0, Double_const x]]]\<rparr>"
  define M' where "M' = AList.update (f @ ''_Reverse'') fn (M @ [(f @ ''_Reverse'', fn)])"
  have e: "get_inverse (Suc (Suc n)) M f = Some (f @ ''_Reverse'', M')"
    using assms(2,5,6) g by (simp add: Let_def fn_def M'_def)
  have m: "map_of M' (f @ ''_Reverse'') = Some fn" by (simp add: M'_def AList.update_conv')
  have "length [q] = length (params fn)" by (simp add: fn_def)
  from visit_reversed [OF assms(3,4) _ e m this] m assms(5) show ?thesis by (simp add: fn_def)
qed

theorem reverse_keeps_rotations_witness:
  "\<exists>M'. visit_call 2 [(''f'', \<lparr>params = [Qbit 0], blocks = [[Call ''llvm.Rz.i16'' [Qbit 0, Double_const 1]]]\<rparr>)] ''_reverse_f'' [Qbit 7] =
      Some (Call ''f_Reverse'' [Qbit 7], M') \<and>
    map_of M' ''f_Reverse'' = Some \<lparr>params = [Qbit 0], blocks = [[Call ''llvm.Rz.i16'' [Qbit 0, Double_const 1]]]\<rparr>"
  using reverse_keeps_rotations [of "''Rz''" "''f''" "[(''f'', \<lparr>params = [Qbit 0], blocks = [[Call ''llvm.Rz.i16'' [Qbit 0, Double_const 1]]]\<rparr>)]" 1 0 "Qbit 7"]
    demo_gates(2)
  by (simp add: intrinsic_name_def numeral_2_eq_2)

text \<open>A call of \<open>_reverse_Rz\<close> itself has no forward function: the fallback asks for two qubit types.\<close>

lemma reverse_rz_missing:
  "visit_call n [(''_reverse_Rz'', \<lparr>params = [Qbit 0, Double_const 0], blocks = []\<rparr>)] ''_reverse_Rz'' [Qbit 7, Double_const 1] = None"
proof -
  have t: "map_of IntrinsicInverses ''llvm.Rz.i16.i16'' = None" by code_simp
  have "strip_reverse ''_reverse_Rz'' 0 = (''Rz'', 1)" using strip_one [of "''Rz''"] by simp
  then show ?thesis
    using t by (simp add: visit_call_def forward_function_def getFunction_def isIntrinsic_def numeral_2_eq_2)
qed

end
