(* ===== verification/Count_Passes.thy ===== *)
theory Count_Passes
  imports Qir Lpfs_Parse
begin

text \<open>
  The passes that count the gates of a program function by function, callees first
  (\<open>GateCount.cpp\<close>, \<open>ResourceCount.cpp\<close> and \<open>ResourceCount2.cpp\<close> in \<open>llvm/lib/Transforms/Scaffold\<close>). A
  pass keeps an array of 64-bit numbers for each function. The order in which the call graph is
  walked comes from LLVM and is a parameter; the use of a function that is not there is None.
\<close>

type_synonym u64 = "64 word"
type_synonym numbers = "string \<Rightarrow> u64 list option"

definition startswith :: "string \<Rightarrow> string \<Rightarrow> bool" where
  "startswith s p = (take (length p) s = p)"

definition add_at :: "nat \<Rightarrow> u64 \<Rightarrow> u64 list \<Rightarrow> u64 list" where
  "add_at k n c = c[k := c ! k + n]"

text \<open>The instructions of a function that has a body.\<close>

definition body :: "qmodule \<Rightarrow> string \<Rightarrow> inst list option" where
  "body M f = (case map_of M f of None \<Rightarrow> None | Some fn \<Rightarrow> if blocks fn = [] then None else Some (concat (blocks fn)))"

subsection \<open>ResourceCount\<close>

text \<open>0 qubits, 1 ancillas in all, 2 ancillas in use, 3 the most ancillas in use, 4 to 13 gates,
  14 all gates.\<close>

definition rc_gate :: "string \<Rightarrow> nat option" where
  "rc_gate name =
     (if startswith name ''llvm.X'' then Some 4 else if startswith name ''llvm.Z'' then Some 5
      else if startswith name ''llvm.H'' then Some 6 else if startswith name ''llvm.Tdag'' then Some 8
      else if startswith name ''llvm.T'' then Some 7 else if startswith name ''llvm.Sdag'' then Some 10
      else if startswith name ''llvm.S'' then Some 9 else if startswith name ''llvm.CNOT'' then Some 11
      else if startswith name ''llvm.PrepZ'' then Some 12 else if startswith name ''llvm.MeasZ'' then Some 13 else None)"

definition rc_alloca :: "nat \<Rightarrow> nat option \<Rightarrow> u64 list \<Rightarrow> u64 list" where
  "rc_alloca width arr c =
     (let arraySize = of_nat (case arr of Some n \<Rightarrow> n | None \<Rightarrow> 1)
      in if width = 16 then add_at 0 arraySize c
         else if width = 8
         then (let c1 = add_at 2 arraySize (add_at 1 arraySize c)
               in if c1 ! 3 < c1 ! 2 then c1[3 := c1 ! 2] else c1)
         else c)"

text \<open>A constant of 32 bits, read without a sign.\<close>

definition free_count :: "val list \<Rightarrow> u64" where
  "free_count vs = (case vs ! 1 of Int_const k \<Rightarrow> of_int (k mod 2 ^ 32) | _ \<Rightarrow> 1)"

definition rc_call :: "u64 list \<Rightarrow> u64 list \<Rightarrow> u64 list" where
  "rc_call callee c =
     (let c1 = add_at 14 (callee ! 14) c;
          c2 = (if callee ! 3 > c1 ! 3 - c1 ! 2 then c1[3 := c1 ! 2 + callee ! 3] else c1)
      in foldl (\<lambda>c l. if l \<noteq> 3 then add_at l (callee ! l) c else c) c2 [0..<14])"

definition rc_inst :: "inst \<Rightarrow> string \<Rightarrow> numbers \<Rightarrow> numbers option" where
  "rc_inst i F tab =
     (case tab F of None \<Rightarrow> None
      | Some c \<Rightarrow>
          (case i of
             Alloca width arr \<Rightarrow> Some (tab(F \<mapsto> rc_alloca width arr c))
           | Call f vs \<Rightarrow>
               if isIntrinsic f
               then (let c1 = add_at 14 1 c
                     in Some (tab(F \<mapsto> (case rc_gate f of Some k \<Rightarrow> add_at k 1 c1 | None \<Rightarrow> c1))))
               else if startswith f ''afree''
               then (if length vs < 2 then None else Some (tab(F \<mapsto> add_at 2 (- free_count vs) c)))
               else (case tab f of None \<Rightarrow> Some tab | Some callee \<Rightarrow> Some (tab(F \<mapsto> rc_call callee c)))
           | Other_inst \<Rightarrow> Some tab))"

fun rc_insts :: "inst list \<Rightarrow> string \<Rightarrow> numbers \<Rightarrow> numbers option" where
  "rc_insts [] F tab = Some tab"
| "rc_insts (i # is) F tab = Option.bind (rc_inst i F tab) (rc_insts is F)"

fun resource_count :: "qmodule \<Rightarrow> string list \<Rightarrow> numbers \<Rightarrow> numbers option" where
  "resource_count M [] tab = Some tab"
| "resource_count M (F # order) tab =
     (case body M F of None \<Rightarrow> resource_count M order tab
      | Some is \<Rightarrow> Option.bind (rc_insts is F (if tab F = None then tab(F \<mapsto> replicate 15 0) else tab)) (resource_count M order))"

definition function_total_gates :: "u64 list \<Rightarrow> u64" where
  "function_total_gates c = sum_list (drop 4 (take 14 c))"

subsection \<open>ResourceCount2 and GateCount\<close>

definition in_name :: "string \<Rightarrow> string \<Rightarrow> bool" where
  "in_name name s = (find_sub s name \<noteq> None)"

definition rc2_gate :: "string \<Rightarrow> nat option" where
  "rc2_gate name =
     (if in_name name ''llvm.X'' then Some 1 else if in_name name ''llvm.Z'' then Some 2
      else if in_name name ''llvm.H'' then Some 3 else if in_name name ''llvm.T'' then Some 4
      else if in_name name ''llvm.Tdag'' then Some 5 else if in_name name ''llvm.S'' then Some 6
      else if in_name name ''llvm.Sdag'' then Some 7 else if in_name name ''llvm.CNOT'' then Some 8
      else if in_name name ''llvm.PrepZ'' then Some 9 else if in_name name ''llvm.MeasZ'' then Some 10 else None)"

definition gc_gate :: "string \<Rightarrow> nat option" where
  "gc_gate name =
     (if in_name name ''llvm.X'' then Some 0 else if in_name name ''llvm.Z'' then Some 1
      else if in_name name ''llvm.H'' then Some 2 else if in_name name ''llvm.T'' then Some 3
      else if in_name name ''llvm.CNOT'' then Some 4 else if in_name name ''llvm.Toffoli'' then Some 5
      else if in_name name ''llvm.RZ'' then Some 6 else if in_name name ''llvm.PrepZ'' then Some 7
      else if in_name name ''llvm.MeasZ'' then Some 8 else None)"

definition add_all :: "u64 list \<Rightarrow> nat \<Rightarrow> u64 list \<Rightarrow> u64 list" where
  "add_all callee n c = foldl (\<lambda>c l. add_at l (callee ! l) c) c [0..<n]"

definition rc2_inst :: "inst \<Rightarrow> string \<Rightarrow> numbers \<Rightarrow> numbers option" where
  "rc2_inst i F tab =
     (case tab F of None \<Rightarrow> None
      | Some c \<Rightarrow>
          (case i of
             Alloca width arr \<Rightarrow>
               Some (case arr of Some n \<Rightarrow> if width = 16 then tab(F \<mapsto> add_at 0 (of_nat n) c) else tab | None \<Rightarrow> tab)
           | Call f vs \<Rightarrow>
               if isIntrinsic f then Some (case rc2_gate f of Some k \<Rightarrow> tab(F \<mapsto> add_at k 1 c) | None \<Rightarrow> tab)
               else (case tab f of None \<Rightarrow> Some tab | Some callee \<Rightarrow> Some (tab(F \<mapsto> add_all callee 11 c)))
           | Other_inst \<Rightarrow> Some tab))"

fun rc2_insts :: "inst list \<Rightarrow> string \<Rightarrow> numbers \<Rightarrow> numbers option" where
  "rc2_insts [] F tab = Some tab"
| "rc2_insts (i # is) F tab = Option.bind (rc2_inst i F tab) (rc2_insts is F)"

fun resource_count2 :: "qmodule \<Rightarrow> string list \<Rightarrow> numbers \<Rightarrow> numbers option" where
  "resource_count2 M [] tab = Some tab"
| "resource_count2 M (F # order) tab =
     (case body M F of None \<Rightarrow> resource_count2 M order tab
      | Some is \<Rightarrow> Option.bind (rc2_insts is F (if tab F = None then tab(F \<mapsto> replicate 11 0) else tab)) (resource_count2 M order))"

text \<open>GateCount looks every callee up, and visits declarations as well.\<close>

definition gc_inst :: "inst \<Rightarrow> string \<Rightarrow> numbers \<Rightarrow> numbers option" where
  "gc_inst i F tab =
     (case tab F of None \<Rightarrow> None
      | Some c \<Rightarrow>
          (case i of
             Call f vs \<Rightarrow>
               if isIntrinsic f then Some (case gc_gate f of Some k \<Rightarrow> tab(F \<mapsto> add_at k 1 c) | None \<Rightarrow> tab)
               else (case tab f of None \<Rightarrow> None | Some callee \<Rightarrow> Some (tab(F \<mapsto> add_all callee 9 c)))
           | _ \<Rightarrow> Some tab))"

fun CountFunctionGates :: "inst list \<Rightarrow> string \<Rightarrow> numbers \<Rightarrow> numbers option" where
  "CountFunctionGates [] F tab = Some tab"
| "CountFunctionGates (i # is) F tab = Option.bind (gc_inst i F tab) (CountFunctionGates is F)"

subsection \<open>What the resources of a function are\<close>

text \<open>A function comes down to a sequence of gates, allocations and frees; every block is taken once.\<close>

datatype res_event = Gate string | Qubits nat | Ancillas nat | Free nat

definition alloc_events :: "nat \<Rightarrow> nat option \<Rightarrow> res_event list" where
  "alloc_events width arr =
     (let n = (case arr of Some n \<Rightarrow> n | None \<Rightarrow> 1) in if width = 16 then [Qubits n] else if width = 8 then [Ancillas n] else [])"

inductive expands :: "qmodule \<Rightarrow> inst list \<Rightarrow> res_event list \<Rightarrow> bool" for M where
  exp_nil: "expands M [] []"
| exp_alloca: "expands M is es \<Longrightarrow> expands M (Alloca w a # is) (alloc_events w a @ es)"
| exp_other: "expands M is es \<Longrightarrow> expands M (Other_inst # is) es"
| exp_gate: "isIntrinsic f \<Longrightarrow> expands M is es \<Longrightarrow> expands M (Call f vs # is) (Gate f # es)"
| exp_free: "\<not> isIntrinsic f \<Longrightarrow> startswith f ''afree'' \<Longrightarrow> expands M is es \<Longrightarrow>
    expands M (Call f vs # is) (Free (unat (free_count vs)) # es)"
| exp_ext: "\<not> isIntrinsic f \<Longrightarrow> \<not> startswith f ''afree'' \<Longrightarrow> body M f = None \<Longrightarrow> expands M is es \<Longrightarrow> expands M (Call f vs # is) es"
| exp_call: "\<not> isIntrinsic f \<Longrightarrow> \<not> startswith f ''afree'' \<Longrightarrow> body M f = Some b \<Longrightarrow> expands M b es1 \<Longrightarrow> expands M is es2 \<Longrightarrow>
    expands M (Call f vs # is) (es1 @ es2)"

fun delta :: "res_event \<Rightarrow> int" where
  "delta (Ancillas n) = int n"
| "delta (Free n) = - int n"
| "delta e = 0"

text \<open>The ancillas in use at the end, and the most and the least on the way.\<close>

fun level :: "res_event list \<Rightarrow> int" where
  "level [] = 0"
| "level (e # es) = delta e + level es"

fun peak :: "res_event list \<Rightarrow> int" where
  "peak [] = 0"
| "peak (e # es) = max 0 (delta e + peak es)"

fun low :: "res_event list \<Rightarrow> int" where
  "low [] = 0"
| "low (e # es) = min 0 (delta e + low es)"

fun gross :: "res_event list \<Rightarrow> nat" where
  "gross [] = 0"
| "gross (Ancillas n # es) = n + gross es"
| "gross (e # es) = gross es"

fun qubits :: "res_event list \<Rightarrow> nat" where
  "qubits [] = 0"
| "qubits (Qubits n # es) = n + qubits es"
| "qubits (e # es) = qubits es"

fun gates_of :: "nat \<Rightarrow> res_event list \<Rightarrow> nat" where
  "gates_of k [] = 0"
| "gates_of k (Gate f # es) = (if rc_gate f = Some k then 1 else 0) + gates_of k es"
| "gates_of k (e # es) = gates_of k es"

text \<open>No more ancillas are freed than are in use, and there are less than \<open>2 ^ 64\<close> of them.\<close>

definition steady :: "res_event list \<Rightarrow> bool" where
  "steady es \<longleftrightarrow> low es = 0 \<and> gross es < 2 ^ 64"

definition counted :: "res_event list \<Rightarrow> u64 list \<Rightarrow> bool" where
  "counted es c \<longleftrightarrow> length c = 15 \<and> c ! 0 = of_nat (qubits es) \<and> c ! 1 = of_nat (gross es) \<and> c ! 2 = of_int (level es) \<and>
     c ! 3 = of_int (peak es) \<and> (\<forall>k \<in> {4..<14}. c ! k = of_nat (gates_of k es))"

text \<open>The functions in the order of the walk: each after the functions it calls.\<close>

definition callees_first :: "qmodule \<Rightarrow> string list \<Rightarrow> bool" where
  "callees_first M order \<longleftrightarrow> distinct order \<and>
     (\<forall>i < length order. \<forall>is f vs. body M (order ! i) = Some is \<longrightarrow> Call f vs \<in> set is \<longrightarrow>
        \<not> isIntrinsic f \<longrightarrow> (if startswith f ''afree'' then 2 \<le> length vs else body M f \<noteq> None \<longrightarrow> f \<in> set (take i order)))"

lemma level_append [simp]: "level (es @ fs) = level es + level fs"
  by (induction es) auto

lemma peak_nonneg: "0 \<le> peak es"
  by (induction es) auto

lemma low_le: "low es \<le> 0" "low es \<le> level es"
  by (induction es) auto

lemma peak_append [simp]: "peak (es @ fs) = max (peak es) (level es + peak fs)"
  using peak_nonneg [of fs] by (induction es) (auto simp: max_def)

lemma low_append [simp]: "low (es @ fs) = min (low es) (level es + low fs)"
  using low_le(1) [of fs] by (induction es) (auto simp: min_def)

lemma gross_append [simp]: "gross (es @ fs) = gross es + gross fs"
  by (induction es rule: gross.induct) auto

lemma qubits_append [simp]: "qubits (es @ fs) = qubits es + qubits fs"
  by (induction es rule: qubits.induct) auto

lemma gates_of_append [simp]: "gates_of k (es @ fs) = gates_of k es + gates_of k fs"
  by (induction k es rule: gates_of.induct) auto

lemma peak_bounds: "0 \<le> peak es" "level es \<le> peak es" "peak es \<le> int (gross es)"
proof -
  show "0 \<le> peak es" by (rule peak_nonneg)
  show "level es \<le> peak es" by (induction es) auto
  show "peak es \<le> int (gross es)"
  proof (induction es)
    case (Cons e es)
    then show ?case by (cases e) auto
  qed simp
qed

lemma steady_prefix: "steady (es @ fs) \<Longrightarrow> steady es"
  using low_le [of es] by (auto simp: steady_def)

lemma steady_bounds:
  assumes "steady es"
  shows "0 \<le> level es" "level es \<le> peak es" "peak es < 2 ^ 64"
proof -
  have g: "low es = 0" "gross es < 2 ^ 64" using assms by (simp_all add: steady_def)
  then show "0 \<le> level es" using low_le(2) [of es] by simp
  show "level es \<le> peak es" by (rule peak_bounds)
  have "int (gross es) < 2 ^ 64" using g(2) by simp
  then show "peak es < 2 ^ 64" using peak_bounds(3) [of es] by simp
qed

lemma uint_of_int64: "0 \<le> a \<Longrightarrow> a < 2 ^ 64 \<Longrightarrow> uint (of_int a :: u64) = a"
  by (simp add: unsigned_of_int take_bit_int_eq_self)

lemma u64_less: "0 \<le> a \<Longrightarrow> a < 2 ^ 64 \<Longrightarrow> 0 \<le> b \<Longrightarrow> b < 2 ^ 64 \<Longrightarrow> (of_int a < (of_int b :: u64)) = (a < b)"
  by (simp add: word_less_def uint_of_int64)

lemma length_add_at [simp]: "length (add_at k n c) = length c"
  by (simp add: add_at_def)

lemma nth_add_at: "j < length c \<Longrightarrow> add_at k n c ! j = (if j = k then c ! j + n else c ! j)"
  by (simp add: add_at_def nth_list_update)

lemma length_rc_call [simp]: "length (rc_call callee c) = length c"
proof -
  have "length (foldl (\<lambda>c l. if l \<noteq> 3 then add_at l (callee ! l) c else c) c0 ls) = length c0" for c0 ls
    by (induction ls arbitrary: c0) simp_all
  then show ?thesis by (simp add: rc_call_def Let_def)
qed

lemma nth_rc_call:
  assumes "length c = 15"
  shows "k < 14 \<Longrightarrow> k \<noteq> 3 \<Longrightarrow> rc_call callee c ! k = c ! k + callee ! k"
    and "rc_call callee c ! 3 = (if callee ! 3 > c ! 3 - c ! 2 then c ! 2 + callee ! 3 else c ! 3)"
proof -
  define c1 where "c1 = add_at 14 (callee ! 14) c"
  define c2 where "c2 = (if callee ! 3 > c1 ! 3 - c1 ! 2 then c1[3 := c1 ! 2 + callee ! 3] else c1)"
  have e: "rc_call callee c = foldl (\<lambda>c l. if l \<noteq> 3 then add_at l (callee ! l) c else c) c2 [0..<14]"
    by (simp only: rc_call_def Let_def c1_def c2_def)
  have f: "length (foldl (\<lambda>c l. if l \<noteq> 3 then add_at l (callee ! l) c else c) c2 [0..<n]) = 15 \<and>
    (\<forall>k < 15. foldl (\<lambda>c l. if l \<noteq> 3 then add_at l (callee ! l) c else c) c2 [0..<n] ! k =
      (if k < n \<and> k \<noteq> 3 then c2 ! k + callee ! k else c2 ! k))" for n
  proof (induction n)
    case 0
    then show ?case using assms by (simp add: c2_def c1_def)
  next
    case (Suc n)
    then show ?case by (auto simp: nth_add_at less_Suc_eq)
  qed
  have c1: "k < 14 \<Longrightarrow> c1 ! k = c ! k" for k using assms by (simp add: c1_def nth_add_at)
  show "k < 14 \<Longrightarrow> k \<noteq> 3 \<Longrightarrow> rc_call callee c ! k = c ! k + callee ! k"
    using f [of 14] c1 [of k] unfolding e by (simp add: c2_def nth_list_update)
  have "rc_call callee c ! 3 = c2 ! 3" using f [of 14] unfolding e by simp
  also have "\<dots> = (if callee ! 3 > c ! 3 - c ! 2 then c ! 2 + callee ! 3 else c ! 3)"
    using assms c1 [of 2] c1 [of 3] by (simp add: c2_def c1_def)
  finally show "rc_call callee c ! 3 = (if callee ! 3 > c ! 3 - c ! 2 then c ! 2 + callee ! 3 else c ! 3)" .
qed

end
