(* ===== verification/Count_Props.thy ===== *)
theory Count_Props
  imports Count_Passes
begin

text \<open>
  The numbers of the counting passes are those of the program with all calls expanded: gates, qubits
  and ancillas, and the most ancillas that are in use at a time.
\<close>

subsection \<open>Every function has one expansion\<close>

inductive_cases exp_nilE: "expands M [] es"
inductive_cases exp_allocaE: "expands M (Alloca w a # is) es"
inductive_cases exp_otherE: "expands M (Other_inst # is) es"
inductive_cases exp_callE: "expands M (Call f vs # is) es"

lemma expands_unique: "expands M is es \<Longrightarrow> expands M is fs \<Longrightarrow> es = fs"
proof (induction arbitrary: fs rule: expands.induct)
  case exp_nil
  then show ?case by (auto elim: exp_nilE)
next
  case (exp_alloca "is" es w a)
  from exp_alloca.prems show ?case by (rule exp_allocaE) (use exp_alloca.IH in simp)
next
  case (exp_other "is" es)
  from exp_other.prems show ?case by (rule exp_otherE) (use exp_other.IH in simp)
next
  case (exp_gate f "is" es vs)
  from exp_gate.prems show ?case by (rule exp_callE) (use exp_gate.IH exp_gate.hyps(1) in simp_all)
next
  case (exp_free f "is" es vs)
  from exp_free.prems show ?case by (rule exp_callE) (use exp_free.IH exp_free.hyps(1,2) in simp_all)
next
  case (exp_ext f "is" es vs)
  from exp_ext.prems show ?case by (rule exp_callE) (use exp_ext.IH exp_ext.hyps(1-3) in simp_all)
next
  case (exp_call f b es1 "is" es2 vs)
  from exp_call.prems show ?case by (rule exp_callE) (use exp_call.IH exp_call.hyps(1-3) in simp_all)
qed

lemma expands_exists:
  "(\<And>f vs b. Call f vs \<in> set is \<Longrightarrow> \<not> isIntrinsic f \<Longrightarrow> \<not> startswith f ''afree'' \<Longrightarrow> body M f = Some b \<Longrightarrow> \<exists>es. expands M b es) \<Longrightarrow>
   \<exists>es. expands M is es"
proof (induction "is")
  case Nil
  then show ?case using exp_nil by blast
next
  case (Cons i "is")
  have "\<exists>es. expands M is es" by (rule Cons.IH) (rule Cons.prems [OF list.set_intros(2)])
  then obtain es where es: "expands M is es" ..
  show ?case
  proof (cases i)
    case (Alloca w a)
    then show ?thesis using exp_alloca [OF es] by blast
  next
    case Other_inst
    then show ?thesis using exp_other [OF es] by blast
  next
    case (Call f vs)
    consider "isIntrinsic f" | "\<not> isIntrinsic f" "startswith f ''afree''" | "\<not> isIntrinsic f" "\<not> startswith f ''afree''" "body M f = None"
      | b where "\<not> isIntrinsic f" "\<not> startswith f ''afree''" "body M f = Some b"
      by (cases "body M f") auto
    then show ?thesis
    proof cases
      case 1
      then show ?thesis unfolding Call using exp_gate [OF _ es] by blast
    next
      case 2
      then show ?thesis unfolding Call using exp_free [OF _ _ es] by blast
    next
      case 3
      then show ?thesis unfolding Call using exp_ext [OF _ _ _ es] by blast
    next
      case (4 b)
      have "\<exists>es. expands M b es" using Cons.prems [of f vs] 4 Call by simp
      then show ?thesis unfolding Call using exp_call [OF 4 _ es] by blast
    qed
  qed
qed

subsection \<open>One instruction\<close>

lemma countedD:
  assumes "counted es c"
  shows "length c = 15" "c ! 0 = of_nat (qubits es)" "c ! 1 = of_nat (gross es)" "c ! 2 = of_int (level es)"
    "c ! 3 = of_int (peak es)" "4 \<le> k \<Longrightarrow> k < 14 \<Longrightarrow> c ! k = of_nat (gates_of k es)"
  using assms by (auto simp: counted_def)

lemma counted_gate:
  assumes "counted es c"
  shows "counted (es @ [Gate f]) (case rc_gate f of Some k \<Rightarrow> add_at k 1 (add_at 14 1 c) | None \<Rightarrow> add_at 14 1 c)"
proof -
  have r: "rc_gate f = None \<or> (\<exists>k \<in> {4..<14}. rc_gate f = Some k)" by (auto simp: rc_gate_def)
  note c = countedD [OF assms]
  have p: "max (peak es) (level es) = peak es" using peak_bounds(2) [of es] by simp
  from r show ?thesis
  proof
    assume "rc_gate f = None"
    then show ?thesis using c p by (auto simp: counted_def nth_add_at)
  next
    assume "\<exists>k \<in> {4..<14}. rc_gate f = Some k"
    then obtain k where "4 \<le> k" "k < 14" "rc_gate f = Some k" by auto
    then show ?thesis using c p by (auto simp: counted_def nth_add_at)
  qed
qed

lemma counted_alloca:
  assumes "counted es c" "steady (es @ alloc_events w a)"
  shows "counted (es @ alloc_events w a) (rc_alloca w a c)"
proof -
  define n where "n = (case a of Some n \<Rightarrow> n | None \<Rightarrow> 1)"
  note c = countedD [OF assms(1)]
  have p: "max (peak es) (level es) = peak es" using peak_bounds(2) [of es] by simp
  consider "w = 16" | "w = 8" | "w \<noteq> 16" "w \<noteq> 8" by blast
  then show ?thesis
  proof cases
    case 1
    then show ?thesis using c p by (auto simp: counted_def rc_alloca_def alloc_events_def Let_def nth_add_at n_def [symmetric])
  next
    case 2
    have e: "alloc_events w a = [Ancillas n]" using 2 by (simp add: alloc_events_def n_def)
    define c1 where "c1 = add_at 2 (of_nat n) (add_at 1 (of_nat n) c)"
    have r: "rc_alloca w a c = (if c1 ! 3 < c1 ! 2 then c1[3 := c1 ! 2] else c1)"
      using 2 by (simp add: rc_alloca_def Let_def c1_def n_def)
    have c1: "length c1 = 15" "c1 ! 0 = c ! 0" "c1 ! 1 = of_nat (gross es + n)" "c1 ! 2 = of_int (level es + int n)" "c1 ! 3 = of_int (peak es)"
      "4 \<le> k \<Longrightarrow> k < 14 \<Longrightarrow> c1 ! k = c ! k" for k
      using c by (auto simp: c1_def nth_add_at)
    note b = steady_bounds [OF assms(2)] steady_bounds [OF steady_prefix [OF assms(2)]]
    have l: "(c1 ! 3 < c1 ! 2) = (peak es < level es + int n)"
      unfolding c1 by (rule u64_less) (use b peak_nonneg [of es] in \<open>auto simp: e\<close>)
    have m: "max (peak es) (level es + int n) = (if peak es < level es + int n then level es + int n else peak es)" by simp
    show ?thesis unfolding r l e using c c1 by (auto simp: counted_def nth_list_update m max_def)
  next
    case 3
    then show ?thesis using assms(1) by (simp add: alloc_events_def rc_alloca_def Let_def)
  qed
qed

lemma counted_free:
  assumes "counted es c"
  shows "counted (es @ [Free (unat x)]) (add_at 2 (- x) c)"
proof -
  note c = countedD [OF assms]
  have p: "max (peak es) (level es + max 0 (- int (unat x))) = peak es" using peak_bounds(2) [of es] by simp
  have x: "(of_int (int (unat x)) :: u64) = x" by simp
  show ?thesis using c p x by (auto simp: counted_def nth_add_at)
qed

lemma counted_call:
  assumes "counted es c" "counted fs d" "steady es" "steady fs" "steady (es @ fs)"
  shows "counted (es @ fs) (rc_call d c)"
proof -
  note c = countedD [OF assms(1)] and d = countedD [OF assms(2)] and n = nth_rc_call [OF countedD(1) [OF assms(1)], where callee = d]
  note b = steady_bounds [OF assms(3)] steady_bounds [OF assms(4)]
  have "c ! 3 - c ! 2 = of_int (peak es - level es)" unfolding c by simp
  then have l: "(c ! 3 - c ! 2 < d ! 3) = (peak es - level es < peak fs)"
    unfolding d(5) by (simp only:) (rule u64_less, use b peak_nonneg [of fs] in auto)
  have "rc_call d c ! 3 = (if peak es - level es < peak fs then of_int (level es + peak fs) else of_int (peak es))"
    unfolding n(2) l unfolding c d by simp
  also have "\<dots> = of_int (if peak es - level es < peak fs then level es + peak fs else peak es)" by simp
  also have "(if peak es - level es < peak fs then level es + peak fs else peak es) = max (peak es) (level es + peak fs)"
    by (auto simp: max_def)
  finally have 3: "rc_call d c ! 3 = of_int (max (peak es) (level es + peak fs))" .
  show ?thesis unfolding counted_def using n(1) 3 c d by auto
qed

subsection \<open>One function\<close>

definition known_callee :: "qmodule \<Rightarrow> string \<Rightarrow> numbers \<Rightarrow> string \<Rightarrow> bool" where
  "known_callee M F tab f \<longleftrightarrow> f \<noteq> F \<and>
     (case body M f of None \<Rightarrow> tab f = None
      | Some b \<Rightarrow> \<exists>hs d. tab f = Some d \<and> expands M b hs \<and> counted hs d \<and> steady hs)"

definition callees_ok :: "qmodule \<Rightarrow> string \<Rightarrow> numbers \<Rightarrow> inst list \<Rightarrow> bool" where
  "callees_ok M F tab is \<longleftrightarrow> (\<forall>f vs. Call f vs \<in> set is \<longrightarrow> \<not> isIntrinsic f \<longrightarrow>
     (if startswith f ''afree'' then 2 \<le> length vs else known_callee M F tab f))"

lemma known_upd: "known_callee M F (tab(F \<mapsto> c)) f = known_callee M F tab f"
proof (cases "f = F")
  case False
  then have "(tab(F \<mapsto> c)) f = tab f" by simp
  then show ?thesis by (simp only: known_callee_def)
qed (simp add: known_callee_def)

lemma callees_ok_upd: "callees_ok M F (tab(F \<mapsto> c)) is = callees_ok M F tab is"
  by (simp only: callees_ok_def known_upd)

lemma callees_ok_Cons: "callees_ok M F tab (i # is) \<Longrightarrow> callees_ok M F tab is"
  by (simp add: callees_ok_def)

lemma rc_insts_step:
  assumes "rc_inst i F tab = Some (tab(F \<mapsto> c1))" "\<exists>c'. rc_insts is F (tab(F \<mapsto> c1)) = Some ((tab(F \<mapsto> c1))(F \<mapsto> c')) \<and> P c'"
  shows "\<exists>c'. rc_insts (i # is) F tab = Some (tab(F \<mapsto> c')) \<and> P c'"
  using assms by auto

lemma rc_insts_ok:
  "expands M is fs \<Longrightarrow> tab F = Some c \<Longrightarrow> counted es c \<Longrightarrow> steady (es @ fs) \<Longrightarrow> callees_ok M F tab is \<Longrightarrow>
   \<exists>c'. rc_insts is F tab = Some (tab(F \<mapsto> c')) \<and> counted (es @ fs) c'"
proof (induction arbitrary: es c tab rule: expands.induct)
  case exp_nil
  then show ?case by (intro exI [of _ c]) (simp add: fun_upd_idem)
next
  case (exp_alloca "is" fs w a)
  have s: "steady (es @ alloc_events w a)" using exp_alloca.prems(3) steady_prefix [of "es @ alloc_events w a" fs] by simp
  have "\<exists>c'. rc_insts is F (tab(F \<mapsto> rc_alloca w a c)) = Some ((tab(F \<mapsto> rc_alloca w a c))(F \<mapsto> c')) \<and> counted ((es @ alloc_events w a) @ fs) c'"
    by (rule exp_alloca.IH [of "tab(F \<mapsto> rc_alloca w a c)", OF fun_upd_same counted_alloca [OF exp_alloca.prems(2) s]])
      (use exp_alloca.prems(3) callees_ok_Cons [OF exp_alloca.prems(4)] in \<open>simp_all add: callees_ok_upd del: fun_upd_apply\<close>)
  then show ?case unfolding append_assoc by (rule rc_insts_step [rotated]) (use exp_alloca.prems in \<open>simp add: rc_inst_def\<close>)
next
  case (exp_other "is" fs)
  then show ?case using callees_ok_Cons by (fastforce simp: rc_inst_def)
next
  case (exp_gate f "is" fs vs)
  define c1 where "c1 = (case rc_gate f of Some k \<Rightarrow> add_at k 1 (add_at 14 1 c) | None \<Rightarrow> add_at 14 1 c)"
  have "\<exists>c'. rc_insts is F (tab(F \<mapsto> c1)) = Some ((tab(F \<mapsto> c1))(F \<mapsto> c')) \<and> counted ((es @ [Gate f]) @ fs) c'"
    unfolding c1_def by (rule exp_gate.IH [OF fun_upd_same counted_gate [OF exp_gate.prems(2)]])
      (use exp_gate.prems(3) callees_ok_Cons [OF exp_gate.prems(4)] in \<open>simp_all add: callees_ok_upd del: fun_upd_apply\<close>)
  then show ?case unfolding append_assoc append_Cons append_Nil
    by (rule rc_insts_step [rotated]) (use exp_gate.prems exp_gate.hyps(1) in \<open>simp add: rc_inst_def c1_def Let_def\<close>)
next
  case (exp_free f "is" fs vs)
  define c1 where "c1 = add_at 2 (- free_count vs) c"
  have l: "2 \<le> length vs" using exp_free.prems(4) exp_free.hyps(1,2) by (simp add: callees_ok_def)
  have "\<exists>c'. rc_insts is F (tab(F \<mapsto> c1)) = Some ((tab(F \<mapsto> c1))(F \<mapsto> c')) \<and> counted ((es @ [Free (unat (free_count vs))]) @ fs) c'"
    unfolding c1_def by (rule exp_free.IH [OF fun_upd_same counted_free [OF exp_free.prems(2)]])
      (use exp_free.prems(3) callees_ok_Cons [OF exp_free.prems(4)] in \<open>simp_all add: callees_ok_upd del: fun_upd_apply\<close>)
  then show ?case unfolding append_assoc append_Cons append_Nil
    by (rule rc_insts_step [rotated]) (use exp_free.prems exp_free.hyps(1,2) l in \<open>simp add: rc_inst_def c1_def\<close>)
next
  case (exp_ext f "is" fs vs)
  have "tab f = None" using exp_ext.prems(4) exp_ext.hyps(1-3) by (simp add: callees_ok_def known_callee_def)
  then have "rc_insts (Call f vs # is) F tab = rc_insts is F tab"
    using exp_ext.hyps(1-3) exp_ext.prems(1) by (simp add: rc_inst_def)
  then show ?case using exp_ext.IH [OF exp_ext.prems(1-3) callees_ok_Cons [OF exp_ext.prems(4)]] by simp
next
  case (exp_call f b gs "is" fs vs)
  obtain hs d where d: "tab f = Some d" "expands M b hs" "counted hs d" "steady hs"
  proof -
    have "known_callee M F tab f" using exp_call.prems(4) exp_call.hyps(1,2) by (simp add: callees_ok_def)
    then show thesis using that exp_call.hyps(3) by (auto simp: known_callee_def)
  qed
  have h: "hs = gs" by (rule expands_unique [OF d(2) exp_call.hyps(4)])
  have s: "steady (es @ gs)" "steady es"
    using exp_call.prems(3) steady_prefix [of "es @ gs" fs] steady_prefix [of es "gs @ fs"] by simp_all
  have "\<exists>c'. rc_insts is F (tab(F \<mapsto> rc_call d c)) = Some ((tab(F \<mapsto> rc_call d c))(F \<mapsto> c')) \<and> counted ((es @ gs) @ fs) c'"
    by (rule exp_call.IH(2) [OF fun_upd_same counted_call [OF exp_call.prems(2) d(3) [unfolded h] s(2) d(4) [unfolded h] s(1)]])
      (use exp_call.prems(3) callees_ok_Cons [OF exp_call.prems(4)] in \<open>simp_all add: callees_ok_upd del: fun_upd_apply\<close>)
  then show ?case unfolding append_assoc
    by (rule rc_insts_step [rotated]) (use exp_call.prems exp_call.hyps(1,2) d(1) in \<open>simp add: rc_inst_def\<close>)
qed

subsection \<open>The program\<close>

definition counted_so_far :: "qmodule \<Rightarrow> string list \<Rightarrow> numbers \<Rightarrow> bool" where
  "counted_so_far M order tab \<longleftrightarrow>
     (\<forall>f. f \<notin> set order \<or> body M f = None \<longrightarrow> tab f = None) \<and>
     (\<forall>f \<in> set order. \<forall>b. body M f = Some b \<longrightarrow> (\<exists>es c. expands M b es \<and> tab f = Some c \<and> counted es c \<and> steady es))"

text \<open>What is assumed of a program: no function frees more ancillas than it has allocated.\<close>

definition all_steady :: "qmodule \<Rightarrow> string list \<Rightarrow> bool" where
  "all_steady M order \<longleftrightarrow> (\<forall>f \<in> set order. \<forall>b es. body M f = Some b \<longrightarrow> expands M b es \<longrightarrow> steady es)"

lemma next_function:
  assumes "counted_so_far M order tab" "F \<notin> set order" "body M F = Some b" "all_steady M [F]"
    and calls: "\<And>f vs. Call f vs \<in> set b \<Longrightarrow> \<not> isIntrinsic f \<Longrightarrow>
      if startswith f ''afree'' then 2 \<le> length vs else body M f \<noteq> None \<longrightarrow> f \<in> set order"
  shows "\<exists>c. rc_insts b F (tab(F \<mapsto> replicate 15 0)) = Some (tab(F \<mapsto> c)) \<and> counted_so_far M (order @ [F]) (tab(F \<mapsto> c))"
proof -
  have "\<exists>es. expands M b es"
  proof (rule expands_exists)
    fix f vs b' assume "Call f vs \<in> set b" "\<not> isIntrinsic f" "\<not> startswith f ''afree''" "body M f = Some b'"
    then have "f \<in> set order" "body M f = Some b'" using calls [of f vs] by simp_all
    then show "\<exists>es. expands M b' es" using assms(1) unfolding counted_so_far_def by blast
  qed
  then obtain es where es: "expands M b es" ..
  then have s: "steady es" using assms(3,4) by (simp add: all_steady_def)
  have ok: "callees_ok M F (tab(F \<mapsto> replicate 15 0)) b"
    unfolding callees_ok_def known_upd
  proof (intro allI impI)
    fix f vs assume c: "Call f vs \<in> set b" "\<not> isIntrinsic f"
    show "if startswith f ''afree'' then 2 \<le> length vs else known_callee M F tab f"
    proof (cases "body M f")
      case None
      then have "f \<noteq> F" "tab f = None" using assms(1,3) by (auto simp: counted_so_far_def)
      then show ?thesis using None calls [OF c] by (simp add: known_callee_def split: if_splits)
    next
      case (Some b')
      have "f \<in> set order \<Longrightarrow> known_callee M F tab f"
        using Some assms(1,2) by (fastforce simp: counted_so_far_def known_callee_def)
      then show ?thesis using Some calls [OF c] by (simp split: if_splits)
    qed
  qed
  have "counted [] (replicate 15 0)" by (simp add: counted_def)
  from rc_insts_ok [OF es fun_upd_same this _ ok] s obtain c where
    c: "rc_insts b F (tab(F \<mapsto> replicate 15 0)) = Some (tab(F \<mapsto> c))" "counted es c" by auto
  have "counted_so_far M (order @ [F]) (tab(F \<mapsto> c))"
    using assms(1-3) es s c(2) by (auto simp: counted_so_far_def)
  then show ?thesis using c(1) by blast
qed

lemma resource_count_ok:
  assumes "callees_first M (done @ todo)" "all_steady M todo" "counted_so_far M done tab"
  shows "\<exists>tab'. resource_count M todo tab = Some tab' \<and> counted_so_far M (done @ todo) tab'"
  using assms
proof (induction todo arbitrary: "done" tab)
  case Nil
  then show ?case by simp
next
  case (Cons F todo)
  have o: "callees_first M ((done @ [F]) @ todo)" using Cons.prems(1) by simp
  have s: "all_steady M todo" "all_steady M [F]" using Cons.prems(2) by (simp_all add: all_steady_def)
  have F: "F \<notin> set done" using Cons.prems(1) by (simp add: callees_first_def)
  show ?case
  proof (cases "body M F")
    case None
    then have "counted_so_far M (done @ [F]) tab" using Cons.prems(3) by (auto simp: counted_so_far_def)
    from Cons.IH [OF o s(1) this] show ?thesis using None by simp
  next
    case (Some b)
    have calls: "if startswith f ''afree'' then 2 \<le> length vs else body M f \<noteq> None \<longrightarrow> f \<in> set done"
      if "Call f vs \<in> set b" "\<not> isIntrinsic f" for f vs
    proof -
      have "(done @ F # todo) ! length done = F" "take (length done) (done @ F # todo) = done" "length done < length (done @ F # todo)" by simp_all
      then show ?thesis using Cons.prems(1) Some that unfolding callees_first_def by metis
    qed
    obtain c where c: "rc_insts b F (tab(F \<mapsto> replicate 15 0)) = Some (tab(F \<mapsto> c))" "counted_so_far M (done @ [F]) (tab(F \<mapsto> c))"
      using next_function [OF Cons.prems(3) F Some s(2) calls] by blast
    have "tab F = None" using Cons.prems(3) F by (simp add: counted_so_far_def)
    then show ?thesis using Cons.IH [OF o s(1) c(2)] c(1) Some by (simp del: fun_upd_apply)
  qed
qed

text \<open>C16: ResourceCount gives for every function the gates, qubits and ancillas of the function with all its
  calls expanded, and as width the most ancillas that are in use at a time, when functions are
  visited after those they call and none frees more ancillas than it has allocated.\<close>

theorem resource_count_correct:
  assumes "callees_first M order" "all_steady M order"
  shows "\<exists>tab. resource_count M order (\<lambda>f. None) = Some tab \<and>
    (\<forall>f \<in> set order. \<forall>b. body M f = Some b \<longrightarrow> (\<exists>es c. expands M b es \<and> tab f = Some c \<and> counted es c))"
proof -
  have "counted_so_far M [] (\<lambda>f. None)" by (simp add: counted_so_far_def)
  from resource_count_ok [of M "[]" order, OF _ assms(2) this] assms(1) obtain tab where
    "resource_count M order (\<lambda>f. None) = Some tab" "counted_so_far M order tab" by auto
  then show ?thesis by (fastforce simp: counted_so_far_def)
qed

text \<open>A function \<open>f\<close> that allocates two ancillas, uses them and frees them, and is called twice.\<close>

definition count_module :: qmodule where
  "count_module =
     [(''f'', \<lparr>params = [Qbit 0],
        blocks = [[Alloca 8 (Some 2), Call ''llvm.Tdag.i8'' [Abit 0], Call ''afree'' [Abit 0, Int_const 2]]]\<rparr>),
      (''main'', \<lparr>params = [], blocks = [[Alloca 16 None, Call ''f'' [Qbit 0]], [Call ''f'' [Qbit 0], Call ''llvm.X.i16'' [Qbit 0]]]\<rparr>)]"

lemma count_bodies:
  "body count_module ''f'' = Some [Alloca 8 (Some 2), Call ''llvm.Tdag.i8'' [Abit 0], Call ''afree'' [Abit 0, Int_const 2]]"
  "body count_module ''main'' = Some [Alloca 16 None, Call ''f'' [Qbit 0], Call ''f'' [Qbit 0], Call ''llvm.X.i16'' [Qbit 0]]"
  by (simp_all add: body_def count_module_def)

lemma count_names:
  "isIntrinsic ''llvm.Tdag.i8''" "isIntrinsic ''llvm.X.i16''" "\<not> isIntrinsic ''f''" "\<not> isIntrinsic ''afree''"
  "startswith ''afree'' ''afree''" "\<not> startswith ''f'' ''afree''"
  by (simp_all add: isIntrinsic_def startswith_def)

lemma count_expands:
  "expands count_module (the (body count_module ''f'')) [Ancillas 2, Gate ''llvm.Tdag.i8'', Free 2]"
  "expands count_module (the (body count_module ''main''))
     [Qubits 1, Ancillas 2, Gate ''llvm.Tdag.i8'', Free 2, Ancillas 2, Gate ''llvm.Tdag.i8'', Free 2, Gate ''llvm.X.i16'']"
proof -
  have a: "alloc_events 8 (Some 2) = [Ancillas 2]" "alloc_events 16 None = [Qubits 1]" "unat (free_count [Abit 0, Int_const 2]) = 2"
    by (simp_all add: alloc_events_def free_count_def)
  have "expands count_module (the (body count_module ''f''))
      (alloc_events 8 (Some 2) @ [Gate ''llvm.Tdag.i8'', Free (unat (free_count [Abit 0, Int_const 2]))])"
    unfolding count_bodies option.sel
    by (intro exp_alloca exp_gate exp_free exp_nil count_names)
  then show f: "expands count_module (the (body count_module ''f'')) [Ancillas 2, Gate ''llvm.Tdag.i8'', Free 2]" by (simp add: a)
  have "expands count_module (the (body count_module ''main''))
      (alloc_events 16 None @ [Ancillas 2, Gate ''llvm.Tdag.i8'', Free 2] @ [Ancillas 2, Gate ''llvm.Tdag.i8'', Free 2] @ [Gate ''llvm.X.i16''])"
    unfolding count_bodies option.sel
    by (intro exp_alloca exp_call [OF count_names(3,6) count_bodies(1)] exp_gate exp_nil count_names f [unfolded count_bodies option.sel])
  then show "expands count_module (the (body count_module ''main''))
     [Qubits 1, Ancillas 2, Gate ''llvm.Tdag.i8'', Free 2, Ancillas 2, Gate ''llvm.Tdag.i8'', Free 2, Gate ''llvm.X.i16'']" by (simp add: a)
qed

theorem resource_count_correct_witness:
  "\<exists>tab c. resource_count count_module [''f'', ''main''] (\<lambda>f. None) = Some tab \<and> tab ''main'' = Some c \<and>
    c ! 0 = 1 \<and> c ! 1 = 4 \<and> c ! 2 = 0 \<and> c ! 3 = 2 \<and> c ! 4 = 1 \<and> c ! 8 = 2"
proof -
  have o: "callees_first count_module [''f'', ''main'']"
    by (auto simp: callees_first_def less_Suc_eq nth_Cons' count_bodies count_names)
  have s: "all_steady count_module [''f'', ''main'']"
    unfolding all_steady_def
  proof (intro ballI allI impI)
    fix f b es assume h: "f \<in> set [''f'', ''main'']" "body count_module f = Some b" "expands count_module b es"
    from h(1) consider "f = ''f''" | "f = ''main''" by auto
    then show "steady es"
      by cases (use h(2,3) count_expands expands_unique in \<open>fastforce simp: steady_def\<close>)+
  qed
  from resource_count_correct [OF o s] obtain tab es c where
    t: "resource_count count_module [''f'', ''main''] (\<lambda>f. None) = Some tab"
      "expands count_module (the (body count_module ''main'')) es" "tab ''main'' = Some c" "counted es c"
    by (auto simp: count_bodies)
  have e: "es = [Qubits 1, Ancillas 2, Gate ''llvm.Tdag.i8'', Free 2, Ancillas 2, Gate ''llvm.Tdag.i8'', Free 2, Gate ''llvm.X.i16'']"
    by (rule expands_unique [OF t(2) count_expands(2)])
  have "rc_gate ''llvm.Tdag.i8'' = Some 8" "rc_gate ''llvm.X.i16'' = Some 4" by (simp_all add: rc_gate_def startswith_def)
  then have "c ! 4 = 1" "c ! 8 = 2" using countedD(6) [OF t(4), of 4] countedD(6) [OF t(4), of 8] by (simp_all add: e)
  moreover have "c ! 0 = 1" "c ! 1 = 4" "c ! 2 = 0" "c ! 3 = 2"
    unfolding countedD(2-5) [OF t(4)] by (simp_all add: e)
  ultimately show ?thesis using t(1,3) by blast
qed

subsection \<open>Gates that are not told apart\<close>

lemma find_sub_longer: "find_sub (s @ r) name \<noteq> None \<Longrightarrow> find_sub s name \<noteq> None"
proof (induction name)
  case Nil
  then show ?case by (simp split: if_splits)
next
  case (Cons x name)
  show ?case
  proof (cases "take (length (s @ r)) (x # name) = s @ r")
    case True
    then have "take (length s) (x # name) = s"
      by (metis append_eq_conv_conj le_add1 length_append min.absorb1 take_take)
    then show ?thesis by simp
  next
    case False
    then have "find_sub (s @ r) name \<noteq> None" using Cons.prems by auto
    then show ?thesis using Cons.IH by auto
  qed
qed

lemma rc2_gate_not: "rc2_gate f \<noteq> Some 5" "rc2_gate f \<noteq> Some 7"
proof -
  have "in_name f ''llvm.Tdag'' \<Longrightarrow> in_name f ''llvm.T''" "in_name f ''llvm.Sdag'' \<Longrightarrow> in_name f ''llvm.S''"
    using find_sub_longer [of "''llvm.T''" "''dag''" f] find_sub_longer [of "''llvm.S''" "''dag''" f] by (simp_all add: in_name_def)
  then show "rc2_gate f \<noteq> Some 5" "rc2_gate f \<noteq> Some 7" by (auto simp: rc2_gate_def)
qed

text \<open>The slots for Tdag and Sdag.\<close>

definition no_dagger :: "u64 list \<Rightarrow> bool" where
  "no_dagger c \<longleftrightarrow> length c = 11 \<and> c ! 5 = 0 \<and> c ! 7 = 0"

definition no_daggers :: "numbers \<Rightarrow> bool" where
  "no_daggers tab \<longleftrightarrow> (\<forall>f c. tab f = Some c \<longrightarrow> no_dagger c)"

lemma nth_add_all:
  "n \<le> length c \<Longrightarrow> length (add_all d n c) = length c \<and>
    (\<forall>k < length c. add_all d n c ! k = (if k < n then c ! k + d ! k else c ! k))"
proof (induction n)
  case 0
  then show ?case by (simp add: add_all_def)
next
  case (Suc n)
  then show ?case by (auto simp: add_all_def nth_add_at less_Suc_eq)
qed

lemma no_daggers_upd: "no_daggers tab \<Longrightarrow> no_dagger c \<Longrightarrow> no_daggers (tab(F \<mapsto> c))"
  by (simp add: no_daggers_def)

lemma rc2_inst_daggers:
  assumes "rc2_inst i F tab = Some tab'" "no_daggers tab"
  shows "no_daggers tab'"
proof -
  obtain c where c: "tab F = Some c" using assms(1) by (auto simp: rc2_inst_def split: option.splits)
  then have d: "no_dagger c" using assms(2) by (simp add: no_daggers_def)
  have a: "no_dagger (add_at k n c)" if "k \<noteq> 5" "k \<noteq> 7" for k n using d that by (auto simp: no_dagger_def nth_add_at)
  show ?thesis
  proof (cases i)
    case (Alloca w arr)
    then show ?thesis using assms c no_daggers_upd [OF assms(2) a [of 0]]
      by (auto simp: rc2_inst_def split: option.splits if_splits)
  next
    case Other_inst
    then show ?thesis using assms c by (simp add: rc2_inst_def)
  next
    case (Call f vs)
    show ?thesis
    proof (cases "isIntrinsic f")
      case True
      then show ?thesis using assms c Call no_daggers_upd [OF assms(2) a] rc2_gate_not [of f]
        by (auto simp: rc2_inst_def split: option.splits)
    next
      case False
      show ?thesis
      proof (cases "tab f")
        case None
        then show ?thesis using assms c Call False by (simp add: rc2_inst_def)
      next
        case (Some e)
        then have "no_dagger e" using assms(2) by (simp add: no_daggers_def)
        then have "no_dagger (add_all e 11 c)" using d nth_add_all [of 11 c e] by (simp add: no_dagger_def)
        then show ?thesis using assms c Call False Some no_daggers_upd [OF assms(2)] by (auto simp: rc2_inst_def)
      qed
    qed
  qed
qed

lemma rc2_insts_daggers: "rc2_insts is F tab = Some tab' \<Longrightarrow> no_daggers tab \<Longrightarrow> no_daggers tab'"
proof (induction "is" arbitrary: tab)
  case (Cons i "is")
  then show ?case using rc2_inst_daggers by (auto simp: bind_eq_Some_conv)
qed simp

text \<open>ResourceCount2 never counts a Tdag or an Sdag gate: their names are found by the tests for T and
  S, which come first.\<close>

theorem daggers_not_counted:
  "no_daggers tab \<Longrightarrow> resource_count2 M order tab = Some tab' \<Longrightarrow> no_daggers tab'"
proof (induction order arbitrary: tab)
  case (Cons F order)
  show ?case
  proof (cases "body M F")
    case None
    then show ?thesis using Cons by simp
  next
    case (Some b)
    define tab0 where "tab0 = (if tab F = None then tab(F \<mapsto> replicate 11 0) else tab)"
    have "no_dagger (replicate 11 0)" by (simp add: no_dagger_def)
    then have "no_daggers tab0" using Cons.prems(1) no_daggers_upd by (simp add: tab0_def)
    moreover obtain tab1 where "rc2_insts b F tab0 = Some tab1" "resource_count2 M order tab1 = Some tab'"
      using Cons.prems(2) Some by (auto simp: tab0_def bind_eq_Some_conv)
    ultimately show ?thesis using Cons.IH rc2_insts_daggers by blast
  qed
qed simp

theorem daggers_not_counted_witness:
  "no_daggers (the (resource_count2 count_module [''f'', ''main''] (\<lambda>f. None)))"
proof -
  have n: "no_daggers (\<lambda>f. None)" by (simp add: no_daggers_def)
  have "resource_count2 count_module [''f'', ''main''] (\<lambda>f. None) \<noteq> None"
    by (simp add: count_bodies rc2_inst_def count_names split: option.splits)
  then obtain tab where t: "resource_count2 count_module [''f'', ''main''] (\<lambda>f. None) = Some tab" by auto
  from daggers_not_counted [OF n t] show ?thesis by (simp only: t option.sel)
qed

text \<open>The function \<open>f\<close> of the example has one Tdag gate, which is counted as T.\<close>

lemma tdag_counted_as_t:
  "map_option (\<lambda>tab. tab ''f'') (resource_count2 count_module [''f''] (\<lambda>f. None)) = Some (Some [0, 0, 0, 0, 1, 0, 0, 0, 0, 0, 0])"
  by code_simp

lemma toffoli_not_counted: "gc_gate f \<noteq> Some 5"
  using find_sub_longer [of "''llvm.T''" "''offoli''" f] by (auto simp: gc_gate_def in_name_def)

end
