(* ===== verification/Freq_Runtime.thy ===== *)
theory Freq_Runtime
  imports Prelude "HOL-Library.Word"
begin

text \<open>
  The run-time library that counts how often the modules of a program are called
  (\<open>scripts/frequency-estimation-hybrid.c\<close>), with the calls that the pass
  \<open>RuntimeFrequencyEstimationHybrid.cpp\<close> puts around the call of a module. Writes outside an array and
  \<open>exit(1)\<close> are None; the hash table of uthash keeps its entries in the order they were added.
\<close>

subsection \<open>The call stack\<close>

text \<open>\<open>contents\<close> up to \<open>top\<close>, from the bottom.\<close>

record memo =
  function_name :: string
  int_params :: "32 word list"
  double_params :: "64 word list"
  resources :: "64 word list"

record freq_state =
  contents :: "32 word list"
  maxSize :: nat
  memos :: "memo list"

definition stackInit :: "nat \<Rightarrow> freq_state \<Rightarrow> freq_state" where
  "stackInit n st = st\<lparr>contents := [], maxSize := n\<rparr>"

definition stackPush :: "32 word \<Rightarrow> freq_state \<Rightarrow> freq_state option" where
  "stackPush x st = (if length (contents st) \<ge> maxSize st then None else Some (st\<lparr>contents := contents st @ [x]\<rparr>))"

definition stackPop :: "freq_state \<Rightarrow> freq_state option" where
  "stackPop st = (if contents st = [] then None else Some (st\<lparr>contents := butlast (contents st)\<rparr>))"

subsection \<open>The table\<close>

text \<open>A double is its 64 bits. The key starts at the name and is 90 + 16 + 32 bytes long; with the gaps
  before the integers and the doubles it ends after two bytes of the fourth double.\<close>

definition pad4 :: "'a::zero list \<Rightarrow> 'a list" where
  "pad4 xs = xs @ replicate (4 - length xs) 0"

type_synonym memo_key = "string \<times> 32 word list \<times> 64 word list \<times> 16 word"

definition key_bytes :: "string \<Rightarrow> 32 word list \<Rightarrow> 64 word list \<Rightarrow> memo_key" where
  "key_bytes name ints doubles = (name, pad4 ints, take 3 (pad4 doubles), ucast (pad4 doubles ! 3))"

definition memo_key :: "memo \<Rightarrow> memo_key" where
  "memo_key m = key_bytes (function_name m) (int_params m) (double_params m)"

definition in_bounds :: "string \<Rightarrow> 32 word list \<Rightarrow> 64 word list \<Rightarrow> bool" where
  "in_bounds name ints doubles \<longleftrightarrow> length name < 90 \<and> length ints \<le> 4 \<and> length doubles \<le> 4"

definition add_memo :: "string \<Rightarrow> 32 word list \<Rightarrow> 64 word list \<Rightarrow> 64 word list \<Rightarrow> freq_state \<Rightarrow> freq_state option" where
  "add_memo name ints doubles res st =
     (if in_bounds name ints doubles
      then Some (st\<lparr>memos := memos st @ [\<lparr>function_name = name, int_params = pad4 ints, double_params = pad4 doubles, resources = res\<rparr>]\<rparr>)
      else None)"

definition find_memo :: "string \<Rightarrow> 32 word list \<Rightarrow> 64 word list \<Rightarrow> freq_state \<Rightarrow> nat option option" where
  "find_memo name ints doubles st =
     (if in_bounds name ints doubles
      then Some (find (\<lambda>i. memo_key (memos st ! i) = key_bytes name ints doubles) [0..<length (memos st)])
      else None)"

subsection \<open>The instrumented calls\<close>

definition accumulative_mult :: "32 word list \<Rightarrow> 64 word" where
  "accumulative_mult stack = foldl (\<lambda>m it. m * ucast (stack ! it)) 1 (rev [1..<length stack])"

definition memoize :: "string \<Rightarrow> 32 word list \<Rightarrow> 64 word list \<Rightarrow> 32 word \<Rightarrow> freq_state \<Rightarrow> freq_state option" where
  "memoize name ints doubles repeat st =
     (let mult = accumulative_mult (contents st)
      in case find_memo name ints doubles st of
           None \<Rightarrow> None
         | Some None \<Rightarrow>
             Option.bind (add_memo name ints doubles [ucast repeat * mult, of_nat (length ints), of_nat (length doubles)] st) (stackPush repeat)
         | Some (Some i) \<Rightarrow>
             (let m = memos st ! i;
                  m' = m\<lparr>resources := (resources m)[0 := resources m ! 0 + ucast repeat * mult]\<rparr>
              in stackPush repeat (st\<lparr>memos := (memos st)[i := m']\<rparr>)))"

definition exit_scope :: "freq_state \<Rightarrow> freq_state option" where
  "exit_scope = stackPop"

definition qasm_initialize :: "freq_state option" where
  "qasm_initialize =
     Option.bind (add_memo ''main                           '' [] [] [1, 0, 0]
       (stackInit 16 \<lparr>contents = [], maxSize = 0, memos = []\<rparr>)) (stackPush 1)"

definition qasm_resource_summary :: "freq_state \<Rightarrow> (string \<times> 32 word list \<times> 64 word list \<times> 64 word list) list" where
  "qasm_resource_summary st = map (\<lambda>m. (function_name m, int_params m, double_params m, resources m)) (memos st)"

text \<open>The calls of a run: a module with its arguments, the repetitions of the loop around the call, and
  the calls it makes.\<close>

datatype call_tree = Module_call string "32 word list" "64 word list" "32 word" "call_tree list"

function run_calls :: "call_tree list \<Rightarrow> freq_state \<Rightarrow> freq_state option" where
  "run_calls [] st = Some st"
| "run_calls (Module_call f ints doubles rep_val cs # ts) st =
     Option.bind (memoize f ints doubles rep_val st) (\<lambda>st1.
     Option.bind (run_calls cs st1) (\<lambda>st2.
     Option.bind (exit_scope st2) (run_calls ts)))"
  by pat_completeness auto
termination by (relation "measure (\<lambda>(ts, st). size_list size ts)") auto

text \<open>The name is padded to 89 characters.\<close>

definition padded_name :: "string \<Rightarrow> string" where
  "padded_name f = f @ replicate (89 - length f) (CHR '' '')"

definition run_main :: "call_tree list \<Rightarrow> freq_state option" where
  "run_main ts = Option.bind qasm_initialize (run_calls ts)"

subsection \<open>How often a module is called\<close>








lemma pad4_pad4 [simp]: "length xs \<le> 4 \<Longrightarrow> pad4 (pad4 xs) = pad4 xs"
  by (simp add: pad4_def)


subsection \<open>One call\<close>






subsection \<open>All calls of a run\<close>





subsection \<open>The fourth double\<close>

text \<open>The key does not reach the end of the fourth double: calls whose fourth doubles differ above the
  lowest 16 bits share one entry and are counted together. Here 1.0 and 2.0 (as bits).\<close>

theorem fourth_double_shared:
  "\<exists>st. run_main [Module_call (padded_name ''f'') [] [0, 0, 0, 0x3FF0000000000000] 1 [], Module_call (padded_name ''f'') [] [0, 0, 0, 0x4000000000000000] 1 []] = Some st \<and>
    map (\<lambda>m. (double_params m, resources m ! 0)) (tl (memos st)) = [([0, 0, 0, 0x3FF0000000000000], 2)]"
proof -
  define u where "u = run_main [Module_call (padded_name ''f'') [] [0, 0, 0, 0x3FF0000000000000] 1 [], Module_call (padded_name ''f'') [] [0, 0, 0, 0x4000000000000000] 1 []]"
  have "map_option (\<lambda>st. map (\<lambda>m. (double_params m, resources m ! 0)) (tl (memos st))) u = Some [([0, 0, 0, 0x3FF0000000000000], 2)]"
    unfolding u_def by code_simp
  then show ?thesis by (auto simp: u_def)
qed

end
