(* ===== verification/Crit_Path.thy ===== *)
theory Crit_Path
  imports Lpfs_Schedule
begin

text \<open>
  The critical path of every function (\<open>llvm/lib/Transforms/Scaffold/GetCriticalPath.cpp\<close>). A function is
  the sequence of its calls, whose operands are traced to arrays and parameters; gates are scheduled
  as soon as possible, a call of a function starts as early as the slack of its operands allows, and
  the first half of a leaf function is moved as late as possible to find that slack. Functions are
  visited callees first. The tables are those of the scheduler in \<open>Lpfs_Schedule\<close>; a missing entry or a
  failed assertion is None.
\<close>

subsection \<open>State\<close>

text \<open>The qubit parameters with their numbers, the local arrays, and the calls.\<close>

record crit_func =
  fn_name :: string
  fn_params :: "(string \<times> nat) list"
  fn_arrays :: "string list"
  fn_calls :: "call list"

record crit_state =
  funcQbits :: qbit_table
  tsGates :: "nat \<Rightarrow> call list"
  isFirstMeas :: bool
  isLeaf :: bool
  highestDelay :: nat

text \<open>What is kept of a function: when its operands are free, when they are first used, its length.\<close>

record func_info =
  tableFuncQbits :: "nat \<rightharpoonup> (int \<rightharpoonup> nat)"
  tableFuncQbitsStart :: "nat \<rightharpoonup> (int \<rightharpoonup> nat)"
  crit_path_f :: nat

type_synonym func_table = "string \<rightharpoonup> func_info"

definition qbit_names :: "crit_func \<Rightarrow> string list" where
  "qbit_names F = map fst (fn_params F) @ fn_arrays F"

definition new_entry :: "int \<rightharpoonup> nat" where
  "new_entry = [-1 \<mapsto> 0, -2 \<mapsto> 0]"

definition init_critical_path_algo :: "crit_func \<Rightarrow> crit_state" where
  "init_critical_path_algo F =
     \<lparr>funcQbits = (\<lambda>n. if n \<in> set (qbit_names F) then Some new_entry else None), tsGates = (\<lambda>t. []),
      isFirstMeas = True, isLeaf = True, highestDelay = 0\<rparr>"

definition find_max_funcQbits :: "string list \<Rightarrow> qbit_table \<Rightarrow> nat" where
  "find_max_funcQbits names tab =
     foldl (\<lambda>max_timesteps n. case Option.bind (tab n) (\<lambda>m. m (-2)) of None \<Rightarrow> max_timesteps | Some t \<Rightarrow> if t > max_timesteps then t else max_timesteps) 0 names"

definition memset_funcQbits :: "nat \<Rightarrow> qbit_table \<Rightarrow> qbit_table" where
  "memset_funcQbits val tab = (\<lambda>n. map_option (\<lambda>m i. map_option (\<lambda>_. val) (m i)) (tab n))"

definition addToTSGates :: "call \<Rightarrow> nat \<Rightarrow> crit_state \<Rightarrow> crit_state" where
  "addToTSGates qg ts st = (if isLeaf st then st\<lparr>tsGates := (tsGates st)(ts := tsGates st ts @ [qg])\<rparr> else st)"

subsection \<open>One call\<close>

definition has_sub :: "string \<Rightarrow> string \<Rightarrow> bool" where
  "has_sub name s = (find_sub s name \<noteq> None)"

definition is_meas :: "string \<Rightarrow> bool" where
  "is_meas fname = (has_sub fname ''llvm.MeasX'' \<or> has_sub fname ''llvm.MeasZ'')"

definition first_meas :: "string list \<Rightarrow> call \<Rightarrow> crit_state \<Rightarrow> crit_state option" where
  "first_meas names qg st =
     (let maxFQ = find_max_funcQbits names (funcQbits st);
          tab = memset_funcQbits maxFQ (funcQbits st);
          st1 = addToTSGates qg (maxFQ + 1) st
      in case args qg of [] \<Rightarrow> None
         | (name, argIndex) # _ \<Rightarrow>
             (case tab name of None \<Rightarrow> None
              | Some m \<Rightarrow> if m argIndex = None \<or> m (-2) = None then None
                  else Some (st1\<lparr>funcQbits := tab(name \<mapsto> m(argIndex \<mapsto> maxFQ + 1, -2 \<mapsto> maxFQ + 1)), isFirstMeas := False\<rparr>)))"

definition compute_max_ts_of_all_args :: "qbit_table \<Rightarrow> call \<Rightarrow> (nat \<times> qbit_table) option" where
  "compute_max_ts_of_all_args tab qg = max_ts_of_all_args tab (args qg) 0"

definition schedule_gate :: "call \<Rightarrow> crit_state \<Rightarrow> crit_state option" where
  "schedule_gate qg st =
     (case compute_max_ts_of_all_args (funcQbits st) qg of None \<Rightarrow> None
      | Some (m, tab) \<Rightarrow> Some ((addToTSGates qg (m + 1) st)\<lparr>funcQbits := foldl (set_ts (m + 1)) tab (args qg)\<rparr>))"

text \<open>The slack of each operand: from the end of its last use to its first use in the called function,
  when that starts after \<open>tmax\<close>. No end is after \<open>tmax\<close>, so the difference does not wrap.\<close>

definition starts_at :: "func_info \<Rightarrow> nat \<Rightarrow> nat \<Rightarrow> qarg \<Rightarrow> nat option" where
  "starts_at info tmax i a =
     Option.bind (tableFuncQbitsStart info i) (\<lambda>m. map_option ((+) tmax) (m (if snd a = -1 then -2 else 0)))"

fun arg_slacks :: "func_info \<Rightarrow> nat \<Rightarrow> nat \<Rightarrow> qbit_table \<Rightarrow> qarg list \<Rightarrow> nat list option" where
  "arg_slacks info tmax i tab [] = Some []"
| "arg_slacks info tmax i tab (a # as) =
     (case (starts_at info tmax i a, arg_ts tab a) of
        (Some s, Some (e, tab')) \<Rightarrow> map_option ((#) (s - e)) (arg_slacks info tmax (i + 1) tab' as)
      | _ \<Rightarrow> None)"

definition compute_least_slack :: "func_info \<Rightarrow> nat \<Rightarrow> qbit_table \<Rightarrow> call \<Rightarrow> nat option" where
  "compute_least_slack info tmax tab qg =
     map_option (\<lambda>ss. case ss of [] \<Rightarrow> 0 | s # ss' \<Rightarrow> let l = foldl min s ss' in if l > tmax then 1 else l)
       (arg_slacks info tmax 0 tab (args qg))"

text \<open>The operands of a called function after the call.\<close>

definition update_operand :: "func_info \<Rightarrow> nat \<Rightarrow> nat \<Rightarrow> nat \<Rightarrow> qarg \<Rightarrow> qbit_table \<Rightarrow> qbit_table option" where
  "update_operand info m slack i a tab =
     (case (a, tab (fst a)) of
        (_, None) \<Rightarrow> None
      | ((name, index), Some q) \<Rightarrow>
          (case tableFuncQbits info i of
             None \<Rightarrow> Some tab
           | Some entry \<Rightarrow>
               if index = -1
               then Some (tab(name \<mapsto> (\<lambda>k. case entry k of Some t \<Rightarrow> Some (m + t + 1 - slack) | None \<Rightarrow> q k)))
               else (case entry 0 of None \<Rightarrow> None
                     | Some t \<Rightarrow>
                         let q' = q(index \<mapsto> m + t + 1 - slack)
                         in (case q' (-2) of None \<Rightarrow> None
                             | Some last_ts \<Rightarrow> Some (tab(name \<mapsto> (if last_ts < m + t then q'(-2 \<mapsto> m + t + 1 - slack) else q'))))))) "

fun update_operands :: "func_info \<Rightarrow> nat \<Rightarrow> nat \<Rightarrow> nat \<Rightarrow> qarg list \<Rightarrow> qbit_table \<Rightarrow> qbit_table option" where
  "update_operands info m slack i [] tab = Some tab"
| "update_operands info m slack i (a # as) tab =
     Option.bind (update_operand info m slack i a tab) (update_operands info m slack (i + 1) as)"

definition schedule_module :: "func_table \<Rightarrow> call \<Rightarrow> crit_state \<Rightarrow> crit_state option" where
  "schedule_module ft qg st =
     (case compute_max_ts_of_all_args (funcQbits st) qg of None \<Rightarrow> None
      | Some (m, tab) \<Rightarrow>
          (case ft (qFunc qg) of None \<Rightarrow> None
           | Some info \<Rightarrow>
               Option.bind (compute_least_slack info m tab qg) (\<lambda>slack.
                 map_option (\<lambda>tab'. st\<lparr>funcQbits := tab', isLeaf := False, highestDelay := max (highestDelay st) (m + crit_path_f info + 1 - slack)\<rparr>)
                   (update_operands info m slack 0 (args qg) tab))))"

definition calc_critical_time :: "func_table \<Rightarrow> string list \<Rightarrow> call \<Rightarrow> crit_state \<Rightarrow> crit_state option" where
  "calc_critical_time ft names qg st =
     (if isFirstMeas st \<and> is_meas (qFunc qg) then first_meas names qg st
      else if has_sub (qFunc qg) ''llvm.'' then schedule_gate qg st else schedule_module ft qg st)"

fun calc_all :: "func_table \<Rightarrow> string list \<Rightarrow> call list \<Rightarrow> crit_state \<Rightarrow> crit_state option" where
  "calc_all ft names [] st = Some st"
| "calc_all ft names (qg # qgs) st = Option.bind (calc_critical_time ft names qg st) (calc_all ft names qgs)"

subsection \<open>As late as possible\<close>

definition init_funcQbitsHalf :: "nat \<Rightarrow> qbit_table \<Rightarrow> qbit_table" where
  "init_funcQbitsHalf i tab = memset_funcQbits i tab"

fun lower_args :: "nat \<Rightarrow> qarg list \<Rightarrow> qbit_table \<Rightarrow> qbit_table option" where
  "lower_args i [] half = Some half"
| "lower_args i ((name, argIndex) # as) half =
     (case half name of None \<Rightarrow> None
      | Some m \<Rightarrow>
          if argIndex = -1 then None
          else (case m argIndex of None \<Rightarrow> None
            | Some t \<Rightarrow> lower_args i as (if i < t then half(name \<mapsto> m(argIndex \<mapsto> i)) else half)))"

fun lower_gates :: "nat \<Rightarrow> call list \<Rightarrow> qbit_table \<Rightarrow> qbit_table option" where
  "lower_gates i [] half = Some half"
| "lower_gates i (g # gs) half = Option.bind (lower_args i (args g) half) (lower_gates i gs)"

fun lower_steps :: "(nat \<Rightarrow> call list) \<Rightarrow> nat list \<Rightarrow> qbit_table \<Rightarrow> qbit_table option" where
  "lower_steps gates [] half = Some half"
| "lower_steps gates (i # is) half =
     (if gates i = [] then None else Option.bind (lower_gates i (gates i) half) (lower_steps gates is))"

definition gen_half_funcQbits :: "crit_state \<Rightarrow> nat \<Rightarrow> nat \<Rightarrow> qbit_table option" where
  "gen_half_funcQbits st ct hct = lower_steps (tsGates st) [hct + 1..<ct] (init_funcQbitsHalf ct (funcQbits st))"

fun min_ts_of_all_args :: "qbit_table \<Rightarrow> qarg list \<Rightarrow> nat \<Rightarrow> nat option" where
  "min_ts_of_all_args half [] acc = Some acc"
| "min_ts_of_all_args half ((name, argIndex) # as) acc =
     (if argIndex = -1 then None
      else case Option.bind (half name) (\<lambda>m. m argIndex) of None \<Rightarrow> None
        | Some t \<Rightarrow> min_ts_of_all_args half as (if t < acc then t else acc))"

definition set_alap :: "nat \<Rightarrow> qbit_table \<Rightarrow> qarg \<Rightarrow> qbit_table" where
  "set_alap new half a =
     (case a of (name, argIndex) \<Rightarrow>
        case half name of None \<Rightarrow> half
        | Some m \<Rightarrow>
            let m' = m(argIndex \<mapsto> new)
            in half(name \<mapsto> m'(-2 := map_option (\<lambda>t. if t > new then new else t) (m' (-2)))))"

fun alap_gates :: "nat \<Rightarrow> call list \<Rightarrow> qbit_table \<Rightarrow> (qbit_table \<times> (call \<times> nat) list) option" where
  "alap_gates ct [] half = Some (half, [])"
| "alap_gates ct (g # gs) half =
     (case min_ts_of_all_args half (args g) ct of None \<Rightarrow> None
      | Some m \<Rightarrow> map_option (\<lambda>(half', alap). (half', (g, m - 1) # alap)) (alap_gates ct gs (foldl (set_alap (m - 1)) half (args g))))"

fun alap_steps :: "(nat \<Rightarrow> call list) \<Rightarrow> nat \<Rightarrow> nat list \<Rightarrow> qbit_table \<Rightarrow> (qbit_table \<times> (call \<times> nat) list) option" where
  "alap_steps gates ct [] half = Some (half, [])"
| "alap_steps gates ct (i # is) half =
     (if gates i = [] then None
      else Option.bind (alap_gates ct (gates i) half)
        (\<lambda>(half1, alap1). map_option (\<lambda>(half2, alap2). (half2, alap1 @ alap2)) (alap_steps gates ct is half1)))"

definition schedule_alap_insts :: "crit_state \<Rightarrow> nat \<Rightarrow> nat \<Rightarrow> qbit_table \<Rightarrow> (qbit_table \<times> (call \<times> nat) list) option" where
  "schedule_alap_insts st ct hct half = (if hct = 0 then None else alap_steps (tsGates st) ct (rev [1..<hct + 1]) half)"

subsection \<open>A function and a program\<close>

definition critical_time :: "crit_func \<Rightarrow> crit_state \<Rightarrow> nat" where
  "critical_time F st = max (find_max_funcQbits (qbit_names F) (funcQbits st)) (highestDelay st)"

definition start_table :: "crit_func \<Rightarrow> crit_state \<Rightarrow> qbit_table option" where
  "start_table F st =
     (let critTimeF = critical_time F st; halfCritTime = critTimeF div 2
      in if isLeaf st \<and> critTimeF > 3
         then Option.bind (gen_half_funcQbits st critTimeF halfCritTime)
           (\<lambda>half. map_option fst (schedule_alap_insts st critTimeF halfCritTime half))
         else Some (init_funcQbitsHalf 1 (funcQbits st)))"

definition saveTable :: "crit_func \<Rightarrow> qbit_table \<Rightarrow> (nat \<rightharpoonup> (int \<rightharpoonup> nat))" where
  "saveTable F tab = (\<lambda>i. case map_of (map (\<lambda>(n, k). (k, n)) (fn_params F)) i of None \<Rightarrow> None | Some n \<Rightarrow> tab n)"

definition CountCriticalFunctionResources :: "func_table \<Rightarrow> crit_func \<Rightarrow> (crit_state \<times> func_info) option" where
  "CountCriticalFunctionResources ft F =
     Option.bind (calc_all ft (qbit_names F) (filter (\<lambda>g. args g \<noteq> []) (fn_calls F)) (init_critical_path_algo F)) (\<lambda>st.
       map_option (\<lambda>half. (st, \<lparr>tableFuncQbits = saveTable F (funcQbits st), tableFuncQbitsStart = saveTable F half, crit_path_f = critical_time F st\<rparr>))
         (start_table F st))"

text \<open>The line of each function: its name, its critical path and whether it is a leaf.\<close>

fun get_critical_paths :: "func_table \<Rightarrow> crit_func list \<Rightarrow> (string \<times> nat \<times> bool) list option" where
  "get_critical_paths ft [] = Some []"
| "get_critical_paths ft (F # Fs) =
     (case CountCriticalFunctionResources ft F of None \<Rightarrow> None
      | Some (st, info) \<Rightarrow>
          map_option ((#) (fn_name F, crit_path_f info, isLeaf st)) (get_critical_paths (ft(fn_name F \<mapsto> info)) Fs))"

end
