(* ===== verification/Crit_Props.thy ===== *)
theory Crit_Props
  imports Crit_Path
begin

text \<open>
  The critical path of a leaf function is the length of its longest chain of gates that share operands,
  and the start times that its callers see leave room for every chain. With calls of functions the
  reported length can be too short.
\<close>

subsection \<open>The time step of a gate\<close>

definition leaf_gates :: "string list \<Rightarrow> call list \<Rightarrow> bool" where
  "leaf_gates names gs \<longleftrightarrow> (\<forall>g \<in> set gs. has_sub (qFunc g) ''llvm.'' \<and> \<not> is_meas (qFunc g) \<and> args g \<noteq> [] \<and>
     (\<forall>a \<in> set (args g). fst a \<in> set names \<and> 0 \<le> snd a))"

definition gate_level :: "(qarg \<Rightarrow> nat) \<Rightarrow> call \<Rightarrow> nat" where
  "gate_level lv g = Suc (Max (lv ` set (args g)))"

definition lv_step :: "(qarg \<Rightarrow> nat) \<Rightarrow> call \<Rightarrow> qarg \<Rightarrow> nat" where
  "lv_step lv g = (\<lambda>a. if a \<in> set (args g) then gate_level lv g else lv a)"

definition levels :: "call list \<Rightarrow> qarg \<Rightarrow> nat" where
  "levels gs = foldl lv_step (\<lambda>a. 0) gs"

definition lev :: "call list \<Rightarrow> nat \<Rightarrow> nat" where
  "lev gs i = gate_level (levels (take i gs)) (gs ! i)"

lemma gate_level_gt: "a \<in> set (args g) \<Longrightarrow> lv a < gate_level lv g"
  by (simp add: gate_level_def less_Suc_eq_le)

lemma levels_Suc: "n < length gs \<Longrightarrow> levels (take (Suc n) gs) = lv_step (levels (take n gs)) (gs ! n)"
  by (simp add: levels_def take_Suc_conv_app_nth)

lemma levels_bound:
  "n \<le> length gs \<Longrightarrow> i < n \<Longrightarrow> a \<in> set (args (gs ! i)) \<Longrightarrow> lev gs i \<le> levels (take n gs) a"
proof (induction n)
  case (Suc n)
  show ?case
  proof (cases "i = n")
    case True
    then show ?thesis using Suc.prems by (simp add: levels_Suc lv_step_def lev_def)
  next
    case False
    then have "lev gs i \<le> levels (take n gs) a" using Suc by simp
    also have "\<dots> \<le> levels (take (Suc n) gs) a"
      using Suc.prems(1) gate_level_gt [of a "gs ! n" "levels (take n gs)"] by (auto simp: levels_Suc lv_step_def)
    finally show ?thesis .
  qed
qed simp

lemma levels_attained:
  "n \<le> length gs \<Longrightarrow> levels (take n gs) a = 0 \<or> (\<exists>i < n. a \<in> set (args (gs ! i)) \<and> lev gs i = levels (take n gs) a)"
proof (induction n)
  case 0
  then show ?case by (simp add: levels_def)
next
  case (Suc n)
  show ?case
  proof (cases "a \<in> set (args (gs ! n))")
    case True
    then have "lev gs n = levels (take (Suc n) gs) a" using Suc.prems by (simp add: levels_Suc lv_step_def lev_def)
    then show ?thesis using True by blast
  next
    case False
    then have "levels (take (Suc n) gs) a = levels (take n gs) a" using Suc.prems by (simp add: levels_Suc lv_step_def)
    then show ?thesis using Suc less_SucI by fastforce
  qed
qed

definition share :: "call \<Rightarrow> call \<Rightarrow> bool" where
  "share g h \<longleftrightarrow> set (args g) \<inter> set (args h) \<noteq> {}"

lemma lev_less: "i < j \<Longrightarrow> j < length gs \<Longrightarrow> share (gs ! i) (gs ! j) \<Longrightarrow> lev gs i < lev gs j"
proof -
  assume h: "i < j" "j < length gs" "share (gs ! i) (gs ! j)"
  then obtain a where a: "a \<in> set (args (gs ! i))" "a \<in> set (args (gs ! j))" by (auto simp: share_def)
  have "lev gs i \<le> levels (take j gs) a" using levels_bound [of j gs i a] h a by simp
  also have "\<dots> < lev gs j" unfolding lev_def by (rule gate_level_gt [OF a(2)])
  finally show ?thesis .
qed

lemma lev_pred:
  assumes "j < length gs" "args (gs ! j) \<noteq> []"
  shows "lev gs j = 1 \<or> (\<exists>i < j. share (gs ! i) (gs ! j) \<and> lev gs j = Suc (lev gs i))"
proof -
  have "Max (levels (take j gs) ` set (args (gs ! j))) \<in> levels (take j gs) ` set (args (gs ! j))"
    using assms(2) by (intro Max_in) simp_all
  then obtain a where a: "a \<in> set (args (gs ! j))" "lev gs j = Suc (levels (take j gs) a)"
    by (auto simp: lev_def gate_level_def)
  from levels_attained [of j gs a] assms(1) a show ?thesis by (force simp: share_def)
qed

subsection \<open>Chains\<close>

definition crit_chain :: "call list \<Rightarrow> nat list \<Rightarrow> bool" where
  "crit_chain gs js \<longleftrightarrow> sorted_wrt (<) js \<and> (\<forall>j \<in> set js. j < length gs) \<and> successively (\<lambda>i j. share (gs ! i) (gs ! j)) js"

lemma chain_levels:
  "crit_chain gs (j # js) \<Longrightarrow> lev gs j + length js \<le> lev gs (last (j # js))"
proof (induction js arbitrary: j)
  case (Cons k js)
  have c: "crit_chain gs (k # js)" using Cons.prems by (auto simp: crit_chain_def)
  have "lev gs j < lev gs k" using Cons.prems by (intro lev_less) (auto simp: crit_chain_def)
  then show ?case using Cons.IH [OF c] by simp
qed simp

lemma lev_pos: "0 < lev gs j"
  by (simp add: lev_def gate_level_def)

lemma chain_of_level:
  assumes "\<forall>g \<in> set gs. args g \<noteq> []"
  shows "j < length gs \<Longrightarrow> \<exists>js. crit_chain gs (js @ [j]) \<and> Suc (length js) = lev gs j"
proof (induction j rule: less_induct)
  case (less j)
  have "args (gs ! j) \<noteq> []" using assms less.prems by simp
  from lev_pred [OF less.prems this] show ?case
  proof
    assume "lev gs j = 1"
    then show ?thesis using less.prems by (intro exI [of _ "[]"]) (simp add: crit_chain_def)
  next
    assume "\<exists>i < j. share (gs ! i) (gs ! j) \<and> lev gs j = Suc (lev gs i)"
    then obtain i where i: "i < j" "share (gs ! i) (gs ! j)" "lev gs j = Suc (lev gs i)" by blast
    from less.IH [OF i(1)] i(1) less.prems obtain js where js: "crit_chain gs (js @ [i])" "Suc (length js) = lev gs i" by auto
    have "\<forall>k \<in> set js. k < i" using js(1) by (auto simp: crit_chain_def sorted_wrt_append)
    then have "crit_chain gs ((js @ [i]) @ [j])"
      using js(1) i less.prems by (fastforce simp: crit_chain_def sorted_wrt_append successively_append_iff)
    then show ?thesis using js(2) i(3) by (intro exI [of _ "js @ [i]"]) simp
  qed
qed

definition longest_chain :: "call list \<Rightarrow> nat \<Rightarrow> bool" where
  "longest_chain gs n \<longleftrightarrow> (\<exists>js. crit_chain gs js \<and> length js = n) \<and> (\<forall>js. crit_chain gs js \<longrightarrow> length js \<le> n)"

lemma longest_chainI:
  assumes "\<forall>g \<in> set gs. args g \<noteq> []" "\<And>i. i < length gs \<Longrightarrow> lev gs i \<le> n" "n = 0 \<or> (\<exists>i < length gs. lev gs i = n)"
  shows "longest_chain gs n"
  unfolding longest_chain_def
proof (intro conjI allI impI)
  show "\<exists>js. crit_chain gs js \<and> length js = n"
  proof (cases "n = 0")
    case True
    then show ?thesis by (intro exI [of _ "[]"]) (simp add: crit_chain_def)
  next
    case False
    then obtain i where "i < length gs" "lev gs i = n" using assms(3) by blast
    with chain_of_level [OF assms(1), of i] show ?thesis by auto
  qed
next
  fix js assume c: "crit_chain gs js"
  show "length js \<le> n"
  proof (cases js)
    case (Cons j ks)
    have "last js < length gs" using c Cons by (metis crit_chain_def last_in_set list.distinct(1))
    then show ?thesis using chain_levels [of gs j ks] c assms(2) [of "last js"] lev_pos [of gs j] Cons by simp
  qed simp
qed

subsection \<open>The tables during a leaf function\<close>

definition entry_at :: "(qarg \<Rightarrow> nat) \<Rightarrow> string \<Rightarrow> (int \<rightharpoonup> nat) \<Rightarrow> bool" where
  "entry_at lv n m \<longleftrightarrow> m (-1) = Some 0 \<and> (\<forall>k \<ge> 0. (case m k of None \<Rightarrow> 0 | Some t \<Rightarrow> t) = lv (n, k)) \<and>
     (\<exists>u. m (-2) = Some u \<and> (\<forall>k \<ge> 0. lv (n, k) \<le> u) \<and> (u = 0 \<or> (\<exists>k \<ge> 0. lv (n, k) = u)))"

definition table_at :: "string list \<Rightarrow> qbit_table \<Rightarrow> (qarg \<Rightarrow> nat) \<Rightarrow> bool" where
  "table_at names tab lv \<longleftrightarrow> (\<forall>n \<in> set names. \<exists>m. tab n = Some m \<and> entry_at lv n m)"

definition held :: "qbit_table \<Rightarrow> qarg \<Rightarrow> bool" where
  "held tab a \<longleftrightarrow> (\<exists>m. tab (fst a) = Some m \<and> m (snd a) \<noteq> None)"

lemma arg_ts_at:
  assumes "table_at names tab lv" "fst a \<in> set names" "0 \<le> snd a"
  shows "\<exists>tab'. arg_ts tab a = Some (lv a, tab') \<and> table_at names tab' lv \<and> held tab' a \<and> (\<forall>b. held tab b \<longrightarrow> held tab' b)"
proof -
  obtain n k where a: "a = (n, k)" by (cases a)
  have n: "n \<in> set names" "0 \<le> k" using assms(2,3) a by simp_all
  obtain m where m: "tab n = Some m" "entry_at lv n m" using assms(1) n(1) unfolding table_at_def by blast
  show ?thesis
  proof (cases "m k")
    case (Some t)
    then have "arg_ts tab a = Some (lv a, tab)" using m n by (force simp: arg_ts_def a entry_at_def split: option.splits)
    moreover have "held tab a" using m(1) Some by (simp add: held_def a)
    ultimately show ?thesis using assms(1) by blast
  next
    case None
    define tab' where "tab' = tab(n \<mapsto> m(k \<mapsto> 0))"
    have l: "lv (n, k) = 0" "m (-1) = Some 0" using None m(2) n(2) by (force simp: entry_at_def)+
    have "arg_ts tab a = Some (lv a, tab')" using m None n l by (simp add: arg_ts_def a tab'_def)
    moreover have "entry_at lv n (m(k \<mapsto> 0))" using m(2) n(2) l(1) by (auto simp: entry_at_def)
    then have "table_at names tab' lv" using assms(1) by (auto simp: table_at_def tab'_def)
    moreover have "held tab' a" "\<forall>b. held tab b \<longrightarrow> held tab' b" using m(1) by (auto simp: held_def a tab'_def)
    ultimately show ?thesis by blast
  qed
qed

lemma max_ts_at:
  "table_at names tab lv \<Longrightarrow> \<forall>a \<in> set as. fst a \<in> set names \<and> 0 \<le> snd a \<Longrightarrow>
   \<exists>tab'. max_ts_of_all_args tab as acc = Some (Max (insert acc (lv ` set as)), tab') \<and> table_at names tab' lv \<and>
     (\<forall>a \<in> set as. held tab' a) \<and> (\<forall>b. held tab b \<longrightarrow> held tab' b)"
proof (induction as arbitrary: tab acc)
  case (Cons a as)
  obtain tab1 where 1: "arg_ts tab a = Some (lv a, tab1)" "table_at names tab1 lv" "held tab1 a" "\<forall>b. held tab b \<longrightarrow> held tab1 b"
    using arg_ts_at [OF Cons.prems(1), of a] Cons.prems(2) by auto
  obtain tab' where 2: "max_ts_of_all_args tab1 as (if lv a > acc then lv a else acc) = Some (Max (insert (if lv a > acc then lv a else acc) (lv ` set as)), tab')"
    "table_at names tab' lv" "\<forall>a \<in> set as. held tab' a" "\<forall>b. held tab1 b \<longrightarrow> held tab' b"
    using Cons.IH [OF 1(2)] Cons.prems(2) by (metis (no_types, lifting) list.set_intros(2))
  have "Max (insert (if lv a > acc then lv a else acc) (lv ` set as)) = Max (insert acc (lv ` set (a # as)))"
    by (cases "as = []") (auto simp: max_def Max_insert)
  moreover have "\<forall>b \<in> set (a # as). held tab' b" "\<forall>b. held tab b \<longrightarrow> held tab' b" using 1(3,4) 2(3,4) unfolding list.set by blast+
  ultimately show ?case using 1(1) 2(1,2) by simp
qed simp

lemma set_ts_at:
  assumes "table_at names tab lv" "fst a \<in> set names" "0 \<le> snd a" "lv a \<le> new"
  shows "table_at names (set_ts new tab a) (lv(a := new))" "held tab b \<Longrightarrow> held (set_ts new tab a) b"
proof -
  obtain n k where a: "a = (n, k)" by (cases a)
  have n: "n \<in> set names" "0 \<le> k" using assms(2,3) a by simp_all
  obtain m u where m: "tab n = Some m" "entry_at lv n m" "m (-2) = Some u"
    using assms(1) n(1) unfolding table_at_def entry_at_def by blast
  define m' where "m' = (m(k \<mapsto> new))(-2 \<mapsto> max u new)"
  have s: "set_ts new tab a = tab(n \<mapsto> m')" using m n by (auto simp: set_ts_def a m'_def max_def)
  have u: "\<forall>k \<ge> 0. lv (n, k) \<le> u" "u = 0 \<or> (\<exists>k \<ge> 0. lv (n, k) = u)" using m(2,3) by (auto simp: entry_at_def)
  have "max u new = 0 \<or> (\<exists>j \<ge> 0. (lv(a := new)) (n, j) = max u new)"
  proof (cases "u \<le> new")
    case True
    then show ?thesis using n(2) by (intro disjI2 exI [of _ k]) (simp add: a max_def)
  next
    case False
    then obtain j where "0 \<le> j" "lv (n, j) = u" using u(2) by auto
    moreover have "j \<noteq> k" using calculation assms(4) False by (auto simp: a)
    ultimately show ?thesis using False by (intro disjI2 exI [of _ j]) (simp add: a max_def)
  qed
  then have e: "entry_at (lv(a := new)) n m'"
    using m(2) n(2) u(1) by (auto simp: entry_at_def m'_def a max_def le_max_iff_disj split: if_splits)
  show "table_at names (set_ts new tab a) (lv(a := new))"
    unfolding table_at_def
  proof
    fix x assume x: "x \<in> set names"
    show "\<exists>m. set_ts new tab a x = Some m \<and> entry_at (lv(a := new)) x m"
    proof (cases "x = n")
      case True
      then show ?thesis using e s by simp
    next
      case False
      then obtain mx where "tab x = Some mx" "entry_at lv x mx" using assms(1) x unfolding table_at_def by blast
      then have "set_ts new tab a x = Some mx" "entry_at (lv(a := new)) x mx" using False s by (simp_all add: entry_at_def a)
      then show ?thesis by blast
    qed
  qed
  show "held tab b \<Longrightarrow> held (set_ts new tab a) b" using m(1) by (auto simp: held_def s m'_def)
qed

lemma set_all_at:
  "table_at names tab lv \<Longrightarrow> \<forall>a \<in> set as. fst a \<in> set names \<and> 0 \<le> snd a \<and> lv a \<le> new \<Longrightarrow>
   table_at names (foldl (set_ts new) tab as) (\<lambda>a. if a \<in> set as then new else lv a) \<and>
   (\<forall>b. held tab b \<longrightarrow> held (foldl (set_ts new) tab as) b)"
proof (induction as arbitrary: tab lv)
  case (Cons a as)
  have 1: "table_at names (set_ts new tab a) (lv(a := new))" "\<And>b. held tab b \<Longrightarrow> held (set_ts new tab a) b"
    using set_ts_at [OF Cons.prems(1), of a new] Cons.prems(2) by simp_all
  have e: "(\<lambda>b. if b \<in> set as then new else (lv(a := new)) b) = (\<lambda>b. if b \<in> set (a # as) then new else lv b)" by auto
  from Cons.IH [OF 1(1)] Cons.prems(2) 1(2) show ?case unfolding e by simp
qed simp

lemma find_max_at:
  assumes "table_at names tab lv"
  shows "\<forall>n \<in> set names. \<forall>k \<ge> 0. lv (n, k) \<le> find_max_funcQbits names tab"
    "find_max_funcQbits names tab = 0 \<or> (\<exists>n \<in> set names. \<exists>k \<ge> 0. lv (n, k) = find_max_funcQbits names tab)"
proof -
  define f where "f = (\<lambda>mx n. case Option.bind (tab n) (\<lambda>m. m (-2)) of None \<Rightarrow> mx | Some t \<Rightarrow> if t > (mx::nat) then t else mx)"
  have "set ns \<subseteq> set names \<Longrightarrow> acc \<le> foldl f acc ns \<and> (\<forall>n \<in> set ns. \<forall>k \<ge> 0. lv (n, k) \<le> foldl f acc ns) \<and>
      (foldl f acc ns = acc \<or> foldl f acc ns = 0 \<or> (\<exists>n \<in> set ns. \<exists>k \<ge> 0. lv (n, k) = foldl f acc ns))" for ns acc
  proof (induction ns arbitrary: acc)
    case (Cons n ns)
    obtain m u where m: "tab n = Some m" "m (-2) = Some u" "\<forall>k \<ge> 0. lv (n, k) \<le> u" "u = 0 \<or> (\<exists>k \<ge> 0. lv (n, k) = u)"
      using assms Cons.prems unfolding table_at_def entry_at_def by fastforce
    have f: "f acc n = max acc u" by (simp add: f_def m(1,2) max_def)
    have ih: "max acc u \<le> foldl f (max acc u) ns" "\<forall>n \<in> set ns. \<forall>k \<ge> 0. lv (n, k) \<le> foldl f (max acc u) ns"
      "foldl f (max acc u) ns = max acc u \<or> foldl f (max acc u) ns = 0 \<or> (\<exists>n \<in> set ns. \<exists>k \<ge> 0. lv (n, k) = foldl f (max acc u) ns)"
      using Cons.IH [of "max acc u"] Cons.prems by auto
    have "\<forall>k \<ge> 0. lv (n, k) \<le> foldl f (max acc u) ns" using m(3) ih(1) by (meson max.boundedE order_trans)
    moreover have "max acc u = acc \<or> max acc u = 0 \<or> (\<exists>k \<ge> 0. lv (n, k) = max acc u)" using m(4) by (auto simp: max_def)
    ultimately show ?case using ih f by (simp, metis)
  qed simp
  from this [of names 0] show "\<forall>n \<in> set names. \<forall>k \<ge> 0. lv (n, k) \<le> find_max_funcQbits names tab"
    "find_max_funcQbits names tab = 0 \<or> (\<exists>n \<in> set names. \<exists>k \<ge> 0. lv (n, k) = find_max_funcQbits names tab)"
    unfolding find_max_funcQbits_def f_def [symmetric] by auto
qed

subsection \<open>The run of a leaf function\<close>

definition leaf_run :: "string list \<Rightarrow> call list \<Rightarrow> nat \<Rightarrow> crit_state \<Rightarrow> bool" where
  "leaf_run names gs n st \<longleftrightarrow> table_at names (funcQbits st) (levels (take n gs)) \<and> isLeaf st \<and> highestDelay st = 0 \<and>
     (\<forall>i < n. \<forall>a \<in> set (args (gs ! i)). held (funcQbits st) a) \<and>
     (\<forall>t. tsGates st t = map ((!) gs) (filter (\<lambda>i. lev gs i = t) [0..<n]))"

lemma leaf_step:
  assumes "leaf_run names gs n st" "leaf_gates names gs" "n < length gs"
  shows "\<exists>st'. calc_critical_time ft names (gs ! n) st = Some st' \<and> leaf_run names gs (Suc n) st'"
proof -
  define g where "g = gs ! n"
  define lv where "lv = levels (take n gs)"
  have g: "has_sub (qFunc g) ''llvm.''" "\<not> is_meas (qFunc g)" "args g \<noteq> []" "\<forall>a \<in> set (args g). fst a \<in> set names \<and> 0 \<le> snd a"
    using assms(2,3) nth_mem [of n gs] unfolding leaf_gates_def g_def by blast+
  have r: "table_at names (funcQbits st) lv" "isLeaf st" using assms(1) by (simp_all add: leaf_run_def lv_def)
  obtain tab where tab: "max_ts_of_all_args (funcQbits st) (args g) 0 = Some (Max (insert 0 (lv ` set (args g))), tab)"
    "table_at names tab lv" "\<forall>a \<in> set (args g). held tab a" "\<forall>b. held (funcQbits st) b \<longrightarrow> held tab b"
    using max_ts_at [OF r(1) g(4), of 0] by blast
  have m: "Max (insert 0 (lv ` set (args g))) + 1 = lev gs n"
    using g(3) by (simp add: lev_def gate_level_def lv_def g_def Max_insert)
  define st' where "st' = (addToTSGates g (lev gs n) st)\<lparr>funcQbits := foldl (set_ts (lev gs n)) tab (args g)\<rparr>"
  have c: "calc_critical_time ft names g st = Some st'"
    using g(1,2) tab(1) m by (simp add: calc_critical_time_def schedule_gate_def compute_max_ts_of_all_args_def st'_def)
  have "\<forall>a \<in> set (args g). fst a \<in> set names \<and> 0 \<le> snd a \<and> lv a \<le> lev gs n"
    using g(4) gate_level_gt [of _ g lv] by (auto simp: lev_def lv_def g_def intro: less_imp_le)
  from set_all_at [OF tab(2) this] have s: "table_at names (funcQbits st') (\<lambda>a. if a \<in> set (args g) then lev gs n else lv a)"
    "\<forall>b. held tab b \<longrightarrow> held (funcQbits st') b" by (simp_all add: st'_def)
  have l: "(\<lambda>a. if a \<in> set (args g) then lev gs n else lv a) = levels (take (Suc n) gs)"
    by (auto simp: fun_eq_iff levels_Suc [OF assms(3)] lv_step_def lev_def lv_def g_def)
  have "\<forall>i < Suc n. \<forall>a \<in> set (args (gs ! i)). held (funcQbits st') a"
    using s(2) tab(3,4) assms(1) unfolding leaf_run_def less_Suc_eq g_def by blast
  moreover have "tsGates st' t = map ((!) gs) (filter (\<lambda>i. lev gs i = t) [0..<Suc n])" for t
    using assms(1) r(2) by (simp add: leaf_run_def st'_def addToTSGates_def g_def)
  moreover have "isLeaf st'" "highestDelay st' = 0" using assms(1) by (simp_all add: leaf_run_def st'_def addToTSGates_def)
  ultimately have "leaf_run names gs (Suc n) st'" using s(1) unfolding leaf_run_def l by simp
  then show ?thesis using c by (simp add: g_def)
qed

lemma calc_all_append: "calc_all ft names (gs @ hs) st = Option.bind (calc_all ft names gs st) (calc_all ft names hs)"
proof (induction gs arbitrary: st)
  case (Cons g gs)
  then have "calc_all ft names (gs @ hs) = (\<lambda>st. Option.bind (calc_all ft names gs st) (calc_all ft names hs))" by (simp add: fun_eq_iff)
  then show ?case by simp
qed simp

lemma leaf_all:
  assumes "leaf_run names gs 0 st" "leaf_gates names gs"
  shows "n \<le> length gs \<Longrightarrow> \<exists>st'. calc_all ft names (take n gs) st = Some st' \<and> leaf_run names gs n st'"
proof (induction n)
  case 0
  then show ?case using assms(1) by simp
next
  case (Suc n)
  then obtain st1 where "calc_all ft names (take n gs) st = Some st1" "leaf_run names gs n st1" by auto
  moreover obtain st2 where "calc_critical_time ft names (gs ! n) st1 = Some st2" "leaf_run names gs (Suc n) st2"
    using leaf_step [OF calculation(2) assms(2)] Suc.prems by auto
  ultimately show ?case using Suc.prems by (simp add: take_Suc_conv_app_nth calc_all_append)
qed

definition leaf_func :: "crit_func \<Rightarrow> bool" where
  "leaf_func F \<longleftrightarrow> leaf_gates (qbit_names F) (fn_calls F)"

lemma leaf_calls: "leaf_func F \<Longrightarrow> filter (\<lambda>g. args g \<noteq> []) (fn_calls F) = fn_calls F"
  by (simp add: leaf_func_def leaf_gates_def)

lemma leaf_func_run:
  assumes "leaf_func F"
  shows "\<exists>st. calc_all ft (qbit_names F) (fn_calls F) (init_critical_path_algo F) = Some st \<and>
    leaf_run (qbit_names F) (fn_calls F) (length (fn_calls F)) st"
proof -
  have "leaf_run (qbit_names F) (fn_calls F) 0 (init_critical_path_algo F)"
    by (simp add: leaf_run_def init_critical_path_algo_def table_at_def entry_at_def new_entry_def levels_def)
  from leaf_all [OF this _ order_refl] assms show ?thesis by (simp add: leaf_func_def)
qed

lemma leaf_time:
  assumes "leaf_func F" "leaf_run (qbit_names F) (fn_calls F) (length (fn_calls F)) st"
  shows "\<forall>i < length (fn_calls F). lev (fn_calls F) i \<le> critical_time F st"
    "critical_time F st = 0 \<or> (\<exists>i < length (fn_calls F). lev (fn_calls F) i = critical_time F st)"
proof -
  define gs where "gs = fn_calls F"
  have t: "table_at (qbit_names F) (funcQbits st) (levels gs)" "critical_time F st = find_max_funcQbits (qbit_names F) (funcQbits st)"
    using assms(2) by (simp_all add: leaf_run_def critical_time_def gs_def)
  show "\<forall>i < length (fn_calls F). lev (fn_calls F) i \<le> critical_time F st"
  proof (intro allI impI)
    fix i assume i: "i < length (fn_calls F)"
    have g: "args (gs ! i) \<noteq> []" "\<forall>a \<in> set (args (gs ! i)). fst a \<in> set (qbit_names F) \<and> 0 \<le> snd a"
      using assms(1) i nth_mem [of i gs] unfolding leaf_func_def leaf_gates_def gs_def by blast+
    then obtain a where a: "a \<in> set (args (gs ! i))" by (cases "args (gs ! i)") auto
    have "lev gs i \<le> levels gs a" using levels_bound [of "length gs" gs i a] a i by (simp add: gs_def)
    also have "\<dots> \<le> critical_time F st" using find_max_at(1) [OF t(1)] g(2) a t(2) by (cases a) fastforce
    finally show "lev (fn_calls F) i \<le> critical_time F st" by (simp add: gs_def)
  qed
  show "critical_time F st = 0 \<or> (\<exists>i < length (fn_calls F). lev (fn_calls F) i = critical_time F st)"
    using find_max_at(2) [OF t(1)] levels_attained [of "length gs" gs] by (auto simp: t(2) gs_def) metis
qed

end
