(* ===== verification/Crit_Slack.thy ===== *)
theory Crit_Slack
  imports Crit_Props
begin

text \<open>
  The start times that callers see of the operands of a leaf function: they are not before the first
  use as soon as possible, and every chain of gates from there still ends within the critical path.
\<close>

subsection \<open>Reading the table of start times\<close>

definition hv :: "qbit_table \<Rightarrow> qarg \<Rightarrow> nat" where
  "hv half a = (case half (fst a) of None \<Rightarrow> 0 | Some m \<Rightarrow> (case m (snd a) of None \<Rightarrow> 0 | Some t \<Rightarrow> t))"

lemma heldE:
  assumes "held half (n, k)"
  obtains m t where "half n = Some m" "m k = Some t" "hv half (n, k) = t"
  using assms by (auto simp: held_def hv_def)

lemma lower_args_ok:
  "\<forall>a \<in> set as. held half a \<and> 0 \<le> snd a \<Longrightarrow>
   \<exists>half'. lower_args i as half = Some half' \<and> (\<forall>b. held half' b = held half b) \<and>
     (\<forall>b. hv half' b = (if b \<in> set as \<and> i < hv half b then i else hv half b))"
proof (induction as arbitrary: half)
  case (Cons a as)
  obtain n k where a: "a = (n, k)" by (cases a)
  have h: "held half (n, k)" "0 \<le> k" using Cons.prems a by simp_all
  obtain m t where m: "half n = Some m" "m k = Some t" "hv half (n, k) = t" by (rule heldE [OF h(1)])
  define half1 where "half1 = (if i < t then half(n \<mapsto> m(k \<mapsto> i)) else half)"
  have 1: "held half1 b = held half b" "hv half1 b = (if b = a \<and> i < hv half b then i else hv half b)" for b
  proof -
    obtain x y where b: "b = (x, y)" by (cases b)
    show "held half1 b = held half b" "hv half1 b = (if b = a \<and> i < hv half b then i else hv half b)"
      using m(1,2) by (cases "x = n"; cases "y = k"; simp add: half1_def held_def hv_def a b)+
  qed
  obtain half' where 2: "lower_args i as half1 = Some half'" "\<forall>b. held half' b = held half1 b"
    "\<forall>b. hv half' b = (if b \<in> set as \<and> i < hv half1 b then i else hv half1 b)"
    using Cons.IH [of half1] Cons.prems 1(1) by auto
  have "lower_args i (a # as) half = Some half'" using 2(1) m h(2) by (simp add: a half1_def)
  moreover have "held half' b = held half b" for b using 1(1) 2(2) by metis
  moreover have "hv half' b = (if b \<in> set (a # as) \<and> i < hv half b then i else hv half b)" for b
    using 1(2) [of b] 2(3) [rule_format, of b] by (cases "b \<in> set as"; cases "b = a"; simp)
  ultimately show ?case by blast
qed simp

lemma lower_gates_ok:
  "\<forall>g \<in> set gs. \<forall>a \<in> set (args g). held half a \<and> 0 \<le> snd a \<Longrightarrow>
   \<exists>half'. lower_gates i gs half = Some half' \<and> (\<forall>b. held half' b = held half b) \<and>
     (\<forall>b. hv half' b = (if (\<exists>g \<in> set gs. b \<in> set (args g)) \<and> i < hv half b then i else hv half b))"
proof (induction gs arbitrary: half)
  case (Cons g gs)
  obtain half1 where 1: "lower_args i (args g) half = Some half1" "\<forall>b. held half1 b = held half b"
    "\<forall>b. hv half1 b = (if b \<in> set (args g) \<and> i < hv half b then i else hv half b)"
    using lower_args_ok [of "args g" half i] Cons.prems by auto
  obtain half' where 2: "lower_gates i gs half1 = Some half'" "\<forall>b. held half' b = held half1 b"
    "\<forall>b. hv half' b = (if (\<exists>g \<in> set gs. b \<in> set (args g)) \<and> i < hv half1 b then i else hv half1 b)"
    using Cons.IH [of half1] Cons.prems 1(2) by auto
  have "hv half' b = (if (\<exists>g \<in> set (g # gs). b \<in> set (args g)) \<and> i < hv half b then i else hv half b)" for b
    using 1(3) [rule_format, of b] 2(3) [rule_format, of b]
    by (cases "\<exists>g \<in> set gs. b \<in> set (args g)"; cases "b \<in> set (args g)"; simp)
  then show ?case using 1(1,2) 2(1,2) by auto
qed simp

text \<open>A value after the steps \<open>is\<close> is the old one or the step of a gate.\<close>

definition lowered :: "(nat \<Rightarrow> call list) \<Rightarrow> nat list \<Rightarrow> qbit_table \<Rightarrow> qbit_table \<Rightarrow> bool" where
  "lowered gates is half half' \<longleftrightarrow> (\<forall>b. held half' b = held half b) \<and> (\<forall>b. hv half' b \<le> hv half b) \<and>
     (\<forall>b. hv half' b = hv half b \<or> (\<exists>i \<in> set is. (\<exists>g \<in> set (gates i). b \<in> set (args g)) \<and> hv half' b = i)) \<and>
     (\<forall>i \<in> set is. \<forall>g \<in> set (gates i). \<forall>b \<in> set (args g). hv half' b \<le> i)"

lemma lower_steps_ok:
  "\<forall>i \<in> set is. gates i \<noteq> [] \<and> (\<forall>g \<in> set (gates i). \<forall>a \<in> set (args g). held half a \<and> 0 \<le> snd a) \<Longrightarrow>
   \<exists>half'. lower_steps gates is half = Some half' \<and> lowered gates is half half'"
proof (induction "is" arbitrary: half)
  case Nil
  then show ?case by (simp add: lowered_def)
next
  case (Cons i "is")
  obtain half1 where 1: "lower_gates i (gates i) half = Some half1" "\<forall>b. held half1 b = held half b"
    "\<forall>b. hv half1 b = (if (\<exists>g \<in> set (gates i). b \<in> set (args g)) \<and> i < hv half b then i else hv half b)"
    using lower_gates_ok [of "gates i" half i] Cons.prems by auto
  obtain half' where 2: "lower_steps gates is half1 = Some half'" "lowered gates is half1 half'"
    using Cons.IH [of half1] Cons.prems 1(2) by auto
  have le: "hv half1 b \<le> hv half b" "(\<exists>g \<in> set (gates i). b \<in> set (args g)) \<Longrightarrow> hv half1 b \<le> i" for b
    using 1(3) [rule_format, of b] by (simp, force)
  have "lowered gates (i # is) half half'"
    unfolding lowered_def
  proof (intro conjI allI ballI)
    fix b
    show "held half' b = held half b" using 2(2) 1(2) unfolding lowered_def by blast
    show "hv half' b \<le> hv half b" using 2(2) le(1) [of b] unfolding lowered_def by (meson order_trans)
    show "hv half' b = hv half b \<or> (\<exists>j \<in> set (i # is). (\<exists>g \<in> set (gates j). b \<in> set (args g)) \<and> hv half' b = j)"
    proof (cases "hv half' b = hv half1 b")
      case True
      then show ?thesis using 1(3) [rule_format, of b] by (auto split: if_splits)
    next
      case False
      then show ?thesis using 2(2) unfolding lowered_def by (meson list.set_intros(2))
    qed
  next
    fix j g b assume h: "j \<in> set (i # is)" "g \<in> set (gates j)" "b \<in> set (args g)"
    have "hv half' b \<le> hv half1 b" using 2(2) unfolding lowered_def by blast
    moreover have "j = i \<Longrightarrow> hv half1 b \<le> j" using le(2) [of b] h by blast
    moreover have "j \<in> set is \<Longrightarrow> hv half' b \<le> j" using 2(2) h unfolding lowered_def by blast
    ultimately show "hv half' b \<le> j" using h(1) by (metis order_trans set_ConsD)
  qed
  then show ?case using 1(1) 2(1) Cons.prems by auto
qed

lemma min_ts_ok:
  "\<forall>a \<in> set as. held half a \<and> 0 \<le> snd a \<Longrightarrow> min_ts_of_all_args half as acc = Some (Min (insert acc (hv half ` set as)))"
proof (induction as arbitrary: acc)
  case (Cons a as)
  obtain n k where a: "a = (n, k)" by (cases a)
  have h: "held half (n, k)" "0 \<le> k" using Cons.prems a by simp_all
  obtain m t where m: "half n = Some m" "m k = Some t" "hv half (n, k) = t" by (rule heldE [OF h(1)])
  have "min_ts_of_all_args half (a # as) acc = min_ts_of_all_args half as (min acc (hv half a))"
    using m h(2) by (simp add: a min_def)
  also have "\<dots> = Some (Min (insert (min acc (hv half a)) (hv half ` set as)))" using Cons by simp
  also have "Min (insert (min acc (hv half a)) (hv half ` set as)) = Min (insert acc (hv half ` set (a # as)))"
    by (cases "as = []") (simp_all add: Min_insert ac_simps)
  finally show ?case .
qed simp

lemma set_alap_ok:
  assumes "held half a" "0 \<le> snd a" "0 \<le> snd b"
  shows "held (set_alap new half a) b = held half b" "hv (set_alap new half a) b = (if b = a then new else hv half b)"
proof -
  obtain n k where a: "a = (n, k)" by (cases a)
  obtain m t where m: "half n = Some m" "m k = Some t" "hv half (n, k) = t" by (rule heldE [OF assms(1) [unfolded a]])
  show "held (set_alap new half a) b = held half b" "hv (set_alap new half a) b = (if b = a then new else hv half b)"
  proof -
    obtain x y where b: "b = (x, y)" by (cases b)
    have y: "y \<noteq> -2" using assms(3) b by simp
    show "held (set_alap new half a) b = held half b" "hv (set_alap new half a) b = (if b = a then new else hv half b)"
      using m(1,2) y by (cases "x = n"; cases "y = k"; simp add: set_alap_def a b held_def hv_def Let_def)+
  qed
qed

lemma set_alaps_ok:
  "\<forall>a \<in> set as. held half a \<and> 0 \<le> snd a \<Longrightarrow> 0 \<le> snd b \<Longrightarrow>
   held (foldl (set_alap new) half as) b = held half b \<and>
   hv (foldl (set_alap new) half as) b = (if b \<in> set as then new else hv half b)"
proof (induction as arbitrary: half)
  case (Cons a as)
  have a: "held half a" "0 \<le> snd a" using Cons.prems(1) by simp_all
  have "\<forall>x \<in> set as. held (set_alap new half a) x \<and> 0 \<le> snd x" using Cons.prems(1) set_alap_ok(1) [OF a] by auto
  from Cons.IH [OF this Cons.prems(2)] show ?case using set_alap_ok [OF a Cons.prems(2)] by auto
qed simp

subsection \<open>Moving gates\<close>

text \<open>\<open>P\<close> are the gates that have been looked at: chains that start with one of them have room until \<open>ct\<close>,
  and the others are used before the start times.\<close>

definition roomy :: "call list \<Rightarrow> nat \<Rightarrow> nat set \<Rightarrow> qbit_table \<Rightarrow> bool" where
  "roomy gs ct P half \<longleftrightarrow> (\<forall>j js a. j \<in> P \<longrightarrow> crit_chain gs (j # js) \<longrightarrow> a \<in> set (args (gs ! j)) \<longrightarrow> hv half a + length js \<le> ct)"

definition ahead :: "call list \<Rightarrow> nat set \<Rightarrow> qbit_table \<Rightarrow> bool" where
  "ahead gs P half \<longleftrightarrow> (\<forall>n a. n < length gs \<longrightarrow> n \<notin> P \<longrightarrow> a \<in> set (args (gs ! n)) \<longrightarrow> lev gs n < hv half a)"

definition not_early :: "call list \<Rightarrow> nat set \<Rightarrow> qbit_table \<Rightarrow> bool" where
  "not_early gs P half \<longleftrightarrow> (\<forall>n a. n \<in> P \<longrightarrow> a \<in> set (args (gs ! n)) \<longrightarrow> (\<exists>k \<in> P. a \<in> set (args (gs ! k)) \<and> lev gs k \<le> hv half a))"

definition all_held :: "call list \<Rightarrow> qbit_table \<Rightarrow> bool" where
  "all_held gs half \<longleftrightarrow> (\<forall>g \<in> set gs. \<forall>a \<in> set (args g). held half a \<and> 0 \<le> snd a)"

definition alap_inv :: "call list \<Rightarrow> nat \<Rightarrow> nat set \<Rightarrow> qbit_table \<Rightarrow> bool" where
  "alap_inv gs ct P half \<longleftrightarrow> all_held gs half \<and> roomy gs ct P half \<and> ahead gs P half \<and> not_early gs P half"

lemma share_sym: "share g h \<Longrightarrow> share h g"
  by (auto simp: share_def)

lemma chain_tail: "crit_chain gs (n # h # js) \<Longrightarrow> crit_chain gs (h # js) \<and> n < h \<and> h < length gs \<and> share (gs ! n) (gs ! h)"
  by (auto simp: crit_chain_def)

lemma alap_gate:
  assumes inv: "alap_inv gs ct P half" and n: "n < length gs" "n \<notin> P" "lev gs n < ct" "args (gs ! n) \<noteq> []"
    and P: "\<forall>k < length gs. lev gs n < lev gs k \<longrightarrow> k \<in> P" "\<forall>k \<in> P. k < length gs"
  shows "\<exists>m. min_ts_of_all_args half (args (gs ! n)) ct = Some m \<and>
    alap_inv gs ct (insert n P) (foldl (set_alap (m - 1)) half (args (gs ! n)))"
proof -
  define A where "A = set (args (gs ! n))"
  define m where "m = Min (insert ct (hv half ` A))"
  define half' where "half' = foldl (set_alap (m - 1)) half (args (gs ! n))"
  have held: "\<forall>a \<in> A. held half a \<and> 0 \<le> snd a" using inv nth_mem [OF n(1)] unfolding alap_inv_def all_held_def A_def by blast
  have e: "min_ts_of_all_args half (args (gs ! n)) ct = Some m" using min_ts_ok [of "args (gs ! n)" half ct] held by (simp add: m_def A_def)
  have m: "m \<le> ct" "\<forall>a \<in> A. m \<le> hv half a" "lev gs n < m"
  proof -
    have f: "finite (insert ct (hv half ` A))" "insert ct (hv half ` A) \<noteq> {}" by (simp_all add: A_def)
    have "\<forall>a \<in> A. lev gs n < hv half a" using inv n unfolding alap_inv_def ahead_def A_def by blast
    then have "\<forall>x \<in> insert ct (hv half ` A). lev gs n < x" using n(3) by blast
    then show "lev gs n < m" unfolding m_def Min_gr_iff [OF f] .
    show "m \<le> ct" "\<forall>a \<in> A. m \<le> hv half a" unfolding m_def using Min_le [OF f(1)] by blast+
  qed
  have h': "held half' b = held half b" "hv half' b = (if b \<in> A then m - 1 else hv half b)" if "0 \<le> snd b" for b
    using set_alaps_ok [of "args (gs ! n)" half b "m - 1"] held that by (simp_all add: half'_def A_def)
  have nn: "0 \<le> snd a" if "a \<in> set (args (gs ! k))" "k < length gs" for a k
    using inv that nth_mem [of k gs] unfolding alap_inv_def all_held_def by blast
  have le: "hv half' a \<le> hv half a" if "0 \<le> snd a" for a using h'(2) [OF that] m(2) by (auto simp: le_diff_conv)
  have "all_held gs half'" using inv h'(1) unfolding alap_inv_def all_held_def by blast
  moreover have "roomy gs ct (insert n P) half'"
    unfolding roomy_def
  proof (intro allI impI)
    fix j js a assume h: "j \<in> insert n P" "crit_chain gs (j # js)" "a \<in> set (args (gs ! j))"
    show "hv half' a + length js \<le> ct"
    proof (cases "j = n")
      case True
      have a: "hv half' a = m - 1" using h'(2) [of a] nn [of a n] h(3) n(1) True by (simp add: A_def)
      show ?thesis
      proof (cases js)
        case Nil
        then show ?thesis using a m(1) by simp
      next
        case (Cons k ks)
        note c = chain_tail [OF h(2) [unfolded Cons True]]
        have "lev gs n < lev gs k" using c by (intro lev_less) auto
        then have "k \<in> P" using P(1) c by blast
        moreover obtain b where "b \<in> A" "b \<in> set (args (gs ! k))" using c by (auto simp: share_def A_def)
        ultimately have "hv half b + length ks \<le> ct" "m \<le> hv half b" using inv c m(2) unfolding alap_inv_def roomy_def by blast+
        then show ?thesis using a m(3) Cons by simp
      qed
    next
      case False
      then have "j \<in> P" using h(1) by simp
      then have "hv half a + length js \<le> ct" "0 \<le> snd a" using inv h(2,3) nn P(2) unfolding alap_inv_def roomy_def by blast+
      then show ?thesis using le [of a] by linarith
    qed
  qed
  moreover have "ahead gs (insert n P) half'"
    unfolding ahead_def
  proof (intro allI impI)
    fix k a assume h: "k < length gs" "k \<notin> insert n P" "a \<in> set (args (gs ! k))"
    have o: "lev gs k < hv half a" "lev gs k \<le> lev gs n"
    proof -
      show "lev gs k < hv half a" using inv h unfolding alap_inv_def ahead_def by blast
      show "lev gs k \<le> lev gs n" using h(1,2) P(1) by (cases "lev gs n < lev gs k") simp_all
    qed
    show "lev gs k < hv half' a"
    proof (cases "a \<in> A")
      case True
      then have s: "share (gs ! k) (gs ! n)" using h(3) by (auto simp: share_def A_def)
      have "k \<noteq> n" using h(2) by simp
      then have "lev gs k \<noteq> lev gs n" using lev_less [of k n gs] lev_less [of n k gs] s share_sym [OF s] h(1) n(1) by (cases "k < n") auto
      then show ?thesis using o m(3) h'(2) [of a] nn h(1,3) True by fastforce
    next
      case False
      then show ?thesis using o h'(2) [of a] nn h(1,3) by simp
    qed
  qed
  moreover have "not_early gs (insert n P) half'"
    unfolding not_early_def
  proof (intro allI impI)
    fix k a assume h: "k \<in> insert n P" "a \<in> set (args (gs ! k))"
    have a: "0 \<le> snd a" using h nn n(1) P(2) by blast
    show "\<exists>k \<in> insert n P. a \<in> set (args (gs ! k)) \<and> lev gs k \<le> hv half' a"
    proof (cases "a \<in> A")
      case True
      then show ?thesis using h'(2) [OF a] m(3) by (intro bexI [of _ n]) (auto simp: A_def)
    next
      case False
      then have "k \<in> P" using h by (auto simp: A_def)
      then obtain k' where "k' \<in> P" "a \<in> set (args (gs ! k'))" "lev gs k' \<le> hv half a"
        using inv h(2) unfolding alap_inv_def not_early_def by blast
      then show ?thesis using h'(2) [OF a] False by auto
    qed
  qed
  ultimately show ?thesis using e unfolding alap_inv_def half'_def by blast
qed

lemma alap_gates_ok:
  "alap_inv gs ct P half \<Longrightarrow> distinct ns \<Longrightarrow> \<forall>n \<in> set ns. n < length gs \<and> n \<notin> P \<and> lev gs n = i \<and> args (gs ! n) \<noteq> [] \<Longrightarrow> i < ct \<Longrightarrow>
   \<forall>k < length gs. i < lev gs k \<longrightarrow> k \<in> P \<Longrightarrow> \<forall>k \<in> P. k < length gs \<Longrightarrow>
   \<exists>half' alap. alap_gates ct (map ((!) gs) ns) half = Some (half', alap) \<and> alap_inv gs ct (P \<union> set ns) half'"
proof (induction ns arbitrary: P half)
  case (Cons n ns)
  have n: "n < length gs" "n \<notin> P" "lev gs n = i" "args (gs ! n) \<noteq> []" using Cons.prems(3) by simp_all
  obtain m where m: "min_ts_of_all_args half (args (gs ! n)) ct = Some m"
    "alap_inv gs ct (insert n P) (foldl (set_alap (m - 1)) half (args (gs ! n)))"
    using alap_gate [OF Cons.prems(1) n(1,2) _ n(4) _ Cons.prems(6)] n(3) Cons.prems(4,5) by blast
  have ns: "distinct ns" "\<forall>k \<in> set ns. k < length gs \<and> k \<notin> insert n P \<and> lev gs k = i \<and> args (gs ! k) \<noteq> []"
    "\<forall>k < length gs. i < lev gs k \<longrightarrow> k \<in> insert n P" "\<forall>k \<in> insert n P. k < length gs"
    using Cons.prems(2,3,5,6) n(1) by auto
  obtain half' alap where
    "alap_gates ct (map ((!) gs) ns) (foldl (set_alap (m - 1)) half (args (gs ! n))) = Some (half', alap)"
    "alap_inv gs ct (insert n P \<union> set ns) half'"
    using Cons.IH [OF m(2) ns(1,2) Cons.prems(4) ns(3,4)] by blast
  then show ?case using m(1) by simp
qed simp

definition step_gates :: "call list \<Rightarrow> nat \<Rightarrow> call list" where
  "step_gates gs t = map ((!) gs) (filter (\<lambda>i. lev gs i = t) [0..<length gs])"

definition above :: "call list \<Rightarrow> nat \<Rightarrow> nat set" where
  "above gs i = {k. k < length gs \<and> i < lev gs k}"

lemma alap_steps_ok:
  "alap_inv gs ct (above gs i) half \<Longrightarrow> i < ct \<Longrightarrow> \<forall>g \<in> set gs. args g \<noteq> [] \<Longrightarrow> \<forall>t. 1 \<le> t \<longrightarrow> t \<le> i \<longrightarrow> step_gates gs t \<noteq> [] \<Longrightarrow>
   \<exists>half' alap. alap_steps (step_gates gs) ct (rev [1..<i + 1]) half = Some (half', alap) \<and> alap_inv gs ct (above gs 0) half'"
proof (induction i arbitrary: half)
  case 0
  then show ?case by simp
next
  case (Suc i)
  define ns where "ns = filter (\<lambda>k. lev gs k = Suc i) [0..<length gs]"
  have ns: "step_gates gs (Suc i) = map ((!) gs) ns" by (simp add: step_gates_def ns_def)
  have p: "\<forall>n \<in> set ns. n < length gs \<and> n \<notin> above gs (Suc i) \<and> lev gs n = Suc i \<and> args (gs ! n) \<noteq> []"
    using Suc.prems(3) by (auto simp: ns_def above_def)
  obtain half1 alap1 where 1: "alap_gates ct (map ((!) gs) ns) half = Some (half1, alap1)" "alap_inv gs ct (above gs (Suc i) \<union> set ns) half1"
  proof -
    have "distinct ns" "\<forall>k < length gs. Suc i < lev gs k \<longrightarrow> k \<in> above gs (Suc i)" "\<forall>k \<in> above gs (Suc i). k < length gs"
      by (simp_all add: ns_def above_def)
    from alap_gates_ok [OF Suc.prems(1) this(1) p Suc.prems(2) this(2,3)] show thesis using that by blast
  qed
  have "above gs (Suc i) \<union> set ns = above gs i" by (auto simp: above_def ns_def)
  with 1(2) have 3: "alap_inv gs ct (above gs i) half1" by simp
  have "\<forall>t. 1 \<le> t \<longrightarrow> t \<le> i \<longrightarrow> step_gates gs t \<noteq> []" "i < ct" using Suc.prems(2,4) by simp_all
  then obtain half2 alap2 where 2: "alap_steps (step_gates gs) ct (rev [1..<i + 1]) half1 = Some (half2, alap2)" "alap_inv gs ct (above gs 0) half2"
    using Suc.IH [OF 3 _ Suc.prems(3)] by blast
  have "rev [1..<Suc i + 1] = Suc i # rev [1..<i + 1]" by simp
  moreover have "step_gates gs (Suc i) \<noteq> []" using Suc.prems(4) by simp
  ultimately show ?case using 1(1) 2 ns by (simp del: upt_Suc)
qed

subsection \<open>The start times of a leaf function\<close>

lemma level_exists:
  assumes "\<forall>g \<in> set gs. args g \<noteq> []"
  shows "j < length gs \<Longrightarrow> 1 \<le> t \<Longrightarrow> t \<le> lev gs j \<Longrightarrow> \<exists>k < length gs. lev gs k = t"
proof (induction j rule: less_induct)
  case (less j)
  show ?case
  proof (cases "t = lev gs j")
    case True
    then show ?thesis using less.prems(1) by blast
  next
    case False
    have "args (gs ! j) \<noteq> []" using assms less.prems(1) by simp
    from lev_pred [OF less.prems(1) this] False less.prems(2,3) obtain i where "i < j" "lev gs j = Suc (lev gs i)" by auto
    then show ?thesis using less.IH [of i] less.prems False by simp
  qed
qed

lemma held_memset [simp]: "held (memset_funcQbits v tab) a = held tab a"
  by (auto simp: held_def memset_funcQbits_def)

lemma hv_memset: "held tab a \<Longrightarrow> hv (memset_funcQbits v tab) a = v"
  by (auto simp: held_def hv_def memset_funcQbits_def)

lemma second_half_inv:
  assumes l: "lowered (step_gates gs) [h + 1..<ct] half0 half" and held: "all_held gs half0" and ct: "h < ct"
    and v: "\<And>a. held half0 a \<Longrightarrow> hv half0 a = ct" and lev: "\<forall>i < length gs. lev gs i \<le> ct"
  shows "alap_inv gs ct (above gs h) half"
proof -
  have l1: "held half b = held half0 b" "hv half b \<le> hv half0 b"
    "hv half b = hv half0 b \<or> (\<exists>i \<in> set [h + 1..<ct]. (\<exists>g \<in> set (step_gates gs i). b \<in> set (args g)) \<and> hv half b = i)" for b
    using l unfolding lowered_def by blast+
  have l2: "hv half b \<le> lev gs j" if "j < length gs" "h < lev gs j" "b \<in> set (args (gs ! j))" for b j
  proof (cases "lev gs j < ct")
    case True
    have "gs ! j \<in> set (step_gates gs (lev gs j))" using that(1) by (auto simp: step_gates_def)
    moreover have "lev gs j \<in> set [h + 1..<ct]" using that(2) True by simp
    ultimately show ?thesis using l that(3) unfolding lowered_def by blast
  next
    case False
    have "held half0 b" using held that(1,3) nth_mem [of j gs] unfolding all_held_def by blast
    then show ?thesis using l1(2) [of b] v False by simp
  qed
  have "all_held gs half" using held l1(1) unfolding all_held_def by blast
  moreover have "roomy gs ct (above gs h) half"
    unfolding roomy_def
  proof (intro allI impI)
    fix j js a assume a: "j \<in> above gs h" "crit_chain gs (j # js)" "a \<in> set (args (gs ! j))"
    have "last (j # js) < length gs" using a(2) last_in_set [of "j # js"] unfolding crit_chain_def by blast
    then have "lev gs j + length js \<le> ct" using chain_levels [OF a(2)] lev by (meson order_trans)
    then show "hv half a + length js \<le> ct" using l2 [of j a] a by (simp add: above_def)
  qed
  moreover have "ahead gs (above gs h) half"
    unfolding ahead_def
  proof (intro allI impI)
    fix n a assume n: "n < length gs" "n \<notin> above gs h" "a \<in> set (args (gs ! n))"
    have "held half0 a" using held n(1,3) nth_mem [of n gs] unfolding all_held_def by blast
    then have "h < hv half a" using l1(3) [of a] v ct by auto
    then show "lev gs n < hv half a" using n(1,2) by (simp add: above_def)
  qed
  moreover have "not_early gs (above gs h) half"
    unfolding not_early_def
  proof (intro allI impI)
    fix n a assume n: "n \<in> above gs h" "a \<in> set (args (gs ! n))"
    have n': "n < length gs" using n(1) by (simp add: above_def)
    have "held half0 a" using held n(2) n' nth_mem [of n gs] unfolding all_held_def by blast
    then have "hv half0 a = ct" by (rule v)
    from l1(3) [of a] show "\<exists>k \<in> above gs h. a \<in> set (args (gs ! k)) \<and> lev gs k \<le> hv half a"
    proof
      assume "hv half a = hv half0 a"
      then have "lev gs n \<le> hv half a" using \<open>hv half0 a = ct\<close> lev n' by simp
      then show ?thesis using n by blast
    next
      assume "\<exists>i \<in> set [h + 1..<ct]. (\<exists>g \<in> set (step_gates gs i). a \<in> set (args g)) \<and> hv half a = i"
      then obtain i g where i: "h < i" "g \<in> set (step_gates gs i)" "a \<in> set (args g)" "hv half a = i" by auto
      then obtain k where "k < length gs" "lev gs k = i" "g = gs ! k" by (auto simp: step_gates_def)
      then show ?thesis using i by (intro bexI [of _ k]) (simp_all add: above_def)
    qed
  qed
  ultimately show ?thesis by (simp add: alap_inv_def)
qed

lemma start_table_ok:
  assumes F: "leaf_func F" and run: "leaf_run (qbit_names F) (fn_calls F) (length (fn_calls F)) st"
  shows "\<exists>half. start_table F st = Some half \<and>
    (3 < critical_time F st \<longrightarrow> alap_inv (fn_calls F) (critical_time F st) (above (fn_calls F) 0) half)"
proof (cases "3 < critical_time F st")
  case False
  then show ?thesis by (simp add: start_table_def Let_def)
next
  case True
  define gs where "gs = fn_calls F"
  define ct where "ct = critical_time F st"
  define h where "h = ct div 2"
  define half0 where "half0 = memset_funcQbits ct (funcQbits st)"
  have ct: "3 < ct" "h < ct" "h \<noteq> 0" using True by (auto simp: h_def ct_def)
  have ne: "\<forall>g \<in> set gs. args g \<noteq> []" using F by (simp add: leaf_func_def leaf_gates_def gs_def)
  have ts: "tsGates st = step_gates gs" using run by (simp add: leaf_run_def step_gates_def fun_eq_iff gs_def)
  have lev: "\<forall>i < length gs. lev gs i \<le> ct" using leaf_time(1) [OF F run] by (simp add: gs_def ct_def)
  obtain j where j: "j < length gs" "lev gs j = ct" using leaf_time(2) [OF F run] ct(1) by (auto simp: gs_def ct_def)
  have st: "step_gates gs t \<noteq> []" if "1 \<le> t" "t \<le> ct" for t
  proof -
    have "t \<le> lev gs j" using that(2) j(2) by simp
    with level_exists [OF ne j(1) that(1)] obtain k where "k < length gs" "lev gs k = t" by blast
    then have "k \<in> set (filter (\<lambda>i. lev gs i = t) [0..<length gs])" by simp
    then have "filter (\<lambda>i. lev gs i = t) [0..<length gs] \<noteq> []" by (metis empty_iff empty_set)
    then show ?thesis unfolding step_gates_def by simp
  qed
  have held: "all_held gs half0"
    using run F unfolding all_held_def leaf_run_def leaf_func_def leaf_gates_def half0_def held_memset gs_def
    by (metis in_set_conv_nth)
  have "\<forall>i \<in> set [h + 1..<ct]. step_gates gs i \<noteq> [] \<and> (\<forall>g \<in> set (step_gates gs i). \<forall>a \<in> set (args g). held half0 a \<and> 0 \<le> snd a)"
  proof (intro ballI conjI)
    fix i assume i: "i \<in> set [h + 1..<ct]"
    then show "step_gates gs i \<noteq> []" by (intro st) auto
    fix g a assume "g \<in> set (step_gates gs i)" "a \<in> set (args g)"
    moreover have "set (step_gates gs i) \<subseteq> set gs" by (auto simp: step_gates_def)
    ultimately show "held half0 a" "0 \<le> snd a" using held unfolding all_held_def by blast+
  qed
  from lower_steps_ok [OF this] obtain half1 where
    1: "lower_steps (step_gates gs) [h + 1..<ct] half0 = Some half1" "lowered (step_gates gs) [h + 1..<ct] half0 half1" by blast
  have v: "\<And>a. held half0 a \<Longrightarrow> hv half0 a = ct" unfolding half0_def by (simp add: hv_memset)
  have "\<forall>t. 1 \<le> t \<longrightarrow> t \<le> h \<longrightarrow> step_gates gs t \<noteq> []" using st ct(2) by simp
  from alap_steps_ok [OF second_half_inv [OF 1(2) held ct(2) v lev] ct(2) ne this] obtain half2 alap where
    2: "alap_steps (step_gates gs) ct (rev [1..<h + 1]) half1 = Some (half2, alap)" "alap_inv gs ct (above gs 0) half2" by blast
  have "isLeaf st" using run by (simp add: leaf_run_def)
  then have "start_table F st = Some half2"
    using True ct(3) 1(1) 2(1)
    by (simp add: start_table_def Let_def ct_def [symmetric] h_def [symmetric] gen_half_funcQbits_def init_funcQbitsHalf_def
        half0_def [symmetric] schedule_alap_insts_def ts del: upt_Suc)
  then show ?thesis using 2(2) by (simp add: gs_def ct_def)
qed

lemma leaf_count:
  assumes "leaf_func F"
  shows "\<exists>st half. CountCriticalFunctionResources ft F = Some (st, \<lparr>tableFuncQbits = saveTable F (funcQbits st),
      tableFuncQbitsStart = saveTable F half, crit_path_f = critical_time F st\<rparr>) \<and>
    leaf_run (qbit_names F) (fn_calls F) (length (fn_calls F)) st \<and> start_table F st = Some half"
proof -
  obtain st where st: "calc_all ft (qbit_names F) (fn_calls F) (init_critical_path_algo F) = Some st"
    "leaf_run (qbit_names F) (fn_calls F) (length (fn_calls F)) st" using leaf_func_run [OF assms] by blast
  obtain half where "start_table F st = Some half" using start_table_ok [OF assms st(2)] by blast
  then show ?thesis using st leaf_calls [OF assms] by (simp add: CountCriticalFunctionResources_def)
qed

subsection \<open>Claims\<close>

text \<open>C18: The critical path of a function of gates (without measurements and operations on whole arrays) is
  found, and is the length of its longest chain of gates in which each shares an operand with the next.\<close>

theorem leaf_critical_path:
  assumes "leaf_func F"
  shows "\<exists>st info. CountCriticalFunctionResources ft F = Some (st, info) \<and> isLeaf st \<and> longest_chain (fn_calls F) (crit_path_f info)"
proof -
  obtain st half where c: "CountCriticalFunctionResources ft F = Some (st, \<lparr>tableFuncQbits = saveTable F (funcQbits st),
      tableFuncQbitsStart = saveTable F half, crit_path_f = critical_time F st\<rparr>)"
    "leaf_run (qbit_names F) (fn_calls F) (length (fn_calls F)) st" using leaf_count [OF assms] by blast
  have "\<forall>g \<in> set (fn_calls F). args g \<noteq> []" using assms by (simp add: leaf_func_def leaf_gates_def)
  from longest_chainI [OF this, of "critical_time F st"] leaf_time [OF assms c(2)]
  have "longest_chain (fn_calls F) (critical_time F st)" by blast
  moreover have "isLeaf st" using c(2) by (simp add: leaf_run_def)
  ultimately show ?thesis using c(1) by auto
qed

text \<open>C19: The start time that callers see of an operand of a leaf function (longer than 3) is safe: every
  chain of gates that begins with that operand still ends within the critical path when it starts
  then, and it is not before the operand's first gate can start.\<close>

theorem start_times_safe:
  assumes "leaf_func F" "CountCriticalFunctionResources ft F = Some (st, info)" "3 < crit_path_f info"
    and "distinct (map snd (fn_params F))" "(p, i) \<in> set (fn_params F)" "j < length (fn_calls F)" "(p, k) \<in> set (args (fn_calls F ! j))"
  shows "\<exists>m s. tableFuncQbitsStart info i = Some m \<and> m k = Some s \<and>
    (\<forall>js. crit_chain (fn_calls F) (j # js) \<longrightarrow> s + length js \<le> crit_path_f info) \<and>
    (\<exists>n < length (fn_calls F). (p, k) \<in> set (args (fn_calls F ! n)) \<and> (\<forall>js. crit_chain (fn_calls F) (js @ [n]) \<longrightarrow> length (js @ [n]) \<le> s))"
proof -
  define gs where "gs = fn_calls F"
  obtain half where c: "info = \<lparr>tableFuncQbits = saveTable F (funcQbits st), tableFuncQbitsStart = saveTable F half, crit_path_f = critical_time F st\<rparr>"
    "leaf_run (qbit_names F) gs (length gs) st" "start_table F st = Some half"
    using leaf_count [OF assms(1), of ft] assms(2) by (auto simp: gs_def)
  have inv: "alap_inv gs (crit_path_f info) (above gs 0) half"
    using start_table_ok [OF assms(1) c(2) [unfolded gs_def]] c(1,3) assms(3) by (simp add: gs_def)
  have j: "j \<in> above gs 0" "gs ! j \<in> set gs" using assms(6) lev_pos by (simp_all add: above_def gs_def)
  then have "held half (p, k)" using inv assms(7) unfolding alap_inv_def all_held_def gs_def by blast
  then obtain m s where m: "half p = Some m" "m k = Some s" "hv half (p, k) = s" by (rule heldE)
  have "map_of (map (\<lambda>(n, k). (k, n)) (fn_params F)) i = Some p"
    using assms(4,5) by (intro map_of_is_SomeI) (force simp: comp_def case_prod_unfold image_iff)+
  then have "tableFuncQbitsStart info i = Some m" using c(1) m(1) by (simp add: saveTable_def)
  moreover have "s + length js \<le> crit_path_f info" if "crit_chain gs (j # js)" for js
    using inv that j(1) assms(7) m(3) unfolding alap_inv_def roomy_def gs_def by blast
  moreover have "\<exists>n < length gs. (p, k) \<in> set (args (gs ! n)) \<and> (\<forall>js. crit_chain gs (js @ [n]) \<longrightarrow> length (js @ [n]) \<le> s)"
  proof -
    obtain n where n: "n \<in> above gs 0" "(p, k) \<in> set (args (gs ! n))" "lev gs n \<le> s"
      using inv j(1) assms(7) m(3) unfolding alap_inv_def not_early_def gs_def by blast
    have "length (js @ [n]) \<le> s" if ch: "crit_chain gs (js @ [n])" for js
    proof (cases js)
      case Nil
      then show ?thesis using n(3) lev_pos [of gs n] by simp
    next
      case (Cons x xs)
      then show ?thesis using chain_levels [of gs x "xs @ [n]"] ch n(3) lev_pos [of gs x] by simp
    qed
    then show ?thesis using n by (auto simp: above_def)
  qed
  ultimately show ?thesis using m(2) by (auto simp: gs_def)
qed

text \<open>A function of one gate on \<open>a\<close> and ten on \<open>b\<close>, and a program that calls it between gates on \<open>c\<close>.\<close>

definition x_gate :: "string \<Rightarrow> call" where
  "x_gate n = \<lparr>qFunc = ''llvm.X.i16'', args = [(n, 0)]\<rparr>"

definition slack_f :: crit_func where
  "slack_f = \<lparr>fn_name = ''f'', fn_params = [(''a'', 0), (''b'', 1)], fn_arrays = [],
     fn_calls = x_gate ''a'' # replicate 10 (x_gate ''b'')\<rparr>"


lemma slack_f_leaf: "leaf_func slack_f"
proof -
  have "has_sub ''llvm.X.i16'' ''llvm.''" "\<not> is_meas ''llvm.X.i16''" by code_simp+
  then show ?thesis by (auto simp: leaf_func_def leaf_gates_def slack_f_def x_gate_def qbit_names_def)
qed

theorem leaf_critical_path_witness:
  "\<exists>st info. CountCriticalFunctionResources (\<lambda>f. None) slack_f = Some (st, info) \<and> isLeaf st \<and> longest_chain (fn_calls slack_f) (crit_path_f info)"
  by (rule leaf_critical_path [OF slack_f_leaf])

lemma slack_f_time: "map_option (\<lambda>(st, info). crit_path_f info) (CountCriticalFunctionResources (\<lambda>f. None) slack_f) = Some 10"
  by code_simp

theorem start_times_safe_witness:
  "\<exists>st info m s. CountCriticalFunctionResources (\<lambda>f. None) slack_f = Some (st, info) \<and> tableFuncQbitsStart info 0 = Some m \<and> m 0 = Some s \<and>
    (\<forall>js. crit_chain (fn_calls slack_f) (0 # js) \<longrightarrow> s + length js \<le> 10)"
proof -
  obtain st info where i: "CountCriticalFunctionResources (\<lambda>f. None) slack_f = Some (st, info)" "crit_path_f info = 10"
    using slack_f_time by (auto split: prod.splits)
  have "\<exists>m s. tableFuncQbitsStart info 0 = Some m \<and> m 0 = Some s \<and>
      (\<forall>js. crit_chain (fn_calls slack_f) (0 # js) \<longrightarrow> s + length js \<le> crit_path_f info) \<and>
      (\<exists>n < length (fn_calls slack_f). (''a'', 0) \<in> set (args (fn_calls slack_f ! n)) \<and>
        (\<forall>js. crit_chain (fn_calls slack_f) (js @ [n]) \<longrightarrow> length (js @ [n]) \<le> s))"
    by (rule start_times_safe [OF slack_f_leaf i(1)]) (simp_all add: i(2) slack_f_def x_gate_def)
  then show ?thesis using i by auto
qed



text \<open>The first measurement of a qubit that no gate has used finds no entry to set.\<close>

lemma first_meas_unused:
  "get_critical_paths (\<lambda>f. None) [\<lparr>fn_name = ''main'', fn_params = [], fn_arrays = [''c''],
     fn_calls = [\<lparr>qFunc = ''llvm.MeasZ.i16'', args = [(''c'', 0)]\<rparr>]\<rparr>] = None"
  by code_simp

end
