(* ===== verification/Simd_Sched.thy ===== *)
theory Simd_Sched
  imports Crit_Path Qir
begin

text \<open>
  The SIMD scheduler of the compiler (\<open>llvm/lib/Transforms/Scaffold/GenSIMDSchedule.cpp\<close>). Functions are
  visited callees first. The calls of a function are ordered by their distance from the end; in a leaf
  function every call is put into the first time step with a region of its gate type, in another
  function every call is a box with the width and length of the called function, and boxes are packed
  side by side into blocks. \<open>k\<close> and \<open>d\<close> are RES_CONSTRAINT and DATA_CONSTRAINT (\<open>k\<close> is at most 2000, the size
  of the arrays). The tables are those of \<open>Lpfs_Schedule\<close>; a failed assertion is None. Time steps and
  counts are below \<open>2 ^ 64\<close>.
\<close>

subsection \<open>Data\<close>

record modularInfo =
  mWidth :: nat
  mLength :: nat
  tgates :: nat
  tgates_ub :: nat
  tgates_par :: nat
  tgates_par_ub :: nat

definition no_info :: modularInfo where
  "no_info = \<lparr>mWidth = 0, mLength = 0, tgates = 0, tgates_ub = 0, tgates_par = 0, tgates_par_ub = 0\<rparr>"

text \<open>A time step of a leaf function: for each region the type of its gates (-1 is None) and their number.\<close>

type_synonym par_gates = "(nat option \<times> nat) list"

record simd_state =
  qbits :: qbit_table
  totalSched :: modularInfo
  currSched :: modularInfo
  currArrParGates :: "par_gates list"
  firstMeas :: bool

type_synonym info_table = "string \<rightharpoonup> modularInfo"

subsection \<open>Gate types\<close>

definition gate_index :: "(string \<times> nat) list" where
  "gate_index =
     [(''CNOT'', 0), (''H'', 1), (''S'', 2), (''T'', 3), (''Toffoli'', 16), (''X'', 4), (''Y'', 5), (''Z'', 6),
      (''Sdag'', 12), (''Tdag'', 11), (''MeasX'', 7), (''MeasZ'', 8), (''PrepX'', 9), (''PrepZ'', 10),
      (''Fredkin'', 17), (''Rx'', 13), (''Ry'', 14), (''Rz'', 15), (''All'', 18)]"

definition overloaded_name :: "string \<Rightarrow> string" where
  "overloaded_name n =
     (if has_sub n ''CNOT.i'' then ''CNOT'' else if has_sub n ''NOT.i'' then ''X''
      else if has_sub n ''Toffoli.i'' then ''Toffoli'' else if has_sub n ''MeasX.'' then ''MeasX''
      else if has_sub n ''MeasZ.'' then ''MeasZ'' else if has_sub n ''H.i'' then ''H''
      else if has_sub n ''Fredkin.i'' then ''Fredkin'' else if has_sub n ''PrepX.'' then ''PrepX''
      else if has_sub n ''PrepZ.'' then ''PrepZ'' else if take 2 n = ''Rx'' then ''Rx''
      else if take 2 n = ''Ry'' then ''Ry'' else if take 2 n = ''Rz'' then ''Rz''
      else if has_sub n ''S.'' then ''S'' else if has_sub n ''T.'' then ''T''
      else if has_sub n ''Sdag.'' then ''Sdag'' else if has_sub n ''Tdag.'' then ''Tdag''
      else if has_sub n ''X.'' then ''X'' else if has_sub n ''Z.'' then ''Z'' else n)"

definition gate_type :: "string \<Rightarrow> nat option" where
  "gate_type n = map_of gate_index (overloaded_name n)"

definition is_t :: "nat \<Rightarrow> bool" where
  "is_t f = (f = 3 \<or> f = 11)"

definition checkIfIntrinsic :: "string \<Rightarrow> bool" where
  "checkIfIntrinsic n = (isIntrinsic n \<and> base_name n \<in> {''CNOT'', ''Fredkin'', ''H'', ''MeasX'', ''MeasZ'', ''PrepX'',
     ''PrepZ'', ''Rx'', ''Ry'', ''Rz'', ''S'', ''T'', ''Sdag'', ''Tdag'', ''Toffoli'', ''X'', ''Y'', ''Z''})"

subsection \<open>A gate in a leaf function\<close>

text \<open>A region that takes another gate: of the same type and not full, or empty. A CNOT counts as two
  qubits.\<close>

definition open_region :: "nat \<Rightarrow> nat \<Rightarrow> nat option \<times> nat \<Rightarrow> bool" where
  "open_region d f e =
     (fst e = Some f \<and> ((f = 0 \<and> 2 * snd e < d) \<or> (f \<noteq> 0 \<and> snd e < d)) \<or> fst e = None)"

definition find_entry :: "nat \<Rightarrow> nat \<Rightarrow> nat \<Rightarrow> nat \<Rightarrow> par_gates list \<Rightarrow> (nat \<times> nat) option" where
  "find_entry k d f ts steps =
     find (\<lambda>(i, j). open_region d f (steps ! i ! j)) (List.product [ts..<length steps] [0..<k])"

definition set_region :: "nat \<Rightarrow> nat \<Rightarrow> nat option \<times> nat \<Rightarrow> par_gates list \<Rightarrow> par_gates list" where
  "set_region i j e steps = steps[i := (steps ! i)[j := e]]"

definition count_tgate :: "modularInfo \<Rightarrow> modularInfo" where
  "count_tgate c = c\<lparr>tgates := tgates c + 1, tgates_ub := tgates_ub c + 1,
     tgates_par := (if tgates_par c = 0 then 1 else tgates_par c),
     tgates_par_ub := (if tgates_par c = 0 then 1 else tgates_par_ub c)\<rparr>"

text \<open>One more gate in a region of its type.\<close>

definition join_region :: "nat \<Rightarrow> nat \<Rightarrow> nat \<Rightarrow> simd_state \<Rightarrow> simd_state" where
  "join_region f i j st =
     (let n = snd (currArrParGates st ! i ! j) + 1; c = currSched st
      in st\<lparr>currArrParGates := set_region i j (Some f, n) (currArrParGates st),
            currSched := (if is_t f \<and> n > tgates_par c then c\<lparr>tgates_par := n, tgates_par_ub := n\<rparr> else c)\<rparr>)"

text \<open>The first gate of a region. The search for a T gate in the time step comes after the entry.\<close>

definition start_region :: "nat \<Rightarrow> nat \<Rightarrow> nat \<Rightarrow> nat \<Rightarrow> simd_state \<Rightarrow> simd_state" where
  "start_region k f i j st =
     (let steps = set_region i j (Some f, 1) (currArrParGates st);
          c = currSched st;
          c1 = (if j \<ge> mWidth c then c\<lparr>mWidth := j + 1\<rparr> else c);
          prevTgateFound = list_ex (\<lambda>jcheck. fst (steps ! i ! jcheck) = Some 3 \<or> fst (steps ! i ! jcheck) = Some 11) [0..<k]
      in st\<lparr>currArrParGates := steps,
            currSched := (if is_t f \<and> \<not> prevTgateFound then count_tgate c1 else c1)\<rparr>)"

definition new_step :: "nat \<Rightarrow> nat \<Rightarrow> simd_state \<Rightarrow> simd_state" where
  "new_step k f st =
     (let c = currSched st;
          c1 = (if is_t f then count_tgate c else c);
          c2 = (if mWidth c1 = 0 then c1\<lparr>mWidth := 1\<rparr> else c1)
      in st\<lparr>currArrParGates := currArrParGates st @ [(Some f, 1) # replicate (k - 1) (None, 0)],
            currSched := c2\<lparr>mLength := mLength c2 + 1\<rparr>\<rparr>)"

text \<open>The time step of the gate, and the state.\<close>

definition get_ts_to_schedule_leaf :: "nat \<Rightarrow> nat \<Rightarrow> nat \<Rightarrow> string \<Rightarrow> simd_state \<Rightarrow> (nat \<times> simd_state) option" where
  "get_ts_to_schedule_leaf k d ts fname st =
     (if \<not> has_sub fname ''llvm.'' then None
      else case gate_type fname of None \<Rightarrow> None
        | Some f \<Rightarrow>
            (case find_entry k d f ts (currArrParGates st) of
               Some (i, j) \<Rightarrow>
                 Some (i, if fst (currArrParGates st ! i ! j) = Some f then join_region f i j st else start_region k f i j st)
             | None \<Rightarrow> Some (length (currArrParGates st), new_step k f st)))"

subsection \<open>A box in another function\<close>

text \<open>The box of a gate or of a function that was scheduled before.\<close>

definition black_box :: "info_table \<Rightarrow> string \<Rightarrow> modularInfo option" where
  "black_box ft fname =
     (if checkIfIntrinsic fname
      then if base_name fname = ''T'' \<or> base_name fname = ''Tdag''
           then Some \<lparr>mWidth = 1, mLength = 100, tgates = 1, tgates_ub = 1, tgates_par = 1, tgates_par_ub = 1\<rparr>
           else Some \<lparr>mWidth = 1, mLength = 1, tgates = 0, tgates_ub = 0, tgates_par = 0, tgates_par_ub = 0\<rparr>
      else ft fname)"

text \<open>The block is closed and counted into the schedule.\<close>

definition close_block :: "modularInfo \<Rightarrow> modularInfo \<Rightarrow> modularInfo" where
  "close_block t c =
     \<lparr>mWidth = max (mWidth t) (mWidth c), mLength = mLength t + mLength c, tgates = tgates t + tgates c,
      tgates_ub = tgates_ub t + tgates_ub c, tgates_par = max (tgates_par t) (tgates_par c),
      tgates_par_ub = max (tgates_par_ub t) (tgates_par_ub c)\<rparr>"

text \<open>A box is put beside the others of the block, \<open>off\<close> steps after its start.\<close>

definition join_block :: "nat \<Rightarrow> modularInfo \<Rightarrow> modularInfo \<Rightarrow> modularInfo" where
  "join_block off b c =
     (let w = mWidth c + mWidth b; l = max (off + mLength b) (mLength c)
      in \<lparr>mWidth = w, mLength = l, tgates = max (tgates b) (tgates c), tgates_ub = min (tgates_ub b + tgates_ub c) l,
          tgates_par = max (tgates_par b) (tgates_par c), tgates_par_ub = min (tgates_par_ub b + tgates_par_ub c) w\<rparr>)"

text \<open>The last time step (-1 when it wraps below 0), the first time step, and the state.\<close>

definition get_ts_to_schedule :: "nat \<Rightarrow> nat \<Rightarrow> modularInfo \<Rightarrow> simd_state \<Rightarrow> int \<times> nat \<times> simd_state" where
  "get_ts_to_schedule k ts b st =
     (let t = totalSched st; c = currSched st;
          (first_step, st1) =
            (if ts < mLength t + mLength c \<and> mWidth b + mWidth c \<le> k
             then let first_step = max ts (mLength t)
                  in (first_step, st\<lparr>currSched := join_block (first_step - mLength t) b c\<rparr>)
             else (mLength t + mLength c, st\<lparr>totalSched := close_block t c, currSched := b\<rparr>))
      in (int (mLength (totalSched st1) + mLength (currSched st1)) - 1, first_step, st1))"

definition schedule_at ::
    "nat \<Rightarrow> nat \<Rightarrow> bool \<Rightarrow> info_table \<Rightarrow> nat \<Rightarrow> string \<Rightarrow> simd_state \<Rightarrow> (int \<times> nat \<times> simd_state) option" where
  "schedule_at k d isLeafFunc ft ts fname st =
     (if isLeafFunc then map_option (\<lambda>(i, st1). (int i, i, st1)) (get_ts_to_schedule_leaf k d ts fname st)
      else map_option (\<lambda>b. get_ts_to_schedule k ts b st) (black_box ft fname))"

subsection \<open>A call\<close>

text \<open>The printed time step and the state. The first measurement waits for all qubits, and no qubit is
  used before it ends.\<close>

definition simd_first_meas ::
    "nat \<Rightarrow> nat \<Rightarrow> bool \<Rightarrow> info_table \<Rightarrow> string list \<Rightarrow> call \<Rightarrow> simd_state \<Rightarrow> (nat \<times> simd_state) option" where
  "simd_first_meas k d isLeafFunc ft names qg st =
     (case schedule_at k d isLeafFunc ft (find_max_funcQbits names (qbits st)) (qFunc qg) st of None \<Rightarrow> None
      | Some (r, first_step, st1) \<Rightarrow>
          (let max_ts_sched = nat r; tab = memset_funcQbits max_ts_sched (qbits st1)
           in case args qg of [] \<Rightarrow> None
              | (name, argIndex) # _ \<Rightarrow>
                  (case tab name of None \<Rightarrow> None
                   | Some m \<Rightarrow>
                       if argIndex = -1 \<or> m argIndex = None \<or> m (-2) = None then None
                       else Some (max_ts_sched + 1,
                         st1\<lparr>qbits := tab(name \<mapsto> m(argIndex \<mapsto> max_ts_sched + 1, -2 \<mapsto> max_ts_sched + 1)), firstMeas := False\<rparr>))))"

definition simd_gate ::
    "nat \<Rightarrow> nat \<Rightarrow> bool \<Rightarrow> info_table \<Rightarrow> call \<Rightarrow> simd_state \<Rightarrow> (nat \<times> simd_state) option" where
  "simd_gate k d isLeafFunc ft qg st =
     (case max_ts_of_all_args (qbits st) (args qg) 0 of None \<Rightarrow> None
      | Some (m, tab) \<Rightarrow>
          (case schedule_at k d isLeafFunc ft m (qFunc qg) (st\<lparr>qbits := tab\<rparr>) of None \<Rightarrow> None
           | Some (r, first_step, st1) \<Rightarrow>
               Some (first_step + 1, st1\<lparr>qbits := foldl (set_ts (nat (r + 1))) (qbits st1) (args qg)\<rparr>)))"

definition simd_critical_time ::
    "nat \<Rightarrow> nat \<Rightarrow> bool \<Rightarrow> info_table \<Rightarrow> string list \<Rightarrow> call \<Rightarrow> simd_state \<Rightarrow> (nat \<times> simd_state) option" where
  "simd_critical_time k d isLeafFunc ft names qg st =
     (if firstMeas st \<and> is_meas (qFunc qg) then simd_first_meas k d isLeafFunc ft names qg st
      else simd_gate k d isLeafFunc ft qg st)"

subsection \<open>A function\<close>

text \<open>The calls with qubits, from the last to the first: the priorities, and the table with an entry for
  each operand.\<close>

definition is_gate :: "call \<Rightarrow> bool" where
  "is_gate c = (qFunc c \<noteq> ''store_cbit'' \<and> args c \<noteq> [])"

fun find_priorities :: "qbit_table \<Rightarrow> (nat \<times> call) list \<Rightarrow> ((nat \<times> nat) list \<times> qbit_table) option" where
  "find_priorities tab [] = Some ([], tab)"
| "find_priorities tab ((i, c) # rest) =
     (if \<not> is_gate c then find_priorities tab rest
      else case calc_critical_time_unbounded tab c of None \<Rightarrow> None
        | Some (t, tab1) \<Rightarrow> map_option (\<lambda>(ps, tab2). ((i, t) # ps, tab2)) (find_priorities tab1 rest))"

definition hasPrimitivesOnly :: "call list \<Rightarrow> bool" where
  "hasPrimitivesOnly calls = list_all (\<lambda>c. is_gate c \<longrightarrow> checkIfIntrinsic (qFunc c)) calls"

definition init_simd :: "qbit_table \<Rightarrow> simd_state" where
  "init_simd tab = \<lparr>qbits = tab, totalSched = no_info, currSched = no_info, currArrParGates = [], firstMeas = True\<rparr>"

fun schedule_calls ::
    "nat \<Rightarrow> nat \<Rightarrow> bool \<Rightarrow> info_table \<Rightarrow> string list \<Rightarrow> call list \<Rightarrow> nat list \<Rightarrow> simd_state \<Rightarrow>
     ((nat \<times> nat) list \<times> simd_state) option" where
  "schedule_calls k d isLeafFunc ft names calls [] st = Some ([], st)"
| "schedule_calls k d isLeafFunc ft names calls (i # is) st =
     (case simd_critical_time k d isLeafFunc ft names (calls ! i) st of None \<Rightarrow> None
      | Some (ts, st1) \<Rightarrow>
          map_option (\<lambda>(out, st2). ((ts, i) # out, st2)) (schedule_calls k d isLeafFunc ft names calls is st1))"

text \<open>\<open>std::sort\<close> by the priority is the parameter \<open>sort_prio\<close>; the highest priority is scheduled first.
  The result is the printed schedule (time step and call) and the state.\<close>

definition simd_function ::
    "nat \<Rightarrow> nat \<Rightarrow> ((nat \<times> nat) list \<Rightarrow> (nat \<times> nat) list) \<Rightarrow> info_table \<Rightarrow> crit_func \<Rightarrow>
     ((nat \<times> nat) list \<times> simd_state) option" where
  "simd_function k d sort_prio ft F =
     (let calls = fn_calls F; names = qbit_names F
      in case find_priorities (\<lambda>n. if n \<in> set names then Some new_entry else None) (rev (enumerate 0 calls)) of
           None \<Rightarrow> None
         | Some (prios, tab) \<Rightarrow>
             schedule_calls k d (hasPrimitivesOnly calls) ft names calls (rev (map fst (sort_prio prios)))
               (init_simd (memset_funcQbits 0 tab)))"

text \<open>The box of the function.\<close>

definition save_blackbox_info :: "simd_state \<Rightarrow> modularInfo" where
  "save_blackbox_info st = close_block (totalSched st) (currSched st)"

subsection \<open>A program\<close>

definition simd_print_name :: "string \<Rightarrow> string" where
  "simd_print_name n =
     (let s = (if has_sub n ''CNOT.'' then ''CNOT'' else if has_sub n ''NOT.'' then ''X''
        else if has_sub n ''Toffoli.'' then ''Toffoli'' else if has_sub n ''MeasX.'' then ''MeasX''
        else if has_sub n ''MeasZ.'' then ''MeasZ'' else if has_sub n ''H.i'' then ''H''
        else if has_sub n ''Fredkin.'' then ''Fredkin'' else if has_sub n ''PrepX.'' then ''PrepX''
        else if has_sub n ''PrepZ.'' then ''PrepZ'' else if take 2 n = ''Rx'' then ''Rx''
        else if take 2 n = ''Ry'' then ''Ry'' else if take 2 n = ''Rz'' then ''Rz''
        else if has_sub n ''S.'' then ''S'' else if has_sub n ''T.'' then ''T''
        else if has_sub n ''Sdag.'' then ''Sdag'' else if has_sub n ''Tdag.'' then ''Tdag''
        else if has_sub n ''X.'' then ''X'' else if has_sub n ''Z.'' then ''Z'' else n)
      in if has_sub s ''llvm.'' then drop 5 s else s)"

definition scheduled_gate_text :: "call \<Rightarrow> nat \<Rightarrow> string" where
  "scheduled_gate_text qg ts =
     show_nat ts @ '' '' @ simd_print_name (qFunc qg) @ concat (map (\<lambda>a. '' '' @ arg_text a) (args qg))"

definition function_text :: "crit_func \<Rightarrow> (nat \<times> nat) list \<Rightarrow> string list" where
  "function_text F out =
     [''#Function '' @ fn_name F] @ map (\<lambda>(ts, i). scheduled_gate_text (fn_calls F ! i) ts) out @ [''#EndFunction'']"

fun simd_program ::
    "nat \<Rightarrow> nat \<Rightarrow> ((nat \<times> nat) list \<Rightarrow> (nat \<times> nat) list) \<Rightarrow> info_table \<Rightarrow> crit_func list \<Rightarrow>
     ((crit_func \<times> (nat \<times> nat) list \<times> modularInfo) list) option" where
  "simd_program k d sort_prio ft [] = Some []"
| "simd_program k d sort_prio ft (F # Fs) =
     (case simd_function k d sort_prio ft F of None \<Rightarrow> None
      | Some (out, st) \<Rightarrow>
          map_option ((#) (F, out, save_blackbox_info st))
            (simd_program k d sort_prio (ft(fn_name F \<mapsto> save_blackbox_info st)) Fs))"

definition simd_text :: "(crit_func \<times> (nat \<times> nat) list \<times> modularInfo) list \<Rightarrow> string list" where
  "simd_text res = concat (map (\<lambda>(F, out, info). function_text F out) res)"

end
