(* ===== verification/Simd_Order.thy ===== *)
theory Simd_Order
  imports Simd_Sched Crit_Props "HOL-Library.Multiset"
begin

text \<open>
  The order in which the SIMD scheduler visits the calls of a function respects the program order of
  calls that share an operand: the priority of a call is greater than that of every later call with the
  same operand, and the calls are taken by falling priority.
\<close>

subsection \<open>Priorities\<close>

text \<open>Operands are elements of known arrays.\<close>

definition known_args :: "string list \<Rightarrow> call \<Rightarrow> bool" where
  "known_args names c \<longleftrightarrow> (\<forall>a \<in> set (args c). fst a \<in> set names \<and> 0 \<le> snd a)"

lemma unbounded_at:
  assumes "table_at names tab lv" "known_args names c" "args c \<noteq> []"
  shows "\<exists>tab'. calc_critical_time_unbounded tab c = Some (gate_level lv c, tab') \<and>
    table_at names tab' (lv_step lv c) \<and> (\<forall>a \<in> set (args c). held tab' a) \<and> (\<forall>b. held tab b \<longrightarrow> held tab' b)"
proof -
  obtain tab1 where 1: "max_ts_of_all_args tab (args c) 0 = Some (Max (insert 0 (lv ` set (args c))), tab1)"
    "table_at names tab1 lv" "\<forall>a \<in> set (args c). held tab1 a" "\<forall>b. held tab b \<longrightarrow> held tab1 b"
    using max_ts_at [OF assms(1), of "args c" 0] assms(2) unfolding known_args_def by blast
  have m: "Max (insert 0 (lv ` set (args c))) + 1 = gate_level lv c" using assms(3) by (simp add: gate_level_def Max_insert)
  define tab' where "tab' = foldl (set_ts (gate_level lv c)) tab1 (args c)"
  have "\<forall>a \<in> set (args c). fst a \<in> set names \<and> 0 \<le> snd a \<and> lv a \<le> gate_level lv c"
    using assms(2) gate_level_gt [of _ c lv] by (auto simp: known_args_def intro: less_imp_le)
  from set_all_at [OF 1(2) this] have "table_at names tab' (lv_step lv c)" "\<forall>b. held tab1 b \<longrightarrow> held tab' b"
    by (simp_all add: lv_step_def tab'_def)
  moreover have "calc_critical_time_unbounded tab c = Some (gate_level lv c, tab')"
    using 1(1) m by (simp add: calc_critical_time_unbounded_def tab'_def)
  ultimately show ?thesis using 1(3,4) by blast
qed

lemma lv_step_mono: "lv a \<le> lv_step lv c a"
  using gate_level_gt [of a c lv] by (auto simp: lv_step_def)

lemma find_priorities_at:
  assumes "table_at names tab lv" "\<forall>(i, c) \<in> set ics. c = calls ! i \<and> known_args names c"
  shows "\<exists>ps tab'. find_priorities tab ics = Some (ps, tab') \<and> (\<exists>lv'. table_at names tab' lv') \<and>
    map fst ps = map fst (filter (is_gate \<circ> snd) ics) \<and>
    (\<forall>(i, p) \<in> set ps. \<forall>a \<in> set (args (calls ! i)). lv a < p \<and> held tab' a) \<and>
    (\<forall>b. held tab b \<longrightarrow> held tab' b) \<and>
    sorted_wrt (\<lambda>(i, p) (j, q). share (calls ! i) (calls ! j) \<longrightarrow> p < q) ps"
  using assms
proof (induction ics arbitrary: tab lv)
  case (Cons ic ics)
  obtain i c where ic: "ic = (i, c)" by (cases ic)
  have c: "c = calls ! i" "known_args names c" "\<forall>(i, c) \<in> set ics. c = calls ! i \<and> known_args names c" using Cons.prems(2) ic by auto
  show ?case
  proof (cases "is_gate c")
    case False
    then show ?thesis using Cons.IH [OF Cons.prems(1) c(3)] by (simp add: ic)
  next
    case True
    then obtain tab1 where 1: "calc_critical_time_unbounded tab c = Some (gate_level lv c, tab1)" "table_at names tab1 (lv_step lv c)"
      "\<forall>a \<in> set (args c). held tab1 a" "\<forall>b. held tab b \<longrightarrow> held tab1 b"
      using unbounded_at [OF Cons.prems(1) c(2)] by (auto simp: is_gate_def)
    obtain ps tab' lv' where 2: "find_priorities tab1 ics = Some (ps, tab')" "table_at names tab' lv'"
      "map fst ps = map fst (filter (is_gate \<circ> snd) ics)"
      "\<forall>(i, p) \<in> set ps. \<forall>a \<in> set (args (calls ! i)). lv_step lv c a < p \<and> held tab' a"
      "\<forall>b. held tab1 b \<longrightarrow> held tab' b" "sorted_wrt (\<lambda>(i, p) (j, q). share (calls ! i) (calls ! j) \<longrightarrow> p < q) ps"
      using Cons.IH [OF 1(2) c(3)] by blast
    have f: "find_priorities tab (ic # ics) = Some ((i, gate_level lv c) # ps, tab')" using True 1(1) 2(1) by (simp add: ic)
    have "\<forall>(j, q) \<in> set ps. share c (calls ! j) \<longrightarrow> gate_level lv c < q"
    proof (safe, goal_cases)
      case (1 j q)
      then obtain a where "a \<in> set (args c)" "a \<in> set (args (calls ! j))" by (auto simp: share_def)
      then show ?case using 1(1) 2(4) by (fastforce simp: lv_step_def)
    qed
    then have s: "sorted_wrt (\<lambda>(i, p) (j, q). share (calls ! i) (calls ! j) \<longrightarrow> p < q) ((i, gate_level lv c) # ps)"
      using 2(6) c(1) by simp
    have "\<forall>(j, q) \<in> set ps. \<forall>a \<in> set (args (calls ! j)). lv a < q \<and> held tab' a"
      using 2(4) lv_step_mono [of lv _ c] by (fastforce intro: le_less_trans)
    moreover have "\<forall>a \<in> set (args c). lv a < gate_level lv c \<and> held tab' a" using 1(3) 2(5) gate_level_gt by blast
    ultimately have "\<forall>(j, q) \<in> set ((i, gate_level lv c) # ps). \<forall>a \<in> set (args (calls ! j)). lv a < q \<and> held tab' a"
      using c(1) by simp
    moreover have "map fst ((i, gate_level lv c) # ps) = map fst (filter (is_gate \<circ> snd) (ic # ics))" using True 2(3) by (simp add: ic)
    moreover have "\<forall>b. held tab b \<longrightarrow> held tab' b" using 1(4) 2(5) by blast
    ultimately show ?thesis using f 2(2) s by blast
  qed
qed auto

subsection \<open>The order of the calls\<close>

text \<open>What the code relies on from \<open>std::sort\<close>: the same pairs, by rising priority.\<close>

definition sorts :: "((nat \<times> nat) list \<Rightarrow> (nat \<times> nat) list) \<Rightarrow> bool" where
  "sorts sort_prio \<longleftrightarrow> (\<forall>ps. mset (sort_prio ps) = mset ps \<and> sorted (map snd (sort_prio ps)))"

lemma sorts_sort_key: "sorts (sort_key snd)"
  by (simp add: sorts_def)

definition gate_indices :: "call list \<Rightarrow> nat list" where
  "gate_indices calls = filter (\<lambda>i. is_gate (calls ! i)) [0..<length calls]"

text \<open>An order of the calls in which calls that share an operand stand as in the program.\<close>

definition program_order :: "call list \<Rightarrow> nat list \<Rightarrow> bool" where
  "program_order calls is \<longleftrightarrow> mset is = mset (gate_indices calls) \<and>
     sorted_wrt (\<lambda>i j. share (calls ! i) (calls ! j) \<longrightarrow> i < j) is"

lemma enumerate_map: "enumerate 0 xs = map (\<lambda>i. (i, xs ! i)) [0..<length xs]"
  by (rule nth_equalityI) (simp_all add: nth_enumerate_eq)

lemma gates_reversed: "map fst (filter (is_gate \<circ> snd) (rev (enumerate 0 calls))) = rev (gate_indices calls)"
  by (simp add: gate_indices_def enumerate_map filter_map rev_filter [symmetric] rev_map o_def)

lemma sorted_reversed_order:
  assumes "sorts sort_prio" "map fst ps = rev (gate_indices calls)"
    "sorted_wrt (\<lambda>(i, p) (j, q). share (calls ! i) (calls ! j) \<longrightarrow> p < q) ps"
  shows "program_order calls (rev (map fst (sort_prio ps)))"
proof -
  define qs where "qs = sort_prio ps"
  have q: "mset qs = mset ps" "sorted (map snd qs)" using assms(1) by (simp_all add: sorts_def qs_def)
  have "distinct (map fst ps)" by (simp add: assms(2) gate_indices_def)
  then have d: "distinct (map fst qs)" using q(1) by (metis mset_eq_imp_distinct_iff mset_map)
  have later: "q < p" if "(i, p) \<in> set ps" "(j, q) \<in> set ps" "i < j" "share (calls ! i) (calls ! j)" for i j p q
  proof -
    obtain x y where xy: "x < length ps" "ps ! x = (i, p)" "y < length ps" "ps ! y = (j, q)"
      using \<open>(i, p) \<in> set ps\<close> \<open>(j, q) \<in> set ps\<close> by (auto simp: in_set_conv_nth)
    have r: "sorted_wrt (>) (map fst ps)" by (simp add: assms(2) gate_indices_def sorted_wrt_rev sorted_wrt_filter)
    have "y < x"
    proof (rule ccontr)
      assume "\<not> y < x"
      then have "x < y" using xy \<open>i < j\<close> by (metis fst_conv less_irrefl linorder_neqE_nat)
      then have "fst (ps ! x) > fst (ps ! y)" using r xy(1,3) by (simp add: sorted_wrt_iff_nth_less)
      then show False using xy \<open>i < j\<close> by simp
    qed
    then show ?thesis using assms(3) xy that(4) by (fastforce simp: sorted_wrt_iff_nth_less share_def Int_commute)
  qed
  have "sorted_wrt (\<lambda>i j. share (calls ! i) (calls ! j) \<longrightarrow> j < i) (map fst qs)"
  proof (simp add: sorted_wrt_map sorted_wrt_iff_nth_less, intro allI impI)
    fix x y assume xy: "x < y" "y < length qs" "share (calls ! fst (qs ! x)) (calls ! fst (qs ! y))"
    obtain i p j q where e: "qs ! x = (i, p)" "qs ! y = (j, q)" by (metis surj_pair)
    have "(i, p) \<in> set ps" "(j, q) \<in> set ps"
      using nth_mem [of x qs] nth_mem [of y qs] xy e mset_eq_setD [OF q(1)] by auto
    moreover have "p \<le> q" using sorted_nth_mono [OF q(2), of x y] xy e by simp
    ultimately have "\<not> i < j" using later xy(3) e by fastforce
    moreover have "i \<noteq> j" using d xy(1,2) e by (simp add: distinct_conv_nth) (metis fst_conv less_trans less_irrefl)
    ultimately show "fst (qs ! y) < fst (qs ! x)" using e by simp
  qed
  moreover have "mset (rev (map fst qs)) = mset (gate_indices calls)" using q(1) assms(2) by (metis mset_map mset_rev)
  ultimately show ?thesis by (auto simp: program_order_def sorted_wrt_rev qs_def share_def Int_commute)
qed

end
