(* ===== verification/Simd_Run.thy ===== *)
theory Simd_Run
  imports Simd_Order
begin

text \<open>
  The run of the SIMD scheduler over the calls of a function, for both kinds of functions at once: the
  locale \<open>placement\<close> states what the run needs of the search for a time step. It is interpreted for the
  gates of leaf functions and for the boxes of the others.
\<close>

subsection \<open>The table\<close>

definition entry :: "qbit_table \<Rightarrow> qarg \<Rightarrow> nat option" where
  "entry tab a = Option.bind (tab (fst a)) (\<lambda>m. m (snd a))"

lemma held_entry: "held tab a \<longleftrightarrow> entry tab a \<noteq> None"
  by (auto simp: held_def entry_def bind_eq_None_conv)

text \<open>The entry -2 is a bound of the array, and all are at most \<open>e\<close>.\<close>

definition bounded_tab :: "string list \<Rightarrow> qbit_table \<Rightarrow> nat \<Rightarrow> bool" where
  "bounded_tab names tab e \<longleftrightarrow>
     (\<forall>n \<in> set names. \<exists>m u. tab n = Some m \<and> m (-2) = Some u \<and> u \<le> e \<and> (\<forall>k t. m k = Some t \<longrightarrow> t \<le> u))"

lemma bounded_entry: "bounded_tab names tab e \<Longrightarrow> fst a \<in> set names \<Longrightarrow> entry tab a = Some v \<Longrightarrow> v \<le> e"
  unfolding bounded_tab_def entry_def by (fastforce intro: order_trans)

lemma bounded_mono: "bounded_tab names tab e \<Longrightarrow> e \<le> e' \<Longrightarrow> bounded_tab names tab e'"
  unfolding bounded_tab_def by (meson order_trans)

lemma max_ts_held:
  "bounded_tab names tab e \<Longrightarrow> \<forall>a \<in> set as. fst a \<in> set names \<and> 0 \<le> snd a \<and> held tab a \<Longrightarrow>
   \<exists>m. max_ts_of_all_args tab as acc = Some (m, tab) \<and> acc \<le> m \<and> m \<le> max acc e \<and> (\<forall>a \<in> set as. \<forall>v. entry tab a = Some v \<longrightarrow> v \<le> m)"
proof (induction as arbitrary: acc)
  case (Cons a as)
  obtain v where v: "entry tab a = Some v" using Cons.prems(2) held_entry by fastforce
  have s: "arg_ts tab a = Some (v, tab)"
    using v Cons.prems(2) by (cases a) (auto simp: arg_ts_def entry_def bind_eq_Some_conv)
  have e: "v \<le> e" using bounded_entry [OF Cons.prems(1) _ v] Cons.prems(2) by simp
  obtain m where "max_ts_of_all_args tab as (if v > acc then v else acc) = Some (m, tab)" "(if v > acc then v else acc) \<le> m"
    "m \<le> max (if v > acc then v else acc) e" "\<forall>a \<in> set as. \<forall>v. entry tab a = Some v \<longrightarrow> v \<le> m"
    using Cons.IH [OF Cons.prems(1), of "if v > acc then v else acc"] Cons.prems(2) by (metis list.set_intros(2))
  then show ?case using s v e by (auto simp: max_def split: if_splits)
qed simp

lemma set_ts_held:
  assumes "bounded_tab names tab e" "fst a \<in> set names" "0 \<le> snd a" "held tab a" "new \<le> e"
  shows "bounded_tab names (set_ts new tab a) e" "0 \<le> snd b \<Longrightarrow> entry (set_ts new tab a) b = (if b = a then Some new else entry tab b)"
proof -
  obtain n k where a: "a = (n, k)" by (cases a)
  have k: "0 \<le> k" "n \<in> set names" using assms(2,3) a by simp_all
  obtain m u where m: "tab n = Some m" "m (-2) = Some u" "u \<le> e" "\<forall>k t. m k = Some t \<longrightarrow> t \<le> u"
    using assms(1) k(2) unfolding bounded_tab_def by blast
  have s: "set_ts new tab a = tab(n \<mapsto> m(k \<mapsto> new, -2 \<mapsto> max u new))" using m k by (auto simp: set_ts_def a max_def)
  show "bounded_tab names (set_ts new tab a) e"
    using assms(1) m assms(5) unfolding bounded_tab_def s by (auto simp: le_max_iff_disj)
  show "0 \<le> snd b \<Longrightarrow> entry (set_ts new tab a) b = (if b = a then Some new else entry tab b)"
    unfolding s using m(1) by (cases b) (auto simp: a entry_def)
qed

lemma set_all_held:
  "bounded_tab names tab e \<Longrightarrow> \<forall>a \<in> set as. fst a \<in> set names \<and> 0 \<le> snd a \<and> held tab a \<Longrightarrow> new \<le> e \<Longrightarrow>
   bounded_tab names (foldl (set_ts new) tab as) e \<and>
   (\<forall>b. 0 \<le> snd b \<longrightarrow> entry (foldl (set_ts new) tab as) b = (if b \<in> set as then Some new else entry tab b))"
proof (induction as arbitrary: tab)
  case (Cons a as)
  have 1: "bounded_tab names (set_ts new tab a) e" "\<And>b. 0 \<le> snd b \<Longrightarrow> entry (set_ts new tab a) b = (if b = a then Some new else entry tab b)"
    using set_ts_held [OF Cons.prems(1), of a new] Cons.prems(2,3) by simp_all
  have "\<forall>b \<in> set as. fst b \<in> set names \<and> 0 \<le> snd b \<and> held (set_ts new tab a) b"
    using Cons.prems(2) 1(2) by (simp add: held_entry)
  from Cons.IH [OF 1(1) this Cons.prems(3)] show ?case using 1(2) by auto
qed simp

lemma find_max_bounds:
  assumes "bounded_tab names tab e"
  shows "find_max_funcQbits names tab \<le> e" "fst a \<in> set names \<Longrightarrow> entry tab a = Some v \<Longrightarrow> v \<le> find_max_funcQbits names tab"
proof -
  define f where "f = (\<lambda>mx n. case Option.bind (tab n) (\<lambda>m. m (-2)) of None \<Rightarrow> mx | Some t \<Rightarrow> if t > (mx::nat) then t else mx)"
  have g: "set ns \<subseteq> set names \<Longrightarrow> acc \<le> e \<Longrightarrow> acc \<le> foldl f acc ns \<and> foldl f acc ns \<le> e \<and>
      (\<forall>n \<in> set ns. \<forall>m k t. tab n = Some m \<longrightarrow> m k = Some t \<longrightarrow> t \<le> foldl f acc ns)" for ns acc
  proof (induction ns arbitrary: acc)
    case (Cons n ns)
    obtain m u where m: "tab n = Some m" "m (-2) = Some u" "u \<le> e" "\<forall>k t. m k = Some t \<longrightarrow> t \<le> u"
      using assms Cons.prems unfolding bounded_tab_def by auto
    have f: "f acc n = max acc u" by (simp add: f_def m(1,2) max_def)
    have ih: "max acc u \<le> foldl f (max acc u) ns" "foldl f (max acc u) ns \<le> e"
      "\<forall>n \<in> set ns. \<forall>m k t. tab n = Some m \<longrightarrow> m k = Some t \<longrightarrow> t \<le> foldl f (max acc u) ns"
      using Cons.IH [of "max acc u"] Cons.prems m(3) by simp_all
    have "t \<le> foldl f (max acc u) ns" if "m k = Some t" for k t
      using m(4) that ih(1) by (meson max.boundedE order_trans)
    then show ?case using m(1) f ih by auto
  qed simp
  have e: "find_max_funcQbits names tab = foldl f 0 names" by (simp add: find_max_funcQbits_def f_def)
  show "find_max_funcQbits names tab \<le> e" using g [of names 0] e by simp
  show "fst a \<in> set names \<Longrightarrow> entry tab a = Some v \<Longrightarrow> v \<le> find_max_funcQbits names tab"
    using g [of names 0] e by (auto simp: entry_def bind_eq_Some_conv)
qed

lemma entry_memset: "entry (memset_funcQbits v tab) a = map_option (\<lambda>_. v) (entry tab a)"
  by (cases "tab (fst a)") (simp_all add: entry_def memset_funcQbits_def)

lemma bounded_memset: "bounded_tab names tab e \<Longrightarrow> v \<le> e' \<Longrightarrow> bounded_tab names (memset_funcQbits v tab) e'"
  unfolding bounded_tab_def
proof
  fix n assume "\<forall>n \<in> set names. \<exists>m u. tab n = Some m \<and> m (-2) = Some u \<and> u \<le> e \<and> (\<forall>k t. m k = Some t \<longrightarrow> t \<le> u)" "v \<le> e'" "n \<in> set names"
  then obtain m u where "tab n = Some m" "m (-2) = Some u" "v \<le> e'" by blast
  then show "\<exists>m u. memset_funcQbits v tab n = Some m \<and> m (-2) = Some u \<and> u \<le> e' \<and> (\<forall>k t. m k = Some t \<longrightarrow> t \<le> u)"
    by (simp add: memset_funcQbits_def)
qed

subsection \<open>The run\<close>

text \<open>\<open>ends\<close> is the number of time steps in use, \<open>len\<close> the time a call takes, and \<open>ok\<close> says that a call
  can be scheduled.\<close>

locale placement =
  fixes k d :: nat and leaf :: bool and ft :: info_table
    and ends :: "simd_state \<Rightarrow> nat" and len :: "string \<Rightarrow> nat" and ok :: "string \<Rightarrow> bool"
  assumes found: "ok f \<Longrightarrow> schedule_at k d leaf ft ts f st \<noteq> None"
    and at: "schedule_at k d leaf ft ts f st = Some (r, first_step, st1) \<Longrightarrow> ts \<le> ends st \<Longrightarrow>
      ts \<le> first_step \<and> first_step + len f \<le> nat (r + 1) \<and> nat (r + 1) \<le> ends st1 \<and> ends st \<le> ends st1 \<and>
      qbits st1 = qbits st \<and> firstMeas st1 = firstMeas st"
    and meas: "ok f \<Longrightarrow> is_meas f \<Longrightarrow> schedule_at k d leaf ft ts f st = Some (r, first_step, st1) \<Longrightarrow> ts \<le> ends st \<Longrightarrow>
      int ts \<le> r \<and> len f \<le> 1"
    and frame: "ends (st\<lparr>qbits := tab\<rparr>) = ends st" "ends (st\<lparr>firstMeas := b\<rparr>) = ends st"
begin

text \<open>A call that the run can take.\<close>

definition callable :: "string list \<Rightarrow> call \<Rightarrow> bool" where
  "callable names c \<longleftrightarrow> known_args names c \<and> args c \<noteq> [] \<and> ok (qFunc c) \<and> (is_meas (qFunc c) \<longrightarrow> length (args c) = 1)"

text \<open>One call: it starts after the last use of its operands and they are free again when it ends.\<close>

definition step_ok :: "string list \<Rightarrow> call \<Rightarrow> simd_state \<Rightarrow> nat \<Rightarrow> simd_state \<Rightarrow> bool" where
  "step_ok names c st s st1 \<longleftrightarrow> bounded_tab names (qbits st1) (ends st1) \<and> ends st \<le> ends st1 \<and> 0 < s \<and> s - 1 + len (qFunc c) \<le> ends st1 \<and>
     (\<forall>a v. fst a \<in> set names \<longrightarrow> 0 \<le> snd a \<longrightarrow> entry (qbits st) a = Some v \<longrightarrow>
        (\<exists>w. entry (qbits st1) a = Some w \<and> v \<le> w \<and> (a \<in> set (args c) \<longrightarrow> v \<le> s - 1 \<and> s - 1 + len (qFunc c) \<le> w)))"

lemma gate_step:
  assumes "callable names c" "bounded_tab names (qbits st) (ends st)" "\<forall>a \<in> set (args c). held (qbits st) a"
  shows "\<exists>s st1. simd_gate k d leaf ft c st = Some (s, st1) \<and> step_ok names c st s st1"
proof -
  have k: "\<forall>a \<in> set (args c). fst a \<in> set names \<and> 0 \<le> snd a \<and> held (qbits st) a"
    using assms(1,3) by (simp add: callable_def known_args_def)
  obtain m where m: "max_ts_of_all_args (qbits st) (args c) 0 = Some (m, qbits st)" "m \<le> ends st"
    "\<forall>a \<in> set (args c). \<forall>v. entry (qbits st) a = Some v \<longrightarrow> v \<le> m"
    using max_ts_held [OF assms(2) k, of 0] by auto
  obtain r first_step st1 where s: "schedule_at k d leaf ft m (qFunc c) st = Some (r, first_step, st1)"
    using found [of "qFunc c" m st] assms(1) by (auto simp: callable_def)
  have p: "m \<le> first_step" "first_step + len (qFunc c) \<le> nat (r + 1)" "nat (r + 1) \<le> ends st1" "ends st \<le> ends st1" "qbits st1 = qbits st"
    using at [OF s m(2)] by blast+
  define st2 where "st2 = st1\<lparr>qbits := foldl (set_ts (nat (r + 1))) (qbits st1) (args c)\<rparr>"
  have e: "ends st2 = ends st1" by (simp add: st2_def frame)
  from set_all_held [OF bounded_mono [OF assms(2) p(4)] k p(3)]
  have b: "bounded_tab names (qbits st2) (ends st2)"
    "\<And>b. 0 \<le> snd b \<Longrightarrow> entry (qbits st2) b = (if b \<in> set (args c) then Some (nat (r + 1)) else entry (qbits st) b)"
    by (auto simp: st2_def p(5) frame)
  have "simd_gate k d leaf ft c st = Some (first_step + 1, st2)" using m(1) s by (simp add: simd_gate_def st2_def)
  moreover have "step_ok names c st (first_step + 1) st2"
    using b p m(3) e by (fastforce simp: step_ok_def)
  ultimately show ?thesis by blast
qed

lemma meas_step:
  assumes "callable names c" "bounded_tab names (qbits st) (ends st)" "\<forall>a \<in> set (args c). held (qbits st) a" "is_meas (qFunc c)"
  shows "\<exists>s st1. simd_first_meas k d leaf ft names c st = Some (s, st1) \<and> step_ok names c st s st1"
proof -
  obtain n i where c: "args c = [(n, i)]"
    using assms(1,4) by (auto simp: callable_def length_Suc_conv)
  have ni: "n \<in> set names" "0 \<le> i" "held (qbits st) (n, i)" using assms(1,3) c by (simp_all add: callable_def known_args_def)
  define mx where "mx = find_max_funcQbits names (qbits st)"
  have mx: "mx \<le> ends st" "\<And>a v. fst a \<in> set names \<Longrightarrow> entry (qbits st) a = Some v \<Longrightarrow> v \<le> mx"
    using find_max_bounds [OF assms(2)] by (simp_all add: mx_def)
  have okc: "ok (qFunc c)" using assms(1) by (simp add: callable_def)
  obtain r first_step st1 where s: "schedule_at k d leaf ft mx (qFunc c) st = Some (r, first_step, st1)"
    using found [OF okc, of mx st] by auto
  have p: "nat (r + 1) \<le> ends st1" "ends st \<le> ends st1" "qbits st1 = qbits st" using at [OF s mx(1)] by blast+
  have r: "int mx \<le> r" "len (qFunc c) \<le> 1" using meas [OF okc assms(4) s mx(1)] by blast+
  define tab where "tab = memset_funcQbits (nat r) (qbits st)"
  have t: "bounded_tab names tab (ends st1)" using bounded_memset [OF assms(2), of "nat r" "ends st1"] p(1) r(1) by (simp add: tab_def)
  obtain m u where m: "tab n = Some m" "m (-2) = Some u" "m i \<noteq> None"
    using t ni entry_memset [of "nat r" "qbits st" "(n, i)"] unfolding bounded_tab_def held_entry tab_def [symmetric]
    by (fastforce simp: entry_def)
  have um: "m j = Some t \<Longrightarrow> t = nat r" for j t
    using m(1) by (auto simp: tab_def memset_funcQbits_def)
  define st2 where "st2 = st1\<lparr>qbits := tab(n \<mapsto> m(i \<mapsto> nat r + 1, -2 \<mapsto> nat r + 1)), firstMeas := False\<rparr>"
  have e: "ends st2 = ends st1" using frame by (metis st2_def)
  have f: "simd_first_meas k d leaf ft names c st = Some (nat r + 1, st2)"
    using s m ni by (simp add: simd_first_meas_def c st2_def p(3) Let_def flip: mx_def tab_def)
  have b: "bounded_tab names (qbits st2) (ends st2)"
    using t p(1) r(1) um unfolding bounded_tab_def e by (auto simp: st2_def nat_add_distrib split: if_splits)
  have g: "entry (qbits st2) a = (if a = (n, i) then Some (nat r + 1) else map_option (\<lambda>_. nat r) (entry (qbits st) a))" if "0 \<le> snd a" for a
    using that m(1) entry_memset [of "nat r" "qbits st" a] unfolding tab_def [symmetric]
    by (cases a) (auto simp: st2_def entry_def)
  have "step_ok names c st (nat r + 1) st2"
    unfolding step_ok_def
  proof (intro conjI allI impI)
    show "nat r + 1 - 1 + len (qFunc c) \<le> ends st2" using p(1) r e by (simp add: nat_add_distrib)
    fix a v assume a: "fst a \<in> set names" "0 \<le> snd a" "entry (qbits st) a = Some v"
    have v: "v \<le> nat r" using mx(2) [OF a(1,3)] r(1) by simp
    show "\<exists>w. entry (qbits st2) a = Some w \<and> v \<le> w \<and> (a \<in> set (args c) \<longrightarrow> v \<le> nat r + 1 - 1 \<and> nat r + 1 - 1 + len (qFunc c) \<le> w)"
      using g [OF a(2)] a(3) v r(2) c by auto
  qed (use b p(2) e in simp_all)
  then show ?thesis using f by blast
qed

lemma call_step:
  assumes "callable names c" "bounded_tab names (qbits st) (ends st)" "\<forall>a \<in> set (args c). held (qbits st) a"
  shows "\<exists>s st1. simd_critical_time k d leaf ft names c st = Some (s, st1) \<and> step_ok names c st s st1"
  using gate_step [OF assms] meas_step [OF assms] by (auto simp: simd_critical_time_def)

text \<open>All calls: those with a common operand follow each other.\<close>

lemma run:
  "\<forall>i \<in> set is. callable names (calls ! i) \<and> (\<forall>a \<in> set (args (calls ! i)). held (qbits st) a) \<Longrightarrow> bounded_tab names (qbits st) (ends st) \<Longrightarrow>
   \<exists>out st'. schedule_calls k d leaf ft names calls is st = Some (out, st') \<and> map snd out = is \<and> ends st \<le> ends st' \<and>
     sorted_wrt (\<lambda>(s, i) (t, j). share (calls ! i) (calls ! j) \<longrightarrow> s + len (qFunc (calls ! i)) \<le> t) out \<and>
     (\<forall>(s, i) \<in> set out. 0 < s \<and> s - 1 + len (qFunc (calls ! i)) \<le> ends st' \<and>
        (\<forall>a \<in> set (args (calls ! i)). \<forall>v. entry (qbits st) a = Some v \<longrightarrow> v \<le> s - 1))"
proof (induction "is" arbitrary: st)
  case (Cons i "is")
  define c where "c = calls ! i"
  obtain s st1 where 1: "simd_critical_time k d leaf ft names c st = Some (s, st1)" "step_ok names c st s st1"
    using call_step [OF _ Cons.prems(2), of c] Cons.prems(1) by (auto simp: c_def)
  have up: "\<exists>w. entry (qbits st1) a = Some w \<and> v \<le> w \<and> (a \<in> set (args c) \<longrightarrow> v \<le> s - 1 \<and> s - 1 + len (qFunc c) \<le> w)"
    if "fst a \<in> set names" "0 \<le> snd a" "entry (qbits st) a = Some v" for a v
    using 1(2) that unfolding step_ok_def by blast
  have kn: "fst a \<in> set names \<and> 0 \<le> snd a \<and> held (qbits st) a" if "j \<in> set (i # is)" "a \<in> set (args (calls ! j))" for j a
    using Cons.prems(1) that unfolding callable_def known_args_def by blast
  have h: "\<forall>j \<in> set is. callable names (calls ! j) \<and> (\<forall>a \<in> set (args (calls ! j)). held (qbits st1) a)"
    using Cons.prems(1) kn up unfolding held_entry by (metis list.set_intros(2) option.distinct(1) option.exhaust)
  have b1: "bounded_tab names (qbits st1) (ends st1)" "ends st \<le> ends st1" "0 < s" "s - 1 + len (qFunc c) \<le> ends st1"
    using 1(2) unfolding step_ok_def by blast+
  obtain out st' where 2: "schedule_calls k d leaf ft names calls is st1 = Some (out, st')" "map snd out = is" "ends st1 \<le> ends st'"
    "sorted_wrt (\<lambda>(s, i) (t, j). share (calls ! i) (calls ! j) \<longrightarrow> s + len (qFunc (calls ! i)) \<le> t) out"
    "\<forall>(s, i) \<in> set out. 0 < s \<and> s - 1 + len (qFunc (calls ! i)) \<le> ends st' \<and>
      (\<forall>a \<in> set (args (calls ! i)). \<forall>v. entry (qbits st1) a = Some v \<longrightarrow> v \<le> s - 1)"
    using Cons.IH [OF h b1(1)] by blast
  have "s + len (qFunc c) \<le> t" if j: "(t, j) \<in> set out" "share c (calls ! j)" for t j
  proof -
    obtain a where a: "a \<in> set (args c)" "a \<in> set (args (calls ! j))" using j(2) by (auto simp: share_def)
    obtain v where v: "entry (qbits st) a = Some v" using kn [of i a] a(1) by (auto simp: c_def held_entry)
    obtain w where w: "entry (qbits st1) a = Some w" "s - 1 + len (qFunc c) \<le> w" using up [OF _ _ v] kn [of i a] a(1) by (auto simp: c_def)
    have "0 < t" "w \<le> t - 1" using 2(5) j(1) a(2) w(1) by fastforce+
    then show ?thesis using w(2) b1(3) by linarith
  qed
  moreover have "v \<le> t - 1" if j: "(t, j) \<in> set out" "a \<in> set (args (calls ! j))" "entry (qbits st) a = Some v" for t j a v
  proof -
    have "j \<in> set (i # is)" using j(1) 2(2) by force
    then obtain w where w: "entry (qbits st1) a = Some w" "v \<le> w" using up [OF _ _ j(3)] kn j(2) by blast
    have "w \<le> t - 1" using 2(5) j(1,2) w(1) by fastforce
    then show ?thesis using w(2) by simp
  qed
  moreover have "v \<le> s - 1" if "a \<in> set (args c)" "entry (qbits st) a = Some v" for a v
    using up [OF _ _ that(2)] kn [of i a] that(1) by (auto simp: c_def)
  moreover have "0 < t \<and> t - 1 + len (qFunc (calls ! j)) \<le> ends st'" if "(t, j) \<in> set out" for t j using 2(5) that by blast
  ultimately show ?case using 1(1) 2(1-4) b1 by (auto simp: c_def)
qed simp

end

end
