(* ===== verification/Simd_Regions.thy ===== *)
theory Simd_Regions
  imports Simd_Run
begin

text \<open>
  The two searches of the SIMD scheduler: the interpretations of \<open>placement\<close>, the regions and their
  load in leaf functions, and the boxes side by side in the others.
\<close>

subsection \<open>The searches\<close>

lemma find_entry_Some:
  assumes "find_entry k d f ts steps = Some (i, j)"
  shows "ts \<le> i" "i < length steps" "j < k" "open_region d f (steps ! i ! j)"
proof -
  obtain x where x: "x < length (List.product [ts..<length steps] [0..<k])" "List.product [ts..<length steps] [0..<k] ! x = (i, j)"
    "open_region d f (steps ! i ! j)"
    using assms by (fastforce simp: find_entry_def find_Some_iff)
  then have "(i, j) \<in> set (List.product [ts..<length steps] [0..<k])" using nth_mem by metis
  then show "ts \<le> i" "i < length steps" "j < k" "open_region d f (steps ! i ! j)" using x(3) by simp_all
qed

definition steps_len :: "simd_state \<Rightarrow> nat" where
  "steps_len st = length (currArrParGates st)"

lemma place_len [simp]:
  "steps_len (join_region f i j st) = steps_len st" "steps_len (start_region k f i j st) = steps_len st"
  "steps_len (new_step k f st) = Suc (steps_len st)"
  "qbits (join_region f i j st) = qbits st" "qbits (start_region k f i j st) = qbits st" "qbits (new_step k f st) = qbits st"
  "firstMeas (join_region f i j st) = firstMeas st" "firstMeas (start_region k f i j st) = firstMeas st"
  "firstMeas (new_step k f st) = firstMeas st"
  by (simp_all add: steps_len_def join_region_def start_region_def new_step_def set_region_def Let_def)

definition gate_known :: "string \<Rightarrow> bool" where
  "gate_known f \<longleftrightarrow> has_sub f ''llvm.'' \<and> gate_type f \<noteq> None"

text \<open>Where a gate goes: into an open region, or into a new time step.\<close>

lemma leaf_cases:
  assumes "get_ts_to_schedule_leaf k d ts fname st = Some (i, st1)"
  obtains (join) f j where "gate_type fname = Some f" "ts \<le> i" "i < steps_len st" "j < k"
      "open_region d f (currArrParGates st ! i ! j)" "fst (currArrParGates st ! i ! j) = Some f" "st1 = join_region f i j st"
    | (start) f j where "gate_type fname = Some f" "ts \<le> i" "i < steps_len st" "j < k"
      "fst (currArrParGates st ! i ! j) = None" "st1 = start_region k f i j st"
    | (new) f where "gate_type fname = Some f" "i = steps_len st" "st1 = new_step k f st"
proof -
  obtain f where f: "gate_type fname = Some f" using assms by (auto simp: get_ts_to_schedule_leaf_def split: if_splits option.splits)
  show thesis
  proof (cases "find_entry k d f ts (currArrParGates st)")
    case None
    then show thesis using assms f new by (auto simp: get_ts_to_schedule_leaf_def steps_len_def split: if_splits)
  next
    case (Some ij)
    obtain i' j where ij: "ij = (i', j)" by (cases ij)
    have e: "i' = i" "st1 = (if fst (currArrParGates st ! i ! j) = Some f then join_region f i j st else start_region k f i j st)"
      using assms f Some ij by (auto simp: get_ts_to_schedule_leaf_def split: if_splits)
    note r = find_entry_Some [OF Some [unfolded ij e(1)]]
    show thesis
    proof (cases "fst (currArrParGates st ! i ! j) = Some f")
      case True
      then show thesis using join [OF f] r e(2) by (simp add: steps_len_def)
    next
      case False
      then show thesis using start [OF f] r e(2) by (simp add: steps_len_def open_region_def)
    qed
  qed
qed

lemma leaf_at:
  assumes "schedule_at k d True ft ts f st = Some (r, first_step, st1)" "ts \<le> steps_len st"
  shows "ts \<le> first_step" "r = int first_step" "first_step < steps_len st1" "steps_len st \<le> steps_len st1"
    "qbits st1 = qbits st" "firstMeas st1 = firstMeas st"
proof -
  have g: "get_ts_to_schedule_leaf k d ts f st = Some (first_step, st1)" and r: "r = int first_step"
    using assms(1) by (auto simp: schedule_at_def)
  from g have "ts \<le> first_step \<and> first_step < steps_len st1 \<and> steps_len st \<le> steps_len st1 \<and>
      qbits st1 = qbits st \<and> firstMeas st1 = firstMeas st"
    by (cases rule: leaf_cases) (use assms(2) in simp_all)
  then show "ts \<le> first_step" "r = int first_step" "first_step < steps_len st1" "steps_len st \<le> steps_len st1"
    "qbits st1 = qbits st" "firstMeas st1 = firstMeas st" using r by blast+
qed

interpretation leaf_place: placement k d True ft steps_len "\<lambda>_. 1" gate_known for k d ft
proof (unfold_locales, goal_cases)
  case (1 f ts st)
  then show ?case by (auto simp: schedule_at_def get_ts_to_schedule_leaf_def gate_known_def split: option.splits)
next
  case (2 ts f st r first_step st1)
  then show ?case using leaf_at [OF 2] by (simp add: nat_add_distrib)
next
  case (3 f ts st r first_step st1)
  then show ?case using leaf_at [OF 3(3,4)] by simp
qed (simp_all add: steps_len_def)

definition block_end :: "simd_state \<Rightarrow> nat" where
  "block_end st = mLength (totalSched st) + mLength (currSched st)"

definition box_length :: "info_table \<Rightarrow> string \<Rightarrow> nat" where
  "box_length ft f = (case black_box ft f of None \<Rightarrow> 0 | Some b \<Rightarrow> mLength b)"

text \<open>A call that has a box, and lasts one step if it measures.\<close>

definition has_box :: "info_table \<Rightarrow> string \<Rightarrow> bool" where
  "has_box ft f \<longleftrightarrow> black_box ft f \<noteq> None \<and> (is_meas f \<longrightarrow> isIntrinsic f \<and> base_name f \<in> {''MeasX'', ''MeasZ''})"

lemma meas_box: "has_box ft f \<Longrightarrow> is_meas f \<Longrightarrow> box_length ft f = 1"
  by (auto simp: has_box_def box_length_def black_box_def checkIfIntrinsic_def)

lemma box_cases:
  assumes "get_ts_to_schedule k ts b st = (r, first_step, st1)"
  obtains (join) "ts < block_end st" "mWidth b + mWidth (currSched st) \<le> k" "first_step = max ts (mLength (totalSched st))"
      "st1 = st\<lparr>currSched := join_block (first_step - mLength (totalSched st)) b (currSched st)\<rparr>" "r = int (block_end st1) - 1"
    | (close) "first_step = block_end st" "st1 = st\<lparr>totalSched := close_block (totalSched st) (currSched st), currSched := b\<rparr>"
      "r = int (block_end st1) - 1"
proof (cases "ts < block_end st \<and> mWidth b + mWidth (currSched st) \<le> k")
  case True
  define f where "f = max ts (mLength (totalSched st))"
  have "get_ts_to_schedule k ts b st = (let st1 = st\<lparr>currSched := join_block (f - mLength (totalSched st)) b (currSched st)\<rparr>
     in (int (block_end st1) - 1, f, st1))" using True by (simp add: get_ts_to_schedule_def Let_def block_end_def f_def)
  then show thesis using assms join True f_def by (metis prod.inject)
next
  case False
  then have "get_ts_to_schedule k ts b st = (let st1 = st\<lparr>totalSched := close_block (totalSched st) (currSched st), currSched := b\<rparr>
     in (int (block_end st1) - 1, block_end st, st1))" by (auto simp: get_ts_to_schedule_def Let_def block_end_def)
  then show thesis using assms close by (simp add: Let_def)
qed

lemma box_at:
  assumes "get_ts_to_schedule k ts b st = (r, first_step, st1)" "ts \<le> block_end st"
  shows "ts \<le> first_step" "first_step + mLength b \<le> nat (r + 1)" "nat (r + 1) = block_end st1" "block_end st \<le> block_end st1"
    "mLength (totalSched st1) \<le> first_step" "qbits st1 = qbits st" "firstMeas st1 = firstMeas st"
    "0 < mLength b \<Longrightarrow> int ts \<le> r" "r = int (block_end st1) - 1"
proof -
  have "ts \<le> first_step \<and> first_step + mLength b \<le> block_end st1 \<and> block_end st \<le> block_end st1 \<and>
      mLength (totalSched st1) \<le> first_step \<and> qbits st1 = qbits st \<and> firstMeas st1 = firstMeas st \<and>
      r = int (block_end st1) - 1 \<and> (0 < mLength b \<longrightarrow> ts < block_end st1)"
    using assms(1)
  proof (cases rule: box_cases)
    case join
    define t c where "t = mLength (totalSched st)" and "c = mLength (currSched st)"
    have e: "block_end st1 = t + max (first_step - t + mLength b) c" "block_end st = t + c" "t \<le> first_step" "ts \<le> first_step"
      using join(3) by (simp_all add: join(4) block_end_def join_block_def Let_def t_def c_def)
    moreover have "ts < t + c" using join(1) e(2) by simp
    ultimately have "first_step + mLength b \<le> block_end st1" "block_end st \<le> block_end st1" "ts < block_end st1" by linarith+
    then show ?thesis using e(3,4) join(5) by (simp add: join(4) t_def)
  next
    case close
    have e: "block_end st1 = block_end st + mLength b" "mLength (totalSched st1) = block_end st"
      by (simp_all add: close(2) block_end_def close_block_def)
    then show ?thesis using assms(2) close(1,3) by (simp add: close(2))
  qed
  then show "ts \<le> first_step" "first_step + mLength b \<le> nat (r + 1)" "nat (r + 1) = block_end st1" "block_end st \<le> block_end st1"
    "mLength (totalSched st1) \<le> first_step" "qbits st1 = qbits st" "firstMeas st1 = firstMeas st"
    "0 < mLength b \<Longrightarrow> int ts \<le> r" "r = int (block_end st1) - 1" by simp_all
qed

text \<open>A box lies in its block.\<close>

lemma box_inside:
  assumes "get_ts_to_schedule k ts b st = (r, first_step, st1)"
  shows "mLength (totalSched st1) \<le> first_step" "first_step + mLength b \<le> block_end st1"
    "mLength b = 1 \<Longrightarrow> mLength (totalSched st1) \<le> nat r" "mLength b = 1 \<Longrightarrow> nat r + 1 \<le> block_end st1"
proof -
  have "mLength (totalSched st1) \<le> first_step \<and> first_step + mLength b \<le> block_end st1 \<and> r = int (block_end st1) - 1"
    using assms
  proof (cases rule: box_cases)
    case join
    then show ?thesis by (simp add: block_end_def join_block_def Let_def)
  next
    case close
    then show ?thesis by (simp add: block_end_def close_block_def)
  qed
  then show "mLength (totalSched st1) \<le> first_step" "first_step + mLength b \<le> block_end st1"
    "mLength b = 1 \<Longrightarrow> mLength (totalSched st1) \<le> nat r" "mLength b = 1 \<Longrightarrow> nat r + 1 \<le> block_end st1" by linarith+
qed

interpretation box_place: placement k d False ft block_end "box_length ft" "has_box ft" for k d ft
proof (unfold_locales, goal_cases)
  case (1 f ts st)
  then show ?case by (auto simp: schedule_at_def has_box_def)
next
  case (2 ts f st r first_step st1)
  then obtain b where b: "black_box ft f = Some b" "get_ts_to_schedule k ts b st = (r, first_step, st1)"
    by (auto simp: schedule_at_def)
  then show ?case using box_at [OF b(2) 2(2)] by (simp add: box_length_def)
next
  case (3 f ts st r first_step st1)
  then obtain b where b: "black_box ft f = Some b" "get_ts_to_schedule k ts b st = (r, first_step, st1)"
    by (auto simp: schedule_at_def)
  then show ?case using box_at [OF b(2) 3(4)] meas_box [OF 3(1,2)] by (simp add: box_length_def)
qed (simp_all add: block_end_def)

subsection \<open>Invariants of the run\<close>

definition shape :: "simd_state \<Rightarrow> modularInfo \<times> modularInfo \<times> par_gates list" where
  "shape st = (totalSched st, currSched st, currArrParGates st)"

lemma critical_shape:
  assumes "simd_critical_time k d leaf ft names c st = Some (s, st2)"
  shows "\<exists>ts r first_step st0 st1. schedule_at k d leaf ft ts (qFunc c) st0 = Some (r, first_step, st1) \<and>
    shape st0 = shape st \<and> shape st2 = shape st1 \<and> (s = first_step + 1 \<or> is_meas (qFunc c) \<and> s = nat r + 1)"
proof (cases "firstMeas st \<and> is_meas (qFunc c)")
  case True
  then have "simd_first_meas k d leaf ft names c st = Some (s, st2)" using assms by (simp add: simd_critical_time_def)
  then obtain r first_step st1 where "schedule_at k d leaf ft (find_max_funcQbits names (qbits st)) (qFunc c) st = Some (r, first_step, st1)"
    "s = nat r + 1" "shape st2 = shape st1"
    by (auto simp: simd_first_meas_def Let_def shape_def split: option.splits list.splits prod.splits if_splits)
  then show ?thesis using True by blast
next
  case False
  then have "simd_gate k d leaf ft c st = Some (s, st2)" using assms by (auto simp: simd_critical_time_def)
  then obtain m tab r first_step st1 where "schedule_at k d leaf ft m (qFunc c) (st\<lparr>qbits := tab\<rparr>) = Some (r, first_step, st1)"
    "s = first_step + 1" "shape st2 = shape st1"
    by (auto simp: simd_gate_def shape_def split: option.splits prod.splits)
  moreover have "shape (st\<lparr>qbits := tab\<rparr>) = shape st" by (simp add: shape_def)
  ultimately show ?thesis by blast
qed

lemma schedule_calls_invariant:
  assumes "\<And>done i st s st1. I done st \<Longrightarrow> i \<in> set is \<Longrightarrow> simd_critical_time k d leaf ft names (calls ! i) st = Some (s, st1) \<Longrightarrow> I (done @ [(s, i)]) st1"
  shows "I done st \<Longrightarrow> schedule_calls k d leaf ft names calls is st = Some (out, st') \<Longrightarrow> I (done @ out) st'"
  using assms
proof (induction "is" arbitrary: "done" st out)
  case (Cons i "is")
  obtain s st1 out1 where 1: "simd_critical_time k d leaf ft names (calls ! i) st = Some (s, st1)"
    "schedule_calls k d leaf ft names calls is st1 = Some (out1, st')" "out = (s, i) # out1"
    using Cons.prems(2) by (auto split: option.splits prod.splits)
  have "I (done @ [(s, i)]) st1" using Cons.prems(1,3) 1(1) by simp
  from Cons.IH [OF this 1(2)] Cons.prems(3) show ?case using 1(3) by simp
qed simp

subsection \<open>Regions of leaf functions\<close>

text \<open>The gates of a type in a time step, and a region that is not overfull.\<close>

definition used :: "nat \<Rightarrow> par_gates \<Rightarrow> nat" where
  "used f step = sum_list (map (\<lambda>e. if fst e = Some f then snd e else 0) step)"

definition region_fits :: "nat \<Rightarrow> nat option \<times> nat \<Rightarrow> bool" where
  "region_fits d e = (case fst e of None \<Rightarrow> snd e = 0
     | Some f \<Rightarrow> snd e = 1 \<or> (1 < snd e \<and> (if f = 0 then 2 * snd e \<le> d + 1 else snd e \<le> d)))"

text \<open>The calls of a type that are printed at a time step.\<close>

definition printed :: "call list \<Rightarrow> (nat \<times> nat) list \<Rightarrow> nat \<Rightarrow> nat \<Rightarrow> nat" where
  "printed calls out f s = length (filter (\<lambda>(t, n). t = s \<and> gate_type (qFunc (calls ! n)) = Some f) out)"

definition regions_inv :: "nat \<Rightarrow> nat \<Rightarrow> call list \<Rightarrow> (nat \<times> nat) list \<Rightarrow> simd_state \<Rightarrow> bool" where
  "regions_inv k d calls out st \<longleftrightarrow>
     totalSched st = no_info \<and> mLength (currSched st) = steps_len st \<and> mWidth (currSched st) \<le> k \<and>
     (\<forall>step \<in> set (currArrParGates st). length step = k \<and> (\<forall>e \<in> set step. region_fits d e)) \<and>
     (\<forall>i < steps_len st. \<forall>f. used f (currArrParGates st ! i) = printed calls out f (i + 1)) \<and>
     (\<forall>(s, n) \<in> set out. s \<le> steps_len st)"

lemma used_update:
  assumes "j < length step" "fst (step ! j) = None \<or> fst (step ! j) = Some f" "region_fits d (step ! j)"
  shows "used f' (step[j := (Some f, snd (step ! j) + 1)]) = used f' step + (if f' = f then 1 else 0)"
proof -
  define g where "g = (\<lambda>e. if fst e = Some f' then snd e else (0::nat))"
  have u: "sum_list (map g (step[j := e])) = sum_list (map g step) + g e - g (step ! j)" for e
    using assms(1) sum_list_update [of j "map g step" "g e"] by (simp add: map_update)
  have "g (step ! j) \<le> sum_list (map g step)" using elem_le_sum_list [of j "map g step"] assms(1) by simp
  then show ?thesis using assms(2,3) unfolding used_def g_def [symmetric] u
    by (auto simp: g_def region_fits_def split: option.splits)
qed

text \<open>One more gate of type \<open>f\<close> in region \<open>j\<close> of step \<open>i\<close>.\<close>

lemma set_region_inv:
  assumes "regions_inv k d calls out st" "i < steps_len st" "j < k" "gate_type (qFunc (calls ! n)) = Some f"
    "fst (currArrParGates st ! i ! j) = None \<or> fst (currArrParGates st ! i ! j) = Some f"
    "region_fits d (Some f, snd (currArrParGates st ! i ! j) + 1)" "totalSched st1 = totalSched st"
    "currArrParGates st1 = set_region i j (Some f, snd (currArrParGates st ! i ! j) + 1) (currArrParGates st)"
    "mLength (currSched st1) = mLength (currSched st)" "mWidth (currSched st1) \<le> k"
  shows "regions_inv k d calls (out @ [(i + 1, n)]) st1"
proof -
  define steps where "steps = currArrParGates st"
  define e where "e = (Some f, snd (steps ! i ! j) + 1)"
  have i: "i < length steps" using assms(2) by (simp add: steps_len_def steps_def)
  have inv: "totalSched st = no_info" "mLength (currSched st) = length steps"
    "\<forall>step \<in> set steps. length step = k \<and> (\<forall>e \<in> set step. region_fits d e)"
    "\<forall>x < length steps. \<forall>f. used f (steps ! x) = printed calls out f (x + 1)" "\<forall>(s, n) \<in> set out. s \<le> length steps"
    using assms(1) unfolding regions_inv_def steps_len_def steps_def by blast+
  have si: "length (steps ! i) = k" "\<forall>e \<in> set (steps ! i). region_fits d e" using inv(3) nth_mem [OF i] by blast+
  have s1: "currArrParGates st1 = steps[i := (steps ! i)[j := e]]" using assms(8) by (simp add: set_region_def steps_def e_def)
  have "used g ((steps ! i)[j := e]) = used g (steps ! i) + (if g = f then 1 else 0)" for g
    using used_update [of j "steps ! i" f d g] assms(3,5) si nth_mem [of j "steps ! i"] by (simp add: e_def steps_def)
  then have "\<forall>x < length steps. \<forall>g. used g (steps[i := (steps ! i)[j := e]] ! x) = printed calls (out @ [(i + 1, n)]) g (x + 1)"
    using inv(4) assms(4) i by (auto simp: nth_list_update printed_def)
  moreover have "\<forall>step \<in> set (steps[i := (steps ! i)[j := e]]). length step = k \<and> (\<forall>e \<in> set step. region_fits d e)"
  proof
    fix step assume "step \<in> set (steps[i := (steps ! i)[j := e]])"
    then have "step \<in> set steps \<or> step = (steps ! i)[j := e]" using set_update_subset_insert by fastforce
    moreover have "\<forall>x \<in> set ((steps ! i)[j := e]). region_fits d x"
      using si(2) assms(6) set_update_subset_insert [of "steps ! i" j e] by (auto simp: e_def steps_def)
    ultimately show "length step = k \<and> (\<forall>e \<in> set step. region_fits d e)" using inv(3) si(1) by auto
  qed
  ultimately show ?thesis using inv assms(7,9,10) i unfolding regions_inv_def steps_len_def s1 by auto
qed

lemma new_step_inv:
  assumes "regions_inv k d calls out st" "gate_type (qFunc (calls ! n)) = Some f" "1 \<le> k"
  shows "regions_inv k d calls (out @ [(steps_len st + 1, n)]) (new_step k f st)"
proof -
  define steps where "steps = currArrParGates st"
  define step where "step = (Some f, 1::nat) # replicate (k - 1) (None, 0)"
  have inv: "totalSched st = no_info" "mLength (currSched st) = length steps" "mWidth (currSched st) \<le> k"
    "\<forall>step \<in> set steps. length step = k \<and> (\<forall>e \<in> set step. region_fits d e)"
    "\<forall>x < length steps. \<forall>f. used f (steps ! x) = printed calls out f (x + 1)" "\<forall>(s, n) \<in> set out. s \<le> length steps"
    using assms(1) unfolding regions_inv_def steps_len_def steps_def by blast+
  have u: "used g step = (if g = f then 1 else 0)" for g by (simp add: used_def step_def)
  have none: "printed calls out g (Suc (length steps)) = 0" for g
    using inv(6) by (force simp: printed_def filter_empty_conv)
  have "\<forall>x < Suc (length steps). \<forall>g. used g ((steps @ [step]) ! x) = printed calls (out @ [(length steps + 1, n)]) g (x + 1)"
    using inv(5) assms(2) u none by (auto simp: nth_append less_Suc_eq printed_def)
  moreover have "length step = k \<and> (\<forall>e \<in> set step. region_fits d e)" using assms(3) by (auto simp: step_def region_fits_def)
  ultimately show ?thesis using inv assms(3)
    unfolding regions_inv_def steps_len_def
    by (auto simp: new_step_def Let_def count_tgate_def steps_def step_def)
qed

lemma leaf_inv:
  assumes "regions_inv k d calls out st" "1 \<le> k" "get_ts_to_schedule_leaf k d ts (qFunc (calls ! n)) st = Some (i, st1)"
  shows "regions_inv k d calls (out @ [(i + 1, n)]) st1"
  using assms(3)
proof (cases rule: leaf_cases)
  case (join f j)
  have "currArrParGates st ! i \<in> set (currArrParGates st)" using join(3) by (simp add: steps_len_def)
  then have "region_fits d (currArrParGates st ! i ! j)" using assms(1) join(4) unfolding regions_inv_def by force
  then have "region_fits d (Some f, snd (currArrParGates st ! i ! j) + 1)"
    using join(5,6) by (auto simp: open_region_def region_fits_def split: if_splits)
  with assms(1) join show ?thesis
    by (intro set_region_inv [where f = f and j = j and st = st]) (auto simp: join_region_def Let_def regions_inv_def)
next
  case (start f j)
  have "currArrParGates st ! i \<in> set (currArrParGates st)" using start(3) by (simp add: steps_len_def)
  then have "region_fits d (currArrParGates st ! i ! j)" using assms(1) start(4) unfolding regions_inv_def by force
  then have "snd (currArrParGates st ! i ! j) = 0" using start(5) by (simp add: region_fits_def)
  with assms(1) start show ?thesis
    by (intro set_region_inv [where f = f and j = j and st = st])
      (auto simp: start_region_def Let_def regions_inv_def region_fits_def count_tgate_def)
next
  case (new f)
  then show ?thesis using new_step_inv [OF assms(1) _ assms(2)] by simp
qed

lemma regions_shape: "shape st = shape st' \<Longrightarrow> regions_inv k d calls out st = regions_inv k d calls out st'"
  by (simp add: regions_inv_def shape_def steps_len_def)

lemma leaf_run_inv:
  assumes "schedule_calls k d True ft names calls is (init_simd tab) = Some (out, st)" "1 \<le> k"
  shows "regions_inv k d calls out st"
proof -
  have step: "regions_inv k d calls (done @ [(s, i)]) st1"
    if h: "regions_inv k d calls done st" "simd_critical_time k d True ft names (calls ! i) st = Some (s, st1)" for "done" i st s st1
  proof -
    obtain ts r first_step st0 st2 where c: "schedule_at k d True ft ts (qFunc (calls ! i)) st0 = Some (r, first_step, st2)"
      "shape st0 = shape st" "shape st1 = shape st2" "s = first_step + 1 \<or> s = nat r + 1"
      using critical_shape [OF h(2)] by metis
    then have g: "get_ts_to_schedule_leaf k d ts (qFunc (calls ! i)) st0 = Some (first_step, st2)" "s = first_step + 1"
      by (auto simp: schedule_at_def)
    have "regions_inv k d calls (done @ [(s, i)]) st2"
      using leaf_inv [OF _ assms(2) g(1)] h(1) g(2) regions_shape [OF c(2)] by simp
    then show ?thesis using regions_shape [OF c(3)] by simp
  qed
  have "regions_inv k d calls [] (init_simd tab)" by (simp add: regions_inv_def init_simd_def no_info_def steps_len_def)
  from schedule_calls_invariant [where I = "regions_inv k d calls", OF step this assms(1)] show ?thesis by simp
qed

subsection \<open>Boxes of the other functions\<close>

definition box_width :: "info_table \<Rightarrow> string \<Rightarrow> nat" where
  "box_width ft f = (case black_box ft f of None \<Rightarrow> 0 | Some b \<Rightarrow> mWidth b)"

text \<open>The width of all boxes that run at a printed time step.\<close>

definition load :: "info_table \<Rightarrow> call list \<Rightarrow> (nat \<times> nat) list \<Rightarrow> nat \<Rightarrow> nat" where
  "load ft calls out t = sum_list (map (\<lambda>(s, n). if s \<le> t \<and> t < s + box_length ft (qFunc (calls ! n))
     then box_width ft (qFunc (calls ! n)) else 0) out)"

definition boxes_inv :: "nat \<Rightarrow> info_table \<Rightarrow> call list \<Rightarrow> (nat \<times> nat) list \<Rightarrow> simd_state \<Rightarrow> bool" where
  "boxes_inv k ft calls out st \<longleftrightarrow>
     (\<forall>t. load ft calls out t \<le> k) \<and> (\<forall>t > mLength (totalSched st). load ft calls out t \<le> mWidth (currSched st)) \<and>
     (\<forall>(s, n) \<in> set out. s + box_length ft (qFunc (calls ! n)) \<le> block_end st + 1) \<and>
     mWidth (currSched st) \<le> k \<and> mWidth (totalSched st) \<le> k"

lemma box_step_inv:
  assumes "boxes_inv k ft calls out st" "get_ts_to_schedule k ts b st = (r, first_step, st1)" "black_box ft (qFunc (calls ! n)) = Some b"
    "mWidth b \<le> k" "mLength (totalSched st1) < s" "s + mLength b \<le> block_end st1 + 1"
  shows "boxes_inv k ft calls (out @ [(s, n)]) st1"
proof -
  have inv: "load ft calls out t \<le> k" "mLength (totalSched st) < t \<Longrightarrow> load ft calls out t \<le> mWidth (currSched st)"
    "(x, y) \<in> set out \<Longrightarrow> x + box_length ft (qFunc (calls ! y)) \<le> block_end st + 1"
    "mWidth (currSched st) \<le> k" "mWidth (totalSched st) \<le> k" for t x y
    using assms(1) by (auto simp: boxes_inv_def)
  have b: "box_length ft (qFunc (calls ! n)) = mLength b" "box_width ft (qFunc (calls ! n)) = mWidth b"
    using assms(3) by (simp_all add: box_length_def box_width_def)
  have l: "load ft calls (out @ [(s, n)]) t = load ft calls out t + (if s \<le> t \<and> t < s + mLength b then mWidth b else 0)" for t
    by (simp add: load_def b)
  have "block_end st \<le> block_end st1 \<and> mWidth (currSched st1) \<le> k \<and> mWidth (totalSched st1) \<le> k \<and>
      (\<forall>t. mLength (totalSched st1) < t \<longrightarrow> load ft calls out t + mWidth b \<le> mWidth (currSched st1))"
    using assms(2)
  proof (cases rule: box_cases)
    case join
    then show ?thesis using inv(2,5) by (simp add: join(4) block_end_def join_block_def Let_def)
  next
    case close
    have "load ft calls out t = 0" if "block_end st < t" for t
      using inv(3) that by (fastforce simp: load_def)
    then show ?thesis using inv(4,5) assms(4) by (simp add: close(2) block_end_def close_block_def)
  qed
  then have g: "block_end st \<le> block_end st1" "mWidth (currSched st1) \<le> k" "mWidth (totalSched st1) \<le> k"
    "\<And>t. mLength (totalSched st1) < t \<Longrightarrow> load ft calls out t + mWidth b \<le> mWidth (currSched st1)" by blast+
  have "load ft calls (out @ [(s, n)]) t \<le> k" for t
  proof (cases "mLength (totalSched st1) < t")
    case True
    then show ?thesis using g(2) g(4) [OF True] l [of t] by simp
  next
    case False
    then show ?thesis using inv(1) [of t] l [of t] assms(5) by simp
  qed
  moreover have "load ft calls (out @ [(s, n)]) t \<le> mWidth (currSched st1)" if "mLength (totalSched st1) < t" for t
    using g(4) [OF that] l [of t] by simp
  moreover have "x + box_length ft (qFunc (calls ! y)) \<le> block_end st1 + 1" if "(x, y) \<in> set (out @ [(s, n)])" for x y
    using that inv(3) [of x y] g(1) assms(6) b(1) by auto
  ultimately show ?thesis using g(2,3) by (auto simp: boxes_inv_def)
qed

lemma boxes_shape: "shape st = shape st' \<Longrightarrow> boxes_inv k ft calls out st = boxes_inv k ft calls out st'"
  by (simp add: boxes_inv_def shape_def block_end_def)

lemma box_run_inv:
  assumes "schedule_calls k d False ft names calls is (init_simd tab) = Some (out, st)"
    "\<forall>i \<in> set is. has_box ft (qFunc (calls ! i)) \<and> box_width ft (qFunc (calls ! i)) \<le> k"
  shows "boxes_inv k ft calls out st"
proof -
  have step: "boxes_inv k ft calls (done @ [(s, i)]) st1"
    if h: "boxes_inv k ft calls done st" "i \<in> set is" "simd_critical_time k d False ft names (calls ! i) st = Some (s, st1)" for "done" i st s st1
  proof -
    obtain ts r first_step st0 st2 where c: "schedule_at k d False ft ts (qFunc (calls ! i)) st0 = Some (r, first_step, st2)"
      "shape st0 = shape st" "shape st1 = shape st2" "s = first_step + 1 \<or> is_meas (qFunc (calls ! i)) \<and> s = nat r + 1"
      using critical_shape [OF h(3)] by metis
    then obtain b where g: "black_box ft (qFunc (calls ! i)) = Some b" "get_ts_to_schedule k ts b st0 = (r, first_step, st2)"
      by (auto simp: schedule_at_def)
    have w: "mWidth b \<le> k" using assms(2) h(2) g(1) by (auto simp: box_width_def)
    have "mLength b = 1" if "is_meas (qFunc (calls ! i))" using meas_box [OF _ that] assms(2) h(2) g(1) by (force simp: box_length_def)
    then have "mLength (totalSched st2) < s \<and> s + mLength b \<le> block_end st2 + 1"
      using c(4) box_inside [OF g(2)] by auto
    then have "boxes_inv k ft calls (done @ [(s, i)]) st2"
      using box_step_inv [OF _ g(2,1) w] h(1) boxes_shape [OF c(2)] by simp
    then show ?thesis using boxes_shape [OF c(3)] by simp
  qed
  have "boxes_inv k ft calls [] (init_simd tab)" by (simp add: boxes_inv_def init_simd_def no_info_def load_def)
  from schedule_calls_invariant [where I = "boxes_inv k ft calls", OF step this assms(1)] show ?thesis by simp
qed

end
