(* ===== verification/Simd_Claims.thy ===== *)
theory Simd_Claims
  imports Simd_Regions
begin

text \<open>
  What the SIMD scheduler guarantees: calls that share an operand follow each other as in the program,
  the regions of a leaf function are not overfull, the boxes that run at the same time fit into the
  \<open>k\<close> regions. And what it does not: rotations and Y gates stop it, and T gates are missed.
\<close>

text \<open>The time a call takes, and the functions that can be scheduled: operands are known, a measurement
  has one operand, gates have a type (in a leaf function) and called functions are scheduled.\<close>

definition duration :: "bool \<Rightarrow> info_table \<Rightarrow> string \<Rightarrow> nat" where
  "duration leaf ft f = (if leaf then 1 else box_length ft f)"

definition call_ready :: "bool \<Rightarrow> info_table \<Rightarrow> string list \<Rightarrow> call \<Rightarrow> bool" where
  "call_ready leaf ft names c \<longleftrightarrow> known_args names c \<and> (is_meas (qFunc c) \<longrightarrow> length (args c) = 1) \<and>
     (if leaf then gate_known (qFunc c) else has_box ft (qFunc c))"

definition simd_ready :: "info_table \<Rightarrow> crit_func \<Rightarrow> bool" where
  "simd_ready ft F \<longleftrightarrow> (\<forall>c \<in> set (fn_calls F). known_args (qbit_names F) c \<and>
     (is_gate c \<longrightarrow> call_ready (hasPrimitivesOnly (fn_calls F)) ft (qbit_names F) c))"

subsection \<open>The run of a function\<close>

lemma gate_index_bound: "i \<in> set (gate_indices calls) \<Longrightarrow> i < length calls \<and> is_gate (calls ! i)"
  by (simp add: gate_indices_def)

lemma simd_function_runs:
  assumes "simd_ready ft F" "sorts sort_prio"
  shows "\<exists>is tab out st. program_order (fn_calls F) is \<and>
    simd_function k d sort_prio ft F = Some (out, st) \<and>
    schedule_calls k d (hasPrimitivesOnly (fn_calls F)) ft (qbit_names F) (fn_calls F) is (init_simd tab) = Some (out, st) \<and> map snd out = is \<and>
    sorted_wrt (\<lambda>(s, i) (t, j). share (fn_calls F ! i) (fn_calls F ! j) \<longrightarrow>
      s + duration (hasPrimitivesOnly (fn_calls F)) ft (qFunc (fn_calls F ! i)) \<le> t) out \<and>
    (\<forall>(s, i) \<in> set out. 0 < s \<and> s - 1 + duration (hasPrimitivesOnly (fn_calls F)) ft (qFunc (fn_calls F ! i)) \<le>
      (if hasPrimitivesOnly (fn_calls F) then steps_len st else block_end st))"
proof -
  define calls names leaf where "calls = fn_calls F" and "names = qbit_names F" and "leaf = hasPrimitivesOnly calls"
  define tab0 where "tab0 = (\<lambda>n. if n \<in> set names then Some new_entry else None)"
  have t0: "table_at names tab0 (\<lambda>_. 0)" by (simp add: table_at_def entry_at_def tab0_def new_entry_def)
  have kn: "\<forall>(i, c) \<in> set (rev (enumerate 0 calls)). c = calls ! i \<and> known_args names c"
    using assms(1) by (auto simp: enumerate_map simd_ready_def calls_def names_def)
  obtain ps tab where ps: "find_priorities tab0 (rev (enumerate 0 calls)) = Some (ps, tab)" "\<exists>lv. table_at names tab lv"
    "map fst ps = rev (gate_indices calls)" "\<forall>(i, p) \<in> set ps. \<forall>a \<in> set (args (calls ! i)). held tab a"
    "sorted_wrt (\<lambda>(i, p) (j, q). share (calls ! i) (calls ! j) \<longrightarrow> p < q) ps"
    using find_priorities_at [OF t0 kn] gates_reversed by fastforce
  define "is" where "is = rev (map fst (sort_prio ps))"
  have o: "program_order calls is" using sorted_reversed_order [OF assms(2) ps(3,5)] by (simp add: is_def)
  define st0 where "st0 = init_simd (memset_funcQbits 0 tab)"
  have is_set: "set is = set (gate_indices calls)" using o by (metis program_order_def set_mset_mset)
  have b: "bounded_tab names (qbits st0) 0"
    using ps(2) by (auto simp: st0_def init_simd_def bounded_tab_def memset_funcQbits_def table_at_def entry_at_def)
  have hd: "held (qbits st0) a" if "i \<in> set is" "a \<in> set (args (calls ! i))" for i a
  proof -
    have "i \<in> set (map fst ps)" using that(1) is_set ps(3) by simp
    then obtain p where "(i, p) \<in> set ps" by auto
    then have "held tab a" using ps(4) that(2) by fastforce
    then show ?thesis by (simp add: st0_def init_simd_def held_entry entry_memset)
  qed
  have cr: "call_ready leaf ft names (calls ! i) \<and> args (calls ! i) \<noteq> []" if "i \<in> set is" for i
    using that assms(1) gate_index_bound [of i calls] nth_mem [of i calls]
    by (auto simp: is_set simd_ready_def leaf_def names_def calls_def is_gate_def)
  have f: "simd_function k d sort_prio ft F = schedule_calls k d leaf ft names calls is st0"
    using ps(1) by (simp add: simd_function_def Let_def calls_def names_def leaf_def st0_def is_def tab0_def)
  have "\<exists>out st. schedule_calls k d leaf ft names calls is st0 = Some (out, st) \<and> map snd out = is \<and>
    sorted_wrt (\<lambda>(s, i) (t, j). share (calls ! i) (calls ! j) \<longrightarrow> s + duration leaf ft (qFunc (calls ! i)) \<le> t) out \<and>
    (\<forall>(s, i) \<in> set out. 0 < s \<and> s - 1 + duration leaf ft (qFunc (calls ! i)) \<le> (if leaf then steps_len st else block_end st))"
  proof (cases leaf)
    case True
    have "\<forall>i \<in> set is. leaf_place.callable names (calls ! i) \<and> (\<forall>a \<in> set (args (calls ! i)). held (qbits st0) a)"
      using cr hd True by (auto simp: leaf_place.callable_def call_ready_def)
    from leaf_place.run [OF this, of k d ft] b show ?thesis
      using True by (fastforce simp: steps_len_def st0_def init_simd_def duration_def)
  next
    case False
    have "\<forall>i \<in> set is. box_place.callable ft names (calls ! i) \<and> (\<forall>a \<in> set (args (calls ! i)). held (qbits st0) a)"
      using cr hd False by (auto simp: box_place.callable_def call_ready_def)
    from box_place.run [OF this, of k d] b show ?thesis
      using False by (fastforce simp: block_end_def st0_def init_simd_def no_info_def duration_def)
  qed
  then obtain out st where g: "schedule_calls k d leaf ft names calls is st0 = Some (out, st)" "map snd out = is"
    "sorted_wrt (\<lambda>(s, i) (t, j). share (calls ! i) (calls ! j) \<longrightarrow> s + duration leaf ft (qFunc (calls ! i)) \<le> t) out"
    "\<forall>(s, i) \<in> set out. 0 < s \<and> s - 1 + duration leaf ft (qFunc (calls ! i)) \<le> (if leaf then steps_len st else block_end st)"
    by (elim exE conjE)
  have "simd_function k d sort_prio ft F = Some (out, st)" using f g(1) by (rule trans)
  with o g show ?thesis
    unfolding calls_def [symmetric] names_def [symmetric] leaf_def [symmetric] st0_def by (intro exI conjI)
qed

lemma function_regions:
  assumes "simd_ready ft F" "sorts sort_prio" "1 \<le> k" "hasPrimitivesOnly (fn_calls F)"
  shows "\<exists>out st. simd_function k d sort_prio ft F = Some (out, st) \<and> mset (map snd out) = mset (gate_indices (fn_calls F)) \<and>
    regions_inv k d (fn_calls F) out st"
proof -
  obtain "is" tab out st where r: "program_order (fn_calls F) is" "simd_function k d sort_prio ft F = Some (out, st)"
    "schedule_calls k d (hasPrimitivesOnly (fn_calls F)) ft (qbit_names F) (fn_calls F) is (init_simd tab) = Some (out, st)" "map snd out = is"
    using simd_function_runs [OF assms(1,2), of k d] by blast
  have "regions_inv k d (fn_calls F) out st" using leaf_run_inv [OF _ assms(3)] r(3) assms(4) by simp
  then show ?thesis using r(1,2,4) by (auto simp: program_order_def)
qed

lemma function_boxes:
  assumes "simd_ready ft F" "sorts sort_prio" "1 \<le> k" "\<not> hasPrimitivesOnly (fn_calls F)" "\<forall>f \<in> dom ft. mWidth (the (ft f)) \<le> k"
  shows "\<exists>out st. simd_function k d sort_prio ft F = Some (out, st) \<and> mset (map snd out) = mset (gate_indices (fn_calls F)) \<and>
    boxes_inv k ft (fn_calls F) out st"
proof -
  obtain "is" tab out st where r: "program_order (fn_calls F) is" "simd_function k d sort_prio ft F = Some (out, st)"
    "schedule_calls k d (hasPrimitivesOnly (fn_calls F)) ft (qbit_names F) (fn_calls F) is (init_simd tab) = Some (out, st)" "map snd out = is"
    using simd_function_runs [OF assms(1,2), of k d] by blast
  have s: "set is = set (gate_indices (fn_calls F))" using r(1) by (metis program_order_def set_mset_mset)
  have "has_box ft (qFunc (fn_calls F ! i))" if "i \<in> set is" for i
    using that s gate_index_bound [of i "fn_calls F"] nth_mem [of i "fn_calls F"] assms(1,4) by (auto simp: simd_ready_def call_ready_def)
  moreover have "box_width ft f \<le> k" for f
    using assms(3,5) by (auto simp: box_width_def black_box_def dom_def split: option.splits)
  ultimately have "boxes_inv k ft (fn_calls F) out st" using box_run_inv r(3) assms(4) by simp
  then show ?thesis using r(1,2,4) by (auto simp: program_order_def)
qed




subsection \<open>What the scheduler guarantees\<close>

text \<open>A leaf function and a function that calls it.\<close>

definition gate :: "string \<Rightarrow> int list \<Rightarrow> call" where
  "gate n qs = \<lparr>qFunc = ''llvm.'' @ n @ ''.i16'', args = map (\<lambda>q. (''q'', q)) qs\<rparr>"

definition simd_leaf_ex :: crit_func where
  "simd_leaf_ex = \<lparr>fn_name = ''f'', fn_params = [], fn_arrays = [''q''],
     fn_calls = [gate ''H'' [0], gate ''T'' [1], gate ''CNOT'' [0, 1], gate ''H'' [2], gate ''MeasZ'' [0]]\<rparr>"

definition simd_call_ex :: crit_func where
  "simd_call_ex = \<lparr>fn_name = ''g'', fn_params = [], fn_arrays = [''q''],
     fn_calls = [gate ''H'' [2], \<lparr>qFunc = ''f'', args = [(''q'', 0), (''q'', 1), (''q'', 2)]\<rparr>, gate ''T'' [1], gate ''MeasZ'' [0]]\<rparr>"

definition simd_info_ex :: info_table where
  "simd_info_ex = [''f'' \<mapsto> no_info\<lparr>mWidth := 2, mLength := 3\<rparr>]"


text \<open>C20: A function that is ready is scheduled: every call with qubits is printed once, and of two calls
  that share an operand the later one in the program starts when the earlier one has ended. No call
  ends after the length that is stored for the function.\<close>

theorem simd_order:
  assumes "simd_ready ft F" "sorts sort_prio" "1 \<le> k"
  shows "\<exists>out st. simd_function k d sort_prio ft F = Some (out, st) \<and>
    mset (map snd out) = mset (gate_indices (fn_calls F)) \<and>
    (\<forall>(s, i) \<in> set out. 0 < s \<and> s - 1 + duration (hasPrimitivesOnly (fn_calls F)) ft (qFunc (fn_calls F ! i)) \<le> mLength (save_blackbox_info st)) \<and>
    (\<forall>(s, i) \<in> set out. \<forall>(t, j) \<in> set out. i < j \<and> share (fn_calls F ! i) (fn_calls F ! j) \<longrightarrow>
       s + duration (hasPrimitivesOnly (fn_calls F)) ft (qFunc (fn_calls F ! i)) \<le> t)"
proof -
  define calls leaf where "calls = fn_calls F" and "leaf = hasPrimitivesOnly calls"
  obtain "is" tab out st where r: "program_order calls is" "simd_function k d sort_prio ft F = Some (out, st)"
    "schedule_calls k d leaf ft (qbit_names F) calls is (init_simd tab) = Some (out, st)" "map snd out = is"
    "sorted_wrt (\<lambda>(s, i) (t, j). share (calls ! i) (calls ! j) \<longrightarrow> s + duration leaf ft (qFunc (calls ! i)) \<le> t) out"
    "\<forall>(s, i) \<in> set out. 0 < s \<and> s - 1 + duration leaf ft (qFunc (calls ! i)) \<le> (if leaf then steps_len st else block_end st)"
    using simd_function_runs [OF assms(1,2), of k d, folded calls_def, folded leaf_def] by (elim exE conjE) (rule that)
  have e: "mLength (save_blackbox_info st) = (if leaf then steps_len st else block_end st)"
  proof (cases leaf)
    case True
    then have "regions_inv k d calls out st" using leaf_run_inv [OF _ assms(3)] r(3) by simp
    then show ?thesis using True by (simp add: regions_inv_def save_blackbox_info_def close_block_def no_info_def)
  qed (simp add: save_blackbox_info_def close_block_def block_end_def)
  have "s + duration leaf ft (qFunc (calls ! i)) \<le> t" if h: "(s, i) \<in> set out" "(t, j) \<in> set out" "i < j" "share (calls ! i) (calls ! j)" for s i t j
  proof -
    obtain x y where xy: "x < length out" "out ! x = (s, i)" "y < length out" "out ! y = (t, j)"
      using h(1,2) by (auto simp: in_set_conv_nth)
    have n: "is ! x = i" "is ! y = j" using r(4) xy by (metis nth_map snd_conv)+
    have "sorted_wrt (\<lambda>i j. share (calls ! i) (calls ! j) \<longrightarrow> i < j) is" using r(1) by (simp add: program_order_def)
    moreover have "share (calls ! j) (calls ! i)" using h(4) by (simp add: share_def Int_commute)
    ultimately have "\<not> y < x" using n xy(1,3) h(3) r(4) unfolding sorted_wrt_iff_nth_less by (metis length_map order.asym)
    moreover have "x \<noteq> y" using n h(3) by auto
    ultimately have "x < y" by simp
    then show ?thesis using r(5) xy h(4) by (fastforce simp: sorted_wrt_iff_nth_less)
  qed
  then have "\<forall>(s, i) \<in> set out. \<forall>(t, j) \<in> set out. i < j \<and> share (calls ! i) (calls ! j) \<longrightarrow> s + duration leaf ft (qFunc (calls ! i)) \<le> t"
    by blast
  moreover have "mset (map snd out) = mset (gate_indices calls)" using r(1,4) by (simp add: program_order_def)
  ultimately show ?thesis using r(2) r(6) [folded e]
    unfolding calls_def [symmetric] leaf_def [symmetric] by (intro exI conjI)
qed

theorem simd_order_witness:
  "\<exists>out st. simd_function 2 10 (sort_key snd) simd_info_ex simd_call_ex = Some (out, st) \<and> mset (map snd out) = mset [0, 1, 2, 3]"
proof -
  have "simd_ready simd_info_ex simd_call_ex" by code_simp
  from simd_order [OF this sorts_sort_key, of 2 10]
  have "\<exists>out st. simd_function 2 10 (sort_key snd) simd_info_ex simd_call_ex = Some (out, st) \<and>
    mset (map snd out) = mset (gate_indices (fn_calls simd_call_ex))" by simp blast
  moreover have "gate_indices (fn_calls simd_call_ex) = [0, 1, 2, 3]" by code_simp
  ultimately show ?thesis by simp
qed

text \<open>C21: A leaf function uses at most \<open>k\<close> regions in every time step, each with gates of one type; no
  region takes more than \<open>d\<close> gates, or CNOT gates on more than \<open>d + 1\<close> qubits, except for its first gate;
  and the gates of a type in a time step are those printed for it.\<close>

theorem simd_regions:
  assumes "simd_ready ft F" "sorts sort_prio" "1 \<le> k" "hasPrimitivesOnly (fn_calls F)"
  shows "\<exists>out st. simd_function k d sort_prio ft F = Some (out, st) \<and>
    mLength (save_blackbox_info st) = length (currArrParGates st) \<and> mWidth (save_blackbox_info st) \<le> k \<and>
    (\<forall>step \<in> set (currArrParGates st). length step = k \<and> (\<forall>e \<in> set step. region_fits d e)) \<and>
    (\<forall>i < length (currArrParGates st). \<forall>f. used f (currArrParGates st ! i) = printed (fn_calls F) out f (i + 1))"
  using function_regions [OF assms, of d]
  by (auto simp: regions_inv_def steps_len_def save_blackbox_info_def close_block_def no_info_def)

theorem simd_regions_witness:
  "\<exists>out st. simd_function 2 10 (sort_key snd) (\<lambda>_. None) simd_leaf_ex = Some (out, st) \<and>
    mLength (save_blackbox_info st) = length (currArrParGates st) \<and> mWidth (save_blackbox_info st) \<le> 2"
proof -
  have "simd_ready (\<lambda>_. None) simd_leaf_ex" "hasPrimitivesOnly (fn_calls simd_leaf_ex)" by code_simp+
  from simd_regions [OF this(1) sorts_sort_key _ this(2), of 2 10] show ?thesis by simp blast
qed

text \<open>C22: When no called function is wider than \<open>k\<close>, the boxes that run at a time step of a function with
  calls are together at most \<open>k\<close> wide, and so is the function.\<close>

theorem simd_boxes:
  assumes "simd_ready ft F" "sorts sort_prio" "1 \<le> k" "\<not> hasPrimitivesOnly (fn_calls F)" "\<forall>f \<in> dom ft. mWidth (the (ft f)) \<le> k"
  shows "\<exists>out st. simd_function k d sort_prio ft F = Some (out, st) \<and>
    (\<forall>t. load ft (fn_calls F) out t \<le> k) \<and> mWidth (save_blackbox_info st) \<le> k"
  using function_boxes [OF assms, of d] by (auto simp: boxes_inv_def save_blackbox_info_def close_block_def)

theorem simd_boxes_witness:
  "\<exists>out st. simd_function 2 10 (sort_key snd) simd_info_ex simd_call_ex = Some (out, st) \<and>
    (\<forall>t. load simd_info_ex (fn_calls simd_call_ex) out t \<le> 2)"
proof -
  have "simd_ready simd_info_ex simd_call_ex" "\<not> hasPrimitivesOnly (fn_calls simd_call_ex)" by code_simp+
  moreover have "\<forall>f \<in> dom simd_info_ex. mWidth (the (simd_info_ex f)) \<le> 2" by (simp add: simd_info_ex_def)
  ultimately show ?thesis using simd_boxes [of simd_info_ex simd_call_ex "sort_key snd" 2 10] sorts_sort_key by auto
qed



subsection \<open>Gates that the scheduler misses\<close>

lemma schedule_calls_fails:
  "i \<in> set is \<Longrightarrow> leaf \<and> gate_type (qFunc (calls ! i)) = None \<Longrightarrow> schedule_calls k d leaf ft names calls is st = None"
proof (induction "is" arbitrary: st)
  case (Cons j "is")
  show ?case
  proof (cases "simd_critical_time k d leaf ft names (calls ! j) st")
    case (Some x)
    obtain s st1 where x: "x = (s, st1)" by (cases x)
    have "j \<noteq> i"
    proof
      assume "j = i"
      then obtain ts st0 y where "schedule_at k d leaf ft ts (qFunc (calls ! i)) st0 = Some y"
        using critical_shape [of k d leaf ft names "calls ! i" st s st1] Some x by metis
      then show False using Cons.prems(2) by (simp add: schedule_at_def get_ts_to_schedule_leaf_def split: if_splits)
    qed
    then show ?thesis using Cons Some x by simp
  qed simp
qed simp

lemma rotation_types:
  "gate_type (''llvm.'' @ ''Rx'' @ ''.i16'') = None" "gate_type (''llvm.'' @ ''Ry'' @ ''.i16'') = None"
  "gate_type (''llvm.'' @ ''Rz'' @ ''.i16'') = None" "gate_type (''llvm.'' @ ''Y'' @ ''.i16'') = None"
  by code_simp+

text \<open>The names of the intrinsics start with \<open>llvm.\<close>, so the tests for \<open>Rx\<close>, \<open>Ry\<close> and \<open>Rz\<close> at the start
  of the name never hold, and there is no test for \<open>Y\<close>: a leaf function with such a gate is not scheduled.\<close>

theorem rotations_not_scheduled:
  assumes "sorts sort_prio" "hasPrimitivesOnly (fn_calls F)" "gate n [q] \<in> set (fn_calls F)" "n \<in> {''Rx'', ''Ry'', ''Rz'', ''Y''}"
  shows "simd_function k d sort_prio ft F = None"
proof (cases "find_priorities (\<lambda>n. if n \<in> set (qbit_names F) then Some new_entry else None) (rev (enumerate 0 (fn_calls F)))")
  case (Some r)
  obtain ps tab where r: "r = (ps, tab)" by (cases r)
  have names: "map fst ps = map fst (filter (is_gate \<circ> snd) ics)" if "find_priorities tab0 ics = Some (ps, tab)" for tab0 ics ps tab
    using that
  proof (induction ics arbitrary: tab0 ps tab)
    case (Cons ic ics)
    then show ?case by (cases ic) (auto split: if_splits option.splits)
  qed simp
  have "mset (sort_prio ps) = mset ps" using assms(1) by (simp add: sorts_def)
  then have s: "set (rev (map fst (sort_prio ps))) = set (gate_indices (fn_calls F))"
    using names [OF Some [unfolded r]] gates_reversed by (metis list.set_map mset_eq_setD set_rev)
  obtain i where i: "i < length (fn_calls F)" "fn_calls F ! i = gate n [q]" using assms(3) by (auto simp: in_set_conv_nth)
  have "is_gate (gate n [q])" by (simp add: is_gate_def gate_def)
  then have "i \<in> set (gate_indices (fn_calls F))" using i by (simp add: gate_indices_def)
  moreover have "gate_type (qFunc (gate n [q])) = None"
    using rotation_types assms(4) by (auto simp: gate_def)
  ultimately show ?thesis
    using schedule_calls_fails [of i "rev (map fst (sort_prio ps))"] s i(2) assms(2) Some r
    by (simp add: simd_function_def Let_def)
qed (simp add: simd_function_def Let_def)

theorem rotations_not_scheduled_witness:
  "simd_function 2 10 (sort_key snd) (\<lambda>_. None) \<lparr>fn_name = ''f'', fn_params = [], fn_arrays = [''q''], fn_calls = [gate ''Rz'' [0]]\<rparr> = None"
proof -
  have "hasPrimitivesOnly [gate ''Rz'' [0]]" by code_simp
  then show ?thesis by (intro rotations_not_scheduled [OF sorts_sort_key, where n = "''Rz''" and q = 0]) simp_all
qed

lemma simd_program_Cons:
  assumes "map_option (\<lambda>(out, st). (out, save_blackbox_info st)) (simd_function k d sort_prio ft F) = Some (out, info)"
  shows "simd_program k d sort_prio ft (F # Fs) = map_option ((#) (F, out, info)) (simd_program k d sort_prio (ft(fn_name F \<mapsto> info)) Fs)"
  using assms by (auto split: prod.splits)

definition t_leaf_ex :: crit_func where
  "t_leaf_ex = \<lparr>fn_name = ''f'', fn_params = [], fn_arrays = [''q''], fn_calls = [gate ''H'' [0], gate ''T'' [1]]\<rparr>"

definition t_call_ex :: crit_func where
  "t_call_ex = \<lparr>fn_name = ''g'', fn_params = [], fn_arrays = [''q''],
     fn_calls = [\<lparr>qFunc = ''f'', args = [(''q'', 0)]\<rparr>, gate ''T'' [1]]\<rparr>"

text \<open>A T gate that is the first of its type in a time step is not counted: the leaf function with an H
  and a T gate takes one step and has no T gate, while the same T gate in a function with calls takes
  100 steps.\<close>

theorem t_gates_missed:
  "simd_program 4 10 (sort_key snd) (\<lambda>_. None) [t_leaf_ex, t_call_ex] =
   Some [(t_leaf_ex, [(1, 0), (1, 1)], \<lparr>mWidth = 2, mLength = 1, tgates = 0, tgates_ub = 0, tgates_par = 0, tgates_par_ub = 0\<rparr>),
         (t_call_ex, [(1, 0), (1, 1)], \<lparr>mWidth = 3, mLength = 100, tgates = 1, tgates_ub = 1, tgates_par = 1, tgates_par_ub = 1\<rparr>)]"
proof -
  define i where "i = \<lparr>mWidth = 2, mLength = 1, tgates = 0, tgates_ub = 0, tgates_par = 0, tgates_par_ub = 0\<rparr>"
  have f: "map_option (\<lambda>(out, st). (out, save_blackbox_info st)) (simd_function 4 10 (sort_key snd) (\<lambda>_. None) t_leaf_ex) = Some ([(1, 0), (1, 1)], i)"
    unfolding i_def by code_simp
  have "map_option (\<lambda>(out, st). (out, save_blackbox_info st)) (simd_function 4 10 (sort_key snd) [''f'' \<mapsto> i] t_call_ex) =
      Some ([(1, 0), (1, 1)], \<lparr>mWidth = 3, mLength = 100, tgates = 1, tgates_ub = 1, tgates_par = 1, tgates_par_ub = 1\<rparr>)"
    unfolding i_def by code_simp
  from simd_program_Cons [OF this, of "[]"] simd_program_Cons [OF f, of "[t_call_ex]"]
  show ?thesis by (simp add: t_leaf_ex_def i_def)
qed

end
