(* ===== verification/Operand_Trace.thy ===== *)
theory Operand_Trace
  imports Lpfs_Moves "HOL-Library.Word"
begin

text \<open>
  How the scheduler of \<open>GenLPFSSchedule.cpp\<close> reads a function of LLVM: the qubit arguments and arrays of the
  function, and for every operand of a call the array behind it, found by walking back over the operands of
  instructions (\<open>backtraceOperand\<close>). Instructions are numbered in the order of \<open>inst_iterator\<close>, so that
  \<open>phi\<close> instructions may refer to later ones. The recursion of the walk has a bound on its depth as first
  argument, the size of the stack; None is a stack overflow or a failed assertion.
\<close>

subsection \<open>LLVM functions, as far as the pass looks at them\<close>

datatype llty = Int_ty nat | Ptr_ty llty | Arr_ty nat llty | Other_ty

text \<open>A formal parameter, the result of an instruction, an integer constant with its width and zero-extended
  value, and anything else (undefined values, floating-point constants, functions, globals and constant
  expressions) with its type.\<close>

datatype llval = Param nat | Ins nat | Const_int nat nat | Other_val llty

text \<open>The callee of a call is no operand here: the walk skips it, because it is no instruction.\<close>

datatype llkind = Alloca_inst llty | Gep_inst | Call_inst string | Other_kind

record llinst =
  iname :: string
  ity :: llty
  ikind :: llkind
  iops :: "llval list"

record llfun =
  fparams :: "(string \<times> llty) list"
  fcode :: "llinst list"

fun inst_of :: "llfun \<Rightarrow> llval \<Rightarrow> llinst option" where
  "inst_of f (Ins i) = (if i < length (fcode f) then Some (fcode f ! i) else None)"
| "inst_of f _ = None"

fun val_ty :: "llfun \<Rightarrow> llval \<Rightarrow> llty" where
  "val_ty f (Param n) = (if n < length (fparams f) then snd (fparams f ! n) else Other_ty)"
| "val_ty f (Ins i) = (if i < length (fcode f) then ity (fcode f ! i) else Other_ty)"
| "val_ty f (Const_int w k) = Int_ty w"
| "val_ty f (Other_val t) = t"

fun val_name :: "llfun \<Rightarrow> llval \<Rightarrow> string" where
  "val_name f (Param n) = (if n < length (fparams f) then fst (fparams f ! n) else [])"
| "val_name f (Ins i) = (if i < length (fcode f) then iname (fcode f ! i) else [])"
| "val_name f _ = []"

subsection \<open>Qubits of a function\<close>

text \<open>Qubits have 16 bits, classical bits one.\<close>

fun qubit_param :: "llty \<Rightarrow> bool" where
  "qubit_param (Ptr_ty t) = (t = Int_ty 16)"
| "qubit_param t = (t = Int_ty 16)"

fun tracked_param :: "llty \<Rightarrow> bool" where
  "tracked_param (Ptr_ty t) = (t = Int_ty 16 \<or> t = Int_ty 1)"
| "tracked_param t = (t = Int_ty 16 \<or> t = Int_ty 1)"

text \<open>\<open>getFunctionArguments\<close>: the new entries of \<open>vectQbit\<close> and the new names of \<open>funcQbits\<close>.\<close>

definition getFunctionArguments :: "llfun \<Rightarrow> llval list \<times> string list" where
  "getFunctionArguments f =
     (map (\<lambda>(n, _). Param n) (filter (\<lambda>(n, p). tracked_param (snd p)) (enumerate 0 (fparams f))),
      map fst (filter (\<lambda>p. qubit_param (snd p)) (fparams f)))"

fun is_alloca :: "llkind \<Rightarrow> bool" where
  "is_alloca (Alloca_inst t) = True"
| "is_alloca _ = False"

text \<open>An allocation of an array of qubits or classical bits, of one dimension.\<close>

definition analyzeAllocInst :: "nat \<times> llinst \<Rightarrow> llval list \<times> string list" where
  "analyzeAllocInst p =
     (case ikind (snd p) of
        Alloca_inst (Arr_ty n (Int_ty w)) \<Rightarrow>
          (if w = 16 \<or> w = 1 then [Ins (fst p)] else [], if w = 16 then [iname (snd p)] else [])
      | _ \<Rightarrow> ([], []))"

text \<open>The loop over the allocations stops after the first other instruction.\<close>

definition allocations :: "llfun \<Rightarrow> (nat \<times> llinst) list" where
  "allocations f = takeWhile (\<lambda>p. is_alloca (ikind (snd p))) (enumerate 0 (fcode f))"

definition vectQbit :: "llfun \<Rightarrow> llval list" where
  "vectQbit f = fst (getFunctionArguments f) @ concat (map (fst \<circ> analyzeAllocInst) (allocations f))"

definition qubit_names :: "llfun \<Rightarrow> string list" where
  "qubit_names f = snd (getFunctionArguments f) @ concat (map (snd \<circ> analyzeAllocInst) (allocations f))"

subsection \<open>The walk back over operands\<close>

text \<open>The element of \<open>tmpDepQbit\<close>.\<close>

record dep_qbit =
  argPtr :: "llval option"
  isPtr :: bool
  isQbit :: bool
  valOrIndex :: int

text \<open>\<open>valOrIndex\<close> is an int of 32 bits, assigned from the zero-extended constant.\<close>

definition to_index :: "nat \<Rightarrow> int" where
  "to_index k = sint (word_of_nat k :: 32 word)"

definition MAX_BT_COUNT :: nat where
  "MAX_BT_COUNT = 15"

text \<open>The operands in turn until one succeeds.\<close>

fun first_found :: "(llval \<Rightarrow> dep_qbit \<Rightarrow> (bool \<times> dep_qbit) option) \<Rightarrow> llval list \<Rightarrow> dep_qbit \<Rightarrow> (bool \<times> dep_qbit) option" where
  "first_found look [] d = Some (False, d)"
| "first_found look (v # vs) d =
     (case look v d of None \<Rightarrow> None
      | Some (found, d') \<Rightarrow> if found then Some (True, d') else first_found look vs d')"

text \<open>\<open>backtraceOperand(opd, 1)\<close> and \<open>backtraceOperand(opd, 2)\<close>. Both modes search for a call of a
  measurement: the branch for mode 1 repeats the condition of mode 0 and is never reached. No depth is
  checked here.\<close>

fun backtrace_meas :: "nat \<Rightarrow> llfun \<Rightarrow> llval \<Rightarrow> dep_qbit \<Rightarrow> (bool \<times> dep_qbit) option" where
  "backtrace_meas 0 f opd d = None"
| "backtrace_meas (Suc stack) f opd d =
     (case inst_of f opd of
        None \<Rightarrow> Some (False, d)
      | Some i \<Rightarrow>
          (case ikind i of
             Call_inst callee \<Rightarrow>
               if find_sub ''llvm.Meas'' callee \<noteq> None then Some (True, d\<lparr>argPtr := Some opd\<rparr>)
               else first_found (backtrace_meas stack f) (iops i) d
           | _ \<Rightarrow> first_found (backtrace_meas stack f) (iops i) d))"

fun each_operand :: "(llval \<Rightarrow> dep_qbit \<Rightarrow> dep_qbit option) \<Rightarrow> llval list \<Rightarrow> dep_qbit \<Rightarrow> dep_qbit option" where
  "each_operand look [] d = Some d"
| "each_operand look (v # vs) d = (case look v d of None \<Rightarrow> None | Some d' \<Rightarrow> each_operand look vs d')"

fun const_value :: "llval \<Rightarrow> nat option" where
  "const_value (Const_int w k) = Some k"
| "const_value _ = None"

definition hasAllConstantIndices :: "llinst \<Rightarrow> bool" where
  "hasAllConstantIndices i = list_all (\<lambda>v. const_value v \<noteq> None) (tl (iops i))"

definition set_index :: "llval \<Rightarrow> dep_qbit \<Rightarrow> dep_qbit" where
  "set_index v d = (case const_value v of None \<Rightarrow> d | Some k \<Rightarrow> d\<lparr>valOrIndex := to_index k\<rparr>)"

text \<open>\<open>backtraceOperand(opd, 0)\<close>; its answer is not used by the callers. A \<open>getelementptr\<close> passes on the
  backtrace count, other instructions raise it.\<close>

fun backtraceOperand :: "nat \<Rightarrow> llfun \<Rightarrow> nat \<Rightarrow> llval \<Rightarrow> dep_qbit \<Rightarrow> dep_qbit option" where
  "backtraceOperand 0 f btCount opd d = None"
| "backtraceOperand (Suc stack) f btCount opd d =
     (if opd \<in> set (vectQbit f) then Some (d\<lparr>argPtr := Some opd\<rparr>)
      else if btCount > MAX_BT_COUNT then Some d
      else case inst_of f opd of
        None \<Rightarrow> Some d
      | Some i \<Rightarrow>
          (case ikind i of
             Gep_inst \<Rightarrow>
               (case backtraceOperand stack f btCount (hd (iops i)) d of
                  None \<Rightarrow> None
                | Some d' \<Rightarrow>
                    if hasAllConstantIndices i then Some (set_index (last (iops i)) d')
                    else if isQbit d' \<and> \<not> isPtr d' then map_option snd (backtrace_meas stack f (last (iops i)) d')
                    else Some d')
           | _ \<Rightarrow> each_operand (backtraceOperand stack f (btCount + 1)) (iops i) d))"

declare backtrace_meas.simps [simp del] backtraceOperand.simps [simp del]

subsection \<open>Calls\<close>

definition no_dep :: dep_qbit where
  "no_dep = \<lparr>argPtr = None, isPtr = False, isQbit = False, valOrIndex = -1\<rparr>"

text \<open>What is known of an operand from its type alone.\<close>

fun operand_start :: "llty \<Rightarrow> dep_qbit" where
  "operand_start (Ptr_ty t) = no_dep\<lparr>isPtr := True, isQbit := (t = Int_ty 16)\<rparr>"
| "operand_start (Int_ty w) =
     (if w = 16 then no_dep\<lparr>isQbit := True, valOrIndex := 0\<rparr>
      else if w = 1 then no_dep\<lparr>valOrIndex := 0\<rparr> else no_dep)"
| "operand_start _ = no_dep"

text \<open>The qubit operands of a call, with what the walk finds: \<open>allDepQbit\<close>.\<close>

fun dep_qbits :: "nat \<Rightarrow> llfun \<Rightarrow> llval list \<Rightarrow> dep_qbit list option" where
  "dep_qbits stack f [] = Some []"
| "dep_qbits stack f (v # vs) =
     (if isQbit (operand_start (val_ty f v))
      then (case backtraceOperand stack f 0 v (operand_start (val_ty f v)) of
              None \<Rightarrow> None
            | Some d \<Rightarrow> map_option ((#) d) (dep_qbits stack f vs))
      else dep_qbits stack f vs)"

definition MAX_GATE_ARGS :: nat where
  "MAX_GATE_ARGS = 30"

text \<open>Operands without a pointer are dropped; the index of a pointer keeps its initial value -1.\<close>

definition gate_args :: "llfun \<Rightarrow> dep_qbit list \<Rightarrow> qarg list" where
  "gate_args f ds = map (\<lambda>d. (val_name f (the (argPtr d)), if isPtr d then -1 else valOrIndex d))
     (filter (\<lambda>d. argPtr d \<noteq> None) ds)"

text \<open>The gate of a call, None inside for a call without qubit operands or of \<open>store_cbit\<close>; more than
  \<open>MAX_GATE_ARGS\<close> operands would be written behind the array. The angle of a gate is never printed.\<close>

definition analyzeCallInst :: "nat \<Rightarrow> llfun \<Rightarrow> string \<times> llval list \<Rightarrow> call option option" where
  "analyzeCallInst stack f c =
     (if fst c = ''store_cbit'' then Some None
      else case dep_qbits stack f (snd c) of
        None \<Rightarrow> None
      | Some ds \<Rightarrow>
          if ds = [] then Some None
          else if length (gate_args f ds) > MAX_GATE_ARGS then None
          else Some (Some \<lparr>qFunc = fst c, args = gate_args f ds\<rparr>))"

fun call_of :: "llinst \<Rightarrow> (string \<times> llval list) option" where
  "call_of i = (case ikind i of Call_inst callee \<Rightarrow> Some (callee, iops i) | _ \<Rightarrow> None)"

definition callList :: "llfun \<Rightarrow> (string \<times> llval list) list" where
  "callList f = List.map_filter call_of (fcode f)"

fun analyze_calls :: "nat \<Rightarrow> llfun \<Rightarrow> (string \<times> llval list) list \<Rightarrow> call option list option" where
  "analyze_calls stack f [] = Some []"
| "analyze_calls stack f (c # cs) =
     (case analyzeCallInst stack f c of None \<Rightarrow> None
      | Some g \<Rightarrow> map_option ((#) g) (analyze_calls stack f cs))"

text \<open>The priorities, from the last call to the first. A call whose operands were all dropped still gets one.\<close>

fun call_priorities :: "qbit_table \<Rightarrow> (nat \<times> call option) list \<Rightarrow> (nat \<times> nat) list option" where
  "call_priorities tab [] = Some []"
| "call_priorities tab ((i, None) # rest) = call_priorities tab rest"
| "call_priorities tab ((i, Some c) # rest) =
     (case calc_critical_time_unbounded tab c of None \<Rightarrow> None
      | Some (t, tab') \<Rightarrow> map_option ((#) (i, t)) (call_priorities tab' rest))"

text \<open>The entry of \<open>mapCalls\<close> of a call that is no gate: no function and no operands.\<close>

definition map_call :: "call option \<Rightarrow> call" where
  "map_call g = (case g of None \<Rightarrow> \<lparr>qFunc = [], args = []\<rparr> | Some c \<Rightarrow> c)"

definition read_function ::
    "nat \<Rightarrow> ((nat \<times> nat) list \<Rightarrow> (nat \<times> nat) list) \<Rightarrow> llfun \<Rightarrow> (call list \<times> (nat \<times> nat) list) option" where
  "read_function stack sort_prio f =
     (case analyze_calls stack f (callList f) of
        None \<Rightarrow> None
      | Some gs \<Rightarrow> map_option (\<lambda>ps. (map map_call gs, sort_prio ps))
          (call_priorities (funcQbits_start (qubit_names f)) (rev (enumerate 0 gs))))"

text \<open>The gates whose intrinsics make a leaf function.\<close>

definition is_gate_intrinsic :: "string \<Rightarrow> bool" where
  "is_gate_intrinsic callee \<longleftrightarrow> take 5 callee = ''llvm.'' \<and> gate_print_name callee \<in>
     {''CNOT'', ''Fredkin'', ''H'', ''MeasX'', ''MeasZ'', ''PrepX'', ''PrepZ'', ''Rx'', ''Ry'', ''Rz'', ''S'', ''T'',
      ''Sdag'', ''Tdag'', ''Toffoli'', ''X'', ''Y'', ''Z''}"

definition is_leaf :: "llfun \<Rightarrow> bool" where
  "is_leaf f = DetermineLeafFunction (map (\<lambda>c. (is_gate_intrinsic (fst c), fst c)) (callList f))"

end
