(* ===== verification/Operand_Props.thy ===== *)
theory Operand_Props
  imports Operand_Trace Lpfs_Sched_Props
begin

text \<open>
  What the walk back over operands finds: the array behind an operand and its index, within the backtrace
  limit; which functions are read completely, and when the walk ends.
\<close>

subsection \<open>The array behind a value\<close>

text \<open>\<open>behind f v b k n\<close>: the value is \<open>b\<close>, a qubit or array of the function, or an element of it. Constant
  \<open>getelementptr\<close>s give the index, the outermost one counts; \<open>n\<close> is the number of other instructions,
  each of one operand.\<close>

inductive behind :: "llfun \<Rightarrow> llval \<Rightarrow> llval \<Rightarrow> int option \<Rightarrow> nat \<Rightarrow> bool" for f where
  behind_here: "v \<in> set (vectQbit f) \<Longrightarrow> behind f v v None 0"
| behind_gep: "v \<notin> set (vectQbit f) \<Longrightarrow> inst_of f v = Some i \<Longrightarrow> ikind i = Gep_inst \<Longrightarrow>
    iops i = w # vs @ [Const_int s k] \<Longrightarrow> list_all (\<lambda>v. const_value v \<noteq> None) vs \<Longrightarrow>
    behind f w b j n \<Longrightarrow> behind f v b (Some (to_index k)) n"
| behind_step: "v \<notin> set (vectQbit f) \<Longrightarrow> inst_of f v = Some i \<Longrightarrow> ikind i \<noteq> Gep_inst \<Longrightarrow> iops i = [w] \<Longrightarrow>
    behind f w b j n \<Longrightarrow> behind f v b j (Suc n)"

inductive_cases behindE: "behind f v b k n"

text \<open>The same search as a function, with the number of instructions as fuel.\<close>

fun find_behind :: "nat \<Rightarrow> llfun \<Rightarrow> llval \<Rightarrow> (llval \<times> int option \<times> nat) option" where
  "find_behind 0 f v = None"
| "find_behind (Suc fuel) f v =
     (if v \<in> set (vectQbit f) then Some (v, None, 0)
      else case inst_of f v of
        None \<Rightarrow> None
      | Some i \<Rightarrow>
          if ikind i = Gep_inst
          then (case (tl (iops i) \<noteq> [] \<and> hasAllConstantIndices i, const_value (last (iops i)), find_behind fuel f (hd (iops i))) of
                  (True, Some k, Some (b, j, n)) \<Rightarrow> Some (b, Some (to_index k), n)
                | _ \<Rightarrow> None)
          else (case iops i of
                  [w] \<Rightarrow> (case find_behind fuel f w of Some (b, j, n) \<Rightarrow> Some (b, j, Suc n) | None \<Rightarrow> None)
                | _ \<Rightarrow> None))"

lemma const_value_Some: "const_value v = Some k \<longleftrightarrow> (\<exists>s. v = Const_int s k)"
  by (cases v) auto

lemma find_behind_sound: "find_behind fuel f v = Some (b, k, n) \<Longrightarrow> behind f v b k n"
proof (induction fuel arbitrary: v b k n)
  case (Suc fuel)
  show ?case
  proof (cases "v \<in> set (vectQbit f)")
    case True
    then show ?thesis using Suc.prems by (auto intro: behind_here)
  next
    case False
    then obtain i where i: "inst_of f v = Some i" using Suc.prems by (auto split: option.splits)
    show ?thesis
    proof (cases "ikind i = Gep_inst")
      case True
      then obtain z j where h: "tl (iops i) \<noteq> []" "hasAllConstantIndices i" "const_value (last (iops i)) = Some z"
        "find_behind fuel f (hd (iops i)) = Some (b, j, n)" "k = Some (to_index z)"
        using Suc.prems False i by (auto split: if_splits option.splits prod.splits bool.splits)
      obtain w vs s where w: "iops i = w # vs @ [Const_int s z]"
      proof -
        have "iops i = hd (iops i) # butlast (tl (iops i)) @ [last (tl (iops i))]" using h(1) by (cases "iops i") auto
        moreover have "last (tl (iops i)) = last (iops i)" using h(1) by (cases "iops i") auto
        ultimately show thesis using that h(3) by (metis const_value_Some)
      qed
      have "list_all (\<lambda>v. const_value v \<noteq> None) vs" using h(2) w by (simp add: hasAllConstantIndices_def)
      moreover have "behind f w b j n" using Suc.IH [OF h(4)] w by simp
      ultimately show ?thesis using behind_gep [OF False i True w] h(5) by blast
    next
      case g: False
      then obtain w m where h: "iops i = [w]" "find_behind fuel f w = Some (b, k, m)" "n = Suc m"
        using Suc.prems False i by (auto split: if_splits option.splits prod.splits list.splits)
      show ?thesis using behind_step [OF False i g h(1) Suc.IH [OF h(2)]] h(3) by simp
    qed
  qed
qed simp

subsection \<open>The walk finds it\<close>

definition found_dep :: "llval \<Rightarrow> int option \<Rightarrow> dep_qbit \<Rightarrow> dep_qbit" where
  "found_dep b k d = (case k of None \<Rightarrow> d\<lparr>argPtr := Some b\<rparr> | Some z \<Rightarrow> d\<lparr>argPtr := Some b, valOrIndex := z\<rparr>)"

lemma const_indices: "iops i = w # vs @ [Const_int s k] \<Longrightarrow> list_all (\<lambda>v. const_value v \<noteq> None) vs \<Longrightarrow> hasAllConstantIndices i"
  by (simp add: hasAllConstantIndices_def)

lemma walk_step:
  assumes "v \<notin> set (vectQbit f)" "inst_of f v = Some i" "ikind i \<noteq> Gep_inst" "iops i = [w]" "bt \<le> MAX_BT_COUNT"
  shows "backtraceOperand (Suc stack) f bt v d = backtraceOperand stack f (bt + 1) w d"
  using assms by (cases "ikind i") (simp_all add: backtraceOperand.simps split: option.splits)

lemma walk_gep:
  assumes "v \<notin> set (vectQbit f)" "inst_of f v = Some i" "ikind i = Gep_inst" "iops i = w # vs @ [Const_int s k]"
    "list_all (\<lambda>v. const_value v \<noteq> None) vs" "bt \<le> MAX_BT_COUNT"
  shows "backtraceOperand (Suc stack) f bt v d =
    map_option (\<lambda>d'. d'\<lparr>valOrIndex := to_index k\<rparr>) (backtraceOperand stack f bt w d)"
  using assms const_indices [OF assms(4,5)] by (simp add: backtraceOperand.simps set_index_def split: option.splits)

lemma walk_here: "v \<in> set (vectQbit f) \<Longrightarrow> backtraceOperand (Suc stack) f bt v d = Some (d\<lparr>argPtr := Some v\<rparr>)"
  by (simp add: backtraceOperand.simps)

lemma walk_limit: "v \<notin> set (vectQbit f) \<Longrightarrow> MAX_BT_COUNT < bt \<Longrightarrow> backtraceOperand (Suc stack) f bt v d = Some d"
  by (simp add: backtraceOperand.simps)

lemma walk_finds:
  "behind f v b k n \<Longrightarrow> bt + n \<le> MAX_BT_COUNT \<Longrightarrow> \<exists>s. \<forall>stack\<ge>s. backtraceOperand stack f bt v d = Some (found_dep b k d)"
proof (induction arbitrary: bt rule: behind.induct)
  case (behind_here v)
  have "backtraceOperand stack f bt v d = Some (found_dep v None d)" if "1 \<le> stack" for stack
    using that walk_here [OF behind_here.hyps, of "stack - 1"] by (simp add: found_dep_def)
  then show ?case by blast
next
  case (behind_gep v i w vs s k b j n)
  from behind_gep.IH [OF behind_gep.prems] obtain m where
    m: "\<And>stack. m \<le> stack \<Longrightarrow> backtraceOperand stack f bt w d = Some (found_dep b j d)" by blast
  have "backtraceOperand stack f bt v d = Some (found_dep b (Some (to_index k)) d)" if "Suc m \<le> stack" for stack
    using that walk_gep [OF behind_gep.hyps(1-5), of bt "stack - 1" d] m [of "stack - 1"] behind_gep.prems
    by (auto simp: found_dep_def split: option.splits)
  then show ?case by blast
next
  case (behind_step v i w b j n)
  have "(bt + 1) + n \<le> MAX_BT_COUNT" using behind_step.prems by simp
  from behind_step.IH [OF this] obtain m where
    m: "\<And>stack. m \<le> stack \<Longrightarrow> backtraceOperand stack f (bt + 1) w d = Some (found_dep b j d)" by blast
  have "backtraceOperand stack f bt v d = Some (found_dep b j d)" if "Suc m \<le> stack" for stack
    using that walk_step [OF behind_step.hyps(1-4), of bt "stack - 1" d] m [of "stack - 1"] behind_step.prems by auto
  then show ?case by blast
qed

lemma walk_loses:
  "behind f v b k n \<Longrightarrow> MAX_BT_COUNT + 2 \<le> bt + n \<Longrightarrow> bt \<le> MAX_BT_COUNT + 1 \<Longrightarrow>
   \<exists>s d'. argPtr d' = argPtr d \<and> isPtr d' = isPtr d \<and> (\<forall>stack\<ge>s. backtraceOperand stack f bt v d = Some d')"
proof (induction arbitrary: bt rule: behind.induct)
  case (behind_gep v i w vs s k b j n)
  show ?case
  proof (cases "bt \<le> MAX_BT_COUNT")
    case False
    then have "backtraceOperand stack f bt v d = Some d" if "1 \<le> stack" for stack
      using that walk_limit [OF behind_gep.hyps(1), of bt "stack - 1"] by simp
    then show ?thesis by blast
  next
    case True
    from behind_gep.IH [OF behind_gep.prems] obtain m d' where
      d': "argPtr d' = argPtr d" "isPtr d' = isPtr d" "\<And>stack. m \<le> stack \<Longrightarrow> backtraceOperand stack f bt w d = Some d'" by blast
    have "backtraceOperand stack f bt v d = Some (d'\<lparr>valOrIndex := to_index k\<rparr>)" if "Suc m \<le> stack" for stack
      using that walk_gep [OF behind_gep.hyps(1-5) True, of "stack - 1" d] d'(3) [of "stack - 1"] by auto
    then show ?thesis using d'(1,2) by (intro exI [of _ "Suc m"] exI [of _ "d'\<lparr>valOrIndex := to_index k\<rparr>"]) simp
  qed
next
  case (behind_step v i w b j n)
  show ?case
  proof (cases "bt \<le> MAX_BT_COUNT")
    case False
    then have "backtraceOperand stack f bt v d = Some d" if "1 \<le> stack" for stack
      using that walk_limit [OF behind_step.hyps(1), of bt "stack - 1"] by simp
    then show ?thesis by blast
  next
    case True
    then have "MAX_BT_COUNT + 2 \<le> (bt + 1) + n" "bt + 1 \<le> MAX_BT_COUNT + 1" using behind_step.prems by simp_all
    from behind_step.IH [OF this] obtain m d' where
      d': "argPtr d' = argPtr d" "isPtr d' = isPtr d" "\<And>stack. m \<le> stack \<Longrightarrow> backtraceOperand stack f (bt + 1) w d = Some d'" by blast
    have "backtraceOperand stack f bt v d = Some d'" if "Suc m \<le> stack" for stack
      using that walk_step [OF behind_step.hyps(1-4) True, of "stack - 1" d] d'(3) [of "stack - 1"] by auto
    then show ?thesis using d'(1,2) by blast
  qed
qed simp

subsection \<open>Functions that are read completely\<close>

text \<open>The operand of the gate: an element of an array, a whole array for a pointer, index 0 for a single qubit.\<close>

definition operand_index :: "llfun \<Rightarrow> llval \<Rightarrow> int option \<Rightarrow> int" where
  "operand_index f v k = (if isPtr (operand_start (val_ty f v)) then -1 else case k of None \<Rightarrow> 0 | Some z \<Rightarrow> z)"

definition operand_of :: "llfun \<Rightarrow> llval \<Rightarrow> qarg \<Rightarrow> bool" where
  "operand_of f v a \<longleftrightarrow> (\<exists>b k n. behind f v b k n \<and> n \<le> MAX_BT_COUNT \<and> a = (val_name f b, operand_index f v k))"

definition qubit_operands :: "llfun \<Rightarrow> llval list \<Rightarrow> llval list" where
  "qubit_operands f vs = filter (\<lambda>v. isQbit (operand_start (val_ty f v))) vs"

definition known_qubit :: "llfun \<Rightarrow> qarg \<Rightarrow> bool" where
  "known_qubit f a \<longleftrightarrow> fst a \<in> set (qubit_names f) \<and> -1 \<le> snd a"

text \<open>A call of a gate with its operands.\<close>

definition reads_as :: "llfun \<Rightarrow> string \<times> llval list \<Rightarrow> call \<Rightarrow> bool" where
  "reads_as f c g \<longleftrightarrow> fst c \<noteq> ''store_cbit'' \<and> qFunc g = fst c \<and>
     list_all2 (operand_of f) (qubit_operands f (snd c)) (args g) \<and>
     args g \<noteq> [] \<and> length (args g) \<le> MAX_GATE_ARGS \<and> list_all (known_qubit f) (args g)"

lemma operand_start_qubit: "isQbit (operand_start t) \<Longrightarrow> operand_start t = \<lparr>argPtr = None, isPtr = isPtr (operand_start t), isQbit = True,
    valOrIndex = (if isPtr (operand_start t) then -1 else 0)\<rparr>"
  by (cases t) (auto simp: no_dep_def split: if_splits)

lemma gate_args_Nil [simp]: "gate_args f [] = []"
  by (simp add: gate_args_def)

lemma gate_args_Cons: "gate_args f (d # ds) =
    (case argPtr d of None \<Rightarrow> [] | Some b \<Rightarrow> [(val_name f b, if isPtr d then -1 else valOrIndex d)]) @ gate_args f ds"
  by (simp add: gate_args_def split: option.splits)

lemma found_dep_fields [simp]:
  "argPtr (found_dep b k d) = Some b" "isPtr (found_dep b k d) = isPtr d"
  "valOrIndex (found_dep b k d) = (case k of None \<Rightarrow> valOrIndex d | Some z \<Rightarrow> z)"
  by (simp_all add: found_dep_def split: option.splits)

lemma found_gate_args:
  assumes "isQbit (operand_start (val_ty f v))"
  shows "gate_args f (found_dep b k (operand_start (val_ty f v)) # ds) = (val_name f b, operand_index f v k) # gate_args f ds"
  unfolding gate_args_Cons operand_index_def
  by (subst (1 2 3) operand_start_qubit [OF assms]) (simp split: option.splits)

lemma dep_qbits_read:
  "list_all2 (operand_of f) (qubit_operands f vs) as \<Longrightarrow>
   \<exists>s ds. gate_args f ds = as \<and> length ds = length (qubit_operands f vs) \<and> (\<forall>stack\<ge>s. dep_qbits stack f vs = Some ds)"
proof (induction vs arbitrary: as)
  case Nil
  then show ?case by (simp add: qubit_operands_def)
next
  case (Cons v vs)
  show ?case
  proof (cases "isQbit (operand_start (val_ty f v))")
    case False
    then have "list_all2 (operand_of f) (qubit_operands f vs) as" using Cons.prems by (simp add: qubit_operands_def)
    from Cons.IH [OF this] show ?thesis using False by (simp add: qubit_operands_def)
  next
    case True
    then obtain a as' where as: "as = a # as'" "operand_of f v a" "list_all2 (operand_of f) (qubit_operands f vs) as'"
      using Cons.prems by (auto simp: qubit_operands_def list_all2_Cons1)
    from Cons.IH [OF as(3)] obtain s ds where ds: "gate_args f ds = as'" "length ds = length (qubit_operands f vs)"
      "\<And>stack. s \<le> stack \<Longrightarrow> dep_qbits stack f vs = Some ds" by blast
    obtain b k n where b: "behind f v b k n" "0 + n \<le> MAX_BT_COUNT" "a = (val_name f b, operand_index f v k)"
      using as(2) by (auto simp: operand_of_def)
    obtain m where m: "\<And>stack. m \<le> stack \<Longrightarrow> backtraceOperand stack f 0 v (operand_start (val_ty f v)) =
        Some (found_dep b k (operand_start (val_ty f v)))" using walk_finds [OF b(1,2)] by blast
    define ds' where "ds' = found_dep b k (operand_start (val_ty f v)) # ds"
    have "gate_args f ds' = as" using found_gate_args [OF True] ds(1) b(3) by (simp add: ds'_def as(1))
    moreover have "length ds' = length (qubit_operands f (v # vs))" using ds(2) True by (simp add: ds'_def qubit_operands_def)
    moreover have "\<forall>stack\<ge>max s m. dep_qbits stack f (v # vs) = Some ds'" using True ds(3) m by (simp add: ds'_def)
    ultimately show ?thesis by blast
  qed
qed

lemma analyzeCallInst_reads:
  assumes "reads_as f c g"
  shows "\<exists>s. \<forall>stack\<ge>s. analyzeCallInst stack f c = Some (Some g)"
proof -
  have r: "list_all2 (operand_of f) (qubit_operands f (snd c)) (args g)" "args g \<noteq> []" using assms by (simp_all add: reads_as_def)
  from dep_qbits_read [OF r(1)] obtain s ds where ds: "gate_args f ds = args g" "length ds = length (qubit_operands f (snd c))"
    "\<And>stack. s \<le> stack \<Longrightarrow> dep_qbits stack f (snd c) = Some ds" by blast
  have "ds \<noteq> []" using ds(1) r(2) by auto
  then have "analyzeCallInst stack f c = Some (Some g)" if "s \<le> stack" for stack
    using ds(3) [OF that] ds(1) assms by (cases g) (simp add: analyzeCallInst_def reads_as_def)
  then show ?thesis by blast
qed

lemma analyze_calls_read:
  "list_all2 (reads_as f) cs gs \<Longrightarrow> \<exists>s. \<forall>stack\<ge>s. analyze_calls stack f cs = Some (map Some gs)"
proof (induction rule: list_all2_induct)
  case (Cons c cs g gs)
  from analyzeCallInst_reads [OF Cons.hyps(1)] obtain m where m: "\<And>stack. m \<le> stack \<Longrightarrow> analyzeCallInst stack f c = Some (Some g)" by blast
  from Cons.IH obtain s where s: "\<And>stack. s \<le> stack \<Longrightarrow> analyze_calls stack f cs = Some (map Some gs)" by blast
  have "\<forall>stack\<ge>max m s. analyze_calls stack f (c # cs) = Some (map Some (g # gs))" using m s by simp
  then show ?case by blast
qed simp

subsection \<open>The priorities\<close>

lemma call_priorities_eq:
  "\<forall>(i, c) \<in> set xs. args c \<noteq> [] \<Longrightarrow> call_priorities tab (map (\<lambda>(i, c). (i, Some c)) xs) = priorities tab xs"
  by (induction xs arbitrary: tab) (auto split: option.splits)

lemma enumerate_of_map: "enumerate n (map f xs) = map (\<lambda>(i, x). (i, f x)) (enumerate n xs)"
  by (rule nth_equalityI) (simp_all add: nth_enumerate_eq)

lemma CountCritical_reads:
  assumes "list_all2 (reads_as f) (callList f) calls"
  shows "\<exists>s. \<forall>stack\<ge>s. read_function stack srt f =
    map_option (Pair calls) (priorityVector srt (funcQbits_start (qubit_names f)) calls)"
proof -
  from analyze_calls_read [OF assms] obtain s where
    s: "\<And>stack. s \<le> stack \<Longrightarrow> analyze_calls stack f (callList f) = Some (map Some calls)" by blast
  have "args c \<noteq> []" if "c \<in> set calls" for c
    using assms that by (auto simp: list_all2_conv_all_nth in_set_conv_nth reads_as_def)
  then have "\<forall>(i, c) \<in> set (rev (enumerate 0 calls)). args c \<noteq> []" by (auto simp: in_set_enumerate_eq)
  from call_priorities_eq [OF this]
  have p: "call_priorities tab (rev (enumerate 0 (map Some calls))) = priorities tab (rev (enumerate 0 calls))" for tab
    by (simp add: enumerate_of_map rev_map)
  have m: "map (\<lambda>c. map_call (Some c)) calls = calls" by (simp add: map_call_def)
  have "read_function stack srt f =
      map_option (Pair calls) (priorityVector srt (funcQbits_start (qubit_names f)) calls)" if "s \<le> stack" for stack
    using s [OF that] by (simp add: read_function_def priorityVector_def p m option.map_comp comp_def)
  then show ?thesis by blast
qed

lemma funcQbits_start_ok: "table_ok (funcQbits_start names)" "dom (funcQbits_start names) = set names"
proof -
  have m: "funcQbits_start names n = (if n \<in> set names then Some [-1 \<mapsto> 0, -2 \<mapsto> 0] else None)" for n
    by (induction names) (auto simp: funcQbits_start_def)
  show "table_ok (funcQbits_start names)" by (auto simp: table_ok_def m split: if_splits)
  show "dom (funcQbits_start names) = set names" by (auto simp: m split: if_splits)
qed

lemma read_calls_known:
  assumes "list_all2 (reads_as f) (callList f) calls"
  shows "calls_known (funcQbits_start (qubit_names f)) calls"
proof -
  have "args c \<noteq> [] \<and> list_all (known_qubit f) (args c)" if "c \<in> set calls" for c
    using assms that by (auto simp: list_all2_conv_all_nth in_set_conv_nth reads_as_def)
  then show ?thesis using funcQbits_start_ok by (auto simp: calls_known_def known_def known_qubit_def list_all_iff)
qed

subsection \<open>When the walk ends\<close>

text \<open>Every \<open>getelementptr\<close> has constant indices and refers to an earlier value.\<close>

definition constant_geps :: "llfun \<Rightarrow> bool" where
  "constant_geps f \<longleftrightarrow> (\<forall>i < length (fcode f). ikind (fcode f ! i) = Gep_inst \<longrightarrow>
     hasAllConstantIndices (fcode f ! i) \<and> (case hd (iops (fcode f ! i)) of Ins j \<Rightarrow> j < i | _ \<Rightarrow> True))"

fun place_of :: "llfun \<Rightarrow> llval \<Rightarrow> nat" where
  "place_of f (Ins i) = min (Suc i) (length (fcode f))"
| "place_of f _ = 0"

definition stack_need :: "llfun \<Rightarrow> nat \<Rightarrow> llval \<Rightarrow> nat" where
  "stack_need f bt v = (MAX_BT_COUNT + 1 - bt) * Suc (length (fcode f)) + place_of f v"

lemma place_of_le: "place_of f v \<le> length (fcode f)"
  by (cases v) simp_all

lemma each_operand_returns: "(\<And>v d. v \<in> set vs \<Longrightarrow> look v d \<noteq> None) \<Longrightarrow> each_operand look vs d \<noteq> None"
proof (induction vs arbitrary: d)
  case (Cons v vs)
  obtain d' where d': "look v d = Some d'" using Cons.prems [of v d] by auto
  have "each_operand look vs d' \<noteq> None" using Cons.prems by (intro Cons.IH) simp
  then show ?case using d' by simp
qed simp

lemma walk_returns:
  assumes "constant_geps f"
  shows "stack_need f bt v < stack \<Longrightarrow> backtraceOperand stack f bt v d \<noteq> None"
proof (induction stack arbitrary: bt v d)
  case (Suc stack)
  show ?case
  proof (cases "v \<in> set (vectQbit f) \<or> MAX_BT_COUNT < bt \<or> inst_of f v = None")
    case True
    then show ?thesis by (auto simp: backtraceOperand.simps)
  next
    case False
    then have v: "v \<notin> set (vectQbit f)" "bt \<le> MAX_BT_COUNT" by simp_all
    obtain i where i: "v = Ins i" "i < length (fcode f)" using False by (cases v) (auto split: if_splits)
    define x where "x = fcode f ! i"
    have inst: "inst_of f v = Some x" using i by (simp add: x_def)
    show ?thesis
    proof (cases "ikind x = Gep_inst")
      case True
      then have g: "hasAllConstantIndices x" "case hd (iops x) of Ins j \<Rightarrow> j < i | _ \<Rightarrow> True"
        using assms i(2) unfolding constant_geps_def x_def by simp_all
      then have "place_of f (hd (iops x)) < place_of f v" using i by (cases "hd (iops x)") simp_all
      then have "stack_need f bt (hd (iops x)) < stack" using Suc.prems by (simp add: stack_need_def)
      from Suc.IH [OF this, of d] show ?thesis using v inst True g(1) by (simp add: backtraceOperand.simps split: option.splits)
    next
      case g: False
      have need: "stack_need f (bt + 1) w < stack" for w
      proof -
        have "MAX_BT_COUNT + 1 - bt = Suc (MAX_BT_COUNT + 1 - (bt + 1))" using v(2) by simp
        then have "stack_need f bt v = Suc (length (fcode f)) + (MAX_BT_COUNT + 1 - (bt + 1)) * Suc (length (fcode f)) + place_of f v"
          unfolding stack_need_def by (metis add.commute mult_Suc add.assoc)
        moreover have "place_of f w < Suc (length (fcode f))" using place_of_le [of f w] by simp
        ultimately show ?thesis using Suc.prems unfolding stack_need_def by linarith
      qed
      have "each_operand (backtraceOperand stack f (bt + 1)) (iops x) d \<noteq> None"
        by (intro each_operand_returns Suc.IH need)
      then show ?thesis using v inst g by (cases "ikind x") (simp_all add: backtraceOperand.simps)
    qed
  qed
qed simp

lemma stack_need_start: "stack_need f 0 v < 17 * Suc (length (fcode f))"
  using place_of_le [of f v] by (simp add: stack_need_def MAX_BT_COUNT_def)

subsection \<open>When it does not end\<close>

text \<open>Values that refer to each other in a circle, as the counter of a loop does: before the operand on the
  circle there are only operands that are no instructions.\<close>

definition on_circle :: "llfun \<Rightarrow> llval set \<Rightarrow> bool" where
  "on_circle f C \<longleftrightarrow> (\<forall>v \<in> C. \<exists>i pre w post. inst_of f v = Some i \<and>
     (\<forall>callee. ikind i = Call_inst callee \<longrightarrow> find_sub ''llvm.Meas'' callee = None) \<and>
     iops i = pre @ w # post \<and> w \<in> C \<and> list_all (\<lambda>u. inst_of f u = None) pre)"

lemma first_found_diverges:
  "list_all (\<lambda>u. inst_of f u = None) pre \<Longrightarrow> (\<And>d. backtrace_meas stack f w d = None) \<Longrightarrow>
   first_found (backtrace_meas stack f) (pre @ w # post) d = None"
proof (induction pre)
  case (Cons u pre)
  then show ?case by (cases stack) (simp_all add: backtrace_meas.simps)
qed simp

lemma meas_walk_diverges:
  assumes "on_circle f C"
  shows "v \<in> C \<Longrightarrow> backtrace_meas stack f v d = None"
proof (induction stack arbitrary: v d)
  case 0
  show ?case by (simp add: backtrace_meas.simps)
next
  case (Suc stack)
  obtain i pre w post where i: "inst_of f v = Some i" "\<And>callee. ikind i = Call_inst callee \<Longrightarrow> find_sub ''llvm.Meas'' callee = None"
    "iops i = pre @ w # post" "w \<in> C" "list_all (\<lambda>u. inst_of f u = None) pre"
    using assms Suc.prems unfolding on_circle_def by blast
  have "first_found (backtrace_meas stack f) (iops i) d = None"
    unfolding i(3) by (rule first_found_diverges [OF i(5)]) (rule Suc.IH [OF i(4)])
  then show ?case using i(1,2) by (cases "ikind i") (simp_all add: backtrace_meas.simps)
qed

end
