(* ===== verification/Operand_Claims.thy ===== *)
theory Operand_Claims
  imports Operand_Props Lpfs_Sched_Claims
begin

text \<open>
  Properties of the walk from the operands of a call to their arrays: what it finds within its limit, when
  it ends, and the functions that it reads wrongly.
\<close>

subsection \<open>Instructions of examples\<close>

definition qubit_array :: "string \<Rightarrow> nat \<Rightarrow> llinst" where
  "qubit_array name n = \<lparr>iname = name, ity = Ptr_ty (Arr_ty n (Int_ty 16)), ikind = Alloca_inst (Arr_ty n (Int_ty 16)),
     iops = [Const_int 32 1]\<rparr>"

definition element_ptr :: "llval \<Rightarrow> llval \<Rightarrow> llinst" where
  "element_ptr b k = \<lparr>iname = [], ity = Ptr_ty (Int_ty 16), ikind = Gep_inst, iops = [b, Const_int 64 0, k]\<rparr>"

definition load_qubit :: "llval \<Rightarrow> llinst" where
  "load_qubit p = \<lparr>iname = [], ity = Int_ty 16, ikind = Other_kind, iops = [p]\<rparr>"

definition gate_inst :: "string \<Rightarrow> llval list \<Rightarrow> llinst" where
  "gate_inst callee vs = \<lparr>iname = [], ity = Other_ty, ikind = Call_inst callee, iops = vs\<rparr>"

subsection \<open>The limit of the walk\<close>

lemma analyze_one:
  assumes "isQbit (operand_start (val_ty f v))" "callee \<noteq> ''store_cbit''"
    "backtraceOperand stack f 0 v (operand_start (val_ty f v)) = Some d"
  shows "analyzeCallInst stack f (callee, [v]) = Some (Some \<lparr>qFunc = callee, args = gate_args f [d]\<rparr>)"
proof -
  have "length (gate_args f [d]) \<le> MAX_GATE_ARGS" by (simp add: gate_args_Cons MAX_GATE_ARGS_def split: option.splits)
  then show ?thesis using assms by (simp add: analyzeCallInst_def)
qed

text \<open>C25: A qubit operand that is reached through at most 15 instructions (not counting the computation of
  addresses with constant indices) is found with its array and index; one that is reached through 17 or
  more is dropped without a message, and the gate is left without it.\<close>

theorem operand_limit:
  assumes "behind f v b k n" "isQbit (operand_start (val_ty f v))" "callee \<noteq> ''store_cbit''"
  shows "\<exists>s. \<forall>stack\<ge>s.
    (n \<le> 15 \<longrightarrow> analyzeCallInst stack f (callee, [v]) = Some (Some \<lparr>qFunc = callee, args = [(val_name f b, operand_index f v k)]\<rparr>)) \<and>
    (17 \<le> n \<longrightarrow> analyzeCallInst stack f (callee, [v]) = Some (Some \<lparr>qFunc = callee, args = []\<rparr>))"
proof -
  define d0 where "d0 = operand_start (val_ty f v)"
  note one = analyze_one [OF assms(2,3), folded d0_def]
  consider (near) "n \<le> 15" | (mid) "n = 16" | (far) "17 \<le> n" by linarith
  then show ?thesis
  proof cases
    case near
    then obtain s where s: "\<And>stack. s \<le> stack \<Longrightarrow> backtraceOperand stack f 0 v d0 = Some (found_dep b k d0)"
      using walk_finds [OF assms(1), of 0 d0] by (auto simp: MAX_BT_COUNT_def)
    have "gate_args f [found_dep b k d0] = [(val_name f b, operand_index f v k)]"
      using found_gate_args [OF assms(2), of b k "[]"] by (simp add: d0_def)
    then show ?thesis using one [OF s] near by (intro exI [of _ s]) simp
  next
    case mid
    then show ?thesis by simp
  next
    case far
    then obtain s d where d: "argPtr d = argPtr d0" "\<And>stack. s \<le> stack \<Longrightarrow> backtraceOperand stack f 0 v d0 = Some d"
      using walk_loses [OF assms(1), of 0 d0] by (auto simp: MAX_BT_COUNT_def)
    have "argPtr d0 = None" unfolding d0_def by (subst operand_start_qubit [OF assms(2)]) simp
    then have "gate_args f [d] = []" by (simp add: gate_args_Cons d(1))
    then show ?thesis using one [OF d(2)] far by (intro exI [of _ s]) simp
  qed
qed

text \<open>A chain of loads behind the address of element 1.\<close>

definition load_chain :: "nat \<Rightarrow> llfun" where
  "load_chain n = \<lparr>fparams = [], fcode = [qubit_array ''q'' 2, element_ptr (Ins 0) (Const_int 64 1)] @
     map (\<lambda>i. load_qubit (Ins (i + 1))) [0..<n]\<rparr>"

theorem operand_limit_witness:
  "(\<exists>s. \<forall>stack\<ge>s. analyzeCallInst stack (load_chain 15) (''llvm.H.i16'', [Ins 16]) = Some (Some \<lparr>qFunc = ''llvm.H.i16'', args = [(''q'', 1)]\<rparr>)) \<and>
   (\<exists>s. \<forall>stack\<ge>s. analyzeCallInst stack (load_chain 17) (''llvm.H.i16'', [Ins 18]) = Some (Some \<lparr>qFunc = ''llvm.H.i16'', args = []\<rparr>))"
proof -
  have b: "find_behind 20 (load_chain 15) (Ins 16) = Some (Ins 0, Some 1, 15)" "find_behind 20 (load_chain 17) (Ins 18) = Some (Ins 0, Some 1, 17)"
    by code_simp+
  have q: "isQbit (operand_start (val_ty (load_chain 15) (Ins 16)))" "isQbit (operand_start (val_ty (load_chain 17) (Ins 18)))"
    "val_name (load_chain 15) (Ins 0) = ''q''" "operand_index (load_chain 15) (Ins 16) (Some 1) = 1" by code_simp+
  show ?thesis
    using operand_limit [OF find_behind_sound [OF b(1)] q(1), of "''llvm.H.i16''"]
      operand_limit [OF find_behind_sound [OF b(2)] q(2), of "''llvm.H.i16''"] q by simp
qed

subsection \<open>The walk ends\<close>

lemma dep_qbits_returns:
  assumes "constant_geps f" "17 * Suc (length (fcode f)) \<le> stack"
  shows "dep_qbits stack f vs \<noteq> None \<and> (\<forall>ds. dep_qbits stack f vs = Some ds \<longrightarrow> length ds \<le> length vs)"
proof (induction vs)
  case (Cons v vs)
  have "stack_need f 0 v < stack" using stack_need_start [of f v] assms(2) by linarith
  from walk_returns [OF assms(1) this, of "operand_start (val_ty f v)"] Cons.IH show ?case
    by (cases "dep_qbits stack f vs") (auto split: option.splits)
qed simp

lemma gate_args_length: "length (gate_args f ds) \<le> length ds"
  by (simp add: gate_args_def)

lemma analyzeCallInst_returns:
  assumes "constant_geps f" "17 * Suc (length (fcode f)) \<le> stack" "length (snd c) \<le> MAX_GATE_ARGS"
  shows "analyzeCallInst stack f c \<noteq> None"
proof -
  obtain ds where ds: "dep_qbits stack f (snd c) = Some ds" "length ds \<le> length (snd c)"
    using dep_qbits_returns [OF assms(1,2), of "snd c"] by blast
  then have "\<not> length (gate_args f ds) > MAX_GATE_ARGS" using assms(3) gate_args_length [of f ds] by linarith
  then show ?thesis using ds(1) by (simp add: analyzeCallInst_def)
qed

text \<open>C26: The walk ends, however the values of the function depend on each other, loops included: when the
  indices of addresses are constants and addresses are computed from earlier values, the calls of a
  function are analysed within a recursion depth of 17 times its length.\<close>

theorem operand_walk_ends:
  assumes "constant_geps f" "list_all (\<lambda>c. length (snd c) \<le> MAX_GATE_ARGS) cs" "17 * (length (fcode f) + 1) \<le> stack"
  shows "\<exists>gs. analyze_calls stack f cs = Some gs \<and> length gs = length cs"
  using assms(2)
proof (induction cs)
  case (Cons c cs)
  from Cons obtain gs where "analyze_calls stack f cs = Some gs" "length gs = length cs" by auto
  moreover obtain g where "analyzeCallInst stack f c = Some g"
    using analyzeCallInst_returns [OF assms(1) _, of stack c] assms(3) Cons.prems by auto
  ultimately show ?case by simp
qed simp

text \<open>Two qubits that change places in a loop.\<close>

definition swap_loop :: llfun where
  "swap_loop = \<lparr>fparams = [(''a'', Int_ty 16), (''b'', Int_ty 16)], fcode =
     [\<lparr>iname = ''x'', ity = Int_ty 16, ikind = Other_kind, iops = [Param 0, Ins 1]\<rparr>,
      \<lparr>iname = ''y'', ity = Int_ty 16, ikind = Other_kind, iops = [Param 1, Ins 0]\<rparr>,
      gate_inst ''llvm.CNOT.i16.i16'' [Ins 0, Ins 1]]\<rparr>"

theorem operand_walk_ends_witness:
  "\<exists>gs. analyze_calls 68 swap_loop (callList swap_loop) = Some gs \<and> length gs = 1"
proof -
  have "list_all (\<lambda>i. ikind i \<noteq> Gep_inst) (fcode swap_loop)" "length (fcode swap_loop) = 3" "length (callList swap_loop) = 1"
    "list_all (\<lambda>c. length (snd c) \<le> MAX_GATE_ARGS) (callList swap_loop)" by code_simp+
  moreover from this(1) have "constant_geps swap_loop" by (simp add: constant_geps_def list_all_length)
  ultimately show ?thesis using operand_walk_ends [of swap_loop "callList swap_loop" 68] by simp
qed

subsection \<open>The walk does not end\<close>

lemma dep_qbits_None: "v \<in> set vs \<Longrightarrow> isQbit (operand_start (val_ty f v)) \<Longrightarrow>
    backtraceOperand stack f 0 v (operand_start (val_ty f v)) = None \<Longrightarrow> dep_qbits stack f vs = None"
  by (induction vs) (auto split: option.splits)

lemma analyze_calls_None: "c \<in> set cs \<Longrightarrow> analyzeCallInst stack f c = None \<Longrightarrow> analyze_calls stack f cs = None"
  by (induction cs) (auto split: option.splits)

text \<open>C39: A qubit whose index is the counter of a loop stops the compiler: the walk over the index knows no
  limit, so for a gate on a loaded element of an array with such an index, every depth of the stack is
  too small.\<close>

theorem index_loop_never_returns:
  assumes "on_circle f C" "w \<in> C" "c \<in> set (callList f)" "fst c \<noteq> ''store_cbit''" "v \<in> set (snd c)"
    "inst_of f v = Some (load_qubit g)" "inst_of f g = Some (element_ptr b w)" "b \<in> set (vectQbit f)"
    "v \<notin> set (vectQbit f)" "g \<notin> set (vectQbit f)"
  shows "read_function stack sort_prio f = None"
proof -
  have q: "val_ty f v = Int_ty 16" using assms(6) by (cases v) (auto simp: load_qubit_def split: if_splits)
  define d0 where "d0 = operand_start (Int_ty 16)"
  have w: "const_value w = None" using assms(1,2) by (cases w) (fastforce simp: on_circle_def)+
  have inner: "backtraceOperand stack f 1 g d0 = None" for stack
  proof (cases stack)
    case 0
    then show ?thesis by (simp add: backtraceOperand.simps)
  next
    case (Suc s)
    have "backtraceOperand s f 1 b d0 = None \<or> backtraceOperand s f 1 b d0 = Some (d0\<lparr>argPtr := Some b\<rparr>)"
      using assms(8) by (cases s) (simp_all add: backtraceOperand.simps)
    moreover have "isQbit d0" "\<not> isPtr d0" by (simp_all add: d0_def no_dep_def)
    ultimately show ?thesis using assms(7,10) w meas_walk_diverges [OF assms(1,2)]
      by (auto simp: Suc backtraceOperand.simps element_ptr_def hasAllConstantIndices_def MAX_BT_COUNT_def)
  qed
  have "backtraceOperand stack f 0 v d0 = None"
    using walk_step [OF assms(9,6), of g 0 "stack - 1" d0] inner [of "stack - 1"]
    by (cases stack) (simp_all add: load_qubit_def backtraceOperand.simps)
  then have "dep_qbits stack f (snd c) = None"
    by (intro dep_qbits_None [OF assms(5)]) (simp_all add: q d0_def)
  then have "analyzeCallInst stack f c = None" using assms(4) by (simp add: analyzeCallInst_def)
  from analyze_calls_None [OF assms(3) this] show ?thesis by (simp add: read_function_def)
qed

text \<open>A loop with an H gate on every element.\<close>

definition h_loop :: llfun where
  "h_loop = \<lparr>fparams = [], fcode =
     [qubit_array ''q'' 4,
      \<lparr>iname = ''i'', ity = Int_ty 64, ikind = Other_kind, iops = [Const_int 64 0, Ins 5]\<rparr>,
      element_ptr (Ins 0) (Ins 1), load_qubit (Ins 2), gate_inst ''llvm.H.i16'' [Ins 3],
      \<lparr>iname = ''next'', ity = Int_ty 64, ikind = Other_kind, iops = [Ins 1, Const_int 64 1]\<rparr>]\<rparr>"

theorem index_loop_never_returns_witness:
  "\<forall>stack. read_function stack (sort_key snd) h_loop = None"
proof -
  define phi where "phi = \<lparr>iname = ''i'', ity = Int_ty 64, ikind = Other_kind, iops = [Const_int 64 0, Ins 5]\<rparr>"
  define add where "add = \<lparr>iname = ''next'', ity = Int_ty 64, ikind = Other_kind, iops = [Ins 1, Const_int 64 1]\<rparr>"
  have i: "inst_of h_loop (Ins 1) = Some phi" "inst_of h_loop (Ins 5) = Some add" unfolding phi_def add_def by code_simp+
  have "on_circle h_loop {Ins 1, Ins 5}"
    unfolding on_circle_def
  proof
    fix v assume "v \<in> {Ins 1, Ins 5}"
    then consider "v = Ins 1" | "v = Ins 5" by blast
    then show "\<exists>i pre w post. inst_of h_loop v = Some i \<and> (\<forall>callee. ikind i = Call_inst callee \<longrightarrow> find_sub ''llvm.Meas'' callee = None) \<and>
        iops i = pre @ w # post \<and> w \<in> {Ins 1, Ins 5} \<and> list_all (\<lambda>u. inst_of h_loop u = None) pre"
    proof cases
      case 1
      show ?thesis by (rule exI [of _ phi], rule exI [of _ "[Const_int 64 0]"], rule exI [of _ "Ins 5"]) (simp only: 1 i, simp add: phi_def)
    next
      case 2
      show ?thesis by (rule exI [of _ add], rule exI [of _ "[]"], rule exI [of _ "Ins 1"]) (simp only: 2 i, simp add: add_def)
    qed
  qed
  moreover have "callList h_loop = [(''llvm.H.i16'', [Ins 3])]" "vectQbit h_loop = [Ins 0]" by code_simp+
  moreover have "inst_of h_loop (Ins 3) = Some (load_qubit (Ins 2))" "inst_of h_loop (Ins 2) = Some (element_ptr (Ins 0) (Ins 1))"
    by code_simp+
  ultimately show ?thesis
    using index_loop_never_returns [of h_loop "{Ins 1, Ins 5}" "Ins 1" "(''llvm.H.i16'', [Ins 3])" "Ins 3" "Ins 2" "Ins 0"] by simp
qed

subsection \<open>Operands that are read wrongly\<close>





end
