(* ===== verification/Schedule_Trip.thy ===== *)
theory Schedule_Trip
  imports Lpfs_Moves Lpfs_Sched_Claims Trace_File
begin

text \<open>
  From the scheduler to the simulator: the file that \<open>runOnModule\<close> of \<open>GenLPFSSchedule.cpp\<close> prints with full
  schedules, read by \<open>parse_LPFS\<close> of \<open>braidflash.cpp\<close>, gives the gates of every scheduled function in the
  order of the schedule, on qubits numbered by their printed names.
\<close>

subsection \<open>The printed file\<close>

text \<open>A scheduled function; the options of the run are numbers that only the header shows.\<close>

record leaf_sched =
  lf_name :: string
  lf_calls :: "call list"
  lf_regions :: "nat list"
  lf_sched :: sched
  lf_moves :: moves

record run_options =
  opt_k :: nat
  opt_d :: nat
  opt_l :: nat
  opt_opp :: nat
  opt_refill :: nat

definition function_header :: "run_options \<Rightarrow> string \<Rightarrow> string" where
  "function_header opt name =
     ''Function: '' @ name @ '' (sched: lpfs, k: '' @ show_nat (opt_k opt) @ '', d: '' @ show_nat (opt_d opt) @
     '' l: '' @ show_nat (opt_l opt) @ '', opp: '' @ show_nat (opt_opp opt) @ '', refill: '' @ show_nat (opt_refill opt) @ '') ''"

definition full_schedule :: "leaf_sched \<Rightarrow> string list" where
  "full_schedule m = print_full_schedule (lf_calls m) (lf_regions m) (lf_sched m) (lf_moves m) (length (lf_calls m))"

definition module_text :: "run_options \<Rightarrow> leaf_sched \<Rightarrow> string list" where
  "module_text opt m =
     [[], ''LPFS:'', function_header opt (lf_name m), replicate 66 CHR ''=''] @ full_schedule m"

definition options_line :: "run_options \<Rightarrow> string" where
  "options_line opt = ''M: $::SIMD_K='' @ show_nat (opt_k opt) @ ''; $::SIMD_D='' @ show_nat (opt_d opt) @
     ''; $::SIMD_L='' @ show_nat (opt_l opt)"

definition modules_text :: "run_options \<Rightarrow> leaf_sched list \<Rightarrow> string list" where
  "modules_text opt mods = concat (map (module_text opt) mods)"

definition schedule_file :: "run_options \<Rightarrow> leaf_sched list \<Rightarrow> string list" where
  "schedule_file opt mods = options_line opt # modules_text opt mods"

subsection \<open>Lines\<close>

lemma find_sub_append: "find_sub needle (xs @ needle @ ys) \<noteq> None"
proof (induction xs)
  case Nil
  then show ?case by (simp add: find_sub_prefix)
qed (simp add: Let_def)

definition plain :: "string \<Rightarrow> bool" where
  "plain s \<longleftrightarrow> s \<noteq> [] \<and> CHR '' '' \<notin> set s"

lemma split_plain: "plain s \<Longrightarrow> split (s @ CHR '' '' # rest) CHR '' '' = s # split rest CHR '' ''"
  by (simp add: plain_def split_delim)

lemma split_words: "\<forall>s \<in> set ws. plain s \<Longrightarrow> plain w \<Longrightarrow> split (w @ concat (map (\<lambda>s. CHR '' '' # s) ws)) CHR '' '' = w # ws"
proof (induction ws arbitrary: w)
  case Nil
  then show ?case by (simp add: plain_def split_end)
next
  case (Cons v ws)
  have "split (w @ concat (map (\<lambda>s. CHR '' '' # s) (v # ws))) CHR '' '' = w # split (v @ concat (map (\<lambda>s. CHR '' '' # s) ws)) CHR '' ''"
    using split_plain [OF Cons.prems(2)] by simp
  then show ?case using Cons by simp
qed

lemma plain_show_nat: "plain (show_nat n)"
  by (simp add: plain_def)

lemma plain_append: "plain s \<Longrightarrow> CHR '' '' \<notin> set t \<Longrightarrow> plain (s @ t)" "CHR '' '' \<notin> set s \<Longrightarrow> plain t \<Longrightarrow> plain (s @ t)"
  by (auto simp: plain_def)

lemma show_int_no_space: "CHR '' '' \<notin> set (show_int k)"
  by (simp add: show_int_def)

text \<open>A line that the parser accepts: headers name a function, operations have an operand.\<close>

definition readable :: "string \<Rightarrow> bool" where
  "readable line \<longleftrightarrow> (if is_header line then 2 \<le> length (split line CHR '' '')
     else is_there op_strings line = None \<or> 3 \<le> length (split line CHR '' ''))"

lemma readable_line: "readable line \<Longrightarrow> lpfs_line replaceS st line \<noteq> None"
  by (auto simp: readable_def is_header_def lpfs_line_def Let_def split: prod.splits if_splits)

lemma readable_lines: "\<forall>l \<in> set ls. readable l \<Longrightarrow> \<exists>st'. lpfs_lines replaceS st ls = Some st'"
  by (induction ls arbitrary: st) (use readable_line in \<open>fastforce split: option.splits\<close>)+

subsection \<open>Operations and moves\<close>

definition op_words :: "call \<Rightarrow> string list" where
  "op_words c = gate_print_name (qFunc c) # map arg_text (args c)"

text \<open>A call whose line can be read: no blanks in its names, an operand, and at most two of a gate that
  the simulator knows.\<close>

definition printable :: "call \<Rightarrow> bool" where
  "printable c \<longleftrightarrow> args c \<noteq> [] \<and> (\<forall>w \<in> set (op_words c). plain w) \<and>
     (expand_op False (gate_print_name (qFunc c)) \<noteq> [] \<longrightarrow> length (args c) \<le> 2)"

lemma op_line_words: "op_line calls ts simd i =
    (show_nat ts @ '','' @ show_nat simd) @ concat (map (\<lambda>s. CHR '' '' # s) (op_words (calls ! i)))"
  by (simp add: op_line_def op_words_def comp_def)

lemma plain_slot: "plain (show_nat ts @ '','' @ show_nat simd)"
  by (simp add: plain_def)

lemma op_line_split:
  assumes "printable (calls ! i)"
  shows "split (op_line calls ts simd i) CHR '' '' = (show_nat ts @ '','' @ show_nat simd) # op_words (calls ! i)"
  unfolding op_line_words using assms by (intro split_words plain_slot) (simp add: printable_def)

lemma expand_some: "expand_op replaceS op \<noteq> [] \<longleftrightarrow> op \<in> {''CNOT'', ''H'', ''T'', ''Tdag'', ''S'', ''Sdag''}"
  by (simp add: expand_op_def)

lemma known_op: "expand_op replaceS op \<noteq> [] \<Longrightarrow> op @ '' '' \<in> set op_strings"
  by (auto simp: expand_some op_strings_def)

lemma is_there_member: "n \<in> set ns \<Longrightarrow> find_sub n s \<noteq> None \<Longrightarrow> is_there ns s \<noteq> None"
  by (induction ns) (auto split: option.splits)

lemma op_line_known:
  assumes "printable (calls ! i)" "expand_op replaceS (gate_print_name (qFunc (calls ! i))) \<noteq> []"
  shows "is_there op_strings (op_line calls ts simd i) \<noteq> None"
proof -
  define G where "G = gate_print_name (qFunc (calls ! i))"
  obtain a as where a: "args (calls ! i) = a # as" using assms(1) by (cases "args (calls ! i)") (auto simp: printable_def)
  have "op_line calls ts simd i = (show_nat ts @ '','' @ show_nat simd @ '' '') @ (G @ '' '') @ (arg_text a @ concat (map (\<lambda>a. '' '' @ arg_text a) as))"
    by (simp add: op_line_def G_def a)
  then have "find_sub (G @ '' '') (op_line calls ts simd i) \<noteq> None" using find_sub_append by metis
  then show ?thesis using is_there_member [OF known_op [OF assms(2)]] by (simp add: G_def)
qed

lemma op_line_reads:
  assumes "printable (calls ! i)"
  shows "line_ops replaceS (op_line calls ts simd i) =
      map (\<lambda>op. (op, map arg_text (args (calls ! i)))) (expand_op replaceS (gate_print_name (qFunc (calls ! i))))"
    "\<not> is_header (op_line calls ts simd i) \<Longrightarrow> readable (op_line calls ts simd i)"
    "expand_op replaceS (gate_print_name (qFunc (calls ! i))) \<noteq> [] \<Longrightarrow>
      line_names (op_line calls ts simd i) = map arg_text (args (calls ! i))"
proof -
  define c where "c = calls ! i"
  note sp = op_line_split [OF assms, of ts simd, folded c_def]
  have c: "args c \<noteq> []" using assms by (simp add: printable_def c_def)
  show "\<not> is_header (op_line calls ts simd i) \<Longrightarrow> readable (op_line calls ts simd i)"
    using c by (cases "args c") (simp_all add: readable_def sp op_words_def)
  have n: "line_names (op_line calls ts simd i) = map arg_text (args c)" if "expand_op replaceS (gate_print_name (qFunc c)) \<noteq> []"
  proof -
    have l: "length (args c) \<le> 2" using assms that expand_some [of replaceS] expand_some [of False] unfolding printable_def c_def by metis
    have k: "is_there op_strings (op_line calls ts simd i) \<noteq> None" using op_line_known [OF assms] that by (simp add: c_def)
    show ?thesis
    proof (cases "args c")
      case Nil
      then show ?thesis using c by simp
    next
      case (Cons a as)
      then show ?thesis using l k sp by (cases as) (auto simp: line_names_def op_words_def)
    qed
  qed
  then show "expand_op replaceS (gate_print_name (qFunc (calls ! i))) \<noteq> [] \<Longrightarrow>
      line_names (op_line calls ts simd i) = map arg_text (args (calls ! i))" by (simp add: c_def)
  show "line_ops replaceS (op_line calls ts simd i) =
      map (\<lambda>op. (op, map arg_text (args (calls ! i)))) (expand_op replaceS (gate_print_name (qFunc (calls ! i))))"
  proof (cases "expand_op replaceS (gate_print_name (qFunc c)) = []")
    case True
    then show ?thesis using sp by (simp add: line_ops_def op_words_def c_def)
  next
    case False
    then show ?thesis using n op_line_known [OF assms, of replaceS ts simd] sp by (simp add: line_ops_def op_words_def c_def)
  qed
qed

text \<open>A move has five words, and its kind is no gate.\<close>

lemma move_line_reads:
  assumes "kind = ''TMOV'' \<or> kind = ''BMOV''"
  shows "line_ops replaceS (move_line kind ts m) = []" "\<not> is_header (move_line kind ts m) \<Longrightarrow> readable (move_line kind ts m)"
proof -
  define r where "r = split (qname (arg m) @ show_int (qindex (arg m))) CHR '' ''"
  have k: "plain kind" using assms by (auto simp: plain_def)
  have e: "move_line kind ts m = (show_nat ts @ '',0'') @ CHR '' '' # kind @ CHR '' '' # show_nat (dest m) @ CHR '' '' #
      show_nat (src m) @ CHR '' '' # (qname (arg m) @ show_int (qindex (arg m)))" by (simp add: move_line_def)
  have p: "plain (show_nat ts @ '',0'')" by (simp add: plain_def)
  have sp: "split (move_line kind ts m) CHR '' '' = (show_nat ts @ '',0'') # kind # show_nat (dest m) # show_nat (src m) # r"
    by (simp only: e split_plain [OF p] split_plain [OF k] split_plain [OF plain_show_nat] r_def)
  show "line_ops replaceS (move_line kind ts m) = []" using assms by (auto simp: line_ops_def sp expand_op_def)
  show "\<not> is_header (move_line kind ts m) \<Longrightarrow> readable (move_line kind ts m)" by (simp add: readable_def sp)
qed

subsection \<open>A module\<close>

text \<open>The calls of a module in the order of their lines.\<close>

definition line_order :: "leaf_sched \<Rightarrow> nat list" where
  "line_order m = map (snd \<circ> snd) (printed (lf_regions m) (lf_sched m) (length (lf_calls m)))"

text \<open>What the printed lines mean: the operations with the printed names of their operands.\<close>

definition module_ops :: "bool \<Rightarrow> call list \<Rightarrow> nat list \<Rightarrow> (string \<times> string list) list" where
  "module_ops replaceS calls is = concat (map (\<lambda>i. map (\<lambda>op. (op, map arg_text (args (calls ! i))))
     (expand_op replaceS (gate_print_name (qFunc (calls ! i))))) is)"

definition readable_module :: "leaf_sched \<Rightarrow> bool" where
  "readable_module m \<longleftrightarrow> plain (lf_name m) \<and> (\<forall>i \<in> set (line_order m). printable (lf_calls m ! i)) \<and>
     (\<forall>l \<in> set (full_schedule m). \<not> is_header l)"

lemma in_concat_map: "x \<in> set (concat (map f xs)) \<Longrightarrow> \<exists>y \<in> set xs. x \<in> set (f y)"
  by auto

lemma concat_map_nested: "concat (map f (concat (map g xs))) = concat (map (\<lambda>x. concat (map f (g x))) xs)"
  by (induction xs) simp_all

lemma printed_mem: "(simd, t, i) \<in> set (printed regions st n) \<longleftrightarrow> simd \<in> set regions \<and> t < n \<and> (t, i) \<in> set (schedule st simd)"
  by (fastforce simp: printed_def)

lemma full_schedule_lines:
  assumes "l \<in> set (full_schedule m)"
  obtains (move) kind ts mv where "l = move_line kind ts mv" "kind = ''TMOV'' \<or> kind = ''BMOV''"
      "(ts, mv) \<in> set (move_schedule (lf_moves m)) \<union> set (local_move_schedule (lf_moves m))"
    | (op) ts simd i where "l = op_line (lf_calls m) ts simd i" "i \<in> set (line_order m)"
proof -
  have "\<exists>ts \<in> set [0..<length (lf_calls m)]. l \<in> set (map (\<lambda>(t, mv). move_line ''TMOV'' t mv) (filter (\<lambda>(t, mv). t = ts) (move_schedule (lf_moves m))) @
      map (\<lambda>(t, mv). move_line ''BMOV'' t mv) (filter (\<lambda>(t, mv). t = ts) (local_move_schedule (lf_moves m))) @
      concat (map (\<lambda>simd. map (\<lambda>(t, i). op_line (lf_calls m) t simd i) (filter (\<lambda>(t, i). t = ts) (schedule (lf_sched m) simd))) (lf_regions m)))"
    by (rule in_concat_map [OF assms [unfolded full_schedule_def print_full_schedule_def]])
  then obtain ts where "ts \<in> set [0..<length (lf_calls m)]" and l: "l \<in> set (map (\<lambda>(t, mv). move_line ''TMOV'' t mv) (filter (\<lambda>(t, mv). t = ts) (move_schedule (lf_moves m))) @
      map (\<lambda>(t, mv). move_line ''BMOV'' t mv) (filter (\<lambda>(t, mv). t = ts) (local_move_schedule (lf_moves m))) @
      concat (map (\<lambda>simd. map (\<lambda>(t, i). op_line (lf_calls m) t simd i) (filter (\<lambda>(t, i). t = ts) (schedule (lf_sched m) simd))) (lf_regions m)))"
    by (rule bexE)
  then have ts: "ts < length (lf_calls m)" by simp
  from l consider (a) "l \<in> set (map (\<lambda>(t, mv). move_line ''TMOV'' t mv) (filter (\<lambda>(t, mv). t = ts) (move_schedule (lf_moves m))))"
    | (b) "l \<in> set (map (\<lambda>(t, mv). move_line ''BMOV'' t mv) (filter (\<lambda>(t, mv). t = ts) (local_move_schedule (lf_moves m))))"
    | (c) "l \<in> set (concat (map (\<lambda>simd. map (\<lambda>(t, i). op_line (lf_calls m) t simd i) (filter (\<lambda>(t, i). t = ts) (schedule (lf_sched m) simd))) (lf_regions m)))"
    unfolding set_append by blast
  then show thesis
  proof cases
    case c
    then obtain simd where simd: "simd \<in> set (lf_regions m)"
      "l \<in> set (map (\<lambda>(t, i). op_line (lf_calls m) t simd i) (filter (\<lambda>(t, i). t = ts) (schedule (lf_sched m) simd)))"
      using in_concat_map [OF c] by blast
    then obtain i where i: "(ts, i) \<in> set (schedule (lf_sched m) simd)" "l = op_line (lf_calls m) ts simd i" by auto
    then have "(simd, ts, i) \<in> set (printed (lf_regions m) (lf_sched m) (length (lf_calls m)))" using simd(1) ts by (simp add: printed_mem)
    then have "i \<in> set (line_order m)" by (force simp: line_order_def)
    then show thesis using op i(2) by blast
  qed (use move in auto)
qed

lemma full_schedule_reads:
  assumes "readable_module m"
  shows "\<forall>l \<in> set (full_schedule m). readable l \<and> \<not> is_header l"
    "concat (map (line_ops replaceS) (full_schedule m)) = module_ops replaceS (lf_calls m) (line_order m)"
proof -
  have pr: "i \<in> set (line_order m) \<Longrightarrow> printable (lf_calls m ! i)" and nh: "l \<in> set (full_schedule m) \<Longrightarrow> \<not> is_header l" for i l
    using assms by (simp_all add: readable_module_def)
  show "\<forall>l \<in> set (full_schedule m). readable l \<and> \<not> is_header l"
  proof
    fix l assume l: "l \<in> set (full_schedule m)"
    then show "readable l \<and> \<not> is_header l"
    proof (cases rule: full_schedule_lines)
      case (move kind ts mv)
      then show ?thesis using move_line_reads(2) nh [OF l] by blast
    next
      case (op ts simd i)
      then show ?thesis using op_line_reads(2) pr nh [OF l] by blast
    qed
  qed
  define ms st calls regions where "ms = lf_moves m" and "st = lf_sched m" and "calls = lf_calls m" and "regions = lf_regions m"
  have mv: "concat (map (line_ops replaceS) (map (\<lambda>(t, mv). move_line kind t mv) xs)) = []" if "kind = ''TMOV'' \<or> kind = ''BMOV''" for kind xs
    using move_line_reads(1) [OF that] by (induction xs) auto
  have ops: "concat (map (line_ops replaceS) (map (\<lambda>(t, i). op_line calls t simd i) xs)) = module_ops replaceS calls (map snd xs)"
    if "\<forall>(t, i) \<in> set xs. printable (calls ! i)" for simd xs
    using that by (induction xs) (auto simp: module_ops_def op_line_reads(1))
  have seg: "concat (map (line_ops replaceS) (map (\<lambda>(t, i). op_line calls t simd i) (filter (\<lambda>(t, i). t = ts) (schedule st simd)))) =
      module_ops replaceS calls (map (snd \<circ> snd) (map (\<lambda>(t, i). (simd, t, i)) (filter (\<lambda>(t, i). t = ts) (schedule st simd))))"
    if h: "ts \<in> set [0..<length calls]" "simd \<in> set regions" for ts simd
  proof -
    have "printable (calls ! i)" if "(t, i) \<in> set (filter (\<lambda>(t, i). t = ts) (schedule st simd))" for t i
    proof -
      have "(simd, t, i) \<in> set (printed regions st (length calls))" using that h by (auto simp: printed_mem)
      then have "i \<in> set (line_order m)" by (force simp: line_order_def regions_def st_def calls_def)
      then show ?thesis using pr by (simp add: calls_def)
    qed
    then show ?thesis using ops [of "filter (\<lambda>(t, i). t = ts) (schedule st simd)" simd] by (auto simp: case_prod_unfold comp_def)
  qed
  have cat: "module_ops replaceS cs (concat xss) = concat (map (module_ops replaceS cs) xss)" for cs xss
    by (induction xss) (simp_all add: module_ops_def)
  have "concat (map (line_ops replaceS) (full_schedule m)) = concat (map (\<lambda>ts. concat (map (\<lambda>simd.
      concat (map (line_ops replaceS) (map (\<lambda>(t, i). op_line calls t simd i) (filter (\<lambda>(t, i). t = ts) (schedule st simd))))) regions)) [0..<length calls])"
    unfolding full_schedule_def print_full_schedule_def concat_map_nested map_append concat_append
    by (simp only: concat_map_nested mv [OF disjI1 [OF refl]] mv [OF disjI2 [OF refl]] append_Nil calls_def st_def regions_def)
  also have "\<dots> = concat (map (\<lambda>ts. concat (map (\<lambda>simd.
      module_ops replaceS calls (map (snd \<circ> snd) (map (\<lambda>(t, i). (simd, t, i)) (filter (\<lambda>(t, i). t = ts) (schedule st simd))))) regions)) [0..<length calls])"
    using seg by (intro arg_cong [where f = concat] map_cong refl) blast
  also have "\<dots> = module_ops replaceS calls (line_order m)"
    by (simp add: line_order_def printed_def cat map_concat comp_def calls_def st_def regions_def del: upt_Suc)
  finally show "concat (map (line_ops replaceS) (full_schedule m)) = module_ops replaceS (lf_calls m) (line_order m)" by (simp add: calls_def)
qed

subsection \<open>The file\<close>

lemma header_reads:
  assumes "plain name"
  shows "is_header (function_header opt name)" "header_name (function_header opt name) = name" "readable (function_header opt name)"
proof -
  define rest where "rest = ''(sched: lpfs, k: '' @ show_nat (opt_k opt) @ '', d: '' @ show_nat (opt_d opt) @
     '' l: '' @ show_nat (opt_l opt) @ '', opp: '' @ show_nat (opt_opp opt) @ '', refill: '' @ show_nat (opt_refill opt) @ '') ''"
  have e: "function_header opt name = ''Function:'' @ CHR '' '' # name @ CHR '' '' # rest" by (simp add: function_header_def rest_def)
  have "plain ''Function:''" by (simp add: plain_def)
  then have s: "split (function_header opt name) CHR '' '' = ''Function:'' # name # split rest CHR '' ''"
    by (simp only: e split_plain split_plain [OF assms])
  have "function_header opt name = ''Function'' @ '': '' @ name @ CHR '' '' # rest" by (simp add: e)
  then show h: "is_header (function_header opt name)" unfolding is_header_def by (metis find_sub_prefix option.distinct(1))
  show "header_name (function_header opt name) = name" by (simp add: header_name_def s)
  show "readable (function_header opt name)" using h by (simp add: readable_def s)
qed

lemma frame_reads:
  "\<forall>l \<in> {[], ''LPFS:'', replicate 66 CHR ''=''}. readable l \<and> \<not> is_header l \<and> line_ops replaceS l = []"
proof -
  have "is_there op_strings l = None \<and> \<not> is_header l" if "l \<in> {[], ''LPFS:'', replicate 66 CHR ''=''}" for l
    using that by (auto simp: is_header_def op_strings_def find_sub_absent [of "CHR '' ''"] find_sub_absent [of "CHR ''F''"] find_sub_absent [of "CHR ''u''"])
  then show ?thesis by (simp add: readable_def line_ops_def)
qed

lemma options_reads: "readable (options_line opt)"
proof -
  have e: "options_line opt = ''M:'' @ CHR '' '' # (''$::SIMD_K='' @ show_nat (opt_k opt) @ '';'') @ CHR '' '' #
      (''$::SIMD_D='' @ show_nat (opt_d opt) @ '';'') @ CHR '' '' # (''$::SIMD_L='' @ show_nat (opt_l opt))"
    by (simp add: options_line_def)
  have p: "plain ''M:''" "plain (''$::SIMD_K='' @ show_nat (opt_k opt) @ '';'')" "plain (''$::SIMD_D='' @ show_nat (opt_d opt) @ '';'')"
    by (simp_all add: plain_def)
  have "split (''$::SIMD_L='' @ show_nat (opt_l opt)) CHR '' '' = [''$::SIMD_L='' @ show_nat (opt_l opt)]" by (rule split_end) simp_all
  then have "length (split (options_line opt) CHR '' '') = 4"
    by (simp only: e split_plain [OF p(1)] split_plain [OF p(2)] split_plain [OF p(3)]) simp
  moreover have "\<not> is_header (options_line opt)"
    using find_sub_absent [of "CHR ''F''" "''Function''" "options_line opt"] by (simp add: options_line_def is_header_def)
  ultimately show ?thesis by (simp add: readable_def)
qed

lemma module_readable: "readable_module m \<Longrightarrow> \<forall>l \<in> set (module_text opt m). readable l"
  using full_schedule_reads(1) [of m] frame_reads header_reads(3) [of "lf_name m"]
  by (auto simp: module_text_def readable_module_def)

lemma names_of_ops: "(op, names) \<in> set (concat (map (line_ops replaceS) ls)) \<Longrightarrow> set names \<subseteq> set (concat (map line_names ls))"
  by (auto simp: line_ops_def split: if_splits)

text \<open>The gates of one function of the file.\<close>

lemma file_parses:
  assumes "\<forall>m \<in> set mods. readable_module m" "distinct (map lf_name mods)" "m \<in> set mods"
  shows "\<exists>st num q gs. parse_LPFS replaceS (schedule_file opt mods) = Some st \<and>
    all_gates st (lf_name m) = Some gs \<and> all_q_counts st (lf_name m) = Some q \<and>
    inj_on num (\<Union>(op, names) \<in> set (module_ops replaceS (lf_calls m) (line_order m)). set names) \<and>
    (\<forall>(op, names) \<in> set (module_ops replaceS (lf_calls m) (line_order m)). \<forall>x \<in> set names. num x < q) \<and>
    map (\<lambda>g. (op_type g, qid g)) gs = map (\<lambda>(op, names). (op, map num names)) (module_ops replaceS (lf_calls m) (line_order m))"
proof -
  obtain ms1 ms2 where mods: "mods = ms1 @ m # ms2" using assms(3) by (auto simp: in_set_conv_decomp)
  have rm: "readable_module m" "plain (lf_name m)" using assms(1,3) by (auto simp: readable_module_def)
  define gap where "gap = (if ms2 = [] then [] else [[], ''LPFS:''])"
  define post where "post = drop 2 (modules_text opt ms2)"
  have gp: "modules_text opt ms2 = gap @ post" "post = [] \<or> is_header (hd post)"
    using header_reads(1) [of "lf_name (hd ms2)" opt] assms(1)
    by (cases ms2; auto simp: gap_def post_def modules_text_def module_text_def mods readable_module_def)+
  define before body where "before = options_line opt # modules_text opt ms1 @ [[], ''LPFS:'']" and "body = replicate 66 CHR ''='' # full_schedule m @ gap"
  have whole: "schedule_file opt mods = before @ function_header opt (lf_name m) # body @ post"
    by (simp add: schedule_file_def mods modules_text_def module_text_def before_def body_def gp(1) [unfolded modules_text_def, symmetric])
  have all: "\<forall>l \<in> set (schedule_file opt mods). readable l" using module_readable options_reads assms(1) by (auto simp: schedule_file_def modules_text_def)
  then obtain st where st: "parse_LPFS replaceS (schedule_file opt mods) = Some st"
    using readable_lines [of "schedule_file opt mods" replaceS lpfs_start] by (auto simp: parse_LPFS_def)
  have gap: "\<forall>l \<in> set gap. \<not> is_header l \<and> line_ops replaceS l = []" using frame_reads [of replaceS] by (simp add: gap_def)
  have body: "\<forall>l \<in> set body. \<not> is_header l" using gap full_schedule_reads(1) [OF rm(1)] frame_reads by (auto simp: body_def)
  have later: "\<forall>l \<in> set post. is_header l \<longrightarrow> header_name l \<noteq> header_name (function_header opt (lf_name m))"
  proof (intro ballI impI)
    fix l assume l: "l \<in> set post" "is_header l"
    then have "l \<in> set (modules_text opt ms2)" by (auto simp: post_def dest: in_set_dropD)
    then obtain m' where m': "m' \<in> set ms2" "l \<in> set (module_text opt m')" by (auto simp: modules_text_def)
    then have r: "readable_module m'" "plain (lf_name m')" using assms(1) mods by (auto simp: readable_module_def)
    then have "l = function_header opt (lf_name m')"
      using m'(2) l(2) frame_reads full_schedule_reads(1) [OF r(1)] by (auto simp: module_text_def)
    moreover have "lf_name m' \<noteq> lf_name m" using assms(2) imageI [OF m'(1), of lf_name] unfolding mods by auto
    ultimately show "header_name l \<noteq> header_name (function_header opt (lf_name m))"
      using header_reads(2) [OF r(2)] header_reads(2) [OF rm(2)] by simp
  qed
  have ops: "concat (map (line_ops replaceS) body) = module_ops replaceS (lf_calls m) (line_order m)"
    using full_schedule_reads(2) [OF rm(1)] frame_reads [of replaceS] gap by (auto simp: body_def)
  obtain num q gs where g: "all_gates st (lf_name m) = Some gs" "all_q_counts st (lf_name m) = Some q"
    "bij_betw num (set (concat (map line_names body))) {..<q}"
    "map (\<lambda>g. (op_type g, qid g)) gs = map (\<lambda>(op, names). (op, map num names)) (module_ops replaceS (lf_calls m) (line_order m))"
    using parsed_module [OF st [unfolded whole] header_reads(1) [OF rm(2)] body gp(2) later] unfolding header_reads(2) [OF rm(2)] ops by blast
  have sub: "set names \<subseteq> set (concat (map line_names body))" if "(op, names) \<in> set (module_ops replaceS (lf_calls m) (line_order m))" for op names
    using names_of_ops [of op names replaceS body] that ops by simp
  then have u: "(\<Union>(op, names) \<in> set (module_ops replaceS (lf_calls m) (line_order m)). set names) \<subseteq> set (concat (map line_names body))"
    by blast
  have "inj_on num (\<Union>(op, names) \<in> set (module_ops replaceS (lf_calls m) (line_order m)). set names)"
    by (rule inj_on_subset [OF bij_betw_imp_inj_on [OF g(3)] u])
  moreover have "\<forall>(op, names) \<in> set (module_ops replaceS (lf_calls m) (line_order m)). \<forall>x \<in> set names. num x < q"
    using sub g(3) by (fastforce simp: bij_betw_def)
  ultimately show ?thesis using st g(1,2,4) by blast
qed

subsection \<open>Dependencies of the schedule\<close>

lemma next_equal_reached:
  "m \<le> j \<Longrightarrow> j < n \<Longrightarrow> a \<in> set (args (calls ! j)) \<Longrightarrow>
   \<exists>k. m \<le> k \<and> k \<le> j \<and> k \<in> set (next_equal a (map (\<lambda>j. (j, calls ! j)) [m..<n])) \<and> a \<in> set (args (calls ! k))"
proof (induction "j - m" arbitrary: m)
  case 0
  then have "[m..<n] = m # [Suc m..<n]" by (simp add: upt_conv_Cons)
  then show ?case using 0 by (intro exI [of _ m]) (auto simp: count_list_0_iff)
next
  case (Suc d)
  then have u: "[m..<n] = m # [Suc m..<n]" by (simp add: upt_conv_Cons)
  show ?case
  proof (cases "a \<in> set (args (calls ! m))")
    case True
    then show ?thesis using u Suc.prems by (intro exI [of _ m]) (auto simp: count_list_0_iff)
  next
    case False
    obtain k where "Suc m \<le> k" "k \<le> j" "k \<in> set (next_equal a (map (\<lambda>j. (j, calls ! j)) [Suc m..<n]))" "a \<in> set (args (calls ! k))"
    proof -
      have "d = j - Suc m" "Suc m \<le> j" using Suc.hyps(2) by arith+
      from Suc.hyps(1) [OF this Suc.prems(2,3)] show thesis using that by blast
    qed
    then show ?thesis using False u by (intro exI [of _ k]) auto
  qed
qed

lemma drop_enumerate: "drop m (enumerate 0 xs) = map (\<lambda>j. (j, xs ! j)) [m..<length xs]"
  by (rule nth_equalityI) (simp_all add: nth_enumerate_eq)

lemma shared_in_order:
  assumes "after_parents calls {} st" "\<forall>i < length calls. slot st i \<noteq> None"
  shows "i < j \<Longrightarrow> j < length calls \<Longrightarrow> a \<in> set (args (calls ! i)) \<Longrightarrow> a \<in> set (args (calls ! j)) \<Longrightarrow>
    \<exists>t r t' r'. slot st i = Some (t, r) \<and> slot st j = Some (t', r') \<and> t < t'"
proof (induction "j - i" arbitrary: i rule: less_induct)
  case less
  obtain k where k: "i < k" "k \<le> j" "k \<in> set (next_equal a (drop (i + 1) (enumerate 0 calls)))" "a \<in> set (args (calls ! k))"
  proof -
    have "i + 1 \<le> j" using less.prems(1) by simp
    from next_equal_reached [of "i + 1" j "length calls" a calls, OF this less.prems(2,4)] show thesis
      using that unfolding drop_enumerate by (meson Suc_le_lessD add.commute less_add_one order_less_le_trans)
  qed
  have "k \<in> set (out_edges calls i)" using k(3) less.prems(3) by (auto simp: out_edges_def)
  then have "i \<in> set (in_edges calls k)" using less.prems by (simp add: in_edges_iff)
  moreover obtain t' r' where t': "slot st k = Some (t', r')" using assms(2) k(2) less.prems(2) by fastforce
  ultimately obtain t r where t: "slot st i = Some (t, r)" "t < t'" using assms(1) unfolding after_parents_def by blast
  show ?case
  proof (cases "k = j")
    case True
    then show ?thesis using t t' by blast
  next
    case False
    then have "j - k < j - i" "k < j" using k(1,2) by arith+
    from less.hyps [OF this less.prems(2) k(4) less.prems(4)]
    obtain t1 r1 t2 r2 where "slot st k = Some (t1, r1)" "slot st j = Some (t2, r2)" "t1 < t2" by blast
    then show ?thesis using t t' by fastforce
  qed
qed

lemma sorted_blocks:
  fixes g :: "'a \<Rightarrow> nat"
  assumes "\<And>ts x. x \<in> set (f ts) \<Longrightarrow> g x = ts"
  shows "sorted (map g (concat (map f [0..<n])))"
proof (induction n)
  case (Suc n)
  have "sorted (map g (f n))" using assms [of _ n] nth_mem [of _ "f n"] by (simp add: sorted_iff_nth_mono)
  then show ?case using Suc assms by (fastforce simp: sorted_append)
qed simp

lemma printed_sorted: "sorted (map (fst \<circ> snd) (printed regions st n))"
  unfolding printed_def by (rule sorted_blocks) auto

lemma line_order_kept:
  assumes "after_parents (lf_calls m) {} (lf_sched m)" "\<forall>i < length (lf_calls m). slot (lf_sched m) i \<noteq> None"
    "mset (line_order m) = mset [0..<length (lf_calls m)]"
    "\<And>simd t i. (simd, t, i) \<in> set (printed (lf_regions m) (lf_sched m) (length (lf_calls m))) \<Longrightarrow> slot (lf_sched m) i = Some (t, simd)"
  shows "sorted_wrt (\<lambda>i j. set (args (lf_calls m ! i)) \<inter> set (args (lf_calls m ! j)) \<noteq> {} \<longrightarrow> i < j) (line_order m)"
  unfolding sorted_wrt_iff_nth_less
proof (intro allI impI)
  define L where "L = printed (lf_regions m) (lf_sched m) (length (lf_calls m))"
  have lo: "line_order m = map (snd \<circ> snd) L" by (simp add: line_order_def L_def)
  fix x y assume xy: "x < y" "y < length (line_order m)"
    "set (args (lf_calls m ! (line_order m ! x))) \<inter> set (args (lf_calls m ! (line_order m ! y))) \<noteq> {}"
  obtain r t i r' t' j where e: "L ! x = (r, t, i)" "L ! y = (r', t', j)" by (metis surj_pair)
  have n: "line_order m ! x = i" "line_order m ! y = j" using xy e by (simp_all add: lo)
  have "L ! x \<in> set L" "L ! y \<in> set L" using xy by (simp_all add: lo)
  then have s: "slot (lf_sched m) i = Some (t, r)" "slot (lf_sched m) j = Some (t', r')" using assms(4) e by (auto simp: L_def)
  have le: "t \<le> t'" using sorted_nth_mono [OF printed_sorted, of x y "lf_regions m" "lf_sched m" "length (lf_calls m)"] xy e
    by (simp add: lo flip: L_def)
  have "distinct (line_order m)" using assms(3) by (metis distinct_upt mset_eq_imp_distinct_iff)
  then have "i \<noteq> j" using xy n by (metis nth_eq_iff_index_eq order.strict_trans less_irrefl)
  moreover have "i < length (lf_calls m)" "j < length (lf_calls m)"
    using nth_mem [of x "line_order m"] nth_mem [of y "line_order m"] xy n mset_eq_setD [OF assms(3)] by auto
  ultimately show "line_order m ! x < line_order m ! y"
    using shared_in_order [OF assms(1,2), of j i] xy(3) le s unfolding n by (cases i j rule: linorder_cases) auto
qed

subsection \<open>From the calls to the gates of the simulator\<close>

text \<open>The simulator reads the file of the scheduler. For every function that the scheduler placed (with at
  most one longest path), in a file with any other functions of other names, the parser stores the
  operations of all calls, each once, in the order of the printed schedule, on qubits numbered by the
  printed names; without longest paths, calls with a common operand keep their program order.\<close>

theorem schedule_reaches_simulator:
  assumes "sorts_by_value srt" "calls_known tab (lf_calls m)" "lf_calls m \<noteq> []" "simd_l \<le> 1" "1 \<le> k"
    "priorityVector srt tab (lf_calls m) = Some ps"
    "lpfs (lf_calls m) skip (map fst ps) k simd_l opp_simd 0 = Some (lf_sched m)"
    "distinct (lf_regions m)" "\<forall>r. schedule (lf_sched m) r \<noteq> [] \<longrightarrow> r \<in> set (lf_regions m)"
    "\<forall>m \<in> set mods. readable_module m" "distinct (map lf_name mods)" "m \<in> set mods"
  shows "\<exists>order st num q gs. parse_LPFS replaceS (schedule_file opt mods) = Some st \<and>
    all_gates st (lf_name m) = Some gs \<and> all_q_counts st (lf_name m) = Some q \<and>
    mset order = mset [0..<length (lf_calls m)] \<and>
    (simd_l = 0 \<longrightarrow> sorted_wrt (\<lambda>i j. set (args (lf_calls m ! i)) \<inter> set (args (lf_calls m ! j)) \<noteq> {} \<longrightarrow> i < j) order) \<and>
    map (\<lambda>g. (op_type g, qid g)) gs = map (\<lambda>(op, names). (op, map num names)) (module_ops replaceS (lf_calls m) order) \<and>
    inj_on num (\<Union>(op, names) \<in> set (module_ops replaceS (lf_calls m) order). set names) \<and>
    (\<forall>(op, names) \<in> set (module_ops replaceS (lf_calls m) order). \<forall>x \<in> set names. num x < q)"
proof -
  have g: "good (lf_calls m) (set (concat (longest_paths (lf_calls m) skip simd_l start_paths))) opp_simd (lf_sched m)"
    "\<forall>i < length (lf_calls m). slot (lf_sched m) i \<noteq> None"
    using lpfs_schedule_good [OF assms(1-6), of skip opp_simd] assms(7) by auto
  note a = printed_all [OF g assms(8,9)]
  have o: "mset (line_order m) = mset [0..<length (lf_calls m)]" using a(1) by (simp add: line_order_def)
  have "sorted_wrt (\<lambda>i j. set (args (lf_calls m ! i)) \<inter> set (args (lf_calls m ! j)) \<noteq> {} \<longrightarrow> i < j) (line_order m)" if "simd_l = 0"
    using goodD(3) [OF g(1)] that by (intro line_order_kept g(2) o a(2) [THEN iffD1]) simp_all
  with o file_parses [OF assms(10-12), of replaceS opt] show ?thesis by blast
qed

text \<open>A CNOT between an H and a T gate on one array.\<close>

definition trip_calls :: "call list" where
  "trip_calls = [\<lparr>qFunc = ''llvm.H.i16'', args = [(''q'', 0)]\<rparr>,
     \<lparr>qFunc = ''llvm.CNOT.i16.i16'', args = [(''q'', 0), (''q'', 1)]\<rparr>, \<lparr>qFunc = ''llvm.T.i16'', args = [(''q'', 1)]\<rparr>]"

definition trip_sched :: sched where
  "trip_sched = (case lpfs trip_calls 2 [2, 1, 0] 1 0 1 0 of Some st \<Rightarrow> st | None \<Rightarrow> sched_start)"

definition trip_module :: leaf_sched where
  "trip_module = \<lparr>lf_name = ''f'', lf_calls = trip_calls, lf_regions = [1], lf_sched = trip_sched, lf_moves = moves_start trip_calls\<rparr>"

theorem schedule_reaches_simulator_witness:
  "\<exists>order st num q gs. parse_LPFS True (schedule_file \<lparr>opt_k = 1, opt_d = 1024, opt_l = 0, opt_opp = 1, opt_refill = 0\<rparr> [trip_module]) = Some st \<and>
    all_gates st ''f'' = Some gs \<and> mset order = mset [0..<3] \<and>
    map (\<lambda>g. (op_type g, qid g)) gs = map (\<lambda>(op, names). (op, map num names)) (module_ops True trip_calls order)"
proof -
  have l: "length trip_calls = 3" "trip_calls \<noteq> []" by (simp_all add: trip_calls_def)
  have k: "calls_known one_array trip_calls"
    using one_array_ok by (simp add: calls_known_def trip_calls_def known_def one_array_def)
  have p: "priorityVector (sort_key snd) one_array trip_calls = Some [(2, 1), (1, 2), (0, 3)]" by code_simp
  have "\<not> Option.is_none (lpfs trip_calls 2 [2, 1, 0] 1 0 1 0)" by code_simp
  then have s: "lpfs trip_calls 2 [2, 1, 0] 1 0 1 0 = Some trip_sched" by (auto simp: trip_sched_def Option.is_none_def)
  have r: "readable_module trip_module" by code_simp
  have used: "\<forall>r. schedule trip_sched r \<noteq> [] \<longrightarrow> r = 1"
  proof -
    have g: "good trip_calls {} 1 trip_sched" "\<forall>i < length trip_calls. slot trip_sched i \<noteq> None"
      using lpfs_schedule_good [OF sort_by_value k l(2) _ _ p, of 0 1 2 1] s by (auto simp: start_paths_def)
    have one: "\<forall>i < 3. map_option snd (slot trip_sched i) = Some 1" by code_simp
    show ?thesis
    proof (intro allI impI)
      fix r assume "schedule trip_sched r \<noteq> []"
      then obtain t i where "(t, i) \<in> set (schedule trip_sched r)" by (cases "schedule trip_sched r") auto
      then have i: "slot trip_sched i = Some (t, r)" using goodD(1) [OF g(1)] by (simp add: agree_def)
      then have "i < 3" using goodD(2) [OF g(1)] l unfolding in_calls_def by fastforce
      then show "r = 1" using one i by fastforce
    qed
  qed
  show ?thesis
    using schedule_reaches_simulator [OF sort_by_value, of one_array trip_module 0 1 "[(2, 1), (1, 2), (0, 3)]" 2 1 "[trip_module]" True]
      k p l r s used by (fastforce simp: trip_module_def)
qed

definition collision_calls :: "call list" where
  "collision_calls = [\<lparr>qFunc = ''llvm.H.i16'', args = [(''q'', 12)]\<rparr>, \<lparr>qFunc = ''llvm.T.i16'', args = [(''q1'', 2)]\<rparr>]"

text \<open>Two qubits can have one printed name: element 12 of \<open>q\<close> and element 2 of \<open>q1\<close> are the same qubit for
  the simulator.\<close>

theorem printed_names_collide:
  "args (collision_calls ! 0) \<noteq> args (collision_calls ! 1) \<and>
   map_option (\<lambda>st. (map_option (map (\<lambda>g. (op_type g, qid g))) (all_gates st ''f''), all_q_counts st ''f''))
     (parse_LPFS True (schedule_file \<lparr>opt_k = 1, opt_d = 1024, opt_l = 0, opt_opp = 0, opt_refill = 0\<rparr>
        [\<lparr>lf_name = ''f'', lf_calls = collision_calls, lf_regions = [1],
          lf_sched = the (lpfs collision_calls 1 [1, 0] 1 0 0 0), lf_moves = moves_start collision_calls\<rparr>])) =
     Some (Some [(''H'', [0]), (''T'', [0])], Some 1)"
  by code_simp

end
