(* ===== verification/Leaf_Schedules.thy ===== *)
theory Leaf_Schedules
  imports Operand_Claims Schedule_Trip Lpfs_Moves_Claims
begin

text \<open>
  The whole scheduler of \<open>GenLPFSSchedule.cpp\<close>, from functions of LLVM to the printed file, and with the
  simulator's parser behind it.
\<close>

subsection \<open>Functions of a module\<close>





subsection \<open>The names in the moves\<close>
















subsection \<open>Names that can be read back\<close>













subsection \<open>One function\<close>





subsection \<open>All functions\<close>













end
