(* ===== verification/Inline_Passes.thy ===== *)
theory Inline_Passes
  imports Qir
begin

text \<open>
  Two passes that replace calls by the bodies of the called functions: \<open>FlattenModule.cpp\<close> makes the functions
  listed in \<open>flat_info.txt\<close>, or all functions, into leaves; \<open>InlineModule.cpp\<close> replaces every call of a
  function listed in \<open>inline_info.txt\<close>. A call instruction is the function that it is in and its number among
  the calls of this function, which does not change when a later call is inlined.
\<close>

subsection \<open>Calls\<close>

definition has_body :: "qmodule \<Rightarrow> string \<Rightarrow> bool" where
  "has_body M g = (case map_of M g of None \<Rightarrow> False | Some gn \<Rightarrow> blocks gn \<noteq> [])"

fun calls :: "inst list \<Rightarrow> (string \<times> val list) list" where
  "calls [] = []"
| "calls (Call g vs # is) = (g, vs) # calls is"
| "calls (i # is) = calls is"

definition calls_of :: "qmodule \<Rightarrow> string \<Rightarrow> (string \<times> val list) list" where
  "calls_of M f = (case map_of M f of None \<Rightarrow> [] | Some fn \<Rightarrow> calls (concat (blocks fn)))"

subsection \<open>Inlining one call\<close>

fun is_alloca_inst :: "inst \<Rightarrow> bool" where
  "is_alloca_inst (Alloca w n) = True"
| "is_alloca_inst i = False"

text \<open>The call number k of a list of instructions is replaced.\<close>

fun replace_call :: "nat \<Rightarrow> inst list \<Rightarrow> inst list \<Rightarrow> inst list" where
  "replace_call k body [] = []"
| "replace_call k body (Call g vs # is) = (if k = 0 then body @ is else Call g vs # replace_call (k - 1) body is)"
| "replace_call k body (i # is) = i # replace_call k body is"

fun replace_in_blocks :: "nat \<Rightarrow> inst list \<Rightarrow> inst list list \<Rightarrow> inst list list" where
  "replace_in_blocks k body [] = []"
| "replace_in_blocks k body (b # bs) =
     (if k < length (calls b) then replace_call k body b # bs
      else b # replace_in_blocks (k - length (calls b)) body bs)"

text \<open>Allocations go to the front of the function.\<close>

fun add_allocas :: "inst list \<Rightarrow> inst list list \<Rightarrow> inst list list" where
  "add_allocas as [] = []"
| "add_allocas as (b # bs) = (as @ b) # bs"

definition set_func :: "string \<Rightarrow> func \<Rightarrow> qmodule \<Rightarrow> qmodule" where
  "set_func f fn M = map (\<lambda>(n, x). (n, if n = f then fn else x)) M"

text \<open>\<open>InlineFunction\<close> of LLVM, for a callee of one block: the parameters are replaced by the operands of the
  call, and its allocations move to the front of the caller. (LLVM also drops allocations that nothing uses.)
  A callee without a body is left alone; None stands for callees of several blocks, which are outside the
  model. A local value keeps its name in every copy of the body, as in the gates that a call comes down to.\<close>

definition InlineFunction :: "string \<times> nat \<Rightarrow> qmodule \<Rightarrow> qmodule option" where
  "InlineFunction site M =
     (case site of (f, k) \<Rightarrow>
        if length (calls_of M f) \<le> k then None
        else case (calls_of M f ! k, map_of M f) of
          (_, None) \<Rightarrow> None
        | ((g, vs), Some fn) \<Rightarrow>
            (case map_of M g of
               None \<Rightarrow> Some M
             | Some gn \<Rightarrow>
                 (case blocks gn of
                    [] \<Rightarrow> Some M
                  | [b] \<Rightarrow>
                      (let body = map (bind_inst (params gn) vs) b
                       in Some (set_func f (fn\<lparr>blocks := add_allocas (filter is_alloca_inst body)
                            (replace_in_blocks k (filter (\<lambda>i. \<not> is_alloca_inst i) body) (blocks fn))\<rparr>) M))
                  | _ \<Rightarrow> None)))"

fun inline_calls :: "(string \<times> nat) list \<Rightarrow> qmodule \<Rightarrow> qmodule option" where
  "inline_calls [] M = Some M"
| "inline_calls (s # ss) M = (case InlineFunction s M of None \<Rightarrow> None | Some M' \<Rightarrow> inline_calls ss M')"

subsection \<open>FlattenModule\<close>

record marks =
  makeLeaf :: "string list"
  inlineCallInsts :: "(string \<times> nat) list"

definition flatten_call :: "qmodule \<Rightarrow> string \<Rightarrow> marks \<Rightarrow> nat \<times> string \<times> val list \<Rightarrow> marks" where
  "flatten_call M f st c =
     (case c of (k, g, vs) \<Rightarrow>
        if \<not> isIntrinsic g \<and> has_body M g
        then \<lparr>makeLeaf = makeLeaf st @ [g], inlineCallInsts = inlineCallInsts st @ [(f, k)]\<rparr> else st)"

definition flatten_function :: "qmodule \<Rightarrow> nat \<Rightarrow> marks \<Rightarrow> string \<Rightarrow> marks" where
  "flatten_function M FLAT st f =
     (if FLAT = 0 \<and> f \<notin> set (makeLeaf st) then st
      else foldl (flatten_call M f) st (enumerate 0 (calls_of M f)))"

text \<open>The order of the functions is that of the strongly connected components, callees first: a parameter.\<close>

definition FlattenModule :: "nat \<Rightarrow> string list \<Rightarrow> string list \<Rightarrow> qmodule \<Rightarrow> qmodule option" where
  "FlattenModule FLAT leafNames vectPostOrder M =
     inline_calls (rev (inlineCallInsts
       (foldl (flatten_function M FLAT) \<lparr>makeLeaf = leafNames, inlineCallInsts = []\<rparr> (rev vectPostOrder)))) M"

subsection \<open>InlineModule\<close>

definition inline_function :: "qmodule \<Rightarrow> string list \<Rightarrow> (string \<times> nat) list \<Rightarrow> string \<Rightarrow> (string \<times> nat) list" where
  "inline_function M makeInlined sites f =
     foldl (\<lambda>sites (k, g, vs). if g \<in> set makeInlined then sites @ [(f, k)] else sites) sites (enumerate 0 (calls_of M f))"

definition InlineModule :: "string list \<Rightarrow> string list \<Rightarrow> qmodule \<Rightarrow> qmodule option" where
  "InlineModule inlinedNames vectPostOrder M =
     inline_calls (rev (foldl (inline_function M inlinedNames) [] (rev vectPostOrder))) M"

subsection \<open>Modules whose calls can be inlined\<close>

text \<open>Every function has its own parameters, which no other function uses, and every call has operands of
  the types of the parameters.\<close>

definition all_params :: "qmodule \<Rightarrow> val set" where
  "all_params M = (\<Union>fn \<in> snd ` set M. set (params fn))"

definition call_ok :: "qmodule \<Rightarrow> func \<Rightarrow> string \<times> val list \<Rightarrow> bool" where
  "call_ok M fn c \<longleftrightarrow> (\<forall>v \<in> set (snd c). v \<in> set (params fn) \<or> v \<notin> all_params M) \<and>
     (\<forall>gn. map_of M (fst c) = Some gn \<longrightarrow> map val_type (snd c) = map val_type (params gn))"

definition inlinable :: "qmodule \<Rightarrow> bool" where
  "inlinable M \<longleftrightarrow> distinct (map fst M) \<and>
     (\<forall>(f, fn) \<in> set M. length (blocks fn) \<le> 1 \<and> (isIntrinsic f \<longrightarrow> blocks fn = []) \<and> (\<forall>c \<in> set (calls (concat (blocks fn))). call_ok M fn c))"

text \<open>Callees first.\<close>

definition post_order :: "qmodule \<Rightarrow> string list \<Rightarrow> bool" where
  "post_order M post \<longleftrightarrow> distinct post \<and> set post = fst ` set M \<and>
     (\<forall>i < length post. \<forall>(g, vs) \<in> set (calls_of M (post ! i)). has_body M g \<longrightarrow> g \<in> set (take i post))"

end
