(* ===== verification/Inline_Props.thy ===== *)
theory Inline_Props
  imports Inline_Passes
begin

text \<open>
  Inlining keeps what a call comes down to: the effect of inlining the marked calls of one function, of one
  function after the other (locale \<open>inlining\<close>), and the two passes as its interpretations.
\<close>

subsection \<open>The meaning of a call is unique\<close>

lemma flat_unique: "flat M is gs \<Longrightarrow> flat M is gs' \<Longrightarrow> gs' = gs"
proof (induction arbitrary: gs' rule: flat.induct)
  case flat_nil
  then show ?case by (auto elim: flat_nilE)
next
  case (flat_alloca "is" gs w n)
  show ?case by (rule flat_allocaE [OF flat_alloca.prems]) (rule flat_alloca.IH)
next
  case (flat_other "is" gs)
  show ?case by (rule flat_otherE [OF flat_other.prems]) (rule flat_other.IH)
next
  case (flat_gate f "is" gs vs)
  from flat_gate.prems show ?case
  proof (rule flat_callE)
    fix gs'' assume "gs' = (f, vs) # gs''" "flat M is gs''"
    then show ?thesis using flat_gate.IH [of gs''] by simp
  next
    assume "\<not> isIntrinsic f"
    then show ?thesis using flat_gate.hyps(1) by simp
  qed
next
  case (flat_call f fn b vs gs1 "is" gs2)
  from flat_call.prems show ?case
  proof (rule flat_callE)
    fix gs'' assume "isIntrinsic f"
    then show ?thesis using flat_call.hyps(1) by simp
  next
    fix fn' b' gs1' gs2'
    assume h: "gs' = gs1' @ gs2'" "map_of M f = Some fn'" "blocks fn' = [b']" "flat M (map (bind_inst (params fn') vs) b') gs1'" "flat M is gs2'"
    then show ?thesis using flat_call.IH(1) [of gs1'] flat_call.IH(2) [of gs2'] flat_call.hyps(2,3) by simp
  qed
qed

subsection \<open>Lists of instructions\<close>

lemma calls_append [simp]: "calls (xs @ ys) = calls xs @ calls ys"
  by (induction xs rule: calls.induct) simp_all

lemma calls_allocas [simp]: "calls (filter is_alloca_inst xs) = []"
  by (induction xs rule: calls.induct) simp_all

lemma calls_no_allocas [simp]: "calls (filter (\<lambda>i. \<not> is_alloca_inst i) xs) = calls xs"
  by (induction xs rule: calls.induct) simp_all

lemma calls_bind: "calls (map (bind_inst ps vs) xs) = map (\<lambda>(g, ws). (g, map (bind_params ps vs) ws)) (calls xs)"
  by (induction xs rule: calls.induct) simp_all

lemma call_in_calls: "Call g vs \<in> set xs \<longleftrightarrow> (g, vs) \<in> set (calls xs)"
  by (induction xs rule: calls.induct) auto

lemma replace_call_skip: "calls xs = [] \<Longrightarrow> replace_call k body (xs @ ys) = xs @ replace_call k body ys"
  by (induction xs rule: calls.induct) simp_all

lemma replace_call_at: "replace_call (length (calls xs)) body (xs @ Call g vs # ys) = xs @ body @ ys"
  by (induction xs rule: calls.induct) simp_all

lemma flat_allocas: "list_all is_alloca_inst as \<Longrightarrow> flat M as []"
proof (induction as)
  case Nil
  then show ?case by (simp add: flat_nil)
next
  case (Cons a as)
  then show ?case by (cases a) (auto intro: flat_alloca)
qed

lemma flat_no_allocas: "flat M is gs \<Longrightarrow> flat M (filter (\<lambda>i. \<not> is_alloca_inst i) is) gs"
proof (induction rule: flat.induct)
  case (flat_call f fn b vs gs1 "is" gs2)
  from flat.flat_call [OF flat_call.hyps(1-5) flat_call.IH(2)] show ?case by simp
qed (auto intro: flat_nil flat_other flat_gate)

subsection \<open>Modules\<close>

lemma map_of_set_func: "map_of (set_func f fn M) n = (if n = f then map_option (\<lambda>_. fn) (map_of M f) else map_of M n)"
  by (induction M) (auto simp: set_func_def)

lemma set_func_twice: "set_func f x (set_func f y M) = set_func f x M"
  by (auto simp: set_func_def)

lemma set_func_same: "distinct (map fst M) \<Longrightarrow> map_of M f = Some fn \<Longrightarrow> set_func f fn M = M"
proof -
  assume d: "distinct (map fst M)" "map_of M f = Some fn"
  have "x = fn" if "(f, x) \<in> set M" for x using d that by (metis map_of_is_SomeI option.inject)
  then show "set_func f fn M = M" unfolding set_func_def by (intro map_idI) auto
qed

lemma set_func_names [simp]: "map fst (set_func f fn M) = map fst M"
  by (simp add: set_func_def case_prod_unfold comp_def)

subsection \<open>Inlining the calls of one function\<close>

definition target :: "qmodule \<Rightarrow> string \<Rightarrow> val list \<Rightarrow> inst list option" where
  "target M g vs =
     (case map_of M g of None \<Rightarrow> None
      | Some gn \<Rightarrow> (case blocks gn of [] \<Rightarrow> None | b # _ \<Rightarrow> Some (map (bind_inst (params gn) vs) b)))"

definition inlined_body :: "qmodule \<Rightarrow> (string \<Rightarrow> bool) \<Rightarrow> inst \<Rightarrow> inst list option" where
  "inlined_body M P i = (case i of Call g vs \<Rightarrow> if P g then target M g vs else None | _ \<Rightarrow> None)"

definition hoisted :: "qmodule \<Rightarrow> (string \<Rightarrow> bool) \<Rightarrow> inst list \<Rightarrow> inst list" where
  "hoisted M P is = concat (map (\<lambda>i. case inlined_body M P i of None \<Rightarrow> [] | Some body \<Rightarrow> filter is_alloca_inst body) is)"

definition spliced :: "qmodule \<Rightarrow> (string \<Rightarrow> bool) \<Rightarrow> inst list \<Rightarrow> inst list" where
  "spliced M P is = concat (map (\<lambda>i. case inlined_body M P i of None \<Rightarrow> [i] | Some body \<Rightarrow> filter (\<lambda>i. \<not> is_alloca_inst i) body) is)"

lemma hoisted_simps [simp]:
  "hoisted M P [] = []" "hoisted M P (i # is) = (case inlined_body M P i of None \<Rightarrow> [] | Some body \<Rightarrow> filter is_alloca_inst body) @ hoisted M P is"
  by (simp_all add: hoisted_def)

lemma spliced_simps [simp]:
  "spliced M P [] = []" "spliced M P (i # is) = (case inlined_body M P i of None \<Rightarrow> [i] | Some body \<Rightarrow> filter (\<lambda>i. \<not> is_alloca_inst i) body) @ spliced M P is"
  by (simp_all add: spliced_def)

lemma hoisted_allocas: "list_all is_alloca_inst (hoisted M P is)"
  by (induction "is") (auto simp: list_all_iff split: option.splits)

lemma calls_hoisted [simp]: "calls (hoisted M P is) = []"
  by (induction "is") (auto split: option.splits)

definition positions :: "(string \<Rightarrow> bool) \<Rightarrow> (string \<times> val list) list \<Rightarrow> nat list" where
  "positions P cs = map fst (filter (\<lambda>(k, g, vs). P g) (enumerate 0 cs))"

lemma positions_Nil [simp]: "positions P [] = []"
  by (simp add: positions_def)

lemma positions_snoc: "positions P (cs @ [(g, vs)]) = positions P cs @ (if P g then [length cs] else [])"
  by (simp add: positions_def enumerate_append_eq)

definition small_callees :: "qmodule \<Rightarrow> string \<Rightarrow> (string \<Rightarrow> bool) \<Rightarrow> inst list \<Rightarrow> bool" where
  "small_callees M f P b \<longleftrightarrow> (\<forall>(g, vs) \<in> set (calls b). P g \<longrightarrow> g \<noteq> f \<and>
     (has_body M g \<longrightarrow> (\<exists>gn gb. map_of M g = Some gn \<and> blocks gn = [gb])))"

lemma inline_step:
  assumes "map_of M f = Some fn" "P g" "g \<noteq> f" "has_body M g \<longrightarrow> (\<exists>gn gb. map_of M g = Some gn \<and> blocks gn = [gb])"
  shows "InlineFunction (f, length (calls x)) (set_func f (fn\<lparr>blocks := [hoisted M P y @ x @ Call g vs # spliced M P y]\<rparr>) M) =
    Some (set_func f (fn\<lparr>blocks := [hoisted M P (Call g vs # y) @ x @ spliced M P (Call g vs # y)]\<rparr>) M)"
proof -
  define B where "B = hoisted M P y @ x @ Call g vs # spliced M P y"
  define Mc where "Mc = set_func f (fn\<lparr>blocks := [B]\<rparr>) M"
  have f: "map_of Mc f = Some (fn\<lparr>blocks := [B]\<rparr>)" using assms(1) by (simp add: Mc_def map_of_set_func)
  have c: "calls_of Mc f = calls x @ (g, vs) # calls (spliced M P y)" by (simp add: calls_of_def f B_def)
  have i: "inlined_body M P (Call g vs) = target M g vs" using assms(2) by (simp add: inlined_body_def)
  have g: "map_of Mc g = map_of M g" using assms(3) by (simp add: Mc_def map_of_set_func)
  show ?thesis
  proof (cases "has_body M g")
    case False
    then have t: "target M g vs = None" by (auto simp: has_body_def target_def split: option.splits)
    have "InlineFunction (f, length (calls x)) Mc = Some Mc"
      using False by (auto simp: InlineFunction_def c f g has_body_def split: option.splits)
    then show ?thesis by (simp add: i t Mc_def B_def)
  next
    case True
    then obtain gn gb where g': "map_of M g = Some gn" "blocks gn = [gb]" using assms(4) by blast
    define body where "body = map (bind_inst (params gn) vs) gb"
    have t: "target M g vs = Some body" using g' by (simp add: target_def body_def)
    have r: "replace_call (length (calls x)) (filter (\<lambda>i. \<not> is_alloca_inst i) body) B =
        hoisted M P y @ x @ filter (\<lambda>i. \<not> is_alloca_inst i) body @ spliced M P y"
      by (simp add: B_def replace_call_skip replace_call_at)
    show ?thesis unfolding B_def [symmetric] Mc_def [symmetric]
      by (simp add: InlineFunction_def c f g g' Let_def r i t flip: body_def)
        (simp add: Mc_def set_func_twice B_def)
  qed
qed

lemma inline_function_calls:
  assumes "map_of M f = Some fn"
  shows "small_callees M f P x \<Longrightarrow>
    inline_calls (rev (map (Pair f) (positions P (calls x)))) (set_func f (fn\<lparr>blocks := [hoisted M P y @ x @ spliced M P y]\<rparr>) M) =
    Some (set_func f (fn\<lparr>blocks := [hoisted M P (x @ y) @ spliced M P (x @ y)]\<rparr>) M)"
proof (induction x arbitrary: y rule: rev_induct)
  case Nil
  then show ?case by simp
next
  case (snoc i x)
  have s: "small_callees M f P x" using snoc.prems by (simp add: small_callees_def)
  show ?case
  proof (cases "\<exists>g vs. i = Call g vs \<and> P g")
    case False
    then have "inlined_body M P i = None" by (auto simp: inlined_body_def split: inst.splits)
    moreover have "positions P (calls (x @ [i])) = positions P (calls x)" using False by (cases i) (simp_all add: positions_snoc)
    ultimately show ?thesis using snoc.IH [OF s, of "i # y"] by simp
  next
    case True
    then obtain g vs where i: "i = Call g vs" "P g" by blast
    then have g: "g \<noteq> f" "has_body M g \<longrightarrow> (\<exists>gn gb. map_of M g = Some gn \<and> blocks gn = [gb])"
      using snoc.prems by (auto simp: small_callees_def)
    have "rev (map (Pair f) (positions P (calls (x @ [i])))) = (f, length (calls x)) # rev (map (Pair f) (positions P (calls x)))"
      using i by (simp add: positions_snoc)
    then show ?thesis using inline_step [where P = P and g = g and x = x and y = y and vs = vs, OF assms i(2) g] snoc.IH [OF s, of "i # y"] i(1) by simp
  qed
qed

definition expand_in :: "qmodule \<Rightarrow> (string \<Rightarrow> bool) \<Rightarrow> inst list \<Rightarrow> inst list" where
  "expand_in M P b = hoisted M P b @ spliced M P b"

lemma inline_function_ok:
  assumes "map_of M f = Some fn" "distinct (map fst M)" "blocks fn = [b]" "small_callees M f P b"
  shows "inline_calls (rev (map (Pair f) (positions P (calls b)))) M = Some (set_func f (fn\<lparr>blocks := [expand_in M P b]\<rparr>) M)"
proof -
  have "fn\<lparr>blocks := [b]\<rparr> = fn" using assms(3) by (cases fn) simp
  then show ?thesis
    using inline_function_calls [OF assms(1,4), of "[]"] set_func_same [OF assms(2,1)] by (simp add: expand_in_def)
qed

subsection \<open>The meaning is kept\<close>

lemma bind_bind:
  assumes "length ws = length ps" "\<forall>c \<in> set (calls [i]). \<forall>v \<in> set (snd c). v \<in> set ps \<or> v \<notin> set qs"
  shows "bind_inst qs us (bind_inst ps ws i) = bind_inst ps (map (bind_params qs us) ws) i"
proof -
  have "bind_params qs us (bind_params ps ws v) = bind_params ps (map (bind_params qs us) ws) v" if "v \<in> set ps \<or> v \<notin> set qs" for v
  proof -
    have m: "map_of (zip ps (map (bind_params qs us) ws)) v = map_option (bind_params qs us) (map_of (zip ps ws) v)"
      by (simp add: zip_map2 map_of_map comp_def)
    show ?thesis
    proof (cases "map_of (zip ps ws) v")
      case (Some w)
      then show ?thesis using m by (simp add: bind_params_def)
    next
      case None
      have "set ps = dom (map_of (zip ps ws))" using assms(1) by (simp add: dom_map_of_zip)
      then have "v \<notin> set qs" using None that by auto
      then have "map_of (zip qs us) v = None" by (auto simp: map_of_eq_None_iff dest: set_zip_leftD)
      then show ?thesis using None m by (simp add: bind_params_def)
    qed
  qed
  then show ?thesis using assms(2) by (cases i) simp_all
qed

lemma inlinableD:
  assumes "inlinable M" "map_of M f = Some fn"
  shows "length (blocks fn) \<le> 1" "isIntrinsic f \<Longrightarrow> blocks fn = []"
    "c \<in> set (calls (concat (blocks fn))) \<Longrightarrow> call_ok M fn c" "distinct (map fst M)"
  using assms map_of_SomeD [OF assms(2)] by (fastforce simp: inlinable_def)+

lemma params_all: "map_of M f = Some fn \<Longrightarrow> set (params fn) \<subseteq> all_params M"
  using map_of_SomeD by (force simp: all_params_def)

lemma target_Some:
  assumes "inlinable M" "target M g vs = Some body"
  obtains gn gb where "map_of M g = Some gn" "blocks gn = [gb]" "body = map (bind_inst (params gn) vs) gb" "\<not> isIntrinsic g"
proof -
  obtain gn b bs where g: "map_of M g = Some gn" "blocks gn = b # bs" "body = map (bind_inst (params gn) vs) b"
    using assms(2) by (auto simp: target_def split: option.splits list.splits)
  then have "bs = []" "\<not> isIntrinsic g" using inlinableD(1,2) [OF assms(1) g(1)] by auto
  then show thesis using g that by simp
qed

lemma is_alloca_bind [simp]: "is_alloca_inst (bind_inst ps vs i) = is_alloca_inst i"
  by (cases i) simp_all

lemma flat_single: "flat M [i] g1 \<Longrightarrow> flat M is g2 \<Longrightarrow> flat M (i # is) (g1 @ g2)"
  using flat_append [of M "[i]" g1 "is" g2] by simp

lemma flat_ConsD: "flat M (i # is) gs \<Longrightarrow> \<exists>g1 g2. gs = g1 @ g2 \<and> flat M [i] g1 \<and> flat M is g2"
  using flat_appendD [of M "[i]" "is" gs] by simp

text \<open>A module in which one function is replaced.\<close>

lemma flat_spliced:
  assumes "inlinable M" "set qs \<subseteq> all_params M" "\<And>g gn. map_of M g = Some gn \<Longrightarrow> g \<noteq> f \<Longrightarrow> map_of M' g = Some gn"
  shows "\<forall>c \<in> set (calls xs). call_ok M fn c \<and> (P (fst c) \<longrightarrow> fst c \<noteq> f) \<Longrightarrow> flat M' (map (bind_inst qs us) xs) gs \<Longrightarrow>
    flat M' (map (bind_inst qs us) (spliced M P xs)) gs"
proof (induction xs arbitrary: gs)
  case Nil
  then show ?case by simp
next
  case (Cons i xs)
  obtain g1 g2 where g: "gs = g1 @ g2" "flat M' [bind_inst qs us i] g1" "flat M' (map (bind_inst qs us) xs) g2"
    using flat_ConsD [OF Cons.prems(2) [unfolded list.map]] by blast
  have "\<forall>c \<in> set (calls xs). call_ok M fn c \<and> (P (fst c) \<longrightarrow> fst c \<noteq> f)" using Cons.prems(1) by (cases i) simp_all
  note ih = Cons.IH [OF this g(3)]
  show ?case
  proof (cases "inlined_body M P i")
    case None
    then show ?thesis using flat_single [OF g(2) ih] g(1) by simp
  next
    case (Some body)
    then obtain h vs where i: "i = Call h vs" "P h" "target M h vs = Some body" by (auto simp: inlined_body_def split: inst.splits if_splits)
    from target_Some [OF assms(1) i(3)] obtain hn hb where h: "map_of M h = Some hn" "blocks hn = [hb]"
      "body = map (bind_inst (params hn) vs) hb" "\<not> isIntrinsic h" by blast
    have ok: "call_ok M fn (h, vs)" "h \<noteq> f" using Cons.prems(1) i by auto
    then have h': "map_of M' h = Some hn" using assms(3) h(1) by blast
    have "map val_type vs = map val_type (params hn)" using ok(1) h(1) by (simp add: call_ok_def)
    then have len: "length vs = length (params hn)" by (rule map_eq_imp_length_eq)
    have "flat M' [Call h (map (bind_params qs us) vs)] g1" using g(2) i(1) by simp
    then have "flat M' (map (bind_inst (params hn) (map (bind_params qs us) vs)) hb) g1"
    proof (rule flat_callE)
      assume "isIntrinsic h"
      then show ?thesis using h(4) by simp
    next
      fix hn' hb' gs1 gs2 assume "g1 = gs1 @ gs2" "map_of M' h = Some hn'" "blocks hn' = [hb']"
        "flat M' (map (bind_inst (params hn') (map (bind_params qs us) vs)) hb') gs1" "flat M' [] gs2"
      then show ?thesis using h' h(2) by (auto elim: flat_nilE)
    qed
    moreover have "map (bind_inst (params hn) (map (bind_params qs us) vs)) hb = map (bind_inst qs us) body"
    proof -
      have "bind_inst (params hn) (map (bind_params qs us) vs) j = bind_inst qs us (bind_inst (params hn) vs j)" if "j \<in> set hb" for j
      proof (rule bind_bind [OF len, symmetric])
        have "set (calls [j]) \<subseteq> set (calls hb)"
        proof (cases j)
          case (Call g ws)
          then have "(g, ws) \<in> set (calls hb)" using that call_in_calls [of g ws hb] by blast
          then show ?thesis unfolding Call by simp
        qed simp_all
        then show "\<forall>c \<in> set (calls [j]). \<forall>v \<in> set (snd c). v \<in> set (params hn) \<or> v \<notin> set qs"
          using inlinableD(3) [OF assms(1) h(1)] h(2) assms(2) unfolding call_ok_def by fastforce
      qed
      then show ?thesis by (simp add: h(3))
    qed
    ultimately have "flat M' (map (bind_inst qs us) (filter (\<lambda>i. \<not> is_alloca_inst i) body)) g1"
      using flat_no_allocas [of M' "map (bind_inst qs us) body" g1] by (simp add: filter_map comp_def)
    then show ?thesis using flat_append [OF _ ih] g(1) Some by simp
  qed
qed

lemma flat_expand:
  assumes "inlinable M" "map_of M f = Some fn" "blocks fn = [b]" "small_callees M f P b"
  defines "M' \<equiv> set_func f (fn\<lparr>blocks := [expand_in M P b]\<rparr>) M"
  shows "flat M is gs \<Longrightarrow> flat M' is gs"
proof (induction rule: flat.induct)
  case (flat_call h hn hb vs gs1 "is" gs2)
  show ?case
  proof (cases "h = f")
    case False
    then have "map_of M' h = Some hn" using flat_call.hyps(2) by (simp add: M'_def map_of_set_func)
    then show ?thesis by (rule flat.flat_call [OF flat_call.hyps(1) _ flat_call.hyps(3,4) flat_call.IH])
  next
    case True
    then have h: "hn = fn" "hb = b" using flat_call.hyps(2,3) assms(2,3) by simp_all
    define fn' where "fn' = fn\<lparr>blocks := [expand_in M P b]\<rparr>"
    have f': "map_of M' f = Some fn'" using assms(2) by (simp add: M'_def fn'_def map_of_set_func)
    have "\<forall>c \<in> set (calls b). call_ok M fn c \<and> (P (fst c) \<longrightarrow> fst c \<noteq> f)"
      using inlinableD(3) [OF assms(1,2)] assms(3,4) by (fastforce simp: small_callees_def)
    from flat_spliced [OF assms(1) params_all [OF assms(2)] _ this, of M' vs gs1]
    have "flat M' (map (bind_inst (params fn) vs) (spliced M P b)) gs1"
      using flat_call.IH(1) by (simp add: h M'_def map_of_set_func)
    moreover have "flat M' (map (bind_inst (params fn) vs) (hoisted M P b)) []"
      by (rule flat_allocas) (use hoisted_allocas [of M P b] in \<open>simp add: list_all_iff\<close>)
    ultimately have "flat M' (map (bind_inst (params fn') vs) (expand_in M P b)) gs1"
      using flat_append [of M' "map (bind_inst (params fn) vs) (hoisted M P b)" "[]"] by (simp add: expand_in_def fn'_def)
    moreover have "blocks fn' = [expand_in M P b]" "map val_type vs = map val_type (params fn')"
      using flat_call.hyps(4) h by (simp_all add: fn'_def)
    ultimately show ?thesis unfolding True
      using flat.flat_call [OF flat_call.hyps(1) [unfolded True] f' _ _ _ flat_call.IH(2)] by blast
  qed
qed (auto intro: flat.intros)

subsection \<open>The conditions are kept\<close>

lemma calls_spliced:
  "c \<in> set (calls (spliced M P xs)) \<Longrightarrow> (c \<in> set (calls xs) \<and> (P (fst c) \<longrightarrow> target M (fst c) (snd c) = None)) \<or>
     (\<exists>g vs body. (g, vs) \<in> set (calls xs) \<and> P g \<and> target M g vs = Some body \<and> c \<in> set (calls body))"
proof (induction xs)
  case (Cons i xs)
  show ?case
  proof (cases i)
    case (Call g vs)
    then show ?thesis using Cons by (cases "inlined_body M P i") (auto simp: inlined_body_def split: if_splits)
  qed (use Cons in \<open>auto simp: inlined_body_def\<close>)
qed simp

lemma bound_call_ok:
  assumes "inlinable M" "map_of M g = Some gn" "call_ok M fn (g, vs)" "call_ok M gn (h, us)"
  shows "call_ok M fn (h, map (bind_params (params gn) vs) us)"
proof -
  have t: "map val_type vs = map val_type (params gn)" using assms(2,3) by (simp add: call_ok_def)
  then have len: "length vs = length (params gn)" by (rule map_eq_imp_length_eq)
  have "bind_params (params gn) vs v \<in> set (params fn) \<or> bind_params (params gn) vs v \<notin> all_params M" if "v \<in> set us" for v
  proof (cases "map_of (zip (params gn) vs) v")
    case (Some w)
    then have "w \<in> set vs" by (auto dest: map_of_SomeD set_zip_rightD)
    then show ?thesis using Some assms(3) by (simp add: bind_params_def call_ok_def)
  next
    case None
    then have "v \<notin> set (params gn)" using map_of_zip_is_None [of "params gn" vs v] len by simp
    then show ?thesis using None that assms(4) by (auto simp: bind_params_def call_ok_def)
  qed
  then show ?thesis using assms(4) bind_params_type [OF t] by (simp add: call_ok_def comp_def)
qed

lemma expand_call_ok:
  assumes "inlinable M" "map_of M f = Some fn" "blocks fn = [b]" "c \<in> set (calls (expand_in M P b))"
  shows "call_ok M fn c"
proof -
  from calls_spliced [of c M P b] assms(4) consider "c \<in> set (calls b)"
    | g vs body where "(g, vs) \<in> set (calls b)" "target M g vs = Some body" "c \<in> set (calls body)"
    by (auto simp: expand_in_def)
  then show ?thesis
  proof cases
    case 1
    then show ?thesis using inlinableD(3) [OF assms(1,2)] assms(3) by simp
  next
    case 2
    from target_Some [OF assms(1) 2(2)] obtain gn gb where g: "map_of M g = Some gn" "blocks gn = [gb]" "body = map (bind_inst (params gn) vs) gb" by blast
    then obtain h us where h: "(h, us) \<in> set (calls gb)" "c = (h, map (bind_params (params gn) vs) us)"
      using 2(3) by (auto simp: calls_bind)
    have "call_ok M fn (g, vs)" "call_ok M gn (h, us)"
      using inlinableD(3) [OF assms(1,2)] inlinableD(3) [OF assms(1) g(1)] assms(3) 2(1) g(2) h(1) by simp_all
    then show ?thesis unfolding h(2) by (rule bound_call_ok [OF assms(1) g(1)])
  qed
qed

lemma all_params_set_func:
  assumes "map_of M f = Some fn" "distinct (map fst M)" "params fn' = params fn"
  shows "all_params (set_func f fn' M) = all_params M"
proof -
  have "params (if n = f then fn' else x) = params x" if "(n, x) \<in> set M" for n x
    using map_of_is_SomeI [OF assms(2) that] assms(1,3) by auto
  then show ?thesis unfolding all_params_def set_func_def by (auto simp: image_image)
qed

lemma inlinable_expand:
  assumes "inlinable M" "map_of M f = Some fn" "blocks fn = [b]"
  shows "inlinable (set_func f (fn\<lparr>blocks := [expand_in M P b]\<rparr>) M)"
proof -
  define fn' where "fn' = fn\<lparr>blocks := [expand_in M P b]\<rparr>"
  define M' where "M' = set_func f fn' M"
  have p: "all_params M' = all_params M" unfolding M'_def
    by (rule all_params_set_func [OF assms(2) inlinableD(4) [OF assms(1,2)]]) (simp add: fn'_def)
  have m: "map_option params (map_of M' n) = map_option params (map_of M n)" for n
    using assms(2) by (simp add: M'_def map_of_set_func fn'_def)
  have ok: "call_ok M' x c" if "call_ok M y c" "params x = params y" for x y c
  proof -
    have "map val_type (snd c) = map val_type (params gn)" if g: "map_of M' (fst c) = Some gn" for gn
    proof -
      obtain gn' where "map_of M (fst c) = Some gn'" "params gn' = params gn" using m [of "fst c"] g by (cases "map_of M (fst c)") simp_all
      then show ?thesis using \<open>call_ok M y c\<close> by (simp add: call_ok_def)
    qed
    then show ?thesis using that by (simp add: call_ok_def p)
  qed
  have "length (blocks x) \<le> 1 \<and> (isIntrinsic n \<longrightarrow> blocks x = []) \<and> (\<forall>c \<in> set (calls (concat (blocks x))). call_ok M' x c)"
    if "(n, x) \<in> set M'" for n x
  proof (cases "n = f")
    case True
    then have "x = fn'" using that by (auto simp: M'_def set_func_def split: if_splits)
    moreover have "\<not> isIntrinsic f" using inlinableD(2) [OF assms(1,2)] assms(3) by auto
    moreover have "call_ok M' fn' c" if "c \<in> set (calls (expand_in M P b))" for c
      by (rule ok [OF expand_call_ok [OF assms that]]) (simp add: fn'_def)
    ultimately show ?thesis using True by (simp add: fn'_def)
  next
    case False
    then have "(n, x) \<in> set M" using that by (auto simp: M'_def set_func_def split: if_splits)
    then have "map_of M n = Some x" using inlinableD(4) [OF assms(1,2)] by simp
    from inlinableD [OF assms(1) this] show ?thesis using ok [of x _ x] by blast
  qed
  then show ?thesis using inlinableD(4) [OF assms(1,2)] unfolding inlinable_def M'_def [symmetric] fn'_def [symmetric]
    by (auto simp: M'_def)
qed

subsection \<open>One function after the other\<close>

definition sites_of :: "qmodule \<Rightarrow> (string \<Rightarrow> string \<Rightarrow> bool) \<Rightarrow> string \<Rightarrow> (string \<times> nat) list" where
  "sites_of M marked f = map (Pair f) (positions (marked f) (calls_of M f))"

lemma inline_calls_append: "inline_calls (xs @ ys) M = Option.bind (inline_calls xs M) (inline_calls ys)"
  by (induction xs arbitrary: M) (auto split: option.splits)

text \<open>The state after the first i functions: these have no marked calls of functions with a body left.\<close>

definition inlined_upto :: "qmodule \<Rightarrow> (string \<Rightarrow> string \<Rightarrow> bool) \<Rightarrow> string list \<Rightarrow> qmodule \<Rightarrow> bool" where
  "inlined_upto M0 marked done M \<longleftrightarrow> inlinable M \<and>
     (\<forall>f. map_option params (map_of M f) = map_option params (map_of M0 f)) \<and> (\<forall>f. has_body M f = has_body M0 f) \<and>
     (\<forall>f. f \<notin> set done \<longrightarrow> map_of M f = map_of M0 f) \<and>
     (\<forall>f \<in> set done. \<forall>(g, vs) \<in> set (calls_of M f). marked f g \<longrightarrow> \<not> has_body M0 g) \<and>
     (\<forall>is gs. flat M0 is gs \<longrightarrow> flat M is gs)"

lemma inlined_uptoD:
  assumes "inlined_upto M0 marked done M"
  shows "inlinable M" "map_option params (map_of M f) = map_option params (map_of M0 f)" "has_body M f = has_body M0 f"
    "f \<notin> set done \<Longrightarrow> map_of M f = map_of M0 f"
    "f \<in> set done \<Longrightarrow> (g, vs) \<in> set (calls_of M f) \<Longrightarrow> marked f g \<Longrightarrow> \<not> has_body M0 g" "flat M0 is gs \<Longrightarrow> flat M is gs"
  using assms by (auto simp: inlined_upto_def)

lemma inline_next:
  assumes "inlined_upto M0 marked done M" "f \<notin> set done" "map_of M0 f = Some fn"
    and callees: "\<And>g vs. (g, vs) \<in> set (calls_of M0 f) \<Longrightarrow> has_body M0 g \<Longrightarrow> g \<in> set done"
    and closed: "\<And>g vs h. (g, vs) \<in> set (calls_of M0 f) \<Longrightarrow> marked f g \<Longrightarrow> marked f h \<Longrightarrow> has_body M0 g \<Longrightarrow> has_body M0 h \<Longrightarrow> marked g h"
  shows "\<exists>M'. inline_calls (rev (sites_of M0 marked f)) M = Some M' \<and> inlined_upto M0 marked (done @ [f]) M'"
proof -
  note I = inlined_uptoD [OF assms(1)]
  have f: "map_of M f = Some fn" using I(4) [OF assms(2)] assms(3) by simp
  show ?thesis
  proof (cases "blocks fn")
    case Nil
    then have c: "calls_of M0 f = []" using assms(3) by (simp add: calls_of_def)
    then have "calls_of M f = []" using f assms(3) by (simp add: calls_of_def)
    then have "inlined_upto M0 marked (done @ [f]) M" using assms(1) by (auto simp: inlined_upto_def)
    then show ?thesis using c by (simp add: sites_of_def)
  next
    case (Cons b bs)
    then have b: "blocks fn = [b]" using inlinableD(1) [OF I(1) f] by simp
    have c: "calls_of M0 f = calls b" using assms(3) b by (simp add: calls_of_def)
    have body: "has_body M0 f" using assms(3) b by (simp add: has_body_def)
    have "g \<noteq> f \<and> (has_body M g \<longrightarrow> (\<exists>gn gb. map_of M g = Some gn \<and> blocks gn = [gb]))" if g: "(g, vs) \<in> set (calls b)" for g vs
    proof
      show "g \<noteq> f" using callees [of g vs] g c body assms(2) by auto
      show "has_body M g \<longrightarrow> (\<exists>gn gb. map_of M g = Some gn \<and> blocks gn = [gb])"
      proof
        assume "has_body M g"
        then obtain gn where gn: "map_of M g = Some gn" "blocks gn \<noteq> []" by (auto simp: has_body_def split: option.splits)
        then have "length (blocks gn) = 1" using inlinableD(1) [OF I(1) gn(1)] by (cases "blocks gn") simp_all
        then show "\<exists>gn gb. map_of M g = Some gn \<and> blocks gn = [gb]" using gn(1) by (auto simp: length_Suc_conv)
      qed
    qed
    then have small: "small_callees M f (marked f) b" by (auto simp: small_callees_def)
    define fn' where "fn' = fn\<lparr>blocks := [expand_in M (marked f) b]\<rparr>"
    define M' where "M' = set_func f fn' M"
    have run: "inline_calls (rev (sites_of M0 marked f)) M = Some M'"
      unfolding sites_of_def c M'_def fn'_def by (rule inline_function_ok [OF f inlinableD(4) [OF I(1) f] b small])
    have m: "map_of M' n = (if n = f then Some fn' else map_of M n)" for n using f by (simp add: M'_def map_of_set_func)
    have left: "\<not> has_body M0 h" if h: "(h, us) \<in> set (calls_of M' f)" "marked f h" for h us
    proof
      assume hb: "has_body M0 h"
      have "(h, us) \<in> set (calls (spliced M (marked f) b))" using h(1) by (simp add: calls_of_def m fn'_def expand_in_def)
      from calls_spliced [OF this] h(2) consider "target M h us = None"
        | g vs body where "(g, vs) \<in> set (calls b)" "marked f g" "target M g vs = Some body" "(h, us) \<in> set (calls body)" by auto
      then show False
      proof cases
        case 1
        then show ?thesis using hb I(3) [of h] by (auto simp: target_def has_body_def split: option.splits list.splits)
      next
        case 2
        from target_Some [OF I(1) 2(3)] obtain gn gb where g: "map_of M g = Some gn" "blocks gn = [gb]" "body = map (bind_inst (params gn) vs) gb" by blast
        then have gb: "has_body M0 g" using I(3) [of g] by (simp add: has_body_def)
        have "marked g h" using closed [of g vs h] 2(1,2) h(2) gb hb c by simp
        moreover obtain us' where "(h, us') \<in> set (calls_of M g)" using 2(4) g by (auto simp: calls_of_def calls_bind)
        moreover have "g \<in> set done" using callees [of g vs] 2(1) gb c by simp
        ultimately show ?thesis using I(5) hb by blast
      qed
    qed
    have "inlined_upto M0 marked (done @ [f]) M'"
      unfolding inlined_upto_def
    proof (intro conjI allI impI ballI)
      show "inlinable M'" unfolding M'_def fn'_def by (rule inlinable_expand [OF I(1) f b])
      show "map_option params (map_of M' n) = map_option params (map_of M0 n)" for n
        using I(2) [of n] f by (cases "n = f") (simp_all add: m fn'_def)
      show "has_body M' n = has_body M0 n" for n
        using I(3) [of n] f b by (cases "n = f") (simp_all add: m fn'_def has_body_def)
      show "map_of M' n = map_of M0 n" if "n \<notin> set (done @ [f])" for n using I(4) [of n] that by (simp add: m)
      show "case c of (g, vs) \<Rightarrow> marked n g \<longrightarrow> \<not> has_body M0 g" if n: "n \<in> set (done @ [f])" "c \<in> set (calls_of M' n)" for n c
      proof (cases "n = f")
        case True
        then show ?thesis using left n(2) by auto
      next
        case False
        then have "calls_of M' n = calls_of M n" "n \<in> set done" using n(1) by (simp_all add: calls_of_def m)
        then show ?thesis using I(5) n(2) by auto
      qed
      show "flat M' is gs" if "flat M0 is gs" for "is" gs
        unfolding M'_def fn'_def by (rule flat_expand [OF I(1) f b small I(6) [OF that]])
    qed
    then show ?thesis using run by blast
  qed
qed

text \<open>The contract of the passes: which calls are marked, and that these are the calls that are chosen. A
  function that is inlined inlines what its caller would inline in its body.\<close>

locale inlining =
  fixes marked :: "qmodule \<Rightarrow> string list \<Rightarrow> string \<Rightarrow> string \<Rightarrow> bool"
    and chosen :: "qmodule \<Rightarrow> string list \<Rightarrow> (string \<times> nat) list"
  assumes closed: "inlinable M \<Longrightarrow> post_order M post \<Longrightarrow> f \<in> set post \<Longrightarrow> (g, vs) \<in> set (calls_of M f) \<Longrightarrow>
      marked M post f g \<Longrightarrow> marked M post f h \<Longrightarrow> has_body M g \<Longrightarrow> has_body M h \<Longrightarrow> marked M post g h"
    and chosen: "inlinable M \<Longrightarrow> post_order M post \<Longrightarrow> chosen M post = concat (map (sites_of M (marked M post)) (rev post))"
begin

lemma inline_prefix:
  assumes "inlinable M" "post_order M post" "i \<le> length post"
  shows "\<exists>M'. inline_calls (concat (map (\<lambda>f. rev (sites_of M (marked M post) f)) (take i post))) M = Some M' \<and>
    inlined_upto M (marked M post) (take i post) M'"
  using assms(3)
proof (induction i)
  case 0
  then show ?case using assms(1) by (simp add: inlined_upto_def)
next
  case (Suc i)
  then have i: "i < length post" by simp
  define f where "f = post ! i"
  have t: "take (Suc i) post = take i post @ [f]" using i by (simp add: take_Suc_conv_app_nth f_def)
  obtain M' where M': "inline_calls (concat (map (\<lambda>f. rev (sites_of M (marked M post) f)) (take i post))) M = Some M'"
    "inlined_upto M (marked M post) (take i post) M'" using Suc by auto
  have d: "distinct post" "set post = fst ` set M" using assms(2) by (simp_all add: post_order_def)
  have "f \<notin> set (take i post)" using d(1) i by (auto simp: f_def in_set_conv_nth nth_eq_iff_index_eq)
  moreover have fp: "f \<in> set post" using i by (simp add: f_def)
  then obtain fn where "map_of M f = Some fn" using d(2) by (cases "map_of M f") (auto simp: map_of_eq_None_iff)
  moreover have "g \<in> set (take i post)" if "(g, vs) \<in> set (calls_of M f)" "has_body M g" for g vs
    using assms(2) i that by (auto simp: post_order_def f_def)
  ultimately have "\<exists>M''. inline_calls (rev (sites_of M (marked M post) f)) M' = Some M'' \<and> inlined_upto M (marked M post) (take i post @ [f]) M''"
    using inline_next [OF M'(2), of f] closed [OF assms(1,2) fp] by blast
  then show ?case using M'(1) by (auto simp: t inline_calls_append)
qed

lemma inline_all:
  assumes "inlinable M" "post_order M post"
  shows "\<exists>M'. inline_calls (rev (chosen M post)) M = Some M' \<and> inlined_upto M (marked M post) post M'"
proof -
  have "rev (chosen M post) = concat (map (\<lambda>f. rev (sites_of M (marked M post) f)) post)"
    unfolding chosen [OF assms] by (simp add: rev_concat rev_map comp_def)
  then show ?thesis using inline_prefix [OF assms order_refl] by simp
qed

lemma meaning_kept:
  assumes "inlinable M" "post_order M post" "inline_calls (rev (chosen M post)) M = Some M'" "flat M is gs"
  shows "flat M' is gs' \<longleftrightarrow> gs' = gs"
proof -
  have "flat M' is gs" using inline_all [OF assms(1,2)] assms(3,4) by (auto dest: inlined_uptoD(6))
  then show ?thesis using flat_unique by blast
qed

end

end
