(* ===== verification/Inline_Claims.thy ===== *)
theory Inline_Claims
  imports Inline_Props
begin

text \<open>
  \<open>FlattenModule\<close> and \<open>InlineModule\<close> as interpretations of the locale \<open>inlining\<close>: both keep the gates of every
  call, and the functions asked for are free of calls afterwards.
\<close>

subsection \<open>The marks of FlattenModule\<close>

definition flatten_marks :: "nat \<Rightarrow> string list \<Rightarrow> qmodule \<Rightarrow> string list \<Rightarrow> marks" where
  "flatten_marks FLAT leafNames M post =
     foldl (flatten_function M FLAT) \<lparr>makeLeaf = leafNames, inlineCallInsts = []\<rparr> (rev post)"

definition has_callee :: "qmodule \<Rightarrow> string \<Rightarrow> bool" where
  "has_callee M g \<longleftrightarrow> \<not> isIntrinsic g \<and> has_body M g"

definition flatten_marked :: "nat \<Rightarrow> string list \<Rightarrow> qmodule \<Rightarrow> string list \<Rightarrow> string \<Rightarrow> string \<Rightarrow> bool" where
  "flatten_marked FLAT leafNames M post f g \<longleftrightarrow> (FLAT \<noteq> 0 \<or> f \<in> set (makeLeaf (flatten_marks FLAT leafNames M post))) \<and> has_callee M g"

lemma flatten_calls:
  "foldl (flatten_call M f) st xs =
     \<lparr>makeLeaf = makeLeaf st @ map (\<lambda>(k, g, vs). g) (filter (\<lambda>(k, g, vs). has_callee M g) xs),
      inlineCallInsts = inlineCallInsts st @ map (\<lambda>(k, g, vs). (f, k)) (filter (\<lambda>(k, g, vs). has_callee M g) xs)\<rparr>"
proof (induction xs arbitrary: st)
  case (Cons x xs)
  then show ?case by (cases x) (simp add: flatten_call_def has_callee_def)
qed simp

lemma flatten_function_eq:
  "flatten_function M FLAT st f =
     (if FLAT = 0 \<and> f \<notin> set (makeLeaf st) then st
      else \<lparr>makeLeaf = makeLeaf st @ map fst (filter (\<lambda>(g, vs). has_callee M g) (calls_of M f)),
            inlineCallInsts = inlineCallInsts st @ sites_of M (\<lambda>f. has_callee M) f\<rparr>)"
proof -
  have a: "map (\<lambda>(k, g, vs). g) (filter (\<lambda>(k, g, vs). has_callee M g) (enumerate n cs)) = map fst (filter (\<lambda>(g, vs). has_callee M g) cs)" for n cs
    by (induction cs arbitrary: n) auto
  have b: "map (\<lambda>(k, g, vs). (f, k)) (filter (\<lambda>(k, g, vs). has_callee M g) (enumerate 0 (calls_of M f))) = sites_of M (\<lambda>f. has_callee M) f"
    by (simp add: sites_of_def positions_def case_prod_unfold comp_def)
  show ?thesis unfolding flatten_function_def flatten_calls a b by simp
qed

text \<open>Callers first, so that a function is not marked after its visit.\<close>

definition callers_first :: "qmodule \<Rightarrow> string list \<Rightarrow> bool" where
  "callers_first M fs \<longleftrightarrow> sorted_wrt (\<lambda>f h. f \<noteq> h \<and> f \<notin> fst ` set (filter (\<lambda>(g, vs). has_callee M g) (calls_of M h))) fs \<and>
     (\<forall>f \<in> set fs. f \<notin> fst ` set (filter (\<lambda>(g, vs). has_callee M g) (calls_of M f)))"

lemma makeLeaf_later:
  "f \<in> set (makeLeaf (foldl (flatten_function M FLAT) st fs)) \<Longrightarrow>
   f \<in> set (makeLeaf st) \<or> (\<exists>h \<in> set fs. f \<in> fst ` set (filter (\<lambda>(g, vs). has_callee M g) (calls_of M h)))"
proof (induction fs arbitrary: st)
  case (Cons h fs)
  then have "f \<in> set (makeLeaf (flatten_function M FLAT st h)) \<or> (\<exists>h \<in> set fs. f \<in> fst ` set (filter (\<lambda>(g, vs). has_callee M g) (calls_of M h)))"
    by simp
  then show ?case by (auto simp: flatten_function_eq split: if_splits)
qed simp

lemma makeLeaf_kept: "f \<in> set (makeLeaf st) \<Longrightarrow> f \<in> set (makeLeaf (foldl (flatten_function M FLAT) st fs))"
  by (induction fs arbitrary: st) (auto simp: flatten_function_eq)

lemma flatten_sites:
  assumes "callers_first M fs"
  shows "inlineCallInsts (foldl (flatten_function M FLAT) st fs) = inlineCallInsts st @
    concat (map (sites_of M (\<lambda>f g. (FLAT \<noteq> 0 \<or> f \<in> set (makeLeaf (foldl (flatten_function M FLAT) st fs))) \<and> has_callee M g)) fs)"
  using assms
proof (induction fs arbitrary: st)
  case (Cons f fs)
  define st' where "st' = flatten_function M FLAT st f"
  have c: "callers_first M fs" using Cons.prems by (simp add: callers_first_def)
  have mem: "f \<in> set (makeLeaf (foldl (flatten_function M FLAT) st' fs)) \<longleftrightarrow> f \<in> set (makeLeaf st)"
  proof
    assume "f \<in> set (makeLeaf st)"
    then have "f \<in> set (makeLeaf st')" by (simp add: st'_def flatten_function_eq)
    then show "f \<in> set (makeLeaf (foldl (flatten_function M FLAT) st' fs))" by (rule makeLeaf_kept)
  next
    assume "f \<in> set (makeLeaf (foldl (flatten_function M FLAT) st' fs))"
    from makeLeaf_later [OF this] have "f \<in> set (makeLeaf st')" using Cons.prems unfolding callers_first_def by auto
    then show "f \<in> set (makeLeaf st)" using Cons.prems unfolding callers_first_def st'_def flatten_function_eq by (force split: if_splits)
  qed
  have none: "positions (\<lambda>_. False) cs = []" for cs by (simp add: positions_def)
  have "inlineCallInsts st' = inlineCallInsts st @ sites_of M (\<lambda>f g. (FLAT \<noteq> 0 \<or> f \<in> set (makeLeaf (foldl (flatten_function M FLAT) st' fs))) \<and> has_callee M g) f"
    using mem by (auto simp: st'_def flatten_function_eq sites_of_def none)
  then show ?case using Cons.IH [OF c, of st'] by (simp flip: st'_def)
qed simp

lemma post_order_callers:
  assumes "post_order M post"
  shows "callers_first M (rev post)"
proof -
  have d: "distinct post" using assms by (simp add: post_order_def)
  have c: "g \<in> set (take i post)" if "i < length post" "(g, vs) \<in> set (calls_of M (post ! i))" "has_callee M g" for i g vs
    using assms that by (auto simp: post_order_def has_callee_def)
  have up: "post ! j \<notin> fst ` set (filter (\<lambda>(g, vs). has_callee M g) (calls_of M (post ! i)))" if "i \<le> j" "j < length post" for i j
  proof
    assume "post ! j \<in> fst ` set (filter (\<lambda>(g, vs). has_callee M g) (calls_of M (post ! i)))"
    then obtain vs where "(post ! j, vs) \<in> set (calls_of M (post ! i))" "has_callee M (post ! j)" by auto
    then have "post ! j \<in> set (take i post)" using c that by auto
    then obtain k where "k < i" "k < length post" "post ! k = post ! j" by (auto simp: in_set_conv_nth)
    then show False using d that by (auto simp: nth_eq_iff_index_eq)
  qed
  have "sorted_wrt (\<lambda>h f. f \<noteq> h \<and> f \<notin> fst ` set (filter (\<lambda>(g, vs). has_callee M g) (calls_of M h))) post"
    unfolding sorted_wrt_iff_nth_less using up d by (auto simp: nth_eq_iff_index_eq)
  moreover have "f \<notin> fst ` set (filter (\<lambda>(g, vs). has_callee M g) (calls_of M f))" if f: "f \<in> set (rev post)" for f
  proof -
    obtain i where "i < length post" "post ! i = f" using f by (auto simp: in_set_conv_nth)
    then show ?thesis using up [of i i] by simp
  qed
  ultimately show ?thesis unfolding callers_first_def sorted_wrt_rev by blast
qed

interpretation flatten: inlining "flatten_marked FLAT leafNames" "\<lambda>M post. inlineCallInsts (flatten_marks FLAT leafNames M post)"
  for FLAT leafNames
proof
  fix M post f g h vs
  assume h: "inlinable M" "post_order M post" "f \<in> set post" "(g, vs) \<in> set (calls_of M f)"
    "flatten_marked FLAT leafNames M post f g" "flatten_marked FLAT leafNames M post f h"
  have "g \<in> set (makeLeaf (flatten_marks FLAT leafNames M post))"
  proof -
    obtain as bs where p: "rev post = as @ f # bs" using h(3) by (metis in_set_conv_decomp set_rev)
    define st where "st = foldl (flatten_function M FLAT) \<lparr>makeLeaf = leafNames, inlineCallInsts = []\<rparr> as"
    have e: "flatten_marks FLAT leafNames M post = foldl (flatten_function M FLAT) (flatten_function M FLAT st f) bs"
      by (simp add: flatten_marks_def p st_def)
    have "callers_first M (as @ f # bs)" using post_order_callers [OF h(2)] p by simp
    then have later: "\<not> (\<exists>h \<in> set (f # bs). f \<in> fst ` set (filter (\<lambda>(g, vs). has_callee M g) (calls_of M h)))"
      by (auto simp: callers_first_def sorted_wrt_append)
    have "FLAT \<noteq> 0 \<or> f \<in> set (makeLeaf st)"
    proof (cases "FLAT = 0")
      case True
      then have "f \<in> set (makeLeaf (foldl (flatten_function M FLAT) st (f # bs)))" using h(5) e by (simp add: flatten_marked_def)
      from makeLeaf_later [OF this] show ?thesis using later by blast
    qed simp
    moreover have "has_callee M g" using h(5) by (simp add: flatten_marked_def)
    ultimately have "g \<in> set (makeLeaf (flatten_function M FLAT st f))"
      using h(4) by (force simp: flatten_function_eq)
    then show ?thesis unfolding e by (rule makeLeaf_kept)
  qed
  then show "flatten_marked FLAT leafNames M post g h" using h(6) by (simp add: flatten_marked_def)
next
  fix M post assume h: "inlinable M" "post_order M post"
  show "inlineCallInsts (flatten_marks FLAT leafNames M post) = concat (map (sites_of M (flatten_marked FLAT leafNames M post)) (rev post))"
    using flatten_sites [OF post_order_callers [OF h(2)], of FLAT "\<lparr>makeLeaf = leafNames, inlineCallInsts = []\<rparr>"]
    by (simp add: flatten_marked_def [abs_def] flip: flatten_marks_def)
qed

lemma flat_only_gates:
  "flat M is gs \<Longrightarrow> \<forall>(g, vs) \<in> set (calls is). isIntrinsic g \<or> \<not> has_body M g \<Longrightarrow> gs = calls is"
proof (induction rule: flat.induct)
  case (flat_call f fn b vs gs1 "is" gs2)
  then have "has_body M f" by (simp add: has_body_def)
  then show ?case using flat_call.prems flat_call.hyps(1) by simp
qed simp_all

lemma bind_nothing [simp]: "bind_inst [] [] i = i"
  by (cases i) (simp_all add: bind_params_def map_idI)

lemma bind_nothing_map [simp]: "map (bind_inst [] []) is = is"
  by (rule map_idI) simp

lemma flat_of_leaf:
  assumes "flat M [Call f []] gs" "\<not> isIntrinsic f" "\<forall>(g, vs) \<in> set (calls_of M f). isIntrinsic g \<or> \<not> has_body M g"
  shows "calls_of M f = gs"
  using assms(1)
proof (rule flat_callE)
  assume "isIntrinsic f"
  then show ?thesis using assms(2) by simp
next
  fix fn b gs1 gs2
  assume h: "gs = gs1 @ gs2" "map_of M f = Some fn" "blocks fn = [b]" "map val_type [] = map val_type (params fn)"
    "flat M (map (bind_inst (params fn) []) b) gs1" "flat M [] gs2"
  then have "params fn = []" "gs = gs1" "calls_of M f = calls b" by (auto simp: calls_of_def elim: flat_nilE)
  moreover have "map (bind_inst [] []) b = b" by simp
  ultimately show ?thesis using flat_only_gates [of M b gs1] h(5) assms(3) by simp
qed

text \<open>C14: \<open>FlattenModule\<close>, on a program without recursion whose functions are single blocks, returns, and every
  call comes down to exactly the same gates as before; the functions listed in the file, or all
  functions with the option \<open>all\<close>, contain no calls of other functions afterwards, and the calls in such a
  function without parameters are exactly the gates it comes down to.\<close>

theorem flatten_correct:
  assumes "inlinable M" "post_order M vectPostOrder"
  shows "\<exists>M'. FlattenModule FLAT leafNames vectPostOrder M = Some M' \<and>
    (\<forall>is gs. flat M is gs \<longrightarrow> (\<forall>gs'. flat M' is gs' \<longleftrightarrow> gs' = gs)) \<and>
    (\<forall>f \<in> fst ` set M. FLAT \<noteq> 0 \<or> f \<in> set leafNames \<longrightarrow> (\<forall>(g, vs) \<in> set (calls_of M' f). isIntrinsic g \<or> \<not> has_body M' g)) \<and>
    (\<forall>f \<in> fst ` set M. (FLAT \<noteq> 0 \<or> f \<in> set leafNames) \<and> \<not> isIntrinsic f \<longrightarrow> (\<forall>gs. flat M [Call f []] gs \<longrightarrow> calls_of M' f = gs))"
proof -
  have e: "FlattenModule FLAT leafNames vectPostOrder M = inline_calls (rev (inlineCallInsts (flatten_marks FLAT leafNames M vectPostOrder))) M"
    by (simp add: FlattenModule_def flatten_marks_def)
  obtain M' where M': "FlattenModule FLAT leafNames vectPostOrder M = Some M'"
    "inlined_upto M (flatten_marked FLAT leafNames M vectPostOrder) vectPostOrder M'"
    unfolding e using flatten.inline_all [OF assms] by blast
  have leaf: "isIntrinsic g \<or> \<not> has_body M' g" if "f \<in> fst ` set M" "FLAT \<noteq> 0 \<or> f \<in> set leafNames" "(g, vs) \<in> set (calls_of M' f)" for f g vs
  proof (rule ccontr)
    assume n: "\<not> (isIntrinsic g \<or> \<not> has_body M' g)"
    have "f \<in> set leafNames \<Longrightarrow> f \<in> set (makeLeaf (flatten_marks FLAT leafNames M vectPostOrder))"
      unfolding flatten_marks_def by (rule makeLeaf_kept) simp
    then have "flatten_marked FLAT leafNames M vectPostOrder f g"
      using that(2) n inlined_uptoD(3) [OF M'(2), of g] by (auto simp: flatten_marked_def has_callee_def)
    moreover have "f \<in> set vectPostOrder" using that(1) assms(2) by (simp add: post_order_def)
    ultimately show False using inlined_uptoD(5) [OF M'(2) _ that(3)] inlined_uptoD(3) [OF M'(2), of g] n by blast
  qed
  have same: "flat M' is gs' \<longleftrightarrow> gs' = gs" if "flat M is gs" for "is" gs gs'
    using flatten.meaning_kept [OF assms _ that] M'(1) e by simp
  have gates: "calls_of M' f = gs" if "f \<in> fst ` set M" "FLAT \<noteq> 0 \<or> f \<in> set leafNames" "\<not> isIntrinsic f" "flat M [Call f []] gs" for f gs
    using flat_of_leaf [of M' f gs] same [OF that(4)] that(3) leaf [OF that(1,2)] by blast
  show ?thesis
  proof (intro exI [of _ M'] conjI allI impI ballI)
    show "FlattenModule FLAT leafNames vectPostOrder M = Some M'" by (rule M'(1))
    show "flat M' is gs' \<longleftrightarrow> gs' = gs" if "flat M is gs" for "is" gs gs' by (rule same [OF that])
    show "case c of (g, vs) \<Rightarrow> isIntrinsic g \<or> \<not> has_body M' g"
      if "f \<in> fst ` set M" "FLAT \<noteq> 0 \<or> f \<in> set leafNames" "c \<in> set (calls_of M' f)" for f c
      using leaf [OF that(1,2)] that(3) by (cases c) blast
    show "calls_of M' f = gs" if "f \<in> fst ` set M" "(FLAT \<noteq> 0 \<or> f \<in> set leafNames) \<and> \<not> isIntrinsic f" "flat M [Call f []] gs" for f gs
      using gates that by blast
  qed
qed

subsection \<open>InlineModule\<close>

lemma inline_function_eq: "inline_function M makeInlined sites f = sites @ sites_of M (\<lambda>f g. g \<in> set makeInlined) f"
proof -
  have "foldl (\<lambda>sites (k, g, vs). if g \<in> set makeInlined then sites @ [(f, k)] else sites) sites xs =
      sites @ map (Pair f) (map fst (filter (\<lambda>(k, g, vs). g \<in> set makeInlined) xs))" for xs :: "(nat \<times> string \<times> val list) list"
    by (induction xs arbitrary: sites) auto
  then show ?thesis by (simp add: inline_function_def sites_of_def positions_def)
qed

lemma inline_sites: "foldl (inline_function M makeInlined) sites fs = sites @ concat (map (sites_of M (\<lambda>f g. g \<in> set makeInlined)) fs)"
  by (induction fs arbitrary: sites) (simp_all add: inline_function_eq)

interpretation inline: inlining "\<lambda>M post f g. g \<in> set names" "\<lambda>M post. foldl (inline_function M names) [] (rev post)" for names
  by unfold_locales (simp_all add: inline_sites)

text \<open>C15: \<open>InlineModule\<close>, on a program without recursion whose functions are single blocks, returns, and every call
  comes down to exactly the same gates as before; no function contains a call of a listed function
  with a body afterwards.\<close>

theorem inline_correct:
  assumes "inlinable M" "post_order M vectPostOrder"
  shows "\<exists>M'. InlineModule inlinedNames vectPostOrder M = Some M' \<and>
    (\<forall>is gs. flat M is gs \<longrightarrow> (\<forall>gs'. flat M' is gs' \<longleftrightarrow> gs' = gs)) \<and>
    (\<forall>f \<in> fst ` set M. \<forall>(g, vs) \<in> set (calls_of M' f). g \<in> set inlinedNames \<longrightarrow> \<not> has_body M' g)"
proof -
  obtain M' where M': "InlineModule inlinedNames vectPostOrder M = Some M'"
    "inlined_upto M (\<lambda>f g. g \<in> set inlinedNames) vectPostOrder M'"
    unfolding InlineModule_def using inline.inline_all [OF assms] by blast
  have "\<not> has_body M' g" if "f \<in> fst ` set M" "(g, vs) \<in> set (calls_of M' f)" "g \<in> set inlinedNames" for f g vs
    using inlined_uptoD(5) [OF M'(2) _ that(2,3)] inlined_uptoD(3) [OF M'(2), of g] that(1) assms(2) by (auto simp: post_order_def)
  moreover have "flat M' is gs' \<longleftrightarrow> gs' = gs" if "flat M is gs" for "is" gs gs'
    using inline.meaning_kept [OF assms _ that] M'(1) by (simp add: InlineModule_def)
  ultimately show ?thesis using M'(1) by blast
qed

subsection \<open>An example\<close>

definition nested :: qmodule where
  "nested =
     [(''sub'', \<lparr>params = [Qbit 10], blocks = [[Alloca 16 (Some 1), gate_call ''H'' [Qbit 10], gate_call ''CNOT'' [Qbit 10, Qbit 20]]]\<rparr>),
      (''mid'', \<lparr>params = [Qbit 11], blocks = [[Call ''sub'' [Qbit 11], gate_call ''T'' [Qbit 11]]]\<rparr>),
      (''main'', \<lparr>params = [], blocks = [[Alloca 16 (Some 1), Call ''mid'' [Qbit 0], Call ''sub'' [Qbit 0]]]\<rparr>)]"

lemma nested_ok: "inlinable nested" "post_order nested [''sub'', ''mid'', ''main'']"
proof -
  show "inlinable nested" by (simp add: inlinable_def nested_def call_ok_def all_params_def gate_call_def intrinsic_name_def isIntrinsic_def)
  have "list_all (\<lambda>i. list_all (\<lambda>(g, vs). has_body nested g \<longrightarrow> g \<in> set (take i [''sub'', ''mid'', ''main'']))
      (calls_of nested ([''sub'', ''mid'', ''main''] ! i))) [0..<3]" by code_simp
  then show "post_order nested [''sub'', ''mid'', ''main'']" unfolding post_order_def
    by (auto simp: list_all_iff nested_def)
qed

definition nested_gates :: "(string \<times> val list) list" where
  "nested_gates = [(''llvm.H.i16'', [Qbit 0]), (''llvm.CNOT.i16.i16'', [Qbit 0, Qbit 20]), (''llvm.T.i16'', [Qbit 0]),
     (''llvm.H.i16'', [Qbit 0]), (''llvm.CNOT.i16.i16'', [Qbit 0, Qbit 20])]"

lemma nested_flat: "flat nested [Call ''main'' []] nested_gates"
proof -
  have i: "isIntrinsic ''llvm.H.i16''" "isIntrinsic ''llvm.CNOT.i16.i16''" "isIntrinsic ''llvm.T.i16''" "\<not> isIntrinsic ''sub''"
    "\<not> isIntrinsic ''mid''" "\<not> isIntrinsic ''main''" by (simp_all add: isIntrinsic_def)
  have b: "gate_call ''H'' [Qbit n] = Call ''llvm.H.i16'' [Qbit n]" "gate_call ''CNOT'' [Qbit n, Qbit m] = Call ''llvm.CNOT.i16.i16'' [Qbit n, Qbit m]"
    "gate_call ''T'' [Qbit n] = Call ''llvm.T.i16'' [Qbit n]" for n m by (simp_all add: gate_call_def intrinsic_name_def)
  have m: "map_of nested ''sub'' = Some \<lparr>params = [Qbit 10], blocks = [[Alloca 16 (Some 1), gate_call ''H'' [Qbit 10], gate_call ''CNOT'' [Qbit 10, Qbit 20]]]\<rparr>"
    "map_of nested ''mid'' = Some \<lparr>params = [Qbit 11], blocks = [[Call ''sub'' [Qbit 11], gate_call ''T'' [Qbit 11]]]\<rparr>"
    "map_of nested ''main'' = Some \<lparr>params = [], blocks = [[Alloca 16 (Some 1), Call ''mid'' [Qbit 0], Call ''sub'' [Qbit 0]]]\<rparr>"
    by (simp_all add: nested_def)
  have sub: "flat nested (Call ''sub'' [Qbit n] # is) ([(''llvm.H.i16'', [Qbit n]), (''llvm.CNOT.i16.i16'', [Qbit n, Qbit 20])] @ gs)"
    if "flat nested is gs" for n "is" gs
    by (rule flat_call [OF i(4) m(1) _ _ _ that]) (auto simp: b bind_params_def intro!: flat_alloca flat_gate flat_nil i)
  have mid: "flat nested (Call ''mid'' [Qbit n] # is)
      (([(''llvm.H.i16'', [Qbit n]), (''llvm.CNOT.i16.i16'', [Qbit n, Qbit 20])] @ [(''llvm.T.i16'', [Qbit n])]) @ gs)"
    if "flat nested is gs" for n "is" gs
    by (rule flat_call [OF i(5) m(2) _ _ _ that])
      (simp_all only: list.map bind_inst.simps b, auto simp: bind_params_def simp del: append.simps intro!: sub flat_gate flat_nil i)
  have "flat nested [Call ''main'' []] (nested_gates @ [])"
    by (rule flat_call [OF i(6) m(3) _ _ _ flat_nil])
      (use flat_alloca [OF mid [OF sub [OF flat_nil]], of 16 "Some 1" 0 0] in \<open>simp_all add: nested_gates_def bind_params_def\<close>)
  then show ?thesis by simp
qed

theorem flatten_correct_witness:
  "\<exists>M'. FlattenModule 0 [''main''] [''sub'', ''mid'', ''main''] nested = Some M' \<and> calls_of M' ''main'' = nested_gates \<and>
     (\<forall>gs'. flat M' [Call ''main'' []] gs' \<longleftrightarrow> gs' = nested_gates)"
proof -
  have "''main'' \<in> fst ` set nested" "\<not> isIntrinsic ''main''" by (simp_all add: nested_def isIntrinsic_def)
  moreover obtain M' where M': "FlattenModule 0 [''main''] [''sub'', ''mid'', ''main''] nested = Some M'"
    "\<forall>is gs. flat nested is gs \<longrightarrow> (\<forall>gs'. flat M' is gs' \<longleftrightarrow> gs' = gs)"
    "\<forall>f \<in> fst ` set nested. (0 \<noteq> (0::nat) \<or> f \<in> set [''main'']) \<and> \<not> isIntrinsic f \<longrightarrow> (\<forall>gs. flat nested [Call f []] gs \<longrightarrow> calls_of M' f = gs)"
    using flatten_correct [OF nested_ok, of 0 "[''main'']"] by (elim exE conjE) (rule that)
  ultimately have "calls_of M' ''main'' = nested_gates" using nested_flat by simp
  then show ?thesis using M'(1) M'(2) [rule_format, OF nested_flat] by blast
qed

theorem inline_correct_witness:
  "\<exists>M'. InlineModule [''sub''] [''sub'', ''mid'', ''main''] nested = Some M' \<and>
     (\<forall>(g, vs) \<in> set (calls_of M' ''main''). g = ''sub'' \<longrightarrow> \<not> has_body M' g) \<and>
     (\<forall>gs'. flat M' [Call ''main'' []] gs' \<longleftrightarrow> gs' = nested_gates)"
proof -
  have main: "''main'' \<in> fst ` set nested" by (simp add: nested_def)
  obtain M' where M': "InlineModule [''sub''] [''sub'', ''mid'', ''main''] nested = Some M'"
    "\<forall>is gs. flat nested is gs \<longrightarrow> (\<forall>gs'. flat M' is gs' \<longleftrightarrow> gs' = gs)"
    "\<forall>f \<in> fst ` set nested. \<forall>(g, vs) \<in> set (calls_of M' f). g \<in> set [''sub''] \<longrightarrow> \<not> has_body M' g"
    using inline_correct [OF nested_ok, of "[''sub'']"] by (elim exE conjE) (rule that)
  have "\<forall>(g, vs) \<in> set (calls_of M' ''main''). g = ''sub'' \<longrightarrow> \<not> has_body M' g" using bspec [OF M'(3) main] by auto
  then show ?thesis using M'(1) M'(2) [rule_format, OF nested_flat] by blast
qed

end
