(* ===== verification/Rotation_Pass.thy ===== *)
theory Rotation_Pass
  imports Qir Lpfs_Parse "HOL-Library.Sublist"
begin

text \<open>
  The pass that decomposes rotations (\<open>llvm/lib/Transforms/Scaffold/Rotations.cpp\<close>): every Rz gate with a
  constant angle becomes a call of a function of the gates that an external program prints for the
  angle. The function is named after the angle, so that equal angles share it. Angles are real numbers, printed as
  the C++ streams print them. The code makes the new functions in an LLVM context of its own; the model takes
  the type i16 of that context for the one of the module.
\<close>

subsection \<open>Printed angles\<close>

text \<open>Rounding to the nearest integer, ties to even.\<close>

definition round_even :: "real \<Rightarrow> int" where
  "round_even x = (if x - of_int \<lfloor>x\<rfloor> < 1 / 2 \<or> x - of_int \<lfloor>x\<rfloor> = 1 / 2 \<and> even \<lfloor>x\<rfloor> then \<lfloor>x\<rfloor> else \<lfloor>x\<rfloor> + 1)"

definition sign_text :: "real \<Rightarrow> string" where
  "sign_text x = (if x < 0 then ''-'' else '''')"

definition pad :: "nat \<Rightarrow> nat \<Rightarrow> string" where
  "pad w n = replicate (w - length (show_nat n)) (CHR ''0'') @ show_nat n"

text \<open>\<open>std::fixed\<close>: six digits after the point.\<close>

definition fixed_text :: "real \<Rightarrow> string" where
  "fixed_text x =
     (let n = nat (round_even (\<bar>x\<bar> * 10 ^ 6))
      in sign_text x @ show_nat (n div 10 ^ 6) @ ''.'' @ pad 6 (n mod 10 ^ 6))"

text \<open>The decimal exponent and the first \<open>k + 1\<close> digits of a number that is not 0.\<close>

definition scientific :: "nat \<Rightarrow> real \<Rightarrow> nat \<times> int" where
  "scientific k x =
     (let e = \<lfloor>log 10 \<bar>x\<bar>\<rfloor>; n = nat (round_even (\<bar>x\<bar> * 10 powi (int k - e)))
      in if n = 10 ^ (k + 1) then (10 ^ k, e + 1) else (n, e))"

definition exponent_text :: "int \<Rightarrow> string" where
  "exponent_text e = ''e'' @ (if e < 0 then ''-'' else ''+'') @ pad 2 (nat \<bar>e\<bar>)"

text \<open>A \<open>raw_ostream\<close> prints in the form \<open>%e\<close>.\<close>

definition exp_text :: "real \<Rightarrow> string" where
  "exp_text x =
     (case scientific 6 x of (n, e) \<Rightarrow>
        sign_text x @ show_nat (n div 10 ^ 6) @ ''.'' @ pad 6 (n mod 10 ^ 6) @ exponent_text e)"

text \<open>An \<open>ostringstream\<close> prints in the form \<open>%g\<close>: six digits without zeros at the end.\<close>

definition trim_zeros :: "string \<Rightarrow> string" where
  "trim_zeros s = rev (dropWhile (\<lambda>c. c = CHR ''0'') (rev s))"

definition with_point :: "string \<Rightarrow> string \<Rightarrow> string" where
  "with_point s t = (if trim_zeros t = '''' then s else s @ ''.'' @ trim_zeros t)"

definition general_text :: "real \<Rightarrow> string" where
  "general_text x =
     (case scientific 5 x of (n, e) \<Rightarrow>
        let ds = pad 6 n
        in sign_text x @
           (if e < -4 \<or> 6 \<le> e then with_point (take 1 ds) (drop 1 ds) @ exponent_text e
            else if e < 0 then with_point ''0'' (replicate (nat (- e) - 1) (CHR ''0'') @ ds)
            else with_point (take (nat e + 1) ds) (drop (nat e + 1) ds)))"

subsection \<open>The decomposer\<close>

text \<open>The environment: the variables ROTATIONPATH and PRECISION, the output of a command (None where no pipe
  is opened), and the option \<open>sqct-levels\<close>.\<close>

record decomposer =
  ROTATIONPATH :: "string option"
  PRECISION :: "string option"
  popen :: "string \<Rightarrow> string option"
  SqctLevels :: nat

definition exec :: "decomposer \<Rightarrow> string \<Rightarrow> string" where
  "exec D cmd = (case popen D cmd of None \<Rightarrow> ''ERROR'' | Some result \<Rightarrow> result)"

text \<open>The command for an angle; None where there is none, or where a variable that is not set would be
  printed.\<close>

definition command :: "decomposer \<Rightarrow> real \<Rightarrow> string option" where
  "command D Angle =
     (case ROTATIONPATH D of
        None \<Rightarrow> None
      | Some path \<Rightarrow>
          if sublist ''gridsynth'' path
          then map_option (\<lambda>prec. path @ '' \"('' @ fixed_text Angle @ '')\"'' @ '' -d '' @ prec) (PRECISION D)
          else if sublist ''sqct'' path
          then Some (path @ '' '' @ general_text Angle @ '' Z '' @ show_nat (SqctLevels D))
          else None)"

fun gate_of_char :: "char \<Rightarrow> string option" where
  "gate_of_char c =
     (if c = CHR ''T'' then Some ''T'' else if c = CHR ''t'' then Some ''Tdag'' else if c = CHR ''S'' then Some ''S''
      else if c = CHR ''s'' then Some ''Sdag'' else if c = CHR ''H'' then Some ''H'' else if c = CHR ''X'' then Some ''X''
      else if c = CHR ''Y'' then Some ''Y'' else if c = CHR ''Z'' then Some ''Z'' else None)"

declare gate_of_char.simps [simp del]

text \<open>The gates of an output: it ends with a line break, and its last gate comes first.\<close>

definition circuit_gates :: "string \<Rightarrow> string list" where
  "circuit_gates circuit = List.map_filter gate_of_char (rev (butlast circuit))"

subsection \<open>The pass\<close>

definition sanitize :: "string \<Rightarrow> string" where
  "sanitize s =
     concat (map (\<lambda>c. if c = CHR ''-'' then ''n'' else if c = CHR ''+'' then '''' else if c = CHR ''.'' then ''_''
       else if c = CHR ''\"'' then '''' else [c]) s)"

definition FuncName :: "real \<Rightarrow> string" where
  "FuncName Angle = sanitize (''DecomposeRotation_'' @ exp_text Angle)"

definition rotation_impl :: "string list \<Rightarrow> func" where
  "rotation_impl gs = \<lparr>params = [Qbit 0], blocks = [map (\<lambda>g. gate_call g [Qbit 0]) gs]\<rparr>"

definition is_Rz :: "string \<Rightarrow> bool" where
  "is_Rz f = (isIntrinsic f \<and> base_name f = ''Rz'')"

text \<open>One instruction: None where the new function is left without an end, and where the qubit does not have
  the type of its parameter.\<close>

fun visitCallInst :: "decomposer \<Rightarrow> qmodule \<Rightarrow> inst \<Rightarrow> (qmodule \<times> inst list) option" where
  "visitCallInst D M (Call f vs) =
     (if \<not> is_Rz f then Some (M, [Call f vs])
      else case vs of
        [Target, Double_const Angle] \<Rightarrow>
          if Angle = 0 then Some (M, [])
          else
            (case (case map_of M (FuncName Angle) of
                     Some DR \<Rightarrow> Some M
                   | None \<Rightarrow> map_option (\<lambda>cmd. M @ [(FuncName Angle, rotation_impl (circuit_gates (exec D cmd)))]) (command D Angle)) of
               None \<Rightarrow> None
             | Some M' \<Rightarrow> if val_type Target = ''i16'' then Some (M', [Call (FuncName Angle) [Target]]) else None)
      | _ \<Rightarrow> Some (M, [Call f vs]))"
| "visitCallInst D M i = Some (M, [i])"

fun visit_rotations :: "decomposer \<Rightarrow> qmodule \<Rightarrow> inst list \<Rightarrow> (qmodule \<times> inst list) option" where
  "visit_rotations D M [] = Some (M, [])"
| "visit_rotations D M (i # is) =
     (case visitCallInst D M i of
        None \<Rightarrow> None
      | Some (M1, js) \<Rightarrow> map_option (\<lambda>(M2, js'). (M2, js @ js')) (visit_rotations D M1 is))"

fun visit_rot_blocks :: "decomposer \<Rightarrow> qmodule \<Rightarrow> inst list list \<Rightarrow> (qmodule \<times> inst list list) option" where
  "visit_rot_blocks D M [] = Some (M, [])"
| "visit_rot_blocks D M (b # bs) =
     (case visit_rotations D M b of
        None \<Rightarrow> None
      | Some (M1, b') \<Rightarrow> map_option (\<lambda>(M2, bs'). (M2, b' # bs')) (visit_rot_blocks D M1 bs))"

definition visit_rot_function :: "decomposer \<Rightarrow> qmodule \<Rightarrow> string \<Rightarrow> qmodule option" where
  "visit_rot_function D M name =
     (case map_of M name of
        None \<Rightarrow> Some M
      | Some fn \<Rightarrow> map_option (\<lambda>(M', bs). AList.update name (fn\<lparr>blocks := bs\<rparr>) M') (visit_rot_blocks D M (blocks fn)))"

fun visit_functions :: "decomposer \<Rightarrow> string list \<Rightarrow> qmodule \<Rightarrow> qmodule option" where
  "visit_functions D [] M = Some M"
| "visit_functions D (n # ns) M = Option.bind (visit_rot_function D M n) (visit_functions D ns)"

text \<open>All functions of the module; the functions that are created have no rotation to visit.\<close>

definition Rotations :: "decomposer \<Rightarrow> qmodule \<Rightarrow> qmodule option" where
  "Rotations D M = visit_functions D (map fst M) M"

end
