(* ===== verification/Rotation_Props.thy ===== *)
theory Rotation_Props
  imports Rotation_Pass Toffoli_Pass
begin

text \<open>
  What \<open>Rotations\<close> makes of a module: every rotation by a constant angle is replaced, and every new function
  has the gates that the decomposer prints for an angle of the same name. The names agree for angles with
  the same sign and the same seven digits.
\<close>

subsection \<open>Names\<close>

lemma sanitize_append [simp]: "sanitize (s @ t) = sanitize s @ sanitize t"
  by (simp add: sanitize_def)

lemma FuncName_prefix: "FuncName Angle = ''DecomposeRotation_'' @ sanitize (exp_text Angle)"
  by (simp add: FuncName_def) (simp add: sanitize_def)

definition rotation_name :: "string \<Rightarrow> bool" where
  "rotation_name n = (take 18 n = ''DecomposeRotation_'')"

lemma rotation_name_FuncName [simp]: "rotation_name (FuncName x)"
  by (simp add: rotation_name_def FuncName_prefix)

lemma FuncName_not_intrinsic [simp]: "\<not> isIntrinsic (FuncName x)"
  by (simp add: isIntrinsic_def FuncName_prefix)

subsection \<open>The gates of an angle\<close>

definition decomposed :: "decomposer \<Rightarrow> real \<Rightarrow> string list" where
  "decomposed D x = circuit_gates (exec D (the (command D x)))"

lemma command_defined: "command D x \<noteq> None \<longleftrightarrow> command D y \<noteq> None"
  by (auto simp: command_def split: option.splits)

text \<open>The rotations by a constant angle other than 0 among some instructions.\<close>

definition rotations :: "inst list \<Rightarrow> (val \<times> real) set" where
  "rotations is = {(q, x). \<exists>f. Call f [q, Double_const x] \<in> set is \<and> is_Rz f \<and> x \<noteq> 0}"

lemma rotations_simps [simp]: "rotations [] = {}" "rotations (is @ js) = rotations is \<union> rotations js"
  by (auto simp: rotations_def)

lemma rotations_Cons: "rotations (i # is) = rotations [i] \<union> rotations is"
  by (auto simp: rotations_def)

definition rot_repl :: "inst \<Rightarrow> inst list" where
  "rot_repl i =
     (case i of
        Call f [q, Double_const x] \<Rightarrow> if is_Rz f then (if x = 0 then [] else [Call (FuncName x) [q]]) else [i]
      | _ \<Rightarrow> [i])"

text \<open>The new functions of a module, for angles from a set.\<close>

definition rot_impls :: "decomposer \<Rightarrow> real set \<Rightarrow> qmodule \<Rightarrow> bool" where
  "rot_impls D A M \<longleftrightarrow> (\<forall>n fn. map_of M n = Some fn \<longrightarrow> rotation_name n \<longrightarrow>
     (\<exists>x \<in> A. x \<noteq> 0 \<and> n = FuncName x \<and> command D x \<noteq> None \<and> fn = rotation_impl (decomposed D x)))"

definition rot_has :: "qmodule \<Rightarrow> inst list \<Rightarrow> bool" where
  "rot_has M is \<longleftrightarrow> (\<forall>(q, x) \<in> rotations is. map_of M (FuncName x) \<noteq> None \<and> val_type q = ''i16'')"

definition decomposable :: "decomposer \<Rightarrow> inst list \<Rightarrow> bool" where
  "decomposable D is \<longleftrightarrow> (\<forall>(q, x) \<in> rotations is. command D x \<noteq> None \<and> val_type q = ''i16'')"

lemma rot_has_extends: "rot_has M is \<Longrightarrow> extends M M' \<Longrightarrow> rot_has M' is"
  by (force simp: rot_has_def extends_def)

lemma rot_has_append: "rot_has M (is @ js) \<longleftrightarrow> rot_has M is \<and> rot_has M js"
  by (simp only: rot_has_def rotations_simps ball_Un)

lemma decomposable_append: "decomposable D (is @ js) \<longleftrightarrow> decomposable D is \<and> decomposable D js"
  by (simp only: decomposable_def rotations_simps ball_Un)

subsection \<open>One instruction\<close>

text \<open>Either the instruction stays, or it is a rotation by 0 or by another constant.\<close>

lemma visit_cases:
  obtains (stays) "\<And>D M. visitCallInst D M i = Some (M, [i])" "rot_repl i = [i]" "rotations [i] = {}"
  | (zero) f q where "i = Call f [q, Double_const 0]" "is_Rz f" "\<And>D M. visitCallInst D M i = Some (M, [])" "rot_repl i = []" "rotations [i] = {}"
  | (rotation) f q x where "i = Call f [q, Double_const x]" "is_Rz f" "x \<noteq> 0" "rot_repl i = [Call (FuncName x) [q]]" "rotations [i] = {(q, x)}"
proof (cases "\<exists>f q x. i = Call f [q, Double_const x] \<and> is_Rz f")
  case True
  then obtain f q x where i: "i = Call f [q, Double_const x]" "is_Rz f" by blast
  show ?thesis
  proof (cases "x = 0")
    case True
    then show ?thesis using i zero [of f q] by (simp add: rot_repl_def rotations_def)
  next
    case False
    then show ?thesis using i rotation [of f q x] by (auto simp: rot_repl_def rotations_def)
  qed
next
  case False
  have v: "visitCallInst D M i = Some (M, [i])" for D M
    using False by (cases i) (auto split: list.splits val.splits)
  moreover have "rot_repl i = [i]" using False by (auto simp: rot_repl_def split: inst.splits list.splits val.splits)
  moreover have "rotations [i] = {}" using False by (auto simp: rotations_def)
  ultimately show ?thesis using stays by blast
qed

lemma visit_rotation:
  assumes "is_Rz f" "x \<noteq> 0"
  shows "visitCallInst D M (Call f [q, Double_const x]) =
    (case (case map_of M (FuncName x) of Some DR \<Rightarrow> Some M
        | None \<Rightarrow> map_option (\<lambda>cmd. M @ [(FuncName x, rotation_impl (circuit_gates (exec D cmd)))]) (command D x)) of
       None \<Rightarrow> None | Some M' \<Rightarrow> if val_type q = ''i16'' then Some (M', [Call (FuncName x) [q]]) else None)"
  using assms by simp

lemma visit_fails_iff:
  assumes "rot_impls D A M"
  shows "visitCallInst D M i = None \<longleftrightarrow> \<not> decomposable D [i]"
proof (cases i rule: visit_cases)
  case (rotation f q x)
  have "command D x \<noteq> None" if "map_of M (FuncName x) = Some fn" for fn
    using assms that command_defined [of D x] unfolding rot_impls_def by (metis rotation_name_FuncName)
  then show ?thesis unfolding rotation(1) visit_rotation [OF rotation(2,3)] decomposable_def
    using rotation(1,5) by (auto split: option.splits)
qed (simp_all add: decomposable_def)

lemma visit_ok:
  assumes "rot_impls D A M" "snd ` rotations [i] \<subseteq> A" "visitCallInst D M i = Some (M', js)"
  shows "js = rot_repl i \<and> rot_impls D A M' \<and> extends M M' \<and> rot_has M' [i]"
proof (cases i rule: visit_cases)
  case stays
  then show ?thesis using assms by (simp add: extends_refl rot_has_def)
next
  case (zero f q)
  then show ?thesis using assms by (simp add: extends_refl rot_has_def)
next
  case (rotation f q x)
  note v = assms(3) [unfolded rotation(1) visit_rotation [OF rotation(2,3)]]
  show ?thesis
  proof (cases "map_of M (FuncName x)")
    case None
    then obtain cmd where cmd: "command D x = Some cmd" using v by (cases "command D x") simp_all
    then have M': "M' = M @ [(FuncName x, rotation_impl (decomposed D x))]" "js = [Call (FuncName x) [q]]" "val_type q = ''i16''"
      using v None by (simp_all add: decomposed_def split: if_splits)
    have "rot_impls D A M'"
      unfolding rot_impls_def
    proof (intro allI impI)
      fix n fn assume n: "map_of M' n = Some fn" "rotation_name n"
      show "\<exists>x \<in> A. x \<noteq> 0 \<and> n = FuncName x \<and> command D x \<noteq> None \<and> fn = rotation_impl (decomposed D x)"
      proof (cases "map_of M n")
        case None
        then have "n = FuncName x" "fn = rotation_impl (decomposed D x)" using n M'(1) by (simp_all add: map_add_def split: if_splits)
        then show ?thesis using rotation(3,5) cmd assms(2) by (intro bexI [of _ x]) simp_all
      next
        case (Some fn')
        then have "map_of M n = Some fn" using n M'(1) by (simp add: map_add_def)
        then show ?thesis using assms(1) n(2) unfolding rot_impls_def by blast
      qed
    qed
    moreover have "extends M M'" by (auto simp: extends_def M'(1) map_add_def)
    moreover have "rot_has M' [i]" using None M' rotation(5) by (simp add: rot_has_def map_add_def)
    ultimately show ?thesis using M'(2) rotation(4) by simp
  next
    case (Some DR)
    then have "M' = M" "js = [Call (FuncName x) [q]]" "val_type q = ''i16''" using v by (simp_all split: if_splits)
    then show ?thesis using assms(1) Some rotation(4,5) by (simp add: extends_refl rot_has_def)
  qed
qed

subsection \<open>Lists, blocks and functions\<close>

lemma visit_insts_rot:
  "rot_impls D A M \<Longrightarrow> snd ` rotations is \<subseteq> A \<Longrightarrow>
   (visit_rotations D M is = None \<longleftrightarrow> \<not> decomposable D is) \<and>
   (\<forall>M' js. visit_rotations D M is = Some (M', js) \<longrightarrow>
      js = concat (map rot_repl is) \<and> rot_impls D A M' \<and> extends M M' \<and> rot_has M' is)"
proof (induction "is" arbitrary: M)
  case Nil
  then show ?case by (simp add: extends_refl rot_has_def decomposable_def)
next
  case (Cons i "is")
  have A: "snd ` rotations [i] \<subseteq> A" "snd ` rotations is \<subseteq> A" using Cons.prems(2) rotations_Cons [of i "is"] by auto
  have d: "decomposable D (i # is) \<longleftrightarrow> decomposable D [i] \<and> decomposable D is" using decomposable_append [of D "[i]" "is"] by simp
  show ?case
  proof (cases "visitCallInst D M i")
    case None
    then show ?thesis using visit_fails_iff [OF Cons.prems(1), of i] d by simp
  next
    case (Some r)
    obtain M1 js1 where r: "visitCallInst D M i = Some (M1, js1)" using Some by (cases r) simp
    have di: "decomposable D [i]" using visit_fails_iff [OF Cons.prems(1), of i] r by simp
    from visit_ok [OF Cons.prems(1) A(1) r]
    have 1: "js1 = rot_repl i" "rot_impls D A M1" "extends M M1" "rot_has M1 [i]" by simp_all
    note ih = Cons.IH [OF 1(2) A(2)]
    have "rot_has M' (i # is)" "extends M M'" if "extends M1 M'" "rot_has M' is" for M'
      using rot_has_append [of M' "[i]" "is"] rot_has_extends [OF 1(4)] that extends_trans [OF 1(3)] by simp_all
    then show ?thesis using ih di d r 1(1) by (auto simp: map_option_case split: option.splits)
  qed
qed

lemma visit_blocks_rot:
  "rot_impls D A M \<Longrightarrow> snd ` rotations (concat bs) \<subseteq> A \<Longrightarrow>
   (visit_rot_blocks D M bs = None \<longleftrightarrow> \<not> decomposable D (concat bs)) \<and>
   (\<forall>M' bs'. visit_rot_blocks D M bs = Some (M', bs') \<longrightarrow>
      bs' = map (\<lambda>b. concat (map rot_repl b)) bs \<and> rot_impls D A M' \<and> extends M M' \<and> rot_has M' (concat bs))"
proof (induction bs arbitrary: M)
  case Nil
  then show ?case by (simp add: extends_refl rot_has_def decomposable_def)
next
  case (Cons b bs)
  have A: "snd ` rotations b \<subseteq> A" "snd ` rotations (concat bs) \<subseteq> A" using Cons.prems(2) by auto
  note vb = visit_insts_rot [OF Cons.prems(1) A(1)]
  show ?case
  proof (cases "visit_rotations D M b")
    case None
    then show ?thesis using vb by (simp add: decomposable_append)
  next
    case (Some r)
    obtain M1 b1 where r: "visit_rotations D M b = Some (M1, b1)" using Some by (cases r) simp
    then have 1: "b1 = concat (map rot_repl b)" "rot_impls D A M1" "extends M M1" "rot_has M1 b" "decomposable D b" using vb by simp_all
    note ih = Cons.IH [OF 1(2) A(2)]
    have "rot_has M' (b @ concat bs)" "extends M M'" if "extends M1 M'" "rot_has M' (concat bs)" for M'
      using rot_has_append [of M' b "concat bs"] rot_has_extends [OF 1(4)] that extends_trans [OF 1(3)] by simp_all
    then show ?thesis using ih r 1(1,5) by (auto simp: map_option_case decomposable_append split: option.splits)
  qed
qed

text \<open>The module in the middle of the pass.\<close>

definition rot_func :: "func \<Rightarrow> func" where
  "rot_func fn = fn\<lparr>blocks := map (\<lambda>b. concat (map rot_repl b)) (blocks fn)\<rparr>"

definition insts_of :: "qmodule \<Rightarrow> inst list" where
  "insts_of M = concat (map (\<lambda>(n, fn). concat (blocks fn)) M)"

definition angles :: "qmodule \<Rightarrow> real set" where
  "angles M = snd ` rotations (insts_of M)"

definition rot_input :: "qmodule \<Rightarrow> bool" where
  "rot_input M \<longleftrightarrow> distinct (map fst M) \<and> (\<forall>(n, fn) \<in> set M. \<not> rotation_name n \<and> list_all is_qubit (params fn))"

lemma rotations_of_function: "map_of M n = Some fn \<Longrightarrow> rotations (concat (blocks fn)) \<subseteq> rotations (insts_of M)"
  by (drule map_of_SomeD) (force simp: insts_of_def rotations_def)

definition rot_halfway :: "decomposer \<Rightarrow> qmodule \<Rightarrow> string set \<Rightarrow> qmodule \<Rightarrow> bool" where
  "rot_halfway D M dn Mc \<longleftrightarrow> rot_impls D (angles M) Mc \<and>
     (\<forall>n fn. map_of M n = Some fn \<longrightarrow> map_of Mc n = Some (if n \<in> dn then rot_func fn else fn)) \<and>
     (\<forall>n fn. map_of M n = Some fn \<longrightarrow> n \<in> dn \<longrightarrow> rot_has Mc (concat (blocks fn)))"

lemma visit_function_rot:
  assumes M: "rot_input M" and h: "rot_halfway D M dn Mc" and n: "map_of M n = Some fn" "n \<notin> dn"
  shows "(visit_rot_function D Mc n = None \<longleftrightarrow> \<not> decomposable D (concat (blocks fn))) \<and>
    (\<forall>M'. visit_rot_function D Mc n = Some M' \<longrightarrow> rot_halfway D M (insert n dn) M')"
proof -
  have c: "map_of Mc n = Some fn" using h n by (simp add: rot_halfway_def)
  have ok: "rot_impls D (angles M) Mc" using h by (simp add: rot_halfway_def)
  have A: "snd ` rotations (concat (blocks fn)) \<subseteq> angles M" using rotations_of_function [OF n(1)] by (auto simp: angles_def)
  note v = visit_blocks_rot [OF ok A]
  have nn: "\<not> rotation_name n" using M map_of_SomeD [OF n(1)] by (auto simp: rot_input_def)
  have "rot_halfway D M (insert n dn) M'" if M': "visit_rot_function D Mc n = Some M'" for M'
  proof -
    obtain M1 bs where r: "visit_rot_blocks D Mc (blocks fn) = Some (M1, bs)" "M' = AList.update n (fn\<lparr>blocks := bs\<rparr>) M1"
      using M' c by (cases "visit_rot_blocks D Mc (blocks fn)") (auto simp: visit_rot_function_def)
    have b: "bs = map (\<lambda>b. concat (map rot_repl b)) (blocks fn) \<and> rot_impls D (angles M) M1 \<and> extends Mc M1 \<and> rot_has M1 (concat (blocks fn))"
      using v r(1) by blast
    have 1: "M' = AList.update n (rot_func fn) M1" using r(2) b by (simp add: rot_func_def)
    have 2: "rot_impls D (angles M) M1" "extends Mc M1" "rot_has M1 (concat (blocks fn))" using b by simp_all
    have m: "map_of M' = (map_of M1)(n \<mapsto> rot_func fn)" by (simp add: 1 AList.update_conv')
    have keep: "rot_has M' is" if "rot_has M1 is" for "is" using that unfolding rot_has_def m by auto
    have "rot_impls D (angles M) M'" using 2(1) nn unfolding rot_impls_def m by auto
    moreover have "map_of M' k = Some (if k \<in> insert n dn then rot_func f else f)" if "map_of M k = Some f" for k f
      using h 2(2) that n(1) by (auto simp: m rot_halfway_def extends_def)
    moreover have "rot_has M' (concat (blocks f))" if k: "map_of M k = Some f" "k \<in> insert n dn" for k f
    proof (cases "k = n")
      case True
      then show ?thesis using keep [OF 2(3)] k(1) n(1) by simp
    next
      case False
      then have "rot_has Mc (concat (blocks f))" using h k by (simp add: rot_halfway_def)
      then show ?thesis using keep rot_has_extends 2(2) by blast
    qed
    ultimately show ?thesis unfolding rot_halfway_def by blast
  qed
  moreover have "visit_rot_function D Mc n = None \<longleftrightarrow> \<not> decomposable D (concat (blocks fn))"
    using v c by (auto simp: visit_rot_function_def)
  ultimately show ?thesis by blast
qed

lemma visit_functions_rot:
  assumes "rot_input M"
  shows "rot_halfway D M dn Mc \<Longrightarrow> set ns \<subseteq> fst ` set M \<Longrightarrow> distinct ns \<Longrightarrow> dn \<inter> set ns = {} \<Longrightarrow>
    (visit_functions D ns Mc = None \<longleftrightarrow> \<not> (\<forall>n \<in> set ns. decomposable D (concat (blocks (the (map_of M n)))))) \<and>
    (\<forall>M'. visit_functions D ns Mc = Some M' \<longrightarrow> rot_halfway D M (dn \<union> set ns) M')"
proof (induction ns arbitrary: dn Mc)
  case (Cons n ns)
  obtain fn where fn: "map_of M n = Some fn" using Cons.prems(2) by (metis list.set_intros(1) map_of_eq_None_iff not_None_eq subsetD)
  have "n \<notin> dn" using Cons.prems(4) by auto
  note v = visit_function_rot [OF assms Cons.prems(1) fn this]
  show ?case
  proof (cases "visit_rot_function D Mc n")
    case None
    then show ?thesis using v fn by simp
  next
    case (Some M1)
    then have "rot_halfway D M (insert n dn) M1" "decomposable D (concat (blocks fn))" using v by simp_all
    moreover have "visit_functions D (n # ns) Mc = visit_functions D ns M1" using Some by simp
    ultimately show ?thesis using Cons.IH [of "insert n dn" M1] Cons.prems fn by simp
  qed
qed simp

lemma decomposable_module:
  assumes "distinct (map fst M)"
  shows "decomposable D (insts_of M) \<longleftrightarrow> (\<forall>n \<in> fst ` set M. decomposable D (concat (blocks (the (map_of M n)))))"
proof -
  have "map_of M n = Some fn" if "(n, fn) \<in> set M" for n fn using assms that by simp
  moreover have "rotations (insts_of M) = (\<Union>(n, fn) \<in> set M. rotations (concat (blocks fn)))"
    by (force simp: insts_of_def rotations_def)
  ultimately show ?thesis unfolding decomposable_def by fastforce
qed

lemma Rotations_ok:
  assumes "rot_input M"
  shows "(Rotations D M = None \<longleftrightarrow> \<not> decomposable D (insts_of M)) \<and>
    (\<forall>M'. Rotations D M = Some M' \<longrightarrow> rot_halfway D M (fst ` set M) M')"
proof -
  have d: "distinct (map fst M)" using assms by (simp add: rot_input_def)
  have "map_of M n = Some fn \<Longrightarrow> \<not> rotation_name n" for n fn
    using assms map_of_SomeD [of M n fn] by (auto simp: rot_input_def)
  then have "rot_halfway D M {} M" by (auto simp: rot_halfway_def rot_impls_def)
  from visit_functions_rot [OF assms this _ d] decomposable_module [OF d, of D]
  show ?thesis unfolding Rotations_def by simp
qed

end
