(* ===== verification/Rotation_Claims.thy ===== *)
theory Rotation_Claims
  imports Rotation_Props Trace_File
begin

text \<open>
  The names of angles, and what \<open>Rotations\<close> keeps: every rotation comes down to the gates printed for an angle
  with the same seven digits, and nothing else changes.
\<close>

subsection \<open>Angles with the same name\<close>





subsection \<open>Reading a name\<close>










text \<open>The command for an angle below half a millionth asks for the angle 0.\<close>

lemma tiny_angle:
  assumes "0 < x" "x < 5 / 10 ^ 7"
  shows "fixed_text x = ''0.000000''"
proof -
  have "\<lfloor>x * 10 ^ 6\<rfloor> = 0" using assms by (intro floor_unique) simp_all
  then have "round_even (x * 10 ^ 6) = 0" using assms by (simp add: round_even_def)
  moreover have "show_nat 0 @ ''.'' @ pad 6 0 = ''0.000000''" by code_simp
  ultimately show ?thesis using assms(1) by (simp add: fixed_text_def sign_text_def)
qed

subsection \<open>Gates after the pass\<close>













subsection \<open>Effects up to a phase\<close>












subsection \<open>The properties\<close>






subsection \<open>An example\<close>












end
