(* ===== verification/Spec2Isabelle.thy ===== *)
theory Spec2Isabelle
  imports Rot_Library Surface_Timing Trace_File Factory_Sizing Circuit_Opt_Props Lpfs_Moves_Claims Toffoli_Pass Reverse_Props Count_Props Freq_Runtime Crit_Slack Simd_Claims Leaf_Schedules Inline_Claims Rotation_Claims
begin

text \<open>
  A model of the parts of ScaffCC that carry its own logic, and what is proved about them.

  The program. ScaffCC compiles quantum programs. Passes over LLVM code
  (\<open>llvm/lib/Transforms/Scaffold\<close>) flatten a program, optimise its gates and schedule them; a library
  of decomposed rotations (\<open>scripts/gen_rotations\<close>) supplies gate strings for rotation angles; and a
  simulator (\<open>braidflash/braidflash.cpp\<close>) reads the schedule of the compiler, lays the qubits out on
  a surface code mesh, and simulates the braids of all gates clock by clock. The parts meet in
  text: the scheduler prints a schedule, the simulator parses it; the simulator writes a trace, a
  layout optimiser rewrites it, the simulator reads it back.

  Shared theories. \<open>Prelude\<close> has the machine types, bit masks and lemmas on words and lists.
  Interfaces are locales, interpreted on the model in the theory of the provider:
  \<open>bit_store\<close> (a buffer that the codec writes and reads, provided by \<open>Char_Bits\<close>), \<open>prefix_code\<close>
  (the two code tables of the codec), \<open>exclusive_cells\<close> (events that take and free cells of the
  mesh, provided by \<open>do_event\<close>), \<open>corner_move\<close> (the moves between the corners of a tile),
  \<open>placement\<close> (the searches of the SIMD scheduler), \<open>level_graph\<close> and \<open>gate_sequence\<close> (what the passes over the dependency graph need, provided by the
  graph of a parsed module).

  Rotation library (\<open>RotLib.cpp\<close>, \<open>charbits.cpp\<close>). \<open>Char_Bits\<close> is the bit buffer, with
  bytes as 8-bit words; \<open>Rot_Codec\<close> is \<open>encode\<close> and \<open>decode\<close> with their Huffman tables;
  \<open>Rot_Library\<close> is \<open>generate\<close>, \<open>save\<close>, \<open>load\<close> and \<open>seq_combine\<close>. Proved: decoding gives back what was
  encoded, the size returned is exact, encoding fails exactly outside the alphabet, a saved
  library loads as it was, and combining appends. The synthesiser is a parameter.

  Mesh (\<open>braidflash.cpp\<close>). \<open>Mesh_Geometry\<close> has corners and distances of tiles, \<open>Mesh_Routes\<close> the
  mesh, its links and the routes of CNOT braids: routes exist, stay on the mesh and are shortest.
  \<open>Braid_Events\<close> has gates, events, \<open>do_event\<close>, rerouting and purging: an event is done wholly
  or not at all and never touches the cells of another gate.

  Dependency graph. \<open>Gate_Dag\<close> is the graph and the passes over it, \<open>Dag_Passes\<close> their proofs: the
  edges are those of next use on a qubit, and the level loops compute longest chains; they end
  because levels of an acyclic graph run out.

  Simulation. \<open>Braid_Sim\<close> is \<open>increment_clock\<close> and the loop of \<open>main\<close> over the ready events,
  \<open>Braid_Scripts\<close> what a gate may own between its events, \<open>Sim_Safety\<close> the invariant of the loop,
  \<open>Sim_Runs\<close> runs from the start of a module: no assertion fails, busy cells belong to gates
  in flight, and a simulation that returns has completed every gate in order. The
  loop may run for ever and is a \<open>partial_function\<close>; \<open>Surface_Timing\<close> has the code distance and the
  timers, and shows that with the distance the code really computes a module with a CNOT does not return.

  Input and layout. \<open>Lpfs_Parse\<close> has the parsers and the trace file, \<open>Lpfs_Props\<close> and \<open>Trace_File\<close>
  their meaning and the round trip; \<open>Module_Setup\<close> has the mesh size, factories, data tiles and the
  replacement of S and T gates, \<open>Setup_Props\<close> that prepared modules are what the simulation
  needs; \<open>Factory_Sizing\<close> has distillation, footprints, costs and totals.

  Circuit optimiser (\<open>Optimize.cpp\<close>). \<open>Circuit_Opt\<close> goes from calls to gates, through the peephole
  pass to the printed circuit. \<open>Circuit_Sem\<close> gives gates a meaning on state vectors: gates that
  \<open>ifCommute\<close> accepts commute. \<open>Circuit_Opt_Props\<close>: on circuits without opposite CNOT gates
  and with no CNOT in front the optimiser ends and keeps the meaning; outside these it can give a
  wrong circuit, not end, or read outside its vector.

  Longest-path-first scheduler (\<open>GenLPFSSchedule.cpp\<close>). \<open>Lpfs_Schedule\<close> has priorities, dependencies,
  longest paths and placement; \<open>Lpfs_Sched_Props\<close> the invariant of a schedule (\<open>good\<close>: lists and
  slots agree, calls follow their parents, no idle time step, region 1 is used first, one type of
  operation per region); \<open>Lpfs_Sched_Claims\<close> that the scheduler returns, places and prints every call
  once, in order. \<open>Lpfs_Moves\<close> has the moves of qubits and the printed schedule with its metrics,
  \<open>Lpfs_Moves_Props\<close> and \<open>Lpfs_Moves_Claims\<close> that the moves, replayed, bring each operand to the
  region of its operation.

  \<open>Schedule_Trip\<close> joins scheduler and simulator: the printed file of any number of functions, parsed, gives
  for each function the operations of all its calls in the order of the schedule. \<open>Operand_Trace\<close> reads
  functions of LLVM: their qubits, and the array behind each operand of a call. \<open>Operand_Props\<close> has what
  the walk finds (\<open>behind\<close>) and when it ends, \<open>Operand_Claims\<close> its limit and what is read wrongly.
  \<open>Leaf_Schedules\<close> is the whole pass, from LLVM functions whose operands are all found (\<open>well_read\<close>) to the
  gates of the simulator.

  Passes that rewrite calls. \<open>Qir\<close> has the modules they work on (functions of allocations and calls),
  the gates that a call comes down to (\<open>flat\<close>) and their effect on state vectors. \<open>Toffoli_Pass\<close>
  (\<open>Toffoli.cpp\<close>) replaces Toffoli gates by sixteen gates and keeps what every function does;
  \<open>Reverse_Pass\<close> (\<open>Reverse.cpp\<close>) makes reversed functions, \<open>Reverse_Props\<close> shows that they undo the
  functions they are made from, except for rotations. \<open>Count_Passes\<close> has the counts of gates, qubits and
  ancillas of \<open>ResourceCount.cpp\<close>, \<open>ResourceCount2.cpp\<close> and \<open>GateCount.cpp\<close>; \<open>Count_Props\<close> shows that the
  first counts the program with all calls expanded (\<open>expands\<close>, \<open>counted\<close>). \<open>Inline_Passes\<close> has the marking
  of calls by \<open>FlattenModule.cpp\<close> and \<open>InlineModule.cpp\<close> and the inlining of a call of a function with one
  block; \<open>Inline_Props\<close> shows, in the locale \<open>inlining\<close>, that inlining the marked calls from the leaves up
  keeps the gates of every call; \<open>Inline_Claims\<close> has the two passes as interpretations. \<open>Rotation_Pass\<close>
  (\<open>Rotations.cpp\<close>) replaces rotations by the gates that an external program, a parameter, prints for the
  angle; \<open>Rotation_Props\<close> follows the module through the pass, \<open>Rotation_Claims\<close> has the names of
  angles, the gates after the pass and their effect up to a phase, and the failures.

  Critical path. \<open>Crit_Path\<close> is \<open>GetCriticalPath.cpp\<close>: gates as soon as possible, calls by the slack of
  their operands, leaf functions half as late as possible. \<open>Crit_Props\<close> has the time steps of the gates of a
  leaf function and its longest chains, \<open>Crit_Slack\<close> the invariant of the late schedule (\<open>alap_inv\<close>), and a
  program whose reported length is too short.

  SIMD scheduler (\<open>GenSIMDSchedule.cpp\<close>). \<open>Simd_Sched\<close> has the priorities, the search for a region in a
  leaf function, the boxes of the other functions and the printed schedule. \<open>Simd_Order\<close> shows that calls are
  visited in an order that keeps the program order of each operand, \<open>Simd_Run\<close> the run for both kinds of
  functions in the locale \<open>placement\<close>, \<open>Simd_Regions\<close> its two interpretations and the invariants of regions
  and boxes, \<open>Simd_Claims\<close> that dependencies are kept and regions and boxes fit, and what is missed.

  Frequencies. \<open>Freq_Runtime\<close> is the library linked to an instrumented program
  (\<open>scripts/frequency-estimation-hybrid.c\<close>): a call stack of repetitions and a table of modules; a run
  is a tree of calls with the two calls that \<open>RuntimeFrequencyEstimationHybrid.cpp\<close> puts around each.

  Conventions. Reads outside a vector, failed assertions and missing map entries are the result None (or a
  constructor of an outcome). Loops that may run for ever are \<open>partial_function (option)\<close>, and
  that they return is part of the theorems; other loops end by a measure. There are two kinds of
  fuel: the depth of functions that are reversed inside each other, where any bound above the depth is
  enough, and the depth of the stack in the walk back over operands, where theorems give a bound or
  say that every larger stack gives the same result. Integers
  are words where the code depends on their width (bit buffer, code distance, mesh sizes), else natural
  numbers or integers. Maps over pointers that are only iterated are given in the order the theorem
  needs as a parameter; \<open>std::sort\<close>, random numbers, comparisons of doubles and the text of a
  double are parameters.

  Not modelled. The same walk over LLVM values in the other passes (\<open>GetCriticalPath.cpp\<close>,
  \<open>GenSIMDSchedule.cpp\<close>, \<open>Optimize.cpp\<close>), which start from calls with their operands, the other passes of
  \<open>llvm/lib/Transforms/Scaffold\<close>, command lines, files and reports, and the vendored Clang, LLVM and
  RKQC. Next: the coarse-grained SIMD scheduler.
\<close>

end
